(* ===== verification/Prelude.thy ===== *)
theory Prelude
  imports Main "HOL-Library.Word" "HOL-Library.Monad_Syntax"
begin

text \<open>
  Shared ground of the development: the types that stand for Go's basic types, Go's indexing and
  slicing with the run-time panic written out, majorities, and the generic facts about lists that
  several components use.

  A Go function that can panic is a HOL function into \<open>'a option\<close>; \<^term>\<open>None\<close> is the panic,
  and \<^theory_text>\<open>do\<close> blocks sequence such functions. Go's \<^verbatim>\<open>int\<close> is \<^typ>\<open>int\<close>,
  \<^verbatim>\<open>uint64\<close> is \<^typ>\<open>64 word\<close>, where \<open>+\<close> wraps around as in Go.
\<close>

type_synonym byte = "8 word"
type_synonym bytes = "8 word list"
type_synonym u32 = "32 word"
type_synonym u64 = "64 word"

named_theorems go_ops \<open>definitions of Go's partial list operations\<close>

section \<open>Indexing and slicing with panics\<close>

definition go_index :: "'a list \<Rightarrow> int \<Rightarrow> 'a option" where
  "go_index xs i = (if 0 \<le> i \<and> i < int (length xs) then Some (xs ! nat i) else None)"

definition go_store :: "'a list \<Rightarrow> int \<Rightarrow> 'a \<Rightarrow> 'a list option" where
  "go_store xs i v = (if 0 \<le> i \<and> i < int (length xs) then Some (xs[nat i := v]) else None)"

text \<open>The slices \<^verbatim>\<open>xs[i:]\<close> and \<^verbatim>\<open>xs[:i]\<close>.\<close>

definition go_from :: "'a list \<Rightarrow> int \<Rightarrow> 'a list option" where
  "go_from xs i = (if 0 \<le> i \<and> i \<le> int (length xs) then Some (drop (nat i) xs) else None)"

definition go_upto :: "'a list \<Rightarrow> int \<Rightarrow> 'a list option" where
  "go_upto xs i = (if 0 \<le> i \<and> i \<le> int (length xs) then Some (take (nat i) xs) else None)"

lemmas go_partial [go_ops] = go_index_def go_store_def go_from_def go_upto_def

lemma go_index_Some_iff:
  "go_index xs i = Some v \<longleftrightarrow> 0 \<le> i \<and> i < int (length xs) \<and> v = xs ! nat i"
  by (auto simp: go_index_def)

lemma go_store_length: "go_store xs i v = Some ys \<Longrightarrow> length ys = length xs"
  by (auto simp: go_store_def split: if_splits)

lemma go_index_store_same: "go_store xs i v = Some ys \<Longrightarrow> go_index ys i = Some v"
  by (auto simp: go_store_def go_index_def split: if_splits)

lemma go_index_store_other:
  "go_store xs i v = Some ys \<Longrightarrow> j \<noteq> i \<Longrightarrow> go_index ys j = go_index xs j"
  by (auto simp: go_store_def go_index_def split: if_splits)

section \<open>Majorities\<close>

text \<open>The number of nodes that make a majority of \<open>n\<close>: \<^verbatim>\<open>len(rf.peers)/2 + 1\<close>.\<close>

definition majority :: "nat \<Rightarrow> nat" where
  "majority n = n div 2 + 1"

lemma majority_pos [simp]: "0 < majority n"
  by (simp add: majority_def)

lemma majority_double: "n < majority n + majority n"
  by (simp add: majority_def)

lemma majority_le: "0 < n \<Longrightarrow> majority n \<le> n"
  by (simp add: majority_def)

text \<open>Two majorities of the same \<open>n\<close> nodes share a node.\<close>

lemma majorities_meet:
  assumes A: "A \<subseteq> {..<n}" "majority n \<le> card A"
    and B: "B \<subseteq> {..<n}" "majority n \<le> card B"
  shows "\<exists>q. q \<in> A \<and> q \<in> B"
proof (rule ccontr)
  assume "\<nexists>q. q \<in> A \<and> q \<in> B"
  then have disj: "A \<inter> B = {}" by blast
  have fin: "finite A" "finite B" using A(1) B(1) by (auto intro: finite_subset)
  have "card A + card B = card (A \<union> B)" using card_Un_disjoint [OF fin disj] by simp
  also have "\<dots> \<le> card {..<n}" using A(1) B(1) by (intro card_mono) auto
  finally have "card A + card B \<le> n" by simp
  with A(2) B(2) majority_double [of n] show False by linarith
qed

text \<open>The interface through which the protocol proofs use majorities.\<close>

locale quorum_system =
  fixes quorum :: "nat set \<Rightarrow> bool"
  assumes quorum_meet: "quorum A \<Longrightarrow> quorum B \<Longrightarrow> \<exists>q. q \<in> A \<and> q \<in> B"
begin

lemma quorum_nonempty: "quorum A \<Longrightarrow> A \<noteq> {}"
  using quorum_meet [of A A] by auto

end

definition is_majority :: "nat \<Rightarrow> nat set \<Rightarrow> bool" where
  "is_majority n A \<longleftrightarrow> A \<subseteq> {..<n} \<and> majority n \<le> card A"

interpretation maj: quorum_system "is_majority n" for n
  by unfold_locales (auto simp: is_majority_def intro: majorities_meet)

section \<open>Client loops\<close>

text \<open>
  A client loops over RPCs until one gives a definite answer. Such a loop is a recursion over the
  list of what its calls return; \<open>Running\<close> is the state of a loop whose calls so far were not
  enough.
\<close>

datatype 'a loop = Running | Panicked | Returned 'a

section \<open>Lists\<close>

lemma take_eq_mono: "take n xs = take n ys \<Longrightarrow> m \<le> n \<Longrightarrow> take m xs = take m ys"
  by (metis min.absorb1 take_take)

lemma nth_eq_of_take_eq:
  "take n xs = take n ys \<Longrightarrow> i < n \<Longrightarrow> xs ! i = ys ! i"
  by (metis nth_take)

lemma last_take_nth: "0 < n \<Longrightarrow> n \<le> length xs \<Longrightarrow> last (take n xs) = xs ! (n - 1)"
  by (subst last_conv_nth) (auto simp: min_def)

end
