(* ===== verification/Bytes.thy ===== *)
theory Bytes
  imports Prelude
begin

text \<open>
  The parts of Go's standard library that the sources use on bytes: the little-endian encoding of
  64-bit integers (\<^verbatim>\<open>encoding/binary\<close>) and the FNV-1a hash (\<^verbatim>\<open>hash/fnv\<close>). A Go string
  is its sequence of bytes, a HOL \<^typ>\<open>string\<close>.
\<close>

unbundle bit_operations_syntax

section \<open>Little-endian 64-bit integers\<close>

text \<open>\<^verbatim>\<open>binary.LittleEndian.PutUint64\<close>, as the eight bytes it writes.\<close>

definition PutUint64 :: "u64 \<Rightarrow> bytes" where
  "PutUint64 w = map (\<lambda>i. ucast (drop_bit (8 * i) w)) [0..<8]"

text \<open>\<^verbatim>\<open>binary.LittleEndian.Uint64\<close> on a slice of eight bytes.\<close>

definition Uint64 :: "bytes \<Rightarrow> u64" where
  "Uint64 b = fold (\<lambda>i acc. acc OR push_bit (8 * i) (ucast (b ! i))) [0..<8] 0"

lemma PutUint64_length [simp]: "length (PutUint64 w) = 8"
  by (simp add: PutUint64_def)

lemma bit_fold_bytes:
  "bit (fold (\<lambda>i acc. acc OR push_bit (8 * i) (ucast (b ! i :: byte))) [0..<k] (0 :: u64)) n
    \<longleftrightarrow> n < 8 * k \<and> n < 64 \<and> bit (b ! (n div 8)) (n mod 8)"
proof (induction k)
  case 0
  show ?case by simp
next
  case (Suc k)
  have "bit (push_bit (8 * k) (ucast (b ! k)) :: u64) n
      \<longleftrightarrow> 8 * k \<le> n \<and> n < 64 \<and> n - 8 * k < 8 \<and> bit (b ! k) (n - 8 * k)"
    by (auto simp: bit_simps dest: bit_imp_le_length)
  also have "\<dots> \<longleftrightarrow> 8 * k \<le> n \<and> n < 8 * Suc k \<and> n < 64 \<and> bit (b ! (n div 8)) (n mod 8)"
  proof (cases "8 * k \<le> n \<and> n < 8 * Suc k")
    case True
    then have "n div 8 = k" by auto
    then have "n mod 8 = n - 8 * k" using minus_mult_div_eq_mod [of n 8] by simp
    with True \<open>n div 8 = k\<close> show ?thesis by auto
  next
    case False
    then show ?thesis by auto
  qed
  finally show ?case using Suc.IH by (auto simp: bit_or_iff)
qed

lemma Uint64_PutUint64: "Uint64 (PutUint64 w) = w"
proof (rule bit_word_eqI)
  fix n :: nat
  assume "n < LENGTH(64)"
  then have n: "n < 64" by simp
  have i: "n div 8 < 8" using n by linarith
  have "bit (Uint64 (PutUint64 w)) n \<longleftrightarrow> bit (PutUint64 w ! (n div 8)) (n mod 8)"
    unfolding Uint64_def using n by (simp add: bit_fold_bytes)
  also have "\<dots> \<longleftrightarrow> bit w (8 * (n div 8) + n mod 8)"
    using i by (simp add: PutUint64_def bit_simps)
  finally show "bit (Uint64 (PutUint64 w)) n = bit w n" by simp
qed

text \<open>
  A Go \<^verbatim>\<open>int\<close> goes through \<^verbatim>\<open>uint64(int64(v))\<close> and back through
  \<^verbatim>\<open>int(int64(u))\<close>, the two's complement reading.
\<close>

definition int_to_u64 :: "int \<Rightarrow> u64" where
  "int_to_u64 v = word_of_int v"

definition u64_to_int :: "u64 \<Rightarrow> int" where
  "u64_to_int w = sint w"

definition fits_int64 :: "int \<Rightarrow> bool" where
  "fits_int64 v \<longleftrightarrow> - (2 ^ 63) \<le> v \<and> v < 2 ^ 63"

lemma u64_to_int_of_int: "fits_int64 v \<Longrightarrow> u64_to_int (int_to_u64 v) = v"
  by (simp add: u64_to_int_def int_to_u64_def fits_int64_def sint_sbintrunc' signed_take_bit_int_eq_self)

lemma fits_int64_sint: "fits_int64 (u64_to_int w)"
  using sint_greater_eq [of w] sint_less [of w] by (simp add: fits_int64_def u64_to_int_def)

section \<open>FNV-1a\<close>

definition fnv32a_step :: "u32 \<Rightarrow> char \<Rightarrow> u32" where
  "fnv32a_step h c = (h XOR of_char c) * 16777619"

definition fnv32a :: "string \<Rightarrow> u32" where
  "fnv32a s = foldl fnv32a_step 2166136261 s"

end
