(* ===== verification/Raft_Types.thy ===== *)
theory Raft_Types
  imports Bytes
begin

text \<open>
  The data of \<^verbatim>\<open>raft1/raft.go\<close>, \<^verbatim>\<open>raftapi/raftapi.go\<close> and \<^verbatim>\<open>tester1/persister.go\<close>, and
  the index arithmetic and role changes that need no persistence.

  The record \<open>raft\<close> is the Go struct \<^verbatim>\<open>Raft\<close>. The mutex is not a field: every definition
  below and in the theories that follow is one critical section. \<^verbatim>\<open>peers\<close> is represented by its
  length, a buffered channel of capacity one (\<^verbatim>\<open>replicateNotify\<close>) by whether it is full, a
  channel that is only ever closed (\<^verbatim>\<open>done\<close>, \<^verbatim>\<open>stopped\<close>) by whether it is closed,
  \<^verbatim>\<open>time.Time\<close> by nanoseconds since the zero time. Signalling \<^verbatim>\<open>applyCond\<close> has no effect on
  the state: the applier's wait condition is a guard of its step.
\<close>

section \<open>The persister\<close>

record persister =
  raftstate :: bytes
  psnapshot :: bytes

definition MakePersister :: persister where
  "MakePersister = \<lparr>raftstate = [], psnapshot = []\<rparr>"

definition Checkpoint :: "persister \<Rightarrow> persister" where
  "Checkpoint ps = MakePersister\<lparr>raftstate := raftstate ps, psnapshot := psnapshot ps\<rparr>"

definition ReadRaftState :: "persister \<Rightarrow> bytes" where
  "ReadRaftState ps = raftstate ps"

definition RaftStateSize :: "persister \<Rightarrow> int" where
  "RaftStateSize ps = int (length (raftstate ps))"

definition Save :: "persister \<Rightarrow> bytes \<Rightarrow> bytes \<Rightarrow> persister" where
  "Save ps rs sn = ps\<lparr>raftstate := rs, psnapshot := sn\<rparr>"

definition ReadSnapshot :: "persister \<Rightarrow> bytes" where
  "ReadSnapshot ps = psnapshot ps"

definition SnapshotSize :: "persister \<Rightarrow> int" where
  "SnapshotSize ps = int (length (psnapshot ps))"

lemma Save_reads [simp]:
  "ReadRaftState (Save ps rs sn) = rs" "ReadSnapshot (Save ps rs sn) = sn"
  by (simp_all add: Save_def ReadRaftState_def ReadSnapshot_def)

section \<open>Messages and state\<close>

datatype role = Follower | Candidate | Leader

record 'c log_entry =
  eTerm :: int
  eCommand :: "'c option"

record 'c apply_msg =
  CommandValid :: bool
  mCommand :: "'c option"
  CommandIndex :: int
  SnapshotValid :: bool
  mSnapshot :: bytes
  SnapshotTerm :: int
  SnapshotIndex :: int

record 'c raft =
  npeers :: nat
  persister :: persister
  encodedLogs :: "bytes list"
  me :: int
  dead :: bool
  rdone :: bool
  rstopped :: bool
  workers :: nat
  currentTerm :: int
  votedFor :: int
  logs :: "'c log_entry list"
  nextIndex :: "int list"
  matchIndex :: "int list"
  rstate :: role
  electionDeadline :: int
  commitIndex :: int
  lastApplied :: int
  replicateNotify :: "bool list"
  replicateBusy :: "bool list"
  lastRescueSent :: "int list"
  lastIncludedIndex :: int
  lastIncludedTerm :: int
  snapshot :: bytes
  pendingSnapshot :: "'c apply_msg option"

record 'c append_args =
  aeTerm :: int
  aeLeaderId :: int
  aePrevLogIndex :: int
  aePrevLogTerm :: int
  aeEntries :: "'c log_entry list"
  aeLeaderCommit :: int

record append_reply =
  aerTerm :: int
  aerSuccess :: bool
  aerStopped :: bool
  aerConflictTerm :: int
  aerConflictIndex :: int

record install_args =
  isTerm :: int
  isLeaderId :: int
  isLastIncludedIndex :: int
  isLastIncludedTerm :: int
  isData :: bytes

record install_reply =
  isrTerm :: int
  isrStopped :: bool

record vote_args =
  rvTerm :: int
  rvCandidateId :: int
  rvLastLogIndex :: int
  rvLastLogTerm :: int

record vote_reply =
  rvrTerm :: int
  rvrVoteGranted :: bool

text \<open>
  What a critical section reads from outside the process: the wall clock and the next value of
  \<^verbatim>\<open>rand.Int63()\<close>.
\<close>

record go_env =
  now :: int
  rnd63 :: int

section \<open>Life cycle\<close>

definition killed :: "'c raft \<Rightarrow> bool" where
  "killed rf = dead rf"

definition Kill :: "'c raft \<Rightarrow> 'c raft" where
  "Kill rf = (if killed rf then rf else rf\<lparr>dead := True, rstate := Follower, rdone := True\<rparr>)"

text \<open>The goroutine that \<^verbatim>\<open>Kill\<close> starts: it closes \<^verbatim>\<open>stopped\<close> once no worker is left.\<close>

definition Kill_wait :: "'c raft \<Rightarrow> 'c raft" where
  "Kill_wait rf = (if killed rf \<and> workers rf = 0 then rf\<lparr>rstopped := True\<rparr> else rf)"

definition Done :: "'c raft \<Rightarrow> bool" where
  "Done rf = rdone rf"

definition Stopped :: "'c raft \<Rightarrow> bool" where
  "Stopped rf = rstopped rf"

text \<open>\<^verbatim>\<open>launch\<close>: whether the goroutine is started, and the state with it counted.\<close>

definition launch :: "'c raft \<Rightarrow> 'c raft \<times> bool" where
  "launch rf = (if killed rf then (rf, False) else (rf\<lparr>workers := workers rf + 1\<rparr>, True))"

text \<open>The deferred \<^verbatim>\<open>workers.Done()\<close> of a goroutine that \<^verbatim>\<open>launch\<close> started.\<close>

definition launch_done :: "'c raft \<Rightarrow> 'c raft" where
  "launch_done rf = rf\<lparr>workers := workers rf - 1\<rparr>"

definition launchAll :: "nat \<Rightarrow> 'c raft \<Rightarrow> 'c raft" where
  "launchAll k rf = ((\<lambda>rf. fst (launch rf)) ^^ k) rf"

lemma launchAll_eq: "launchAll k rf = (if killed rf then rf else rf\<lparr>workers := workers rf + k\<rparr>)"
  unfolding launchAll_def by (induction k) (auto simp: launch_def killed_def)

definition GetState :: "'c raft \<Rightarrow> int \<times> bool" where
  "GetState rf = (currentTerm rf, \<not> killed rf \<and> rstate rf = Leader)"

definition PersistBytes :: "'c raft \<Rightarrow> int" where
  "PersistBytes rf = RaftStateSize (persister rf)"

section \<open>Index arithmetic over the compacted log\<close>

definition firstLogIndexLocked :: "'c raft \<Rightarrow> int" where
  "firstLogIndexLocked rf = lastIncludedIndex rf"

definition lastLogIndexLocked :: "'c raft \<Rightarrow> int" where
  "lastLogIndexLocked rf = lastIncludedIndex rf + int (length (logs rf)) - 1"

definition toOffsetLocked :: "'c raft \<Rightarrow> int \<Rightarrow> int" where
  "toOffsetLocked rf index = index - lastIncludedIndex rf"

definition containsIndexLocked :: "'c raft \<Rightarrow> int \<Rightarrow> bool" where
  "containsIndexLocked rf index \<longleftrightarrow>
     index \<ge> lastIncludedIndex rf \<and> index \<le> lastLogIndexLocked rf"

definition termAtLocked :: "'c raft \<Rightarrow> int \<Rightarrow> (int \<times> bool) option" where
  "termAtLocked rf index =
     (if \<not> containsIndexLocked rf index then Some (0, False)
      else do {
        e \<leftarrow> go_index (logs rf) (toOffsetLocked rf index);
        Some (eTerm e, True)
      })"

definition lastLogTermLocked :: "'c raft \<Rightarrow> int option" where
  "lastLogTermLocked rf = map_option eTerm (go_index (logs rf) (int (length (logs rf)) - 1))"

text \<open>The scan of \<^verbatim>\<open>lastIndexOfTermLocked\<close> from offset \<open>k - 1\<close> down to \<open>0\<close>.\<close>

fun lastOffsetOfTerm :: "'c log_entry list \<Rightarrow> int \<Rightarrow> nat \<Rightarrow> nat option" where
  "lastOffsetOfTerm xs term 0 = None"
| "lastOffsetOfTerm xs term (Suc k) =
     (if eTerm (xs ! k) = term then Some k else lastOffsetOfTerm xs term k)"

definition lastIndexOfTermLocked :: "'c raft \<Rightarrow> int \<Rightarrow> int" where
  "lastIndexOfTermLocked rf term =
     (case lastOffsetOfTerm (logs rf) term (length (logs rf)) of
        None \<Rightarrow> -1
      | Some off \<Rightarrow> lastIncludedIndex rf + int off)"

lemmas index_defs = firstLogIndexLocked_def lastLogIndexLocked_def toOffsetLocked_def
  containsIndexLocked_def

lemma termAtLocked_eq:
  "termAtLocked rf i =
     (if lastIncludedIndex rf \<le> i \<and> i < lastIncludedIndex rf + int (length (logs rf))
      then Some (eTerm (logs rf ! nat (i - lastIncludedIndex rf)), True)
      else Some (0, False))"
  by (auto simp: termAtLocked_def index_defs go_index_def)

lemma lastLogTermLocked_eq: "logs rf \<noteq> [] \<Longrightarrow> lastLogTermLocked rf = Some (eTerm (last (logs rf)))"
  by (cases "length (logs rf)")
    (auto simp: lastLogTermLocked_def go_index_def last_conv_nth nat_diff_distrib')

lemma lastOffsetOfTerm_Some:
  "lastOffsetOfTerm xs term n = Some k \<Longrightarrow>
     k < n \<and> eTerm (xs ! k) = term \<and> (\<forall>j. k < j \<and> j < n \<longrightarrow> eTerm (xs ! j) \<noteq> term)"
  by (induction n) (auto split: if_splits simp: less_Suc_eq)

lemma lastOffsetOfTerm_None:
  "lastOffsetOfTerm xs term n = None \<longleftrightarrow> (\<forall>j < n. eTerm (xs ! j) \<noteq> term)"
  by (induction n) (auto simp: less_Suc_eq)

section \<open>Timers and leadership\<close>

definition randomElectionTimeout :: "go_env \<Rightarrow> int" where
  "randomElectionTimeout ev = (400 + rnd63 ev mod 300) * 1000000"

definition resetElectionDeadlineLocked :: "go_env \<Rightarrow> 'c raft \<Rightarrow> 'c raft" where
  "resetElectionDeadlineLocked ev rf =
     rf\<lparr>electionDeadline := now ev + randomElectionTimeout ev\<rparr>"

definition becomeLeaderLocked :: "'c raft \<Rightarrow> 'c raft option" where
  "becomeLeaderLocked rf =
     (let lastIndex = lastLogIndexLocked rf; n = npeers rf in
      do {
        m \<leftarrow> go_store (replicate n 0) (me rf) lastIndex;
        x \<leftarrow> go_store (replicate n (lastIndex + 1)) (me rf) (lastIndex + 1);
        Some (rf\<lparr>rstate := Leader, nextIndex := x, matchIndex := m,
                 lastRescueSent := (if length (lastRescueSent rf) = n then replicate n 0
                                    else lastRescueSent rf)\<rparr>)
      })"

end
