(* ===== verification/Raft_Persist.thy ===== *)
theory Raft_Persist
  imports Raft_Types
begin

text \<open>
  The persistent state of a Raft node as bytes (\<^verbatim>\<open>raft1/raft.go\<close>, \<^verbatim>\<open>encodeLogEntry\<close> to
  \<^verbatim>\<open>readPersist\<close>): a magic string, five fixed-width integers and, for each log entry, its length
  and its cached encoding.

  The encoding of one entry (\<^verbatim>\<open>labgob\<close> on top of Go's \<^verbatim>\<open>encoding/gob\<close>) and the decoder of the
  older single-stream format are parameters, collected in the record \<open>codec\<close>. \<open>codec_ok\<close>
  is what is relied on: an entry can be encoded, and decoding the bytes gives the entry back.
\<close>

record 'c codec =
  encEntry :: "'c log_entry \<Rightarrow> bytes option"
  decEntry :: "bytes \<Rightarrow> 'c log_entry option"
  decLegacy :: "bytes \<Rightarrow> (int \<times> int \<times> 'c log_entry list \<times> int \<times> int) option"

definition codec_ok :: "'c codec \<Rightarrow> bool" where
  "codec_ok cd \<longleftrightarrow> (\<forall>e. \<exists>b. encEntry cd e = Some b \<and> decEntry cd b = Some e)"

section \<open>The cache of encoded entries\<close>

definition encodeLogEntry :: "'c codec \<Rightarrow> 'c log_entry \<Rightarrow> bytes option" where
  "encodeLogEntry cd entry = encEntry cd entry"

primrec encodeAll :: "'c codec \<Rightarrow> 'c log_entry list \<Rightarrow> bytes list option" where
  "encodeAll cd [] = Some []"
| "encodeAll cd (e # es) = do { b \<leftarrow> encodeLogEntry cd e; bs \<leftarrow> encodeAll cd es; Some (b # bs) }"

definition rebuildEncodedLogs :: "'c codec \<Rightarrow> 'c raft \<Rightarrow> 'c raft option" where
  "rebuildEncodedLogs cd rf = do { bs \<leftarrow> encodeAll cd (logs rf); Some (rf\<lparr>encodedLogs := bs\<rparr>) }"

definition appendLogs :: "'c codec \<Rightarrow> 'c raft \<Rightarrow> 'c log_entry list \<Rightarrow> 'c raft option" where
  "appendLogs cd rf entries = do {
     bs \<leftarrow> encodeAll cd entries;
     Some (rf\<lparr>logs := logs rf @ entries, encodedLogs := encodedLogs rf @ bs\<rparr>)
   }"

definition truncateLogs :: "'c raft \<Rightarrow> int \<Rightarrow> 'c raft option" where
  "truncateLogs rf len = do {
     l \<leftarrow> go_upto (logs rf) len;
     e \<leftarrow> go_upto (encodedLogs rf) len;
     Some (rf\<lparr>logs := l, encodedLogs := e\<rparr>)
   }"

definition replaceLogs :: "'c codec \<Rightarrow> 'c raft \<Rightarrow> 'c log_entry list \<Rightarrow> 'c raft option" where
  "replaceLogs cd rf ls = rebuildEncodedLogs cd (rf\<lparr>logs := ls\<rparr>)"

section \<open>Writing\<close>

definition persistMagic :: bytes where
  "persistMagic = map of_char ''RFT2''"

definition persistHeaderSize :: nat where
  "persistHeaderSize = length persistMagic + 5 * 8"

definition putInt :: "int \<Rightarrow> bytes" where
  "putInt v = PutUint64 (int_to_u64 v)"

definition putEntry :: "bytes \<Rightarrow> bytes" where
  "putEntry b = PutUint64 (of_nat (length b)) @ b"

definition persist_bytes :: "'c raft \<Rightarrow> bytes" where
  "persist_bytes rf =
     persistMagic @ putInt (currentTerm rf) @ putInt (votedFor rf) @
     putInt (lastIncludedIndex rf) @ putInt (lastIncludedTerm rf) @
     PutUint64 (of_nat (length (encodedLogs rf))) @ concat (map putEntry (encodedLogs rf))"

definition persist :: "'c raft \<Rightarrow> 'c raft option" where
  "persist rf =
     (if length (encodedLogs rf) \<noteq> length (logs rf) then None
      else Some (rf\<lparr>persister := Save (persister rf) (persist_bytes rf) (snapshot rf)\<rparr>))"

section \<open>Reading\<close>

definition readInt :: "bytes \<Rightarrow> nat \<Rightarrow> int" where
  "readInt data offset = u64_to_int (Uint64 (take 8 (drop offset data)))"

primrec readEntries ::
  "'c codec \<Rightarrow> nat \<Rightarrow> bytes \<Rightarrow> nat \<Rightarrow> ('c log_entry list \<times> bytes list \<times> nat) option" where
  "readEntries cd 0 data offset = Some ([], [], offset)"
| "readEntries cd (Suc n) data offset =
     (if offset + 8 > length data then None
      else let len = unat (Uint64 (take 8 (drop offset data))); offset = offset + 8 in
        if len > length data - offset then None
        else let encoded = take len (drop offset data) in
          do {
            e \<leftarrow> decEntry cd encoded;
            (es, bs, end) \<leftarrow> readEntries cd n data (offset + len);
            Some (e # es, encoded # bs, end)
          })"

definition readCachedPersist :: "'c codec \<Rightarrow> 'c raft \<Rightarrow> bytes \<Rightarrow> ('c raft \<times> bool) option" where
  "readCachedPersist cd rf data =
     (if length data < persistHeaderSize \<or> take (length persistMagic) data \<noteq> persistMagic
      then Some (rf, False)
      else let offset = length persistMagic;
               ct = readInt data offset;
               vf = readInt data (offset + 8);
               li = readInt data (offset + 16);
               lt = readInt data (offset + 24);
               count = Uint64 (take 8 (drop (offset + 32) data));
               offset = offset + 40 in
        if count = 0 \<or> unat count > (length data - offset) div 8 then None
        else do {
          (ls, es, end) \<leftarrow> readEntries cd (unat count) data offset;
          if end \<noteq> length data then None
          else Some (rf\<lparr>currentTerm := ct, votedFor := vf, logs := ls, encodedLogs := es,
                        lastIncludedIndex := li, lastIncludedTerm := lt\<rparr>, True)
        })"

definition readPersist :: "'c codec \<Rightarrow> 'c raft \<Rightarrow> bytes \<Rightarrow> 'c raft option" where
  "readPersist cd rf data =
     (if data = [] then Some rf
      else do {
        (rf', ok) \<leftarrow> readCachedPersist cd rf data;
        if ok then Some rf'
        else do {
          (ct, vf, ls, li, lt) \<leftarrow> decLegacy cd data;
          if ls = [] then None
          else do {
            rf \<leftarrow> rebuildEncodedLogs cd (rf'\<lparr>currentTerm := ct, votedFor := vf, logs := ls\<rparr>);
            Some (rf\<lparr>lastIncludedIndex := li, lastIncludedTerm := lt\<rparr>)
          }
        }
      })"

section \<open>Round trip\<close>

text \<open>
  \<open>cache_ok\<close> relates the two parallel slices \<^verbatim>\<open>logs\<close> and \<^verbatim>\<open>encodedLogs\<close>;
  \<open>sizes_ok\<close> says that what is written as a 64-bit integer fits in one.
\<close>

definition cache_ok :: "'c codec \<Rightarrow> 'c raft \<Rightarrow> bool" where
  "cache_ok cd rf \<longleftrightarrow> list_all2 (\<lambda>b e. decEntry cd b = Some e) (encodedLogs rf) (logs rf)"

definition sizes_ok :: "'c raft \<Rightarrow> bool" where
  "sizes_ok rf \<longleftrightarrow>
     fits_int64 (currentTerm rf) \<and> fits_int64 (votedFor rf) \<and>
     fits_int64 (lastIncludedIndex rf) \<and> fits_int64 (lastIncludedTerm rf) \<and>
     length (encodedLogs rf) < 2 ^ 64 \<and> (\<forall>b \<in> set (encodedLogs rf). length b < 2 ^ 64)"

lemma cache_ok_length: "cache_ok cd rf \<Longrightarrow> length (encodedLogs rf) = length (logs rf)"
  by (auto simp: cache_ok_def dest: list_all2_lengthD)

lemma encodeAll_decodes:
  assumes "codec_ok cd"
  shows "\<exists>bs. encodeAll cd es = Some bs \<and> list_all2 (\<lambda>b e. decEntry cd b = Some e) bs es"
proof (induction es)
  case Nil
  show ?case by simp
next
  case (Cons e es)
  obtain b where "encEntry cd e = Some b" "decEntry cd b = Some e"
    using assms unfolding codec_ok_def by blast
  with Cons.IH show ?case by (auto simp: encodeLogEntry_def)
qed

lemma persist_Some:
  "cache_ok cd rf \<Longrightarrow>
     persist rf = Some (rf\<lparr>persister := Save (persister rf) (persist_bytes rf) (snapshot rf)\<rparr>)"
  by (simp add: persist_def cache_ok_length)

lemma appendLogs_Some:
  assumes "codec_ok cd" "cache_ok cd rf"
  shows "\<exists>bs. appendLogs cd rf es = Some (rf\<lparr>logs := logs rf @ es, encodedLogs := encodedLogs rf @ bs\<rparr>)
    \<and> cache_ok cd (rf\<lparr>logs := logs rf @ es, encodedLogs := encodedLogs rf @ bs\<rparr>)"
  using encodeAll_decodes [OF assms(1), of es] assms(2)
  by (auto simp: appendLogs_def cache_ok_def intro!: list_all2_appendI)

lemma truncateLogs_Some:
  assumes "cache_ok cd rf" "0 \<le> len" "len \<le> int (length (logs rf))"
  shows "truncateLogs rf len =
      Some (rf\<lparr>logs := take (nat len) (logs rf), encodedLogs := take (nat len) (encodedLogs rf)\<rparr>)"
    and "cache_ok cd
      (rf\<lparr>logs := take (nat len) (logs rf), encodedLogs := take (nat len) (encodedLogs rf)\<rparr>)"
  using assms cache_ok_length [OF assms(1)]
  by (auto simp: truncateLogs_def go_upto_def cache_ok_def intro!: list_all2_takeI)

lemma replaceLogs_Some:
  assumes "codec_ok cd"
  shows "\<exists>bs. replaceLogs cd rf ls = Some (rf\<lparr>logs := ls, encodedLogs := bs\<rparr>)
    \<and> cache_ok cd (rf\<lparr>logs := ls, encodedLogs := bs\<rparr>)"
  using encodeAll_decodes [OF assms, of ls]
  by (auto simp: replaceLogs_def rebuildEncodedLogs_def cache_ok_def)

lemma readInt_putInt:
  "fits_int64 v \<Longrightarrow> length xs = n \<Longrightarrow> readInt (xs @ putInt v @ ys) n = v"
  by (simp add: readInt_def putInt_def Uint64_PutUint64 u64_to_int_of_int)

lemma putInt_length [simp]: "length (putInt v) = 8"
  by (simp add: putInt_def)

lemma unat_of_nat_u64: "n < 2 ^ 64 \<Longrightarrow> unat (of_nat n :: u64) = n"
  by (simp add: unat_of_nat)

lemma length_concat_putEntry: "8 * length bs \<le> length (concat (map putEntry bs))"
  by (induction bs) (auto simp: putEntry_def)

lemma readEntries_putEntry:
  assumes "list_all2 (\<lambda>b e. decEntry cd b = Some e) bs es" "\<forall>b \<in> set bs. length b < 2 ^ 64"
    and "data = pre @ concat (map putEntry bs)" "length pre = offset"
  shows "readEntries cd (length bs) data offset = Some (es, bs, length data)"
  using assms
proof (induction bs es arbitrary: pre offset rule: list_all2_induct)
  case Nil
  then show ?case by simp
next
  case (Cons b bs e es)
  have len: "unat (of_nat (length b) :: u64) = length b"
    using Cons.prems(1) by (intro unat_of_nat_u64) simp
  have data: "data = (pre @ putEntry b) @ concat (map putEntry bs)"
    using Cons.prems(2) by simp
  have "readEntries cd (length bs) data (offset + 8 + length b) = Some (es, bs, length data)"
    using Cons.prems Cons.IH [OF _ data] by (simp add: putEntry_def add.assoc)
  moreover have "take 8 (drop offset data) = PutUint64 (of_nat (length b))"
    and "take (length b) (drop (offset + 8) data) = b"
    and "offset + 8 + length b \<le> length data"
    using Cons.prems(3) unfolding data by (simp_all add: putEntry_def)
  ultimately show ?case
    using Cons.hyps(1) by (simp add: Uint64_PutUint64 len Let_def)
qed

lemma readCachedPersist_persist_bytes:
  assumes "cache_ok cd rf" "sizes_ok rf" "logs rf \<noteq> []"
  shows "readCachedPersist cd rf0 (persist_bytes rf) =
    Some (rf0\<lparr>currentTerm := currentTerm rf, votedFor := votedFor rf, logs := logs rf,
            encodedLogs := encodedLogs rf, lastIncludedIndex := lastIncludedIndex rf,
            lastIncludedTerm := lastIncludedTerm rf\<rparr>, True)"
proof -
  define body where "body = concat (map putEntry (encodedLogs rf))"
  define n where "n = length (encodedLogs rf)"
  define hd5 where "hd5 = persistMagic @ putInt (currentTerm rf) @ putInt (votedFor rf) @
     putInt (lastIncludedIndex rf) @ putInt (lastIncludedTerm rf) @ PutUint64 (of_nat n)"
  have data: "persist_bytes rf = hd5 @ body"
    by (simp add: persist_bytes_def hd5_def body_def n_def)
  have m4: "length persistMagic = 4" by (simp add: persistMagic_def)
  have hd5_len: "length hd5 = 44" by (simp add: hd5_def m4)
  have n: "n < 2 ^ 64" "0 < n"
    using assms cache_ok_length [OF assms(1)] by (auto simp: sizes_ok_def n_def)
  have un: "unat (of_nat n :: u64) = n" using n(1) by (rule unat_of_nat_u64)
  have nz: "(of_nat n :: u64) \<noteq> 0" using un n(2) by (metis unat_0 less_numeral_extra(3))
  have magic: "take 4 (persist_bytes rf) = persistMagic"
    by (simp add: persist_bytes_def m4)
  have ints: "readInt (persist_bytes rf) 4 = currentTerm rf"
    "readInt (persist_bytes rf) 12 = votedFor rf"
    "readInt (persist_bytes rf) 20 = lastIncludedIndex rf"
    "readInt (persist_bytes rf) 28 = lastIncludedTerm rf"
    using assms(2) m4 unfolding persist_bytes_def sizes_ok_def
    by (auto intro: readInt_putInt
        readInt_putInt [where xs = "persistMagic @ _", simplified]
        readInt_putInt [where xs = "persistMagic @ _ @ _", simplified]
        readInt_putInt [where xs = "persistMagic @ _ @ _ @ _", simplified])
  have cnt: "Uint64 (take 8 (drop 36 (persist_bytes rf))) = of_nat n"
    by (simp add: persist_bytes_def m4 n_def Uint64_PutUint64)
  have room: "n \<le> length body div 8"
    using length_concat_putEntry [of "encodedLogs rf"] by (simp add: body_def n_def)
  have "readEntries cd n (persist_bytes rf) 44 = Some (logs rf, encodedLogs rf, length (persist_bytes rf))"
    unfolding n_def
    by (rule readEntries_putEntry [where pre = hd5])
      (use assms in \<open>auto simp: cache_ok_def sizes_ok_def data body_def hd5_len\<close>)
  then show ?thesis
    using magic ints cnt un nz room
    by (simp add: readCachedPersist_def persistHeaderSize_def m4 Let_def)
      (simp add: data hd5_len)
qed

end
