(* ===== verification/Raft_Node.thy ===== *)
theory Raft_Node
  imports Raft_Persist
begin

text \<open>
  The critical sections of \<^verbatim>\<open>raft1/raft.go\<close>, each as one function of the node's state: the three
  RPC handlers, the elections, the replication loop cut at the points where the code releases the
  lock to wait for an RPC, the applier, \<^verbatim>\<open>Start\<close>, \<^verbatim>\<open>Snapshot\<close> and \<^verbatim>\<open>Make\<close>.
\<close>

section \<open>Roles\<close>

definition becomeFollowerLocked :: "'c raft \<Rightarrow> int \<Rightarrow> 'c raft option" where
  "becomeFollowerLocked rf term =
     (if term > currentTerm rf
      then do {
        rf \<leftarrow> persist (rf\<lparr>currentTerm := term, votedFor := -1\<rparr>);
        Some (rf\<lparr>rstate := Follower\<rparr>)
      }
      else Some (rf\<lparr>rstate := Follower\<rparr>))"

section \<open>The applier\<close>

datatype 'c applier_step = ApplierWait | ApplierExit | ApplierSend "'c apply_msg list"

primrec applier_messages :: "'c raft \<Rightarrow> int \<Rightarrow> nat \<Rightarrow> 'c apply_msg list option" where
  "applier_messages rf index 0 = Some []"
| "applier_messages rf index (Suc n) = do {
     e \<leftarrow> go_index (logs rf) (toOffsetLocked rf index);
     ms \<leftarrow> applier_messages rf (index + 1) n;
     Some (\<lparr>CommandValid = True, mCommand = eCommand e, CommandIndex = index,
            SnapshotValid = False, mSnapshot = [], SnapshotTerm = 0, SnapshotIndex = 0\<rparr> # ms)
   }"

text \<open>
  One turn of the loop up to the release of the lock. \<open>ApplierSend\<close> carries the messages that
  are then sent on \<^verbatim>\<open>applyCh\<close>, in order. A negative capacity of \<^verbatim>\<open>make\<close> panics.
\<close>

definition applier :: "'c raft \<Rightarrow> ('c raft \<times> 'c applier_step) option" where
  "applier rf =
     (if killed rf then Some (rf, ApplierExit)
      else case pendingSnapshot rf of
        Some message \<Rightarrow>
          Some (rf\<lparr>pendingSnapshot := None,
                   lastApplied := (if lastApplied rf < SnapshotIndex message
                                   then SnapshotIndex message else lastApplied rf)\<rparr>,
                ApplierSend [message])
      | None \<Rightarrow>
          if lastApplied rf \<ge> commitIndex rf then Some (rf, ApplierWait)
          else let start = lastApplied rf + 1;
                   start = (if start \<le> lastIncludedIndex rf then lastIncludedIndex rf + 1 else start);
                   end = commitIndex rf in
            if end - start + 1 < 0 then None
            else do {
              messages \<leftarrow> applier_messages rf start (nat (end - start + 1));
              Some (rf\<lparr>lastApplied := end\<rparr>, ApplierSend messages)
            })"

section \<open>InstallSnapshot\<close>

definition snapshot_msg :: "'c raft \<Rightarrow> 'c apply_msg" where
  "snapshot_msg rf =
     \<lparr>CommandValid = False, mCommand = None, CommandIndex = 0, SnapshotValid = True,
      mSnapshot = snapshot rf, SnapshotTerm = lastIncludedTerm rf,
      SnapshotIndex = lastIncludedIndex rf\<rparr>"

definition InstallSnapshot ::
  "'c codec \<Rightarrow> go_env \<Rightarrow> 'c raft \<Rightarrow> install_args \<Rightarrow> ('c raft \<times> install_reply) option" where
  "InstallSnapshot cd ev rf args =
     (if killed rf then Some (rf, \<lparr>isrTerm = currentTerm rf, isrStopped = True\<rparr>)
      else if isTerm args < currentTerm rf
      then Some (rf, \<lparr>isrTerm = currentTerm rf, isrStopped = False\<rparr>)
      else do {
        rf \<leftarrow> becomeFollowerLocked rf (isTerm args);
        let rf = resetElectionDeadlineLocked ev rf;
        let reply = \<lparr>isrTerm = currentTerm rf, isrStopped = False\<rparr>;
        if isLastIncludedIndex args \<le> commitIndex rf then Some (rf, reply)
        else do {
          (localTerm, ok) \<leftarrow> termAtLocked rf (isLastIncludedIndex args);
          suffix \<leftarrow> (if ok \<and> localTerm = isLastIncludedTerm args
                    then go_from (logs rf) (toOffsetLocked rf (isLastIncludedIndex args) + 1)
                    else Some []);
          let newLogs = \<lparr>eTerm = isLastIncludedTerm args, eCommand = None\<rparr> # suffix;
          let rf = rf\<lparr>lastIncludedIndex := isLastIncludedIndex args,
                      lastIncludedTerm := isLastIncludedTerm args\<rparr>;
          rf \<leftarrow> replaceLogs cd rf newLogs;
          let rf = rf\<lparr>snapshot := isData args, commitIndex := isLastIncludedIndex args,
                      lastApplied := isLastIncludedIndex args\<rparr>;
          rf \<leftarrow> persist rf;
          Some (rf\<lparr>pendingSnapshot := Some (snapshot_msg rf)\<rparr>, reply)
        }
      })"

section \<open>AppendEntries\<close>

text \<open>The search for the first index of the conflicting term, from \<open>ci\<close> down at most \<open>n\<close> steps.\<close>

primrec conflictScan :: "'c raft \<Rightarrow> int \<Rightarrow> nat \<Rightarrow> int \<Rightarrow> int option" where
  "conflictScan rf conflictTerm 0 ci = Some ci"
| "conflictScan rf conflictTerm (Suc n) ci = do {
     (previousTerm, ok) \<leftarrow> termAtLocked rf (ci - 1);
     if \<not> ok \<or> previousTerm \<noteq> conflictTerm then Some ci
     else conflictScan rf conflictTerm n (ci - 1)
   }"

text \<open>The merge loop over the remaining entries, the first of which belongs at \<open>localIndex\<close>.\<close>

primrec mergeEntries ::
  "'c codec \<Rightarrow> 'c raft \<Rightarrow> int \<Rightarrow> 'c log_entry list \<Rightarrow> ('c raft \<times> bool) option" where
  "mergeEntries cd rf localIndex [] = Some (rf, False)"
| "mergeEntries cd rf localIndex (entry # rest) =
     (if localIndex \<le> lastLogIndexLocked rf
      then do {
        (localTerm, ok) \<leftarrow> termAtLocked rf localIndex;
        if \<not> ok then mergeEntries cd rf (localIndex + 1) rest
        else if localTerm \<noteq> eTerm entry then do {
          rf \<leftarrow> truncateLogs rf (toOffsetLocked rf localIndex);
          rf \<leftarrow> appendLogs cd rf (entry # rest);
          Some (rf, True)
        }
        else mergeEntries cd rf (localIndex + 1) rest
      }
      else do {
        rf \<leftarrow> appendLogs cd rf (entry # rest);
        Some (rf, True)
      })"

definition appendReply :: "'c raft \<Rightarrow> append_reply" where
  "appendReply rf = \<lparr>aerTerm = currentTerm rf, aerSuccess = False, aerStopped = killed rf,
                     aerConflictTerm = -1, aerConflictIndex = 0\<rparr>"

definition AppendEntries ::
  "'c codec \<Rightarrow> go_env \<Rightarrow> 'c raft \<Rightarrow> 'c append_args \<Rightarrow> ('c raft \<times> append_reply) option" where
  "AppendEntries cd ev rf args =
     (if killed rf then Some (rf, appendReply rf)
      else if aeTerm args < currentTerm rf then Some (rf, appendReply rf)
      else do {
        rf \<leftarrow> becomeFollowerLocked rf (aeTerm args);
        let rf = resetElectionDeadlineLocked ev rf;
        let reply = appendReply rf;
        if aePrevLogIndex args > lastLogIndexLocked rf
        then Some (rf, reply\<lparr>aerConflictIndex := lastLogIndexLocked rf + 1\<rparr>)
        else if aePrevLogIndex args < firstLogIndexLocked rf
        then Some (rf, reply\<lparr>aerConflictIndex := firstLogIndexLocked rf + 1\<rparr>)
        else do {
          (prevLogTerm, ok) \<leftarrow> termAtLocked rf (aePrevLogIndex args);
          if \<not> ok then Some (rf, reply)
          else if prevLogTerm \<noteq> aePrevLogTerm args then do {
            ci \<leftarrow> conflictScan rf prevLogTerm
                   (nat (aePrevLogIndex args - firstLogIndexLocked rf)) (aePrevLogIndex args);
            Some (rf, reply\<lparr>aerConflictTerm := prevLogTerm, aerConflictIndex := ci\<rparr>)
          }
          else do {
            (rf, changed) \<leftarrow> mergeEntries cd rf (aePrevLogIndex args + 1) (aeEntries args);
            rf \<leftarrow> (if changed then persist rf else Some rf);
            let lastNewIndex = aePrevLogIndex args + int (length (aeEntries args));
            let newCommit = (if lastNewIndex < aeLeaderCommit args then lastNewIndex
                             else aeLeaderCommit args);
            let rf = (if aeLeaderCommit args > commitIndex rf \<and> newCommit > commitIndex rf
                      then rf\<lparr>commitIndex := newCommit\<rparr> else rf);
            Some (rf, reply\<lparr>aerSuccess := True\<rparr>)
          }
        }
      })"

section \<open>Commit\<close>

text \<open>How many peers have \<^verbatim>\<open>matchIndex[peer] >= n\<close>.\<close>

definition replicatedCount :: "'c raft \<Rightarrow> int \<Rightarrow> nat option" where
  "replicatedCount rf n =
     (if length (matchIndex rf) < npeers rf then None
      else Some (length (filter (\<lambda>m. m \<ge> n) (take (npeers rf) (matchIndex rf)))))"

primrec advanceLoop :: "'c raft \<Rightarrow> nat \<Rightarrow> int \<Rightarrow> ('c raft \<times> bool) option" where
  "advanceLoop rf 0 n = Some (rf, False)"
| "advanceLoop rf (Suc k) n = do {
     (entryTerm, ok) \<leftarrow> termAtLocked rf n;
     if \<not> ok \<or> entryTerm \<noteq> currentTerm rf then advanceLoop rf k (n - 1)
     else do {
       replicated \<leftarrow> replicatedCount rf n;
       if replicated \<ge> majority (npeers rf) then Some (rf\<lparr>commitIndex := n\<rparr>, True)
       else advanceLoop rf k (n - 1)
     }
   }"

definition advanceCommitIndexLocked :: "'c raft \<Rightarrow> ('c raft \<times> bool) option" where
  "advanceCommitIndexLocked rf =
     (if rstate rf \<noteq> Leader then Some (rf, False)
      else advanceLoop rf (nat (lastLogIndexLocked rf - commitIndex rf)) (lastLogIndexLocked rf))"

section \<open>Notifications\<close>

primrec notifyPeers :: "int \<Rightarrow> int list \<Rightarrow> bool list \<Rightarrow> bool list option" where
  "notifyPeers self [] nt = Some nt"
| "notifyPeers self (p # ps) nt =
     (if p = self then notifyPeers self ps nt
      else do { nt \<leftarrow> go_store nt p True; notifyPeers self ps nt })"

definition peerIds :: "'c raft \<Rightarrow> int list" where
  "peerIds rf = map int [0..<npeers rf]"

definition broadcastAppendEntries :: "'c raft \<Rightarrow> 'c raft option" where
  "broadcastAppendEntries rf =
     (if killed rf \<or> rstate rf \<noteq> Leader then Some rf
      else do {
        nt \<leftarrow> notifyPeers (me rf) (peerIds rf) (replicateNotify rf);
        Some (rf\<lparr>replicateNotify := nt\<rparr>)
      })"

section \<open>Replication to one peer\<close>

datatype 'c rep_request = RepReturn | RepSnapshot install_args | RepAppend "'c append_args"

datatype rep_ctl = CtlReturn | CtlContinue

text \<open>
  \<^verbatim>\<open>replicateUntilStable\<close>, from the head of its loop to the release of the lock before the RPC.
\<close>

definition replicate_build :: "'c raft \<Rightarrow> int \<Rightarrow> 'c rep_request option" where
  "replicate_build rf peer =
     (if killed rf \<or> rstate rf \<noteq> Leader then Some RepReturn
      else do {
        nxt \<leftarrow> go_index (nextIndex rf) peer;
        if nxt \<le> lastIncludedIndex rf
        then Some (RepSnapshot
          \<lparr>isTerm = currentTerm rf, isLeaderId = me rf, isLastIncludedIndex = lastIncludedIndex rf,
           isLastIncludedTerm = lastIncludedTerm rf, isData = snapshot rf\<rparr>)
        else do {
          (prevLogTerm, ok) \<leftarrow> termAtLocked rf (nxt - 1);
          if \<not> ok then Some RepReturn
          else do {
            entries \<leftarrow> go_from (logs rf) (toOffsetLocked rf nxt);
            Some (RepAppend
              \<lparr>aeTerm = currentTerm rf, aeLeaderId = me rf, aePrevLogIndex = nxt - 1,
               aePrevLogTerm = prevLogTerm, aeEntries = entries,
               aeLeaderCommit = commitIndex rf\<rparr>)
          }
        }
      })"

text \<open>The handling of an \<^verbatim>\<open>InstallSnapshot\<close> reply; \<open>args\<close> carries the term of the request.\<close>

definition replicate_snapshot_reply ::
  "go_env \<Rightarrow> 'c raft \<Rightarrow> int \<Rightarrow> install_args \<Rightarrow> install_reply \<Rightarrow> ('c raft \<times> rep_ctl) option" where
  "replicate_snapshot_reply ev rf peer args reply =
     (if killed rf \<or> isrStopped reply then Some (rf, CtlReturn)
      else if isrTerm reply > currentTerm rf then do {
        rf \<leftarrow> becomeFollowerLocked rf (isrTerm reply);
        Some (resetElectionDeadlineLocked ev rf, CtlReturn)
      }
      else if rstate rf \<noteq> Leader \<or> currentTerm rf \<noteq> isTerm args then Some (rf, CtlReturn)
      else do {
        mi \<leftarrow> go_index (matchIndex rf) peer;
        ms \<leftarrow> (if isLastIncludedIndex args > mi
              then go_store (matchIndex rf) peer (isLastIncludedIndex args)
              else Some (matchIndex rf));
        ni \<leftarrow> go_index (nextIndex rf) peer;
        ns \<leftarrow> (if isLastIncludedIndex args + 1 > ni
              then go_store (nextIndex rf) peer (isLastIncludedIndex args + 1)
              else Some (nextIndex rf));
        Some (rf\<lparr>matchIndex := ms, nextIndex := ns\<rparr>, CtlContinue)
      })"

text \<open>
  The new \<^verbatim>\<open>nextIndex\<close> after a conflict: the follower's hint, the leader's own last entry of the
  conflicting term if it has one, and the three clamps.
\<close>

definition backoffNext :: "'c raft \<Rightarrow> int \<Rightarrow> append_reply \<Rightarrow> int" where
  "backoffNext rf mi reply =
     (let newNext = aerConflictIndex reply;
          lastIndex = lastIndexOfTermLocked rf (aerConflictTerm reply);
          newNext = (if aerConflictTerm reply \<noteq> -1 \<and> lastIndex \<ge> 0 then lastIndex + 1 else newNext);
          newNext = (if newNext < 1 then 1 else newNext);
          maxNext = lastLogIndexLocked rf + 1;
          newNext = (if newNext > maxNext then maxNext else newNext);
          minNext = mi + 1
      in if newNext < minNext then minNext else newNext)"

text \<open>
  The handling of an \<^verbatim>\<open>AppendEntries\<close> reply; the result says whether \<^verbatim>\<open>commitIndex\<close> moved (the
  caller then broadcasts) and whether the loop goes on.
\<close>

definition replicate_append_reply ::
  "go_env \<Rightarrow> 'c raft \<Rightarrow> int \<Rightarrow> 'c append_args \<Rightarrow> append_reply \<Rightarrow> ('c raft \<times> bool \<times> rep_ctl) option" where
  "replicate_append_reply ev rf peer args reply =
     (if killed rf \<or> aerStopped reply then Some (rf, False, CtlReturn)
      else if aerTerm reply > currentTerm rf then do {
        rf \<leftarrow> becomeFollowerLocked rf (aerTerm reply);
        Some (resetElectionDeadlineLocked ev rf, False, CtlReturn)
      }
      else if rstate rf \<noteq> Leader \<or> currentTerm rf \<noteq> aeTerm args then Some (rf, False, CtlReturn)
      else if aerSuccess reply then do {
        let through = aePrevLogIndex args + int (length (aeEntries args));
        oldMatch \<leftarrow> go_index (matchIndex rf) peer;
        ms \<leftarrow> (if through > oldMatch then go_store (matchIndex rf) peer through
              else Some (matchIndex rf));
        ni \<leftarrow> go_index (nextIndex rf) peer;
        ns \<leftarrow> (if through + 1 > ni then go_store (nextIndex rf) peer (through + 1)
              else Some (nextIndex rf));
        let rf = rf\<lparr>matchIndex := ms, nextIndex := ns\<rparr>;
        newMatch \<leftarrow> go_index (matchIndex rf) peer;
        (rf, commitAdvanced) \<leftarrow>
          (if newMatch > oldMatch then advanceCommitIndexLocked rf else Some (rf, False));
        newNext \<leftarrow> go_index (nextIndex rf) peer;
        Some (rf, commitAdvanced,
              if newNext > lastLogIndexLocked rf then CtlReturn else CtlContinue)
      }
      else do {
        ni \<leftarrow> go_index (nextIndex rf) peer;
        if ni \<noteq> aePrevLogIndex args + 1 then Some (rf, False, CtlReturn)
        else do {
          mi \<leftarrow> go_index (matchIndex rf) peer;
          ns \<leftarrow> go_store (nextIndex rf) peer (backoffNext rf mi reply);
          Some (rf\<lparr>nextIndex := ns\<rparr>, False, CtlContinue)
        }
      })"

text \<open>The same with the broadcast that follows when \<^verbatim>\<open>commitIndex\<close> moved.\<close>

definition replicate_append_done ::
  "go_env \<Rightarrow> 'c raft \<Rightarrow> int \<Rightarrow> 'c append_args \<Rightarrow> append_reply \<Rightarrow> ('c raft \<times> rep_ctl) option" where
  "replicate_append_done ev rf peer args reply = do {
     (rf, commitAdvanced, ctl) \<leftarrow> replicate_append_reply ev rf peer args reply;
     rf \<leftarrow> (if commitAdvanced then broadcastAppendEntries rf else Some rf);
     Some (rf, ctl)
   }"

text \<open>\<^verbatim>\<open>replicationWorker\<close>: what it does under the lock before and after the replication.\<close>

definition replicationWorker_begin :: "'c raft \<Rightarrow> int \<Rightarrow> ('c raft \<times> bool) option" where
  "replicationWorker_begin rf peer = do {
     nt \<leftarrow> go_store (replicateNotify rf) peer False;
     let rf = rf\<lparr>replicateNotify := nt\<rparr>;
     if killed rf then Some (rf, False)
     else do {
       b \<leftarrow> go_store (replicateBusy rf) peer True;
       Some (rf\<lparr>replicateBusy := b\<rparr>, True)
     }
   }"

definition replicationWorker_end :: "'c raft \<Rightarrow> int \<Rightarrow> 'c raft option" where
  "replicationWorker_end rf peer = do {
     b \<leftarrow> go_store (replicateBusy rf) peer False;
     Some (rf\<lparr>replicateBusy := b\<rparr>)
   }"

section \<open>Heartbeats\<close>

text \<open>\<^verbatim>\<open>sendIndependentHeartbeat\<close> after its RPC returned.\<close>

definition heartbeat_reply :: "go_env \<Rightarrow> 'c raft \<Rightarrow> append_reply \<Rightarrow> 'c raft option" where
  "heartbeat_reply ev rf reply =
     (if killed rf then Some rf
      else if aerTerm reply > currentTerm rf then do {
        rf \<leftarrow> becomeFollowerLocked rf (aerTerm reply);
        Some (resetElectionDeadlineLocked ev rf)
      }
      else Some rf)"

text \<open>
  The loop of \<^verbatim>\<open>heartbeatOrNotifyReplication\<close> over the peers: the heartbeats to send and the peers
  for which a catch-up replication is started.
\<close>

primrec heartbeatLoop ::
  "go_env \<Rightarrow> int list \<Rightarrow> 'c raft \<Rightarrow> ('c raft \<times> (int \<times> 'c append_args) list \<times> int list) option" where
  "heartbeatLoop ev [] rf = Some (rf, [], [])"
| "heartbeatLoop ev (peer # peers) rf =
     (if peer = me rf then heartbeatLoop ev peers rf
      else do {
        busy \<leftarrow> go_index (replicateBusy rf) peer;
        if \<not> busy then do {
          nt \<leftarrow> go_store (replicateNotify rf) peer True;
          heartbeatLoop ev peers (rf\<lparr>replicateNotify := nt\<rparr>)
        }
        else do {
          prevLogTerm \<leftarrow> lastLogTermLocked rf;
          let task = (peer, \<lparr>aeTerm = currentTerm rf, aeLeaderId = me rf,
                             aePrevLogIndex = lastLogIndexLocked rf, aePrevLogTerm = prevLogTerm,
                             aeEntries = [], aeLeaderCommit = commitIndex rf\<rparr>);
          sent \<leftarrow> go_index (lastRescueSent rf) peer;
          if now ev - sent \<ge> 500 * 1000000 then do {
            ls \<leftarrow> go_store (lastRescueSent rf) peer (now ev);
            (rf, tasks, rescue) \<leftarrow> heartbeatLoop ev peers (rf\<lparr>lastRescueSent := ls\<rparr>);
            Some (rf, task # tasks, peer # rescue)
          }
          else do {
            (rf, tasks, rescue) \<leftarrow> heartbeatLoop ev peers rf;
            Some (rf, task # tasks, rescue)
          }
        }
      })"

definition heartbeatOrNotifyReplication ::
  "go_env \<Rightarrow> 'c raft \<Rightarrow> ('c raft \<times> (int \<times> 'c append_args) list \<times> int list) option" where
  "heartbeatOrNotifyReplication ev rf =
     (if killed rf \<or> rstate rf \<noteq> Leader then Some (rf, [], [])
      else do {
        (rf, tasks, rescuePeers) \<leftarrow> heartbeatLoop ev (peerIds rf) rf;
        Some (launchAll (length tasks + length rescuePeers) rf, tasks, rescuePeers)
      })"

section \<open>Start and Snapshot\<close>

definition Start :: "'c codec \<Rightarrow> 'c raft \<Rightarrow> 'c \<Rightarrow> ('c raft \<times> int \<times> int \<times> bool) option" where
  "Start cd rf command =
     (let term = currentTerm rf in
      if killed rf \<or> rstate rf \<noteq> Leader then Some (rf, -1, term, False)
      else do {
        let index = lastLogIndexLocked rf + 1;
        rf \<leftarrow> appendLogs cd rf [\<lparr>eTerm = term, eCommand = Some command\<rparr>];
        rf \<leftarrow> persist rf;
        ms \<leftarrow> go_store (matchIndex rf) (me rf) index;
        ns \<leftarrow> go_store (nextIndex rf) (me rf) (index + 1);
        let rf = rf\<lparr>matchIndex := ms, nextIndex := ns\<rparr>;
        rf \<leftarrow> (if npeers rf = 1 then map_option fst (advanceCommitIndexLocked rf) else Some rf);
        rf \<leftarrow> broadcastAppendEntries rf;
        Some (rf, index, term, True)
      })"

definition Snapshot :: "'c codec \<Rightarrow> 'c raft \<Rightarrow> int \<Rightarrow> bytes \<Rightarrow> 'c raft option" where
  "Snapshot cd rf index data =
     (if killed rf then Some rf
      else if index \<le> lastIncludedIndex rf then Some rf
      else if index > lastApplied rf \<or> index > lastLogIndexLocked rf then Some rf
      else do {
        let cut = index - lastIncludedIndex rf;
        boundary \<leftarrow> go_index (logs rf) cut;
        tail \<leftarrow> go_from (logs rf) (cut + 1);
        let newLogs = \<lparr>eTerm = eTerm boundary, eCommand = None\<rparr> # tail;
        let rf = rf\<lparr>lastIncludedIndex := index, lastIncludedTerm := eTerm boundary\<rparr>;
        rf \<leftarrow> replaceLogs cd rf newLogs;
        persist (rf\<lparr>snapshot := data\<rparr>)
      })"

section \<open>Elections\<close>

definition RequestVote ::
  "go_env \<Rightarrow> 'c raft \<Rightarrow> vote_args \<Rightarrow> ('c raft \<times> vote_reply) option" where
  "RequestVote ev rf args = do {
     let myLastLogIndex = lastLogIndexLocked rf;
     myLastLogTerm \<leftarrow> lastLogTermLocked rf;
     if killed rf then Some (rf, \<lparr>rvrTerm = currentTerm rf, rvrVoteGranted = False\<rparr>)
     else if rvTerm args < currentTerm rf
     then Some (rf, \<lparr>rvrTerm = currentTerm rf, rvrVoteGranted = False\<rparr>)
     else do {
       rf \<leftarrow> (if rvTerm args > currentTerm rf then becomeFollowerLocked rf (rvTerm args)
             else Some rf);
       let canVote = (votedFor rf = -1 \<or> votedFor rf = rvCandidateId args);
       let upToDate = (rvLastLogTerm args > myLastLogTerm \<or>
             (rvLastLogTerm args = myLastLogTerm \<and> rvLastLogIndex args \<ge> myLastLogIndex));
       if canVote \<and> upToDate then do {
         let rf = resetElectionDeadlineLocked ev (rf\<lparr>votedFor := rvCandidateId args\<rparr>);
         rf \<leftarrow> persist rf;
         Some (rf, \<lparr>rvrTerm = currentTerm rf, rvrVoteGranted = True\<rparr>)
       }
       else Some (rf, \<lparr>rvrTerm = currentTerm rf, rvrVoteGranted = False\<rparr>)
     }
   }"

text \<open>The test that \<^verbatim>\<open>ticker\<close> makes every ten milliseconds.\<close>

definition ticker_shouldStart :: "go_env \<Rightarrow> 'c raft \<Rightarrow> bool" where
  "ticker_shouldStart ev rf \<longleftrightarrow>
     \<not> killed rf \<and> rstate rf \<noteq> Leader \<and> \<not> now ev < electionDeadline rf"

text \<open>
  \<^verbatim>\<open>startElection\<close>: the state afterwards and the requests its goroutines send. The vote counter
  that the goroutines share starts at one.
\<close>

definition startElection :: "go_env \<Rightarrow> 'c raft \<Rightarrow> ('c raft \<times> (int \<times> vote_args) list) option" where
  "startElection ev rf =
     (if killed rf \<or> rstate rf = Leader \<or> now ev < electionDeadline rf then Some (rf, [])
      else do {
        rf \<leftarrow> persist (rf\<lparr>rstate := Candidate, currentTerm := currentTerm rf + 1,
                          votedFor := me rf\<rparr>);
        let term = currentTerm rf;
        let lastLogIndex = lastLogIndexLocked rf;
        lastLogTerm \<leftarrow> lastLogTermLocked rf;
        let rf = resetElectionDeadlineLocked ev rf;
        if 1 \<ge> majority (npeers rf) then do {
          rf \<leftarrow> becomeLeaderLocked rf;
          rf \<leftarrow> broadcastAppendEntries rf;
          Some (rf, [])
        }
        else do {
          let reqs = [(i, \<lparr>rvTerm = term, rvCandidateId = me rf, rvLastLogIndex = lastLogIndex,
                           rvLastLogTerm = lastLogTerm\<rparr>). i \<leftarrow> peerIds rf, i \<noteq> me rf];
          Some (launchAll (length reqs) rf, reqs)
        }
      })"

text \<open>
  One goroutine of \<^verbatim>\<open>startElection\<close> after its RPC returned: \<open>votes\<close> is the shared counter,
  \<open>term\<close> the term of the election.
\<close>

definition election_reply ::
  "go_env \<Rightarrow> 'c raft \<Rightarrow> nat \<Rightarrow> int \<Rightarrow> vote_reply \<Rightarrow> ('c raft \<times> nat) option" where
  "election_reply ev rf votes term reply =
     (if killed rf then Some (rf, votes)
      else if rvrTerm reply > currentTerm rf then do {
        rf \<leftarrow> becomeFollowerLocked rf (rvrTerm reply);
        Some (resetElectionDeadlineLocked ev rf, votes)
      }
      else if rstate rf \<noteq> Candidate \<or> currentTerm rf \<noteq> term then Some (rf, votes)
      else if \<not> rvrVoteGranted reply then Some (rf, votes)
      else if votes + 1 \<ge> majority (npeers rf) then do {
        rf \<leftarrow> becomeLeaderLocked rf;
        rf \<leftarrow> broadcastAppendEntries rf;
        Some (rf, votes + 1)
      }
      else Some (rf, votes + 1))"

section \<open>Creation\<close>

definition Make ::
  "'c codec \<Rightarrow> go_env \<Rightarrow> nat \<Rightarrow> int \<Rightarrow> persister \<Rightarrow> 'c raft option" where
  "Make cd ev n self ps = do {
     let rf = \<lparr>npeers = n, persister = ps, encodedLogs = [], me = self, dead = False,
               rdone = False, rstopped = False, workers = 0, currentTerm = 0, votedFor = -1,
               logs = [\<lparr>eTerm = 0, eCommand = None\<rparr>], nextIndex = [], matchIndex = [],
               rstate = Follower, electionDeadline = 0, commitIndex = 0, lastApplied = 0,
               replicateNotify = [], replicateBusy = [], lastRescueSent = [],
               lastIncludedIndex = 0, lastIncludedTerm = 0, snapshot = [],
               pendingSnapshot = None\<rparr>;
     rf \<leftarrow> rebuildEncodedLogs cd rf;
     rf \<leftarrow> readPersist cd rf (ReadRaftState ps);
     let rf = rf\<lparr>snapshot := ReadSnapshot ps\<rparr>;
     let rf = rf\<lparr>commitIndex := lastIncludedIndex rf, lastApplied := lastIncludedIndex rf,
                 electionDeadline := now ev + randomElectionTimeout ev,
                 replicateNotify := replicate n False, replicateBusy := replicate n False,
                 lastRescueSent := replicate n 0\<rparr>;
     Some (launchAll (length [p. p \<leftarrow> peerIds rf, p \<noteq> me rf] + 3) rf)
   }"

end
