(* ===== verification/Raft_Inv.thy ===== *)
theory Raft_Inv
  imports Raft_Node
begin

text \<open>
  The well-formedness of one node and the behaviour of each critical section on it: no section
  panics, every section keeps the invariant, and the log operations have the expected effect.
\<close>

section \<open>Merging entries\<close>

text \<open>
  A reference for the merge loop on plain lists: from offset \<open>k\<close>, keep what agrees in term, cut at
  the first disagreement, append what is left.
\<close>

fun merge_logs :: "'c log_entry list \<Rightarrow> nat \<Rightarrow> 'c log_entry list \<Rightarrow> 'c log_entry list" where
  "merge_logs xs k [] = xs"
| "merge_logs xs k (e # es) =
     (if k < length xs
      then if eTerm (xs ! k) = eTerm e then merge_logs xs (Suc k) es else take k xs @ e # es
      else xs @ e # es)"

lemma merge_logs_take: "k \<le> length xs \<Longrightarrow> take k (merge_logs xs k es) = take k xs"
proof (induction xs k es rule: merge_logs.induct)
  case (2 xs k e es)
  show ?case
  proof (cases "k < length xs \<and> eTerm (xs ! k) = eTerm e")
    case True
    then have "take (Suc k) (merge_logs xs (Suc k) es) = take (Suc k) xs"
      using "2.IH" by simp
    then show ?thesis using True take_eq_mono [of "Suc k" _ _ k] by simp
  next
    case False
    then show ?thesis using "2.prems" by auto
  qed
qed simp

lemma merge_logs_length: "k \<le> length xs \<Longrightarrow> k + length es \<le> length (merge_logs xs k es)"
  by (induction xs k es rule: merge_logs.induct) auto

lemma merge_logs_terms:
  "k \<le> length xs \<Longrightarrow> i < length es \<Longrightarrow> eTerm (merge_logs xs k es ! (k + i)) = eTerm (es ! i)"
proof (induction xs k es arbitrary: i rule: merge_logs.induct)
  case (2 xs k e es)
  show ?case
  proof (cases "k < length xs \<and> eTerm (xs ! k) = eTerm e")
    case True
    show ?thesis
    proof (cases i)
      case 0
      have "merge_logs xs (Suc k) es ! k = xs ! k"
        using True merge_logs_take [of "Suc k" xs es] by (intro nth_eq_of_take_eq [of "Suc k"]) auto
      with True 0 show ?thesis by simp
    next
      case (Suc j)
      with True "2.prems" "2.IH" [of j] show ?thesis by simp
    qed
  next
    case False
    then show ?thesis using "2.prems" by (auto simp: nth_append min_def)
  qed
qed simp

text \<open>Entries that agree with the log leave it alone, up to what extends it.\<close>

lemma merge_logs_agree:
  assumes "k \<le> length xs"
    and "\<And>i. i < length es \<Longrightarrow> k + i < length xs \<Longrightarrow> eTerm (xs ! (k + i)) = eTerm (es ! i)"
  shows "merge_logs xs k es = xs @ drop (length xs - k) es"
  using assms
proof (induction xs k es rule: merge_logs.induct)
  case (2 xs k e es)
  show ?case
  proof (cases "k < length xs")
    case True
    have e: "eTerm (xs ! k) = eTerm e" using "2.prems"(2) [of 0] True by simp
    have "merge_logs xs (Suc k) es = xs @ drop (length xs - Suc k) es"
      using True e "2.prems"(2) [of "Suc _"] by (intro "2.IH") auto
    moreover have "length xs - k = Suc (length xs - Suc k)" using True by simp
    ultimately show ?thesis using True e by simp
  next
    case False
    with "2.prems"(1) show ?thesis by simp
  qed
qed simp

text \<open>Everything below the first disagreement survives.\<close>

lemma merge_logs_keep:
  assumes "k \<le> length xs" "m \<le> length xs"
    and "\<And>i. i < length es \<Longrightarrow> k + i < m \<Longrightarrow> eTerm (xs ! (k + i)) = eTerm (es ! i)"
  shows "take m (merge_logs xs k es) = take m xs"
  using assms
proof (induction xs k es rule: merge_logs.induct)
  case (2 xs k e es)
  show ?case
  proof (cases "k < length xs")
    case True
    show ?thesis
    proof (cases "eTerm (xs ! k) = eTerm e")
      case e: True
      have "take m (merge_logs xs (Suc k) es) = take m xs"
        using True e "2.prems"(2) "2.prems"(3) [of "Suc _"] by (intro "2.IH") auto
      with True e show ?thesis by simp
    next
      case False
      then have "m \<le> k" using "2.prems"(3) [of 0] by force
      with False True show ?thesis by (simp add: min_def)
    qed
  next
    case False
    with "2.prems" show ?thesis by simp
  qed
qed simp

section \<open>The invariant of a node\<close>

text \<open>
  \<open>node_ok\<close> is the type invariant of the struct; \<open>saved_ok\<close> says that the persister
  holds the durable fields as they are now (a node that never saved has the initial ones).
\<close>

definition node_ok :: "'c codec \<Rightarrow> 'c raft \<Rightarrow> bool" where
  "node_ok cd rf \<longleftrightarrow>
     0 \<le> me rf \<and> me rf < int (npeers rf) \<and>
     logs rf \<noteq> [] \<and> cache_ok cd rf \<and>
     0 \<le> lastIncludedIndex rf \<and> lastIncludedTerm rf = eTerm (hd (logs rf)) \<and>
     lastIncludedIndex rf \<le> lastApplied rf \<and> lastApplied rf \<le> commitIndex rf \<and>
     commitIndex rf \<le> lastLogIndexLocked rf \<and>
     length (replicateNotify rf) = npeers rf \<and> length (replicateBusy rf) = npeers rf \<and>
     length (lastRescueSent rf) = npeers rf \<and>
     (rstate rf = Leader \<longrightarrow>
        length (nextIndex rf) = npeers rf \<and> length (matchIndex rf) = npeers rf) \<and>
     (\<forall>m. pendingSnapshot rf = Some m \<longrightarrow> SnapshotIndex m \<le> commitIndex rf \<and> \<not> CommandValid m)"

definition fresh_durable :: "'c raft \<Rightarrow> bool" where
  "fresh_durable rf \<longleftrightarrow>
     currentTerm rf = 0 \<and> votedFor rf = -1 \<and> logs rf = [\<lparr>eTerm = 0, eCommand = None\<rparr>] \<and>
     lastIncludedIndex rf = 0 \<and> lastIncludedTerm rf = 0"

definition saved_ok :: "'c raft \<Rightarrow> bool" where
  "saved_ok rf \<longleftrightarrow>
     psnapshot (persister rf) = snapshot rf \<and>
     (raftstate (persister rf) = persist_bytes rf \<or>
      raftstate (persister rf) = [] \<and> fresh_durable rf)"

definition raft_inv :: "'c codec \<Rightarrow> 'c raft \<Rightarrow> bool" where
  "raft_inv cd rf \<longleftrightarrow> node_ok cd rf \<and> saved_ok rf"

lemmas inv_defs = raft_inv_def node_ok_def saved_ok_def

text \<open>Fields that the bytes on disk and the cache do not depend on.\<close>

lemma persist_bytes_frame [simp]:
  "persist_bytes (rf\<lparr>persister := p\<rparr>) = persist_bytes rf"
  "persist_bytes (rf\<lparr>rstate := r\<rparr>) = persist_bytes rf"
  "persist_bytes (rf\<lparr>electionDeadline := d\<rparr>) = persist_bytes rf"
  "persist_bytes (rf\<lparr>commitIndex := c\<rparr>) = persist_bytes rf"
  "persist_bytes (rf\<lparr>lastApplied := c\<rparr>) = persist_bytes rf"
  "persist_bytes (rf\<lparr>nextIndex := ns\<rparr>) = persist_bytes rf"
  "persist_bytes (rf\<lparr>matchIndex := ns\<rparr>) = persist_bytes rf"
  "persist_bytes (rf\<lparr>replicateNotify := nt\<rparr>) = persist_bytes rf"
  "persist_bytes (rf\<lparr>replicateBusy := nt\<rparr>) = persist_bytes rf"
  "persist_bytes (rf\<lparr>lastRescueSent := ls\<rparr>) = persist_bytes rf"
  "persist_bytes (rf\<lparr>snapshot := sn\<rparr>) = persist_bytes rf"
  "persist_bytes (rf\<lparr>pendingSnapshot := ps\<rparr>) = persist_bytes rf"
  "persist_bytes (rf\<lparr>workers := w\<rparr>) = persist_bytes rf"
  "persist_bytes (rf\<lparr>dead := b\<rparr>) = persist_bytes rf"
  "persist_bytes (rf\<lparr>rdone := b\<rparr>) = persist_bytes rf"
  "persist_bytes (rf\<lparr>rstopped := b\<rparr>) = persist_bytes rf"
  by (simp_all add: persist_bytes_def)

lemma cache_ok_cong:
  "encodedLogs rf' = encodedLogs rf \<Longrightarrow> logs rf' = logs rf \<Longrightarrow> cache_ok cd rf' = cache_ok cd rf"
  by (simp add: cache_ok_def)

definition saved :: "'c raft \<Rightarrow> 'c raft" where
  "saved rf = rf\<lparr>persister := Save (persister rf) (persist_bytes rf) (snapshot rf)\<rparr>"

lemma persist_saved: "cache_ok cd rf \<Longrightarrow> persist rf = Some (saved rf)"
  by (simp add: persist_Some saved_def)

lemma saved_ok_saved [simp]: "saved_ok (saved rf)"
  by (simp add: saved_ok_def saved_def Save_def)

lemma saved_simps [simp]:
  "npeers (saved rf) = npeers rf" "me (saved rf) = me rf" "logs (saved rf) = logs rf"
  "encodedLogs (saved rf) = encodedLogs rf" "dead (saved rf) = dead rf"
  "currentTerm (saved rf) = currentTerm rf" "votedFor (saved rf) = votedFor rf"
  "nextIndex (saved rf) = nextIndex rf" "matchIndex (saved rf) = matchIndex rf"
  "rstate (saved rf) = rstate rf" "commitIndex (saved rf) = commitIndex rf"
  "lastApplied (saved rf) = lastApplied rf" "replicateNotify (saved rf) = replicateNotify rf"
  "replicateBusy (saved rf) = replicateBusy rf" "lastRescueSent (saved rf) = lastRescueSent rf"
  "lastIncludedIndex (saved rf) = lastIncludedIndex rf"
  "lastIncludedTerm (saved rf) = lastIncludedTerm rf" "snapshot (saved rf) = snapshot rf"
  "pendingSnapshot (saved rf) = pendingSnapshot rf"
  "electionDeadline (saved rf) = electionDeadline rf" "killed (saved rf) = killed rf"
  "lastLogIndexLocked (saved rf) = lastLogIndexLocked rf"
  by (simp_all add: saved_def killed_def lastLogIndexLocked_def)

text \<open>
  Two states with the same durable fields and persister are saved alike; a volatile change keeps
  \<open>saved_ok\<close>.
\<close>

lemma saved_ok_cong:
  "\<lbrakk>persister rf' = persister rf; snapshot rf' = snapshot rf; currentTerm rf' = currentTerm rf;
    votedFor rf' = votedFor rf; logs rf' = logs rf; encodedLogs rf' = encodedLogs rf;
    lastIncludedIndex rf' = lastIncludedIndex rf; lastIncludedTerm rf' = lastIncludedTerm rf\<rbrakk>
   \<Longrightarrow> saved_ok rf' = saved_ok rf"
  by (simp add: saved_ok_def persist_bytes_def fresh_durable_def)

lemma cache_ok_saved [simp]: "cache_ok cd (saved rf) = cache_ok cd rf"
  by (simp add: cache_ok_def)

lemma node_ok_saved [simp]: "node_ok cd (saved rf) = node_ok cd rf"
  by (simp add: node_ok_def)

section \<open>Hearing of a term\<close>

text \<open>The state after \<^verbatim>\<open>becomeFollowerLocked\<close>, and with the election timer reset.\<close>

definition follow :: "'c raft \<Rightarrow> int \<Rightarrow> 'c raft" where
  "follow rf t =
     (if t > currentTerm rf then (saved (rf\<lparr>currentTerm := t, votedFor := -1\<rparr>))\<lparr>rstate := Follower\<rparr>
      else rf\<lparr>rstate := Follower\<rparr>)"

definition heard :: "go_env \<Rightarrow> 'c raft \<Rightarrow> int \<Rightarrow> 'c raft" where
  "heard ev rf t = resetElectionDeadlineLocked ev (follow rf t)"

lemma becomeFollowerLocked_eq:
  "cache_ok cd rf \<Longrightarrow> becomeFollowerLocked rf t = Some (follow rf t)"
  by (auto simp: becomeFollowerLocked_def follow_def cache_ok_def intro!: persist_saved)
    (simp add: persist_def saved_def list_all2_lengthD)

lemma follow_simps [simp]:
  "npeers (follow rf t) = npeers rf" "me (follow rf t) = me rf" "logs (follow rf t) = logs rf"
  "encodedLogs (follow rf t) = encodedLogs rf" "dead (follow rf t) = dead rf"
  "currentTerm (follow rf t) = max t (currentTerm rf)"
  "votedFor (follow rf t) = (if t > currentTerm rf then -1 else votedFor rf)"
  "rstate (follow rf t) = Follower"
  "nextIndex (follow rf t) = nextIndex rf" "matchIndex (follow rf t) = matchIndex rf"
  "commitIndex (follow rf t) = commitIndex rf" "lastApplied (follow rf t) = lastApplied rf"
  "replicateNotify (follow rf t) = replicateNotify rf"
  "replicateBusy (follow rf t) = replicateBusy rf"
  "lastRescueSent (follow rf t) = lastRescueSent rf"
  "lastIncludedIndex (follow rf t) = lastIncludedIndex rf"
  "lastIncludedTerm (follow rf t) = lastIncludedTerm rf" "snapshot (follow rf t) = snapshot rf"
  "pendingSnapshot (follow rf t) = pendingSnapshot rf" "killed (follow rf t) = killed rf"
  "lastLogIndexLocked (follow rf t) = lastLogIndexLocked rf"
  by (auto simp: follow_def killed_def lastLogIndexLocked_def)

lemma cache_ok_follow [simp]: "cache_ok cd (follow rf t) = cache_ok cd rf"
  by (simp add: cache_ok_def)

lemma node_ok_follow: "node_ok cd rf \<Longrightarrow> node_ok cd (follow rf t)"
  by (auto simp: node_ok_def)

lemma saved_ok_follow: "saved_ok rf \<Longrightarrow> saved_ok (follow rf t)"
proof (cases "t > currentTerm rf")
  case True
  have "saved_ok (follow rf t) = saved_ok (saved (rf\<lparr>currentTerm := t, votedFor := -1\<rparr>))"
    using True by (intro saved_ok_cong) (simp_all add: follow_def)
  then show ?thesis by simp
next
  case False
  assume "saved_ok rf"
  moreover have "saved_ok (follow rf t) = saved_ok rf"
    using False by (intro saved_ok_cong) (simp_all add: follow_def)
  ultimately show ?thesis by simp
qed

lemma follow_inv: "raft_inv cd rf \<Longrightarrow> raft_inv cd (follow rf t)"
  by (simp add: raft_inv_def node_ok_follow saved_ok_follow)

text \<open>
  A change of volatile fields only: the invariant of the node has to be shown again, what is on
  disk stays right.
\<close>

lemma reset_simps [simp]:
  "npeers (resetElectionDeadlineLocked ev rf) = npeers rf"
  "me (resetElectionDeadlineLocked ev rf) = me rf"
  "logs (resetElectionDeadlineLocked ev rf) = logs rf"
  "encodedLogs (resetElectionDeadlineLocked ev rf) = encodedLogs rf"
  "dead (resetElectionDeadlineLocked ev rf) = dead rf"
  "persister (resetElectionDeadlineLocked ev rf) = persister rf"
  "currentTerm (resetElectionDeadlineLocked ev rf) = currentTerm rf"
  "votedFor (resetElectionDeadlineLocked ev rf) = votedFor rf"
  "rstate (resetElectionDeadlineLocked ev rf) = rstate rf"
  "nextIndex (resetElectionDeadlineLocked ev rf) = nextIndex rf"
  "matchIndex (resetElectionDeadlineLocked ev rf) = matchIndex rf"
  "commitIndex (resetElectionDeadlineLocked ev rf) = commitIndex rf"
  "lastApplied (resetElectionDeadlineLocked ev rf) = lastApplied rf"
  "replicateNotify (resetElectionDeadlineLocked ev rf) = replicateNotify rf"
  "replicateBusy (resetElectionDeadlineLocked ev rf) = replicateBusy rf"
  "lastRescueSent (resetElectionDeadlineLocked ev rf) = lastRescueSent rf"
  "lastIncludedIndex (resetElectionDeadlineLocked ev rf) = lastIncludedIndex rf"
  "lastIncludedTerm (resetElectionDeadlineLocked ev rf) = lastIncludedTerm rf"
  "snapshot (resetElectionDeadlineLocked ev rf) = snapshot rf"
  "pendingSnapshot (resetElectionDeadlineLocked ev rf) = pendingSnapshot rf"
  "killed (resetElectionDeadlineLocked ev rf) = killed rf"
  "lastLogIndexLocked (resetElectionDeadlineLocked ev rf) = lastLogIndexLocked rf"
  by (simp_all add: resetElectionDeadlineLocked_def killed_def lastLogIndexLocked_def)

lemma reset_inv: "raft_inv cd (resetElectionDeadlineLocked ev rf) = raft_inv cd rf"
proof -
  have "saved_ok (resetElectionDeadlineLocked ev rf) = saved_ok rf" by (intro saved_ok_cong) simp_all
  then show ?thesis by (simp add: raft_inv_def node_ok_def cache_ok_def)
qed

lemma heard_inv: "raft_inv cd rf \<Longrightarrow> raft_inv cd (heard ev rf t)"
  by (simp add: heard_def reset_inv follow_inv)

lemma raft_inv_cache: "raft_inv cd rf \<Longrightarrow> cache_ok cd rf"
  by (simp add: raft_inv_def node_ok_def)

lemma raft_inv_logs: "raft_inv cd rf \<Longrightarrow> logs rf \<noteq> []"
  by (simp add: raft_inv_def node_ok_def)

section \<open>AppendEntries\<close>

lemma mergeEntries_eq:
  assumes "codec_ok cd" "cache_ok cd rf" "k \<le> length (logs rf)" "0 < k"
  shows "\<exists>enc ch. mergeEntries cd rf (lastIncludedIndex rf + int k) es =
      Some (rf\<lparr>logs := merge_logs (logs rf) k es, encodedLogs := enc\<rparr>, ch)
    \<and> cache_ok cd (rf\<lparr>logs := merge_logs (logs rf) k es, encodedLogs := enc\<rparr>)
    \<and> (\<not> ch \<longrightarrow> merge_logs (logs rf) k es = logs rf \<and> enc = encodedLogs rf)"
  using assms(3,4)
proof (induction es arbitrary: k)
  case Nil
  then show ?case
    using assms(2) by (intro exI [of _ "encodedLogs rf"] exI [of _ False]) simp
next
  case (Cons e es)
  consider (agree) "k < length (logs rf)" "eTerm (logs rf ! k) = eTerm e"
    | (cut) "k < length (logs rf)" "eTerm (logs rf ! k) \<noteq> eTerm e"
    | (past) "k = length (logs rf)"
    using Cons.prems by linarith
  then show ?case
  proof cases
    case agree
    have "mergeEntries cd rf (lastIncludedIndex rf + int k) (e # es) =
        mergeEntries cd rf (lastIncludedIndex rf + int (Suc k)) es"
      and "merge_logs (logs rf) k (e # es) = merge_logs (logs rf) (Suc k) es"
      using agree by (simp_all add: termAtLocked_eq lastLogIndexLocked_def algebra_simps)
    with agree Cons.IH [of "Suc k"] show ?thesis by (simp only: Suc_le_eq zero_less_Suc)
  next
    case cut
    let ?rf = "rf\<lparr>logs := take k (logs rf), encodedLogs := take k (encodedLogs rf)\<rparr>"
    have t: "truncateLogs rf (int k) = Some ?rf" "cache_ok cd ?rf"
      using truncateLogs_Some [OF assms(2), of "int k"] cut(1) by simp_all
    obtain bs where "appendLogs cd ?rf (e # es) =
        Some (?rf\<lparr>logs := logs ?rf @ e # es, encodedLogs := encodedLogs ?rf @ bs\<rparr>)"
      and "cache_ok cd (?rf\<lparr>logs := logs ?rf @ e # es, encodedLogs := encodedLogs ?rf @ bs\<rparr>)"
      using appendLogs_Some [OF assms(1) t(2)] by blast
    with cut t(1) show ?thesis
      by (intro exI [of _ "take k (encodedLogs rf) @ bs"] exI [of _ True])
        (simp add: termAtLocked_eq lastLogIndexLocked_def toOffsetLocked_def)
  next
    case past
    obtain bs where "appendLogs cd rf (e # es) =
        Some (rf\<lparr>logs := logs rf @ e # es, encodedLogs := encodedLogs rf @ bs\<rparr>)"
      and "cache_ok cd (rf\<lparr>logs := logs rf @ e # es, encodedLogs := encodedLogs rf @ bs\<rparr>)"
      using appendLogs_Some [OF assms(1,2)] by blast
    with past show ?thesis
      by (intro exI [of _ "encodedLogs rf @ bs"] exI [of _ True])
        (simp add: lastLogIndexLocked_def)
  qed
qed

lemma conflictScan_spec:
  assumes "n \<le> k" "k < length (logs rf)" "eTerm (logs rf ! k) = ct"
  shows "\<exists>j \<le> k. conflictScan rf ct n (lastIncludedIndex rf + int k) = Some (lastIncludedIndex rf + int j)
    \<and> (\<forall>i. j \<le> i \<and> i \<le> k \<longrightarrow> eTerm (logs rf ! i) = ct)
    \<and> (j + n = k \<or> (0 < j \<and> eTerm (logs rf ! (j - 1)) \<noteq> ct))"
  using assms
proof (induction n arbitrary: k)
  case 0
  then show ?case by auto
next
  case (Suc n)
  then obtain k' where k: "k = Suc k'" by (cases k) auto
  show ?case
  proof (cases "eTerm (logs rf ! k') = ct")
    case True
    have "conflictScan rf ct (Suc n) (lastIncludedIndex rf + int k) =
        conflictScan rf ct n (lastIncludedIndex rf + int k')"
      using True Suc.prems k by (simp add: termAtLocked_eq)
    moreover obtain j where "j \<le> k'" and j: "conflictScan rf ct n (lastIncludedIndex rf + int k') =
          Some (lastIncludedIndex rf + int j)"
        "\<forall>i. j \<le> i \<and> i \<le> k' \<longrightarrow> eTerm (logs rf ! i) = ct"
        "j + n = k' \<or> (0 < j \<and> eTerm (logs rf ! (j - 1)) \<noteq> ct)"
      using Suc.IH [of k'] True Suc.prems k by auto
    ultimately show ?thesis
      using Suc.prems k by (intro exI [of _ j]) (auto simp: le_Suc_eq)
  next
    case False
    then show ?thesis
      using Suc.prems k by (intro exI [of _ k]) (auto simp: termAtLocked_eq)
  qed
qed

text \<open>The commit index a successful \<^verbatim>\<open>AppendEntries\<close> leaves.\<close>

definition append_commit :: "'c raft \<Rightarrow> 'c append_args \<Rightarrow> int" where
  "append_commit rf args =
     max (commitIndex rf) (min (aeLeaderCommit args) (aePrevLogIndex args + int (length (aeEntries args))))"

definition prev_matches :: "'c raft \<Rightarrow> 'c append_args \<Rightarrow> bool" where
  "prev_matches rf args \<longleftrightarrow>
     lastIncludedIndex rf \<le> aePrevLogIndex args \<and> aePrevLogIndex args \<le> lastLogIndexLocked rf \<and>
     eTerm (logs rf ! nat (aePrevLogIndex args - lastIncludedIndex rf)) = aePrevLogTerm args"

definition merged_logs :: "'c raft \<Rightarrow> 'c append_args \<Rightarrow> 'c log_entry list" where
  "merged_logs rf args =
     merge_logs (logs rf) (nat (aePrevLogIndex args + 1 - lastIncludedIndex rf)) (aeEntries args)"

lemma commit_upd:
  "(if P then rf\<lparr>commitIndex := c\<rparr> else rf) = rf\<lparr>commitIndex := (if P then c else commitIndex rf)\<rparr>"
  by simp

lemma AppendEntries_stale:
  "killed rf \<or> aeTerm args < currentTerm rf \<Longrightarrow> AppendEntries cd ev rf args = Some (rf, appendReply rf)"
  by (auto simp: AppendEntries_def)

lemma AppendEntries_reject:
  assumes "cache_ok cd rf" "\<not> killed rf" "currentTerm rf \<le> aeTerm args" "\<not> prev_matches rf args"
  shows "\<exists>reply. AppendEntries cd ev rf args = Some (heard ev rf (aeTerm args), reply)
    \<and> \<not> aerSuccess reply \<and> aerTerm reply = aeTerm args \<and> \<not> aerStopped reply"
proof -
  let ?h = "heard ev rf (aeTerm args)"
  have h: "becomeFollowerLocked rf (aeTerm args) = Some (follow rf (aeTerm args))"
    using assms(1) by (rule becomeFollowerLocked_eq)
  have eq: "resetElectionDeadlineLocked ev (follow rf (aeTerm args)) = ?h" by (simp add: heard_def)
  show ?thesis
  proof (cases "lastIncludedIndex rf \<le> aePrevLogIndex args \<and> aePrevLogIndex args \<le> lastLogIndexLocked rf")
    case False
    with assms(2,3) show ?thesis
      by (auto simp: AppendEntries_def h firstLogIndexLocked_def appendReply_def heard_def Let_def)
  next
    case True
    define k where "k = nat (aePrevLogIndex args - lastIncludedIndex rf)"
    have k: "aePrevLogIndex args = lastIncludedIndex rf + int k" "k < length (logs rf)"
      using True by (auto simp: k_def lastLogIndexLocked_def)
    obtain j where "conflictScan ?h (eTerm (logs ?h ! k)) k (lastIncludedIndex ?h + int k) =
        Some (lastIncludedIndex ?h + int j)"
      using conflictScan_spec [of k k ?h "eTerm (logs ?h ! k)"] k(2) by (auto simp: heard_def)
    moreover have "k = nat (aePrevLogIndex args - firstLogIndexLocked ?h)"
      "lastIncludedIndex ?h + int k = aePrevLogIndex args"
      using k by (simp_all add: firstLogIndexLocked_def heard_def)
    ultimately have scan: "conflictScan ?h (eTerm (logs ?h ! k))
        (nat (aePrevLogIndex args - firstLogIndexLocked ?h)) (aePrevLogIndex args) =
        Some (lastIncludedIndex ?h + int j)"
      by metis
    have t: "termAtLocked ?h (aePrevLogIndex args) = Some (eTerm (logs ?h ! k), True)"
      using k by (simp add: termAtLocked_eq heard_def)
    have ne: "eTerm (logs ?h ! k) \<noteq> aePrevLogTerm args"
      using assms(4) True by (simp add: prev_matches_def heard_def k_def)
    have prev: "\<not> lastLogIndexLocked rf < aePrevLogIndex args" "\<not> aePrevLogIndex args < firstLogIndexLocked ?h"
      using True by (simp_all add: firstLogIndexLocked_def heard_def)
    have "AppendEntries cd ev rf args = Some (?h, (appendReply ?h)\<lparr>aerConflictTerm := eTerm (logs ?h ! k),
        aerConflictIndex := lastIncludedIndex ?h + int j\<rparr>)"
      using assms(2,3) ne by (simp add: AppendEntries_def h eq prev t scan Let_def)
    then show ?thesis using assms(2,3) by (simp add: appendReply_def heard_def)
  qed
qed

lemma AppendEntries_accept:
  fixes ev :: go_env
  assumes "codec_ok cd" "cache_ok cd rf" "\<not> killed rf" "currentTerm rf \<le> aeTerm args"
    and "prev_matches rf args"
  defines "h \<equiv> heard ev rf (aeTerm args)"
  shows "\<exists>enc ch. cache_ok cd (h\<lparr>logs := merged_logs rf args, encodedLogs := enc\<rparr>)
    \<and> (\<not> ch \<longrightarrow> merged_logs rf args = logs rf \<and> enc = encodedLogs rf)
    \<and> AppendEntries cd ev rf args =
        Some ((if ch then saved (h\<lparr>logs := merged_logs rf args, encodedLogs := enc\<rparr>) else h)
                \<lparr>commitIndex := append_commit rf args\<rparr>,
              (appendReply h)\<lparr>aerSuccess := True\<rparr>)"
proof -
  define k where "k = nat (aePrevLogIndex args + 1 - lastIncludedIndex rf)"
  have k: "aePrevLogIndex args + 1 = lastIncludedIndex h + int k" "k \<le> length (logs h)" "0 < k"
    using assms(5) by (auto simp: k_def h_def heard_def prev_matches_def lastLogIndexLocked_def)
  have c: "cache_ok cd h" using assms(2) by (simp add: h_def heard_def cache_ok_def)
  have hs: "logs h = logs rf" "lastIncludedIndex h = lastIncludedIndex rf" "encodedLogs h = encodedLogs rf"
    "commitIndex h = commitIndex rf"
    by (simp_all add: h_def heard_def)
  have ml: "merge_logs (logs rf) k (aeEntries args) = merged_logs rf args"
    by (simp add: merged_logs_def k_def hs)
  obtain enc ch where m: "mergeEntries cd h (aePrevLogIndex args + 1) (aeEntries args) =
        Some (h\<lparr>logs := merged_logs rf args, encodedLogs := enc\<rparr>, ch)"
      "cache_ok cd (h\<lparr>logs := merged_logs rf args, encodedLogs := enc\<rparr>)"
      "\<not> ch \<longrightarrow> merged_logs rf args = logs rf \<and> enc = encodedLogs rf"
    using mergeEntries_eq [OF assms(1) c k(2,3), of "aeEntries args"]
    unfolding ml k(1) [symmetric] hs(1,3) by blast
  have t: "termAtLocked h (aePrevLogIndex args) = Some (aePrevLogTerm args, True)"
    using assms(5) by (auto simp: termAtLocked_eq hs prev_matches_def lastLogIndexLocked_def)
  have b: "becomeFollowerLocked rf (aeTerm args) = Some (follow rf (aeTerm args))"
    "resetElectionDeadlineLocked ev (follow rf (aeTerm args)) = h"
    using becomeFollowerLocked_eq [OF assms(2)] by (simp_all add: h_def heard_def)
  have same: "\<not> ch \<Longrightarrow> h\<lparr>logs := merged_logs rf args, encodedLogs := enc\<rparr> = h"
    using m(3) by (simp add: hs)
  have p: "(if ch then persist (h\<lparr>logs := merged_logs rf args, encodedLogs := enc\<rparr>)
      else Some (h\<lparr>logs := merged_logs rf args, encodedLogs := enc\<rparr>)) =
      Some (if ch then saved (h\<lparr>logs := merged_logs rf args, encodedLogs := enc\<rparr>) else h)"
    using persist_saved [OF m(2)] same by simp
  have prev: "\<not> lastLogIndexLocked rf < aePrevLogIndex args" "\<not> aePrevLogIndex args < firstLogIndexLocked h"
    using assms(5) by (simp_all add: prev_matches_def firstLogIndexLocked_def h_def heard_def)
  define final where
    "final = (if ch then saved (h\<lparr>logs := merged_logs rf args, encodedLogs := enc\<rparr>) else h)"
  have ci: "commitIndex final = commitIndex rf" by (simp add: final_def hs)
  have "AppendEntries cd ev rf args =
      (let lastNewIndex = aePrevLogIndex args + int (length (aeEntries args));
           newCommit = (if lastNewIndex < aeLeaderCommit args then lastNewIndex
                        else aeLeaderCommit args)
       in Some (if aeLeaderCommit args > commitIndex final \<and> newCommit > commitIndex final
                then final\<lparr>commitIndex := newCommit\<rparr> else final,
                (appendReply h)\<lparr>aerSuccess := True\<rparr>))"
    using assms(3,4)
    by (simp add: AppendEntries_def b prev t m(1) p final_def [symmetric] Let_def split del: if_split)
  also have "\<dots> = Some (final\<lparr>commitIndex := append_commit rf args\<rparr>, (appendReply h)\<lparr>aerSuccess := True\<rparr>)"
    by (simp add: Let_def append_commit_def commit_upd ci max_def min_def)
  finally have fin: "AppendEntries cd ev rf args =
      Some (final\<lparr>commitIndex := append_commit rf args\<rparr>, (appendReply h)\<lparr>aerSuccess := True\<rparr>)" .
  show ?thesis
    by (intro exI [of _ enc] exI [of _ ch] conjI m(2,3) fin [unfolded final_def])
qed

text \<open>
  The request does not contradict, at an index the node has committed, the term of its entry.
  That leaders only send such requests is a property of the whole cluster.
\<close>

definition append_compat :: "'c raft \<Rightarrow> 'c append_args \<Rightarrow> bool" where
  "append_compat rf args \<longleftrightarrow>
     lastIncludedIndex rf \<le> aePrevLogIndex args \<longrightarrow>
     (\<forall>i < length (aeEntries args).
        aePrevLogIndex args + 1 + int i \<le> commitIndex rf \<longrightarrow>
        eTerm (logs rf ! nat (aePrevLogIndex args + 1 + int i - lastIncludedIndex rf)) =
          eTerm (aeEntries args ! i))"

lemma merged_logs_facts:
  assumes "node_ok cd rf" "prev_matches rf args" "append_compat rf args"
  shows "merged_logs rf args \<noteq> []" "hd (merged_logs rf args) = hd (logs rf)"
    and "aePrevLogIndex args + int (length (aeEntries args)) < lastIncludedIndex rf + int (length (merged_logs rf args))"
    and "take (nat (commitIndex rf - lastIncludedIndex rf) + 1) (merged_logs rf args) =
         take (nat (commitIndex rf - lastIncludedIndex rf) + 1) (logs rf)"
    and "commitIndex rf < lastIncludedIndex rf + int (length (merged_logs rf args))"
proof -
  define k where "k = nat (aePrevLogIndex args + 1 - lastIncludedIndex rf)"
  define m where "m = nat (commitIndex rf - lastIncludedIndex rf) + 1"
  have k: "0 < k" "k \<le> length (logs rf)" "int k = aePrevLogIndex args + 1 - lastIncludedIndex rf"
    using assms(2) by (auto simp: k_def prev_matches_def lastLogIndexLocked_def)
  have m: "m \<le> length (logs rf)" "int m = commitIndex rf - lastIncludedIndex rf + 1"
    using assms(1) by (auto simp: m_def node_ok_def lastLogIndexLocked_def)
  have ml: "merged_logs rf args = merge_logs (logs rf) k (aeEntries args)"
    by (simp add: merged_logs_def k_def)
  have tk: "take k (merged_logs rf args) = take k (logs rf)"
    unfolding ml using k(2) by (rule merge_logs_take)
  have len: "k + length (aeEntries args) \<le> length (merged_logs rf args)"
    unfolding ml using k(2) by (rule merge_logs_length)
  show ne: "merged_logs rf args \<noteq> []" using len k(1) by auto
  have "logs rf \<noteq> []" using k by auto
  then show "hd (merged_logs rf args) = hd (logs rf)"
    using ne nth_eq_of_take_eq [OF tk k(1)] by (simp add: hd_conv_nth)
  show "aePrevLogIndex args + int (length (aeEntries args)) < lastIncludedIndex rf + int (length (merged_logs rf args))"
    using len k(3) by linarith
  have km: "take m (merge_logs (logs rf) k (aeEntries args)) = take m (logs rf)"
  proof (rule merge_logs_keep [OF k(2) m(1)])
    fix i assume i: "i < length (aeEntries args)" "k + i < m"
    have "aePrevLogIndex args + 1 + int i \<le> commitIndex rf" using i(2) k(3) m(2) by linarith
    moreover have "nat (aePrevLogIndex args + 1 + int i - lastIncludedIndex rf) = k + i"
      using k(3) by linarith
    ultimately show "eTerm (logs rf ! (k + i)) = eTerm (aeEntries args ! i)"
      using assms(2,3) i(1) by (auto simp: append_compat_def prev_matches_def)
  qed
  then show "take (nat (commitIndex rf - lastIncludedIndex rf) + 1) (merged_logs rf args) =
      take (nat (commitIndex rf - lastIncludedIndex rf) + 1) (logs rf)"
    by (simp add: ml m_def)
  have "m \<le> length (merged_logs rf args)"
    using arg_cong [OF km, of length] m(1) by (simp add: ml min_def split: if_splits)
  then show "commitIndex rf < lastIncludedIndex rf + int (length (merged_logs rf args))"
    using m(2) by linarith
qed

lemma AppendEntries_inv:
  assumes "codec_ok cd" "raft_inv cd rf" "append_compat rf args"
  shows "\<exists>rf' reply. AppendEntries cd ev rf args = Some (rf', reply) \<and> raft_inv cd rf'"
proof -
  have c: "cache_ok cd rf" and n: "node_ok cd rf" and s: "saved_ok rf"
    using assms(2) by (auto simp: raft_inv_def node_ok_def)
  let ?h = "heard ev rf (aeTerm args)"
  have hinv: "raft_inv cd ?h" using assms(2) by (rule heard_inv)
  consider (stale) "killed rf \<or> aeTerm args < currentTerm rf"
    | (reject) "\<not> killed rf" "currentTerm rf \<le> aeTerm args" "\<not> prev_matches rf args"
    | (accept) "\<not> killed rf" "currentTerm rf \<le> aeTerm args" "prev_matches rf args"
    by linarith
  then show ?thesis
  proof cases
    case stale
    then show ?thesis using AppendEntries_stale assms(2) by blast
  next
    case reject
    then show ?thesis using AppendEntries_reject [OF c reject] hinv by blast
  next
    case accept
    obtain enc ch where r: "cache_ok cd (?h\<lparr>logs := merged_logs rf args, encodedLogs := enc\<rparr>)"
        "\<not> ch \<longrightarrow> merged_logs rf args = logs rf \<and> enc = encodedLogs rf"
        "AppendEntries cd ev rf args =
          Some ((if ch then saved (?h\<lparr>logs := merged_logs rf args, encodedLogs := enc\<rparr>) else ?h)
                  \<lparr>commitIndex := append_commit rf args\<rparr>, (appendReply ?h)\<lparr>aerSuccess := True\<rparr>)"
      using AppendEntries_accept [OF assms(1) c accept] by blast
    let ?f = "(if ch then saved (?h\<lparr>logs := merged_logs rf args, encodedLogs := enc\<rparr>) else ?h)"
    note mf = merged_logs_facts [OF n accept(3) assms(3)]
    have ls: "logs ?f = merged_logs rf args" using r(2) by (simp add: heard_def)
    have "node_ok cd (?f\<lparr>commitIndex := append_commit rf args\<rparr>)"
      using n mf r(1) ls r(2)
      by (auto simp: node_ok_def heard_def lastLogIndexLocked_def append_commit_def cache_ok_def)
    moreover have "saved_ok ?f"
      using hinv by (simp add: raft_inv_def)
    then have "saved_ok (?f\<lparr>commitIndex := append_commit rf args\<rparr>)"
      by (subst saved_ok_cong [where rf = ?f]) simp_all
    ultimately show ?thesis using r(3) by (auto simp: raft_inv_def)
  qed
qed

end
