(* ===== verification/Raft_Sections.thy ===== *)
theory Raft_Sections
  imports Raft_Inv
begin

text \<open>
  The handlers \<^verbatim>\<open>InstallSnapshot\<close> and \<^verbatim>\<open>RequestVote\<close>, the elections and the
  commit rule of a Raft node: what each does to a well-formed node, without
  panicking, and that it keeps the invariant.
\<close>

section \<open>InstallSnapshot\<close>

definition installed_logs :: "'c raft \<Rightarrow> install_args \<Rightarrow> 'c log_entry list" where
  "installed_logs rf args =
     \<lparr>eTerm = isLastIncludedTerm args, eCommand = None\<rparr> #
     (if isLastIncludedIndex args \<le> lastLogIndexLocked rf \<and>
         eTerm (logs rf ! nat (isLastIncludedIndex args - lastIncludedIndex rf)) = isLastIncludedTerm args
      then drop (nat (isLastIncludedIndex args - lastIncludedIndex rf) + 1) (logs rf) else [])"

definition installed :: "'c raft \<Rightarrow> install_args \<Rightarrow> bytes list \<Rightarrow> 'c raft" where
  "installed rf args enc =
     rf\<lparr>lastIncludedIndex := isLastIncludedIndex args, lastIncludedTerm := isLastIncludedTerm args,
        logs := installed_logs rf args, encodedLogs := enc, snapshot := isData args,
        commitIndex := isLastIncludedIndex args, lastApplied := isLastIncludedIndex args\<rparr>"

lemma InstallSnapshot_stale:
  "killed rf \<or> isTerm args < currentTerm rf \<Longrightarrow>
     InstallSnapshot cd ev rf args = Some (rf, \<lparr>isrTerm = currentTerm rf, isrStopped = killed rf\<rparr>)"
  by (auto simp: InstallSnapshot_def)

lemma InstallSnapshot_old:
  assumes "cache_ok cd rf" "\<not> killed rf" "currentTerm rf \<le> isTerm args"
    and "isLastIncludedIndex args \<le> commitIndex rf"
  shows "InstallSnapshot cd ev rf args =
    Some (heard ev rf (isTerm args), \<lparr>isrTerm = isTerm args, isrStopped = False\<rparr>)"
  using assms by (simp add: InstallSnapshot_def becomeFollowerLocked_eq heard_def Let_def)

lemma InstallSnapshot_accept:
  fixes ev :: go_env
  assumes "codec_ok cd" "cache_ok cd rf" "lastIncludedIndex rf \<le> commitIndex rf"
    and "\<not> killed rf" "currentTerm rf \<le> isTerm args" "commitIndex rf < isLastIncludedIndex args"
  defines "h \<equiv> heard ev rf (isTerm args)"
  shows "\<exists>enc. cache_ok cd (installed h args enc) \<and>
    InstallSnapshot cd ev rf args =
      Some ((saved (installed h args enc))
              \<lparr>pendingSnapshot := Some (snapshot_msg (saved (installed h args enc)))\<rparr>,
            \<lparr>isrTerm = isTerm args, isrStopped = False\<rparr>)"
proof -
  let ?i = "isLastIncludedIndex args"
  have hs: "logs h = logs rf" "lastIncludedIndex h = lastIncludedIndex rf"
    "lastLogIndexLocked h = lastLogIndexLocked rf" "commitIndex h = commitIndex rf"
    "currentTerm h = isTerm args"
    using assms(5) by (simp_all add: h_def heard_def)
  have b: "becomeFollowerLocked rf (isTerm args) = Some (follow rf (isTerm args))"
    "resetElectionDeadlineLocked ev (follow rf (isTerm args)) = h"
    using becomeFollowerLocked_eq [OF assms(2)] by (simp_all add: h_def heard_def)
  obtain lt ok where t: "termAtLocked h ?i = Some (lt, ok)"
    by (cases "termAtLocked h ?i") (auto simp: termAtLocked_eq split: if_splits)
  have sfx: "(if ok \<and> lt = isLastIncludedTerm args
        then go_from (logs rf) (toOffsetLocked h ?i + 1) else Some []) = Some (tl (installed_logs h args))"
    using t assms(3,6)
    by (auto simp: termAtLocked_eq installed_logs_def go_from_def toOffsetLocked_def hs
        lastLogIndexLocked_def nat_add_distrib split: if_splits)
  have ls: "\<lparr>eTerm = isLastIncludedTerm args, eCommand = None\<rparr> # tl (installed_logs h args) =
      installed_logs h args"
    by (simp add: installed_logs_def)
  let ?rf = "h\<lparr>lastIncludedIndex := ?i, lastIncludedTerm := isLastIncludedTerm args\<rparr>"
  obtain enc where enc: "replaceLogs cd ?rf (installed_logs h args) =
        Some (?rf\<lparr>logs := installed_logs h args, encodedLogs := enc\<rparr>)"
      "cache_ok cd (?rf\<lparr>logs := installed_logs h args, encodedLogs := enc\<rparr>)"
    using replaceLogs_Some [OF assms(1)] by blast
  have c: "cache_ok cd (installed h args enc)"
    using enc(2) by (simp add: installed_def cache_ok_def)
  have ins: "?rf\<lparr>logs := installed_logs h args, encodedLogs := enc, snapshot := isData args,
      commitIndex := ?i, lastApplied := ?i\<rparr> = installed h args enc"
    by (simp add: installed_def)
  have "InstallSnapshot cd ev rf args =
      Some ((saved (installed h args enc))
              \<lparr>pendingSnapshot := Some (snapshot_msg (saved (installed h args enc)))\<rparr>,
            \<lparr>isrTerm = isTerm args, isrStopped = False\<rparr>)"
    using assms(4-6) persist_saved [OF c]
    by (simp add: InstallSnapshot_def b t sfx ls enc(1) hs(4,5) ins Let_def cong: if_cong
        split del: if_split)
  with c show ?thesis by blast
qed

lemma InstallSnapshot_inv:
  assumes "codec_ok cd" "raft_inv cd rf"
  shows "\<exists>rf' reply. InstallSnapshot cd ev rf args = Some (rf', reply) \<and> raft_inv cd rf'"
proof -
  have c: "cache_ok cd rf" and n: "node_ok cd rf" and li: "lastIncludedIndex rf \<le> commitIndex rf"
    using assms(2) by (auto simp: raft_inv_def node_ok_def)
  let ?h = "heard ev rf (isTerm args)"
  have hinv: "raft_inv cd ?h" using assms(2) by (rule heard_inv)
  consider (stale) "killed rf \<or> isTerm args < currentTerm rf"
    | (old) "\<not> killed rf" "currentTerm rf \<le> isTerm args" "isLastIncludedIndex args \<le> commitIndex rf"
    | (accept) "\<not> killed rf" "currentTerm rf \<le> isTerm args" "commitIndex rf < isLastIncludedIndex args"
    by linarith
  then show ?thesis
  proof cases
    case stale
    then show ?thesis using InstallSnapshot_stale assms(2) by blast
  next
    case old
    then show ?thesis using InstallSnapshot_old [OF c old] hinv by blast
  next
    case accept
    obtain enc where e: "cache_ok cd (installed ?h args enc)"
      "InstallSnapshot cd ev rf args =
        Some ((saved (installed ?h args enc))
              \<lparr>pendingSnapshot := Some (snapshot_msg (saved (installed ?h args enc)))\<rparr>,
            \<lparr>isrTerm = isTerm args, isrStopped = False\<rparr>)"
      using InstallSnapshot_accept [OF assms(1) c li accept] by blast
    let ?f = "saved (installed ?h args enc)"
    have "node_ok cd (?f\<lparr>pendingSnapshot := Some (snapshot_msg ?f)\<rparr>)"
      using n e(1) accept li
      by (auto simp: node_ok_def installed_def heard_def lastLogIndexLocked_def snapshot_msg_def
          installed_logs_def cache_ok_def)
    moreover have "saved_ok (?f\<lparr>pendingSnapshot := Some (snapshot_msg ?f)\<rparr>)"
      by (subst saved_ok_cong [where rf = ?f]) simp_all
    ultimately show ?thesis using e(2) by (auto simp: raft_inv_def)
  qed
qed

section \<open>Votes\<close>

definition up_to_date :: "'c raft \<Rightarrow> vote_args \<Rightarrow> bool" where
  "up_to_date rf args \<longleftrightarrow>
     rvLastLogTerm args > eTerm (last (logs rf)) \<or>
     rvLastLogTerm args = eTerm (last (logs rf)) \<and> rvLastLogIndex args \<ge> lastLogIndexLocked rf"

text \<open>The state in which the vote is decided: the node has moved to a higher term if it saw one.\<close>

definition vote_base :: "'c raft \<Rightarrow> vote_args \<Rightarrow> 'c raft" where
  "vote_base rf args = (if rvTerm args > currentTerm rf then follow rf (rvTerm args) else rf)"

definition vote_granted :: "'c raft \<Rightarrow> vote_args \<Rightarrow> bool" where
  "vote_granted rf args \<longleftrightarrow>
     \<not> killed rf \<and> currentTerm rf \<le> rvTerm args \<and>
     (currentTerm rf < rvTerm args \<or> votedFor rf = -1 \<or> votedFor rf = rvCandidateId args) \<and>
     up_to_date rf args"

lemma RequestVote_stale:
  "logs rf \<noteq> [] \<Longrightarrow> killed rf \<or> rvTerm args < currentTerm rf \<Longrightarrow>
     RequestVote ev rf args = Some (rf, \<lparr>rvrTerm = currentTerm rf, rvrVoteGranted = False\<rparr>)"
  by (auto simp: RequestVote_def lastLogTermLocked_eq)

lemma vote_base_simps [simp]:
  "npeers (vote_base rf args) = npeers rf" "me (vote_base rf args) = me rf"
  "logs (vote_base rf args) = logs rf" "encodedLogs (vote_base rf args) = encodedLogs rf"
  "currentTerm (vote_base rf args) = max (rvTerm args) (currentTerm rf)"
  "votedFor (vote_base rf args) = (if rvTerm args > currentTerm rf then -1 else votedFor rf)"
  "commitIndex (vote_base rf args) = commitIndex rf" "lastApplied (vote_base rf args) = lastApplied rf"
  "lastIncludedIndex (vote_base rf args) = lastIncludedIndex rf"
  "lastIncludedTerm (vote_base rf args) = lastIncludedTerm rf"
  "snapshot (vote_base rf args) = snapshot rf" "pendingSnapshot (vote_base rf args) = pendingSnapshot rf"
  "nextIndex (vote_base rf args) = nextIndex rf" "matchIndex (vote_base rf args) = matchIndex rf"
  "killed (vote_base rf args) = killed rf"
  "lastLogIndexLocked (vote_base rf args) = lastLogIndexLocked rf"
  by (simp_all add: vote_base_def)

lemma vote_base_inv: "raft_inv cd rf \<Longrightarrow> raft_inv cd (vote_base rf args)"
  by (simp add: vote_base_def follow_inv)

lemma RequestVote_refuse:
  assumes "cache_ok cd rf" "logs rf \<noteq> []" "\<not> killed rf" "currentTerm rf \<le> rvTerm args"
    and "\<not> vote_granted rf args"
  shows "RequestVote ev rf args =
    Some (vote_base rf args, \<lparr>rvrTerm = rvTerm args, rvrVoteGranted = False\<rparr>)"
  using assms
  by (auto simp: RequestVote_def lastLogTermLocked_eq becomeFollowerLocked_eq vote_base_def
      vote_granted_def up_to_date_def Let_def)

lemma RequestVote_grant:
  assumes "cache_ok cd rf" "logs rf \<noteq> []" "vote_granted rf args"
  shows "RequestVote ev rf args =
    Some (saved (resetElectionDeadlineLocked ev ((vote_base rf args)\<lparr>votedFor := rvCandidateId args\<rparr>)),
          \<lparr>rvrTerm = rvTerm args, rvrVoteGranted = True\<rparr>)"
proof -
  let ?r = "resetElectionDeadlineLocked ev ((vote_base rf args)\<lparr>votedFor := rvCandidateId args\<rparr>)"
  have "cache_ok cd ?r" using assms(1) by (simp add: cache_ok_def)
  then have p: "persist ?r = Some (saved ?r)" by (rule persist_saved)
  have g: "\<not> killed rf" "\<not> rvTerm args < currentTerm rf"
    using assms(3) by (auto simp: vote_granted_def)
  have b: "(if currentTerm rf < rvTerm args then becomeFollowerLocked rf (rvTerm args) else Some rf) =
      Some (vote_base rf args)"
    using becomeFollowerLocked_eq [OF assms(1)] by (simp add: vote_base_def)
  have v: "votedFor (vote_base rf args) = -1 \<or> votedFor (vote_base rf args) = rvCandidateId args"
    "eTerm (last (logs rf)) < rvLastLogTerm args \<or> rvLastLogTerm args = eTerm (last (logs rf)) \<and>
      lastLogIndexLocked rf \<le> rvLastLogIndex args"
    using assms(3) by (auto simp: vote_granted_def up_to_date_def)
  show ?thesis
    unfolding RequestVote_def Let_def lastLogTermLocked_eq [OF assms(2)]
    using g v p by (simp add: b)
qed

lemma RequestVote_inv:
  assumes "raft_inv cd rf"
  shows "\<exists>rf' reply. RequestVote ev rf args = Some (rf', reply) \<and> raft_inv cd rf'"
proof -
  have c: "cache_ok cd rf" and l: "logs rf \<noteq> []" using assms by (auto simp: raft_inv_def node_ok_def)
  have b: "raft_inv cd (vote_base rf args)" using assms by (rule vote_base_inv)
  consider (stale) "killed rf \<or> rvTerm args < currentTerm rf"
    | (refuse) "\<not> killed rf" "currentTerm rf \<le> rvTerm args" "\<not> vote_granted rf args"
    | (grant) "vote_granted rf args"
    by linarith
  then show ?thesis
  proof cases
    case stale
    then show ?thesis using RequestVote_stale [OF l] assms by blast
  next
    case refuse
    then show ?thesis using RequestVote_refuse [OF c l refuse] b by blast
  next
    case grant
    let ?r = "resetElectionDeadlineLocked ev ((vote_base rf args)\<lparr>votedFor := rvCandidateId args\<rparr>)"
    have "node_ok cd (saved ?r)"
      using b by (simp add: raft_inv_def node_ok_def lastLogIndexLocked_def cache_ok_def)
    then show ?thesis using RequestVote_grant [OF c l grant] by (auto simp: raft_inv_def)
  qed
qed

section \<open>Leadership\<close>

definition leader_of :: "'c raft \<Rightarrow> 'c raft" where
  "leader_of rf =
     rf\<lparr>rstate := Leader,
        nextIndex := (replicate (npeers rf) (lastLogIndexLocked rf + 1)),
        matchIndex := (replicate (npeers rf) 0)[nat (me rf) := lastLogIndexLocked rf],
        lastRescueSent := (if length (lastRescueSent rf) = npeers rf then replicate (npeers rf) 0
                           else lastRescueSent rf)\<rparr>"

lemma becomeLeaderLocked_eq:
  assumes "0 \<le> me rf" "me rf < int (npeers rf)"
  shows "becomeLeaderLocked rf = Some (leader_of rf)"
  using assms
  by (simp add: becomeLeaderLocked_def leader_of_def go_store_def Let_def list_update_id
      nat_less_iff flip: replicate_append_same)
    (metis list_update_id nat_less_iff nth_replicate)

lemma leader_of_inv: "raft_inv cd rf \<Longrightarrow> raft_inv cd (leader_of rf)"
proof -
  assume inv: "raft_inv cd rf"
  have "saved_ok (leader_of rf) = saved_ok rf" by (intro saved_ok_cong) (simp_all add: leader_of_def)
  with inv show ?thesis
    by (auto simp: raft_inv_def node_ok_def leader_of_def lastLogIndexLocked_def cache_ok_def)
qed

lemma notifyPeers_Some:
  "\<forall>p \<in> set ps. 0 \<le> p \<and> p < int (length nt) \<Longrightarrow>
     \<exists>nt'. notifyPeers self ps nt = Some nt' \<and> length nt' = length nt"
proof (induction ps arbitrary: nt)
  case (Cons p ps)
  then show ?case using Cons.IH [of nt] Cons.IH [of "nt[nat p := True]"] by (simp add: go_store_def)
qed simp

lemma peerIds_range: "\<forall>p \<in> set (peerIds rf). 0 \<le> p \<and> p < int (npeers rf)"
  by (auto simp: peerIds_def)

text \<open>A broadcast changes nothing but the pending notifications.\<close>

lemma broadcast_Some:
  assumes "length (replicateNotify rf) = npeers rf"
  shows "\<exists>nt. broadcastAppendEntries rf = Some (rf\<lparr>replicateNotify := nt\<rparr>) \<and> length nt = npeers rf"
proof (cases "killed rf \<or> rstate rf \<noteq> Leader")
  case True
  then show ?thesis
    using assms by (auto simp: broadcastAppendEntries_def intro!: exI [of _ "replicateNotify rf"])
next
  case False
  then show ?thesis
    using assms notifyPeers_Some [of "peerIds rf" "replicateNotify rf" "me rf"] peerIds_range [of rf]
    by (auto simp: broadcastAppendEntries_def)
qed

lemma notify_inv:
  assumes "raft_inv cd rf" "length nt = npeers rf"
  shows "raft_inv cd (rf\<lparr>replicateNotify := nt\<rparr>)"
proof -
  have "saved_ok (rf\<lparr>replicateNotify := nt\<rparr>) = saved_ok rf" by (intro saved_ok_cong) simp_all
  with assms show ?thesis
    by (auto simp: raft_inv_def node_ok_def lastLogIndexLocked_def cache_ok_def)
qed

lemma broadcast_inv:
  assumes "raft_inv cd rf"
  shows "\<exists>nt. broadcastAppendEntries rf = Some (rf\<lparr>replicateNotify := nt\<rparr>)
    \<and> raft_inv cd (rf\<lparr>replicateNotify := nt\<rparr>)"
  using broadcast_Some [of rf] notify_inv [OF assms] assms by (auto simp: raft_inv_def node_ok_def)

lemma launchAll_inv: "raft_inv cd rf \<Longrightarrow> raft_inv cd (launchAll k rf)"
proof -
  assume inv: "raft_inv cd rf"
  have "saved_ok (launchAll k rf) = saved_ok rf" by (intro saved_ok_cong) (simp_all add: launchAll_eq)
  with inv show ?thesis
    by (auto simp: launchAll_eq raft_inv_def node_ok_def lastLogIndexLocked_def cache_ok_def)
qed

text \<open>The candidate that \<^verbatim>\<open>startElection\<close> makes of a node.\<close>

definition candidate_of :: "go_env \<Rightarrow> 'c raft \<Rightarrow> 'c raft" where
  "candidate_of ev rf =
     resetElectionDeadlineLocked ev
       (saved (rf\<lparr>rstate := Candidate, currentTerm := currentTerm rf + 1, votedFor := me rf\<rparr>))"

definition vote_request :: "'c raft \<Rightarrow> vote_args" where
  "vote_request rf = \<lparr>rvTerm = currentTerm rf, rvCandidateId = me rf,
     rvLastLogIndex = lastLogIndexLocked rf, rvLastLogTerm = eTerm (last (logs rf))\<rparr>"

lemma candidate_of_inv: "raft_inv cd rf \<Longrightarrow> raft_inv cd (candidate_of ev rf)"
  unfolding candidate_of_def reset_inv
  by (auto simp: raft_inv_def node_ok_def lastLogIndexLocked_def cache_ok_def)

lemma startElection_quiet:
  "killed rf \<or> rstate rf = Leader \<or> now ev < electionDeadline rf \<Longrightarrow>
     startElection ev rf = Some (rf, [])"
  by (auto simp: startElection_def)

lemma startElection_eq:
  assumes "cache_ok cd rf" "logs rf \<noteq> []" "0 \<le> me rf" "me rf < int (npeers rf)"
    and "\<not> killed rf" "rstate rf \<noteq> Leader" "\<not> now ev < electionDeadline rf"
  defines "c \<equiv> candidate_of ev rf"
  shows "startElection ev rf =
    (if 1 \<ge> majority (npeers rf)
     then map_option (\<lambda>rf. (rf, [])) (broadcastAppendEntries (leader_of c))
     else Some (launchAll (length (filter (\<lambda>i. i \<noteq> me rf) (peerIds rf))) c,
                map (\<lambda>i. (i, vote_request c)) (filter (\<lambda>i. i \<noteq> me rf) (peerIds rf))))"
proof -
  let ?c = "rf\<lparr>rstate := Candidate, currentTerm := currentTerm rf + 1, votedFor := me rf\<rparr>"
  have "cache_ok cd ?c" using assms(1) by (simp add: cache_ok_def)
  then have p: "persist ?c = Some (saved ?c)" by (rule persist_saved)
  have l: "lastLogTermLocked (saved ?c) = Some (eTerm (last (logs rf)))"
    using assms(2) by (subst lastLogTermLocked_eq) simp_all
  have r: "resetElectionDeadlineLocked ev (saved ?c) = c" by (simp add: c_def candidate_of_def)
  have cs: "me c = me rf" "npeers c = npeers rf" "logs c = logs rf" "currentTerm c = currentTerm rf + 1"
    "lastLogIndexLocked c = lastLogIndexLocked rf"
    by (simp_all add: c_def candidate_of_def lastLogIndexLocked_def)
  have b: "becomeLeaderLocked c = Some (leader_of c)"
    using assms(3,4) by (intro becomeLeaderLocked_eq) (simp_all add: cs)
  have ids: "peerIds c = peerIds rf" by (simp add: peerIds_def cs)
  have mapf: "concat (map (\<lambda>i. if i \<noteq> m then [f i] else []) xs) = map f (filter (\<lambda>i. i \<noteq> m) xs)"
    for m :: int and f :: "int \<Rightarrow> int \<times> vote_args" and xs
    by (induction xs) auto
  have li: "lastLogIndexLocked (rf\<lparr>rstate := Candidate, currentTerm := currentTerm rf + 1,
      votedFor := me rf\<rparr>) = lastLogIndexLocked rf"
    by (simp add: lastLogIndexLocked_def)
  show ?thesis
    using assms(5-7)
    by (simp add: startElection_def p l r b cs ids Let_def li map_conv_bind_option [symmetric] mapf
        vote_request_def)
      (cases "broadcastAppendEntries (leader_of c)"; simp)
qed

lemma startElection_inv:
  assumes "raft_inv cd rf"
  shows "\<exists>rf' reqs. startElection ev rf = Some (rf', reqs) \<and> raft_inv cd rf'"
proof (cases "killed rf \<or> rstate rf = Leader \<or> now ev < electionDeadline rf")
  case True
  then show ?thesis using assms startElection_quiet by blast
next
  case False
  note eq = startElection_eq [of cd rf ev]
  have n: "node_ok cd rf" using assms by (simp add: raft_inv_def)
  have c: "raft_inv cd (candidate_of ev rf)" using assms by (rule candidate_of_inv)
  obtain nt where "broadcastAppendEntries (leader_of (candidate_of ev rf)) =
      Some ((leader_of (candidate_of ev rf))\<lparr>replicateNotify := nt\<rparr>)"
    "raft_inv cd ((leader_of (candidate_of ev rf))\<lparr>replicateNotify := nt\<rparr>)"
    using broadcast_inv [OF leader_of_inv [OF c]] by blast
  with n False eq show ?thesis by (simp add: node_ok_def launchAll_inv [OF c])
qed

lemma becomeFollowerLocked_inv:
  "raft_inv cd rf \<Longrightarrow> becomeFollowerLocked rf t = Some (follow rf t)"
  by (rule becomeFollowerLocked_eq) (rule raft_inv_cache)

lemma becomeLeaderLocked_inv:
  "raft_inv cd rf \<Longrightarrow> becomeLeaderLocked rf = Some (leader_of rf)"
  by (rule becomeLeaderLocked_eq) (auto simp: raft_inv_def node_ok_def)

lemma election_reply_inv:
  assumes "raft_inv cd rf"
  shows "\<exists>rf' votes'. election_reply ev rf votes t reply = Some (rf', votes') \<and> raft_inv cd rf'"
proof -
  obtain nt where b: "broadcastAppendEntries (leader_of rf) = Some ((leader_of rf)\<lparr>replicateNotify := nt\<rparr>)"
    "raft_inv cd ((leader_of rf)\<lparr>replicateNotify := nt\<rparr>)"
    using broadcast_inv [OF leader_of_inv [OF assms]] by blast
  show ?thesis
    by (simp add: election_reply_def becomeFollowerLocked_inv [OF assms]
        becomeLeaderLocked_inv [OF assms] b assms reset_inv follow_inv)
qed

section \<open>Commit\<close>

text \<open>A change of volatile fields leaves the node saved; only \<open>node_ok\<close> is to be shown again.\<close>

lemma raft_inv_volatile:
  assumes "raft_inv cd rf" "node_ok cd rf'"
    and "persister rf' = persister rf" "snapshot rf' = snapshot rf" "currentTerm rf' = currentTerm rf"
      "votedFor rf' = votedFor rf" "logs rf' = logs rf" "encodedLogs rf' = encodedLogs rf"
      "lastIncludedIndex rf' = lastIncludedIndex rf" "lastIncludedTerm rf' = lastIncludedTerm rf"
  shows "raft_inv cd rf'"
  using assms saved_ok_cong [of rf' rf] by (simp add: raft_inv_def)

text \<open>The index can be committed: it is of the current term and on a majority of the nodes.\<close>

definition committable :: "'c raft \<Rightarrow> int \<Rightarrow> bool" where
  "committable rf n \<longleftrightarrow>
     lastIncludedIndex rf \<le> n \<and> n \<le> lastLogIndexLocked rf \<and>
     eTerm (logs rf ! nat (n - lastIncludedIndex rf)) = currentTerm rf \<and>
     majority (npeers rf) \<le> length (filter (\<lambda>m. n \<le> m) (matchIndex rf))"

text \<open>The loop finds the highest index that can be committed, below its start.\<close>

lemma advanceLoop_spec:
  assumes "length (matchIndex rf) = npeers rf"
  shows "advanceLoop rf k n =
    (if \<exists>i. n - int k < i \<and> i \<le> n \<and> committable rf i
     then Some (rf\<lparr>commitIndex := Max {i. n - int k < i \<and> i \<le> n \<and> committable rf i}\<rparr>, True)
     else Some (rf, False))"
proof (induction k arbitrary: n)
  case 0
  then show ?case by auto
next
  case (Suc k)
  show ?case
  proof (cases "committable rf n")
    case True
    have "finite {i. n - int (Suc k) < i \<and> i \<le> n \<and> committable rf i}"
      by (rule finite_subset [of _ "{n - int (Suc k)..n}"]) auto
    then have "Max {i. n - int (Suc k) < i \<and> i \<le> n \<and> committable rf i} = n"
      using True by (intro Max_eqI) auto
    with True show ?thesis
      using assms
      by (auto simp: termAtLocked_eq replicatedCount_def committable_def lastLogIndexLocked_def)
  next
    case False
    have eq: "(n - 1 - int k < i \<and> i \<le> n - 1 \<and> committable rf i) =
        (n - int (Suc k) < i \<and> i \<le> n \<and> committable rf i)" for i
      using False by (cases "i = n") auto
    have "advanceLoop rf (Suc k) n = advanceLoop rf k (n - 1)"
      using False assms
      by (auto simp: termAtLocked_eq replicatedCount_def committable_def lastLogIndexLocked_def)
    also note Suc.IH [of "n - 1"]
    finally show ?thesis unfolding eq .
  qed
qed

lemma advanceCommitIndexLocked_spec:
  assumes "rstate rf = Leader \<Longrightarrow> length (matchIndex rf) = npeers rf" "commitIndex rf \<le> lastLogIndexLocked rf"
  shows "advanceCommitIndexLocked rf =
    (if rstate rf = Leader \<and> (\<exists>i > commitIndex rf. committable rf i)
     then Some (rf\<lparr>commitIndex := Max {i. commitIndex rf < i \<and> committable rf i}\<rparr>, True)
     else Some (rf, False))"
proof -
  have "(lastLogIndexLocked rf - int (nat (lastLogIndexLocked rf - commitIndex rf)) < i \<and>
      i \<le> lastLogIndexLocked rf \<and> committable rf i) = (commitIndex rf < i \<and> committable rf i)" for i
    using assms(2) by (auto simp: committable_def)
  then show ?thesis
    using advanceLoop_spec [OF assms(1)] by (auto simp: advanceCommitIndexLocked_def)
qed

lemma committable_Max:
  assumes "\<exists>i > commitIndex rf. committable rf i"
  defines "M \<equiv> Max {i. commitIndex rf < i \<and> committable rf i}"
  shows "commitIndex rf < M" "committable rf M"
proof -
  have "{i. commitIndex rf < i \<and> committable rf i} \<subseteq> {commitIndex rf..lastLogIndexLocked rf}"
    by (auto simp: committable_def)
  then have "finite {i. commitIndex rf < i \<and> committable rf i}" by (rule finite_subset) simp
  from Max_in [OF this] assms show "commitIndex rf < M" "committable rf M" by auto
qed

lemma advanceCommitIndexLocked_inv:
  assumes "raft_inv cd rf"
  shows "\<exists>c b. advanceCommitIndexLocked rf = Some (rf\<lparr>commitIndex := c\<rparr>, b)
    \<and> raft_inv cd (rf\<lparr>commitIndex := c\<rparr>) \<and> commitIndex rf \<le> c"
proof -
  have n: "node_ok cd rf" using assms by (simp add: raft_inv_def)
  have inv: "raft_inv cd (rf\<lparr>commitIndex := c\<rparr>)"
    if "commitIndex rf \<le> c" "c \<le> lastLogIndexLocked rf" for c
    using n that by (intro raft_inv_volatile [OF assms])
      (auto simp: node_ok_def lastLogIndexLocked_def cache_ok_def)
  show ?thesis
  proof (cases "rstate rf = Leader \<and> (\<exists>i > commitIndex rf. committable rf i)")
    case True
    define M where "M = Max {i. commitIndex rf < i \<and> committable rf i}"
    have M: "commitIndex rf \<le> M" "M \<le> lastLogIndexLocked rf"
      using committable_Max [of rf] True by (auto simp: M_def committable_def)
    have "advanceCommitIndexLocked rf = Some (rf\<lparr>commitIndex := M\<rparr>, True)"
      using advanceCommitIndexLocked_spec [of rf] n True by (simp add: node_ok_def M_def)
    with M inv [OF M] show ?thesis by blast
  next
    case False
    then show ?thesis
      using advanceCommitIndexLocked_spec [of rf] n inv [of "commitIndex rf"]
      by (intro exI [of _ "commitIndex rf"] exI [of _ False]) (auto simp: node_ok_def)
  qed
qed

end
