(* ===== verification/Raft_Leader.thy ===== *)
theory Raft_Leader
  imports Raft_Sections
begin

text \<open>
  The critical sections that are not RPC handlers, on a node that satisfies the invariant:
  \<^verbatim>\<open>Start\<close>, \<^verbatim>\<open>Snapshot\<close>, the replication loop, the heartbeats, the applier and \<^verbatim>\<open>Kill\<close>.
\<close>

section \<open>Start\<close>

text \<open>The leader with one entry more, and its own replication state moved along.\<close>

definition started :: "'c raft \<Rightarrow> 'c \<Rightarrow> bytes list \<Rightarrow> 'c raft" where
  "started rf command enc =
     (let i = lastLogIndexLocked rf + 1 in
      (saved (rf\<lparr>logs := logs rf @ [\<lparr>eTerm = currentTerm rf, eCommand = Some command\<rparr>],
                  encodedLogs := enc\<rparr>))
        \<lparr>matchIndex := (matchIndex rf)[nat (me rf) := i],
         nextIndex := (nextIndex rf)[nat (me rf) := i + 1]\<rparr>)"

lemma started_simps [simp]:
  "npeers (started rf c enc) = npeers rf" "me (started rf c enc) = me rf"
  "logs (started rf c enc) = logs rf @ [\<lparr>eTerm = currentTerm rf, eCommand = Some c\<rparr>]"
  "currentTerm (started rf c enc) = currentTerm rf" "votedFor (started rf c enc) = votedFor rf"
  "rstate (started rf c enc) = rstate rf" "commitIndex (started rf c enc) = commitIndex rf"
  "lastApplied (started rf c enc) = lastApplied rf"
  "lastIncludedIndex (started rf c enc) = lastIncludedIndex rf"
  "lastLogIndexLocked (started rf c enc) = lastLogIndexLocked rf + 1"
  "killed (started rf c enc) = killed rf"
  "matchIndex (started rf c enc) = (matchIndex rf)[nat (me rf) := lastLogIndexLocked rf + 1]"
  by (simp_all add: started_def Let_def lastLogIndexLocked_def killed_def)

lemma started_inv:
  assumes "raft_inv cd rf"
    and "cache_ok cd (rf\<lparr>logs := logs rf @ [\<lparr>eTerm = currentTerm rf, eCommand = Some c\<rparr>],
                        encodedLogs := enc\<rparr>)"
  shows "raft_inv cd (started rf c enc)"
proof -
  let ?s = "saved (rf\<lparr>logs := logs rf @ [\<lparr>eTerm = currentTerm rf, eCommand = Some c\<rparr>], encodedLogs := enc\<rparr>)"
  have "raft_inv cd ?s"
    using assms by (auto simp: raft_inv_def node_ok_def lastLogIndexLocked_def)
  then show ?thesis
    by (rule raft_inv_volatile)
      (use assms in \<open>auto simp: started_def Let_def raft_inv_def node_ok_def lastLogIndexLocked_def cache_ok_def\<close>)
qed

lemma Start_quiet:
  "killed rf \<or> rstate rf \<noteq> Leader \<Longrightarrow> Start cd rf command = Some (rf, -1, currentTerm rf, False)"
  by (auto simp: Start_def)

lemma Start_eq:
  assumes "codec_ok cd" "raft_inv cd rf" "\<not> killed rf" "rstate rf = Leader"
  shows "\<exists>enc ci nt. Start cd rf command =
      Some ((started rf command enc)\<lparr>commitIndex := ci, replicateNotify := nt\<rparr>,
            lastLogIndexLocked rf + 1, currentTerm rf, True)
    \<and> raft_inv cd ((started rf command enc)\<lparr>commitIndex := ci, replicateNotify := nt\<rparr>)
    \<and> commitIndex rf \<le> ci \<and> (npeers rf \<noteq> 1 \<longrightarrow> ci = commitIndex rf)"
proof -
  let ?e = "\<lparr>eTerm = currentTerm rf, eCommand = Some command\<rparr>"
  have n: "node_ok cd rf" using assms(2) by (simp add: raft_inv_def)
  then have c: "cache_ok cd rf" by (simp add: node_ok_def)
  obtain bs where bs: "appendLogs cd rf [?e] = Some (rf\<lparr>logs := logs rf @ [?e], encodedLogs := encodedLogs rf @ bs\<rparr>)"
      "cache_ok cd (rf\<lparr>logs := logs rf @ [?e], encodedLogs := encodedLogs rf @ bs\<rparr>)"
    using appendLogs_Some [OF assms(1) c] by blast
  define enc where "enc = encodedLogs rf @ bs"
  note bs = bs [folded enc_def]
  let ?s = "started rf command enc"
  have inv: "raft_inv cd ?s" using started_inv [OF assms(2) bs(2)] .
  obtain ci b where a: "advanceCommitIndexLocked ?s = Some (?s\<lparr>commitIndex := ci\<rparr>, b)"
      "raft_inv cd (?s\<lparr>commitIndex := ci\<rparr>)" "commitIndex rf \<le> ci"
    using advanceCommitIndexLocked_inv [OF inv] by auto
  define ci' where "ci' = (if npeers rf = 1 then ci else commitIndex rf)"
  have same: "?s\<lparr>commitIndex := commitIndex rf\<rparr> = ?s" by (simp add: started_def Let_def)
  have adv: "(if npeers rf = 1 then map_option fst (advanceCommitIndexLocked ?s) else Some ?s) =
      Some (?s\<lparr>commitIndex := ci'\<rparr>)" and inv': "raft_inv cd (?s\<lparr>commitIndex := ci'\<rparr>)"
    using a inv by (auto simp: ci'_def same)
  obtain nt where bc: "broadcastAppendEntries (?s\<lparr>commitIndex := ci'\<rparr>) =
      Some (?s\<lparr>commitIndex := ci', replicateNotify := nt\<rparr>)"
      "raft_inv cd (?s\<lparr>commitIndex := ci', replicateNotify := nt\<rparr>)"
    using broadcast_inv [OF inv'] by auto
  have st: "go_store (matchIndex rf) (me rf) i = Some ((matchIndex rf)[nat (me rf) := i])"
    "go_store (nextIndex rf) (me rf) i = Some ((nextIndex rf)[nat (me rf) := i])" for i
    using n assms(4) by (simp_all add: node_ok_def go_store_def)
  have "Start cd rf command = Some (?s\<lparr>commitIndex := ci', replicateNotify := nt\<rparr>,
      lastLogIndexLocked rf + 1, currentTerm rf, True)"
    using assms(3,4) adv bc(1)
    by (simp add: Start_def bs(1) persist_saved [OF bs(2)] st Let_def started_def cong: if_cong split del: if_split)
  with bc(2) a(3) show ?thesis
    by (intro exI [of _ enc] exI [of _ ci'] exI [of _ nt]) (simp add: ci'_def)
qed

lemma Start_inv:
  assumes "codec_ok cd" "raft_inv cd rf"
  shows "\<exists>rf' r. Start cd rf command = Some (rf', r) \<and> raft_inv cd rf'"
  using Start_quiet [of rf cd command] Start_eq [OF assms, of command] assms(2)
  by (cases "killed rf \<or> rstate rf \<noteq> Leader") auto

section \<open>Snapshot\<close>

definition compacted_logs :: "'c raft \<Rightarrow> int \<Rightarrow> 'c log_entry list" where
  "compacted_logs rf index =
     (let k = nat (index - lastIncludedIndex rf)
      in \<lparr>eTerm = eTerm (logs rf ! k), eCommand = None\<rparr> # drop (k + 1) (logs rf))"

lemma Snapshot_ignored:
  "killed rf \<or> index \<le> lastIncludedIndex rf \<or> lastApplied rf < index \<Longrightarrow> Snapshot cd rf index data = Some rf"
  by (auto simp: Snapshot_def)

lemma Snapshot_eq:
  assumes "codec_ok cd" "node_ok cd rf" "\<not> killed rf" "lastIncludedIndex rf < index" "index \<le> lastApplied rf"
  shows "\<exists>enc. Snapshot cd rf index data =
      Some (saved (rf\<lparr>lastIncludedIndex := index,
        lastIncludedTerm := eTerm (logs rf ! nat (index - lastIncludedIndex rf)),
        logs := compacted_logs rf index, encodedLogs := enc, snapshot := data\<rparr>))
    \<and> cache_ok cd (rf\<lparr>logs := compacted_logs rf index, encodedLogs := enc\<rparr>)"
proof -
  define k where "k = nat (index - lastIncludedIndex rf)"
  have k: "index - lastIncludedIndex rf = int k" "k < length (logs rf)"
    using assms(2,4,5) by (auto simp: k_def node_ok_def lastLogIndexLocked_def)
  have le: "index \<le> lastLogIndexLocked rf" using assms(2,5) by (auto simp: node_ok_def)
  have g: "go_index (logs rf) (int k) = Some (logs rf ! k)"
    "go_from (logs rf) (int k + 1) = Some (drop (k + 1) (logs rf))"
    using k(2) by (simp_all add: go_index_def go_from_def nat_add_distrib)
  have cl: "compacted_logs rf index = \<lparr>eTerm = eTerm (logs rf ! k), eCommand = None\<rparr> # drop (Suc k) (logs rf)"
    by (simp add: compacted_logs_def k_def Let_def)
  let ?r = "rf\<lparr>lastIncludedIndex := index, lastIncludedTerm := eTerm (logs rf ! k)\<rparr>"
  obtain enc where e: "replaceLogs cd ?r (compacted_logs rf index) =
      Some (?r\<lparr>logs := compacted_logs rf index, encodedLogs := enc\<rparr>)"
      "cache_ok cd (?r\<lparr>logs := compacted_logs rf index, encodedLogs := enc\<rparr>)"
    using replaceLogs_Some [OF assms(1)] by blast
  then have p: "persist (?r\<lparr>logs := compacted_logs rf index, encodedLogs := enc, snapshot := data\<rparr>) =
      Some (saved (?r\<lparr>logs := compacted_logs rf index, encodedLogs := enc, snapshot := data\<rparr>))"
    by (intro persist_saved) (simp add: cache_ok_def)
  have "Snapshot cd rf index data =
      Some (saved (?r\<lparr>logs := compacted_logs rf index, encodedLogs := enc, snapshot := data\<rparr>))"
    using assms(3-5) le by (simp add: Snapshot_def k(1) g Let_def cl [symmetric] e(1) p)
  with e(2) show ?thesis by (intro exI [of _ enc]) (simp add: k_def cache_ok_def)
qed

lemma Snapshot_inv:
  assumes "codec_ok cd" "raft_inv cd rf"
  shows "\<exists>rf'. Snapshot cd rf index data = Some rf' \<and> raft_inv cd rf'"
proof (cases "killed rf \<or> index \<le> lastIncludedIndex rf \<or> lastApplied rf < index")
  case True
  then show ?thesis using Snapshot_ignored assms(2) by blast
next
  case False
  have n: "node_ok cd rf" using assms(2) by (simp add: raft_inv_def)
  obtain enc where e: "Snapshot cd rf index data =
      Some (saved (rf\<lparr>lastIncludedIndex := index,
        lastIncludedTerm := eTerm (logs rf ! nat (index - lastIncludedIndex rf)),
        logs := compacted_logs rf index, encodedLogs := enc, snapshot := data\<rparr>))"
      "cache_ok cd (rf\<lparr>logs := compacted_logs rf index, encodedLogs := enc\<rparr>)"
    using Snapshot_eq [OF assms(1) n] False by (meson not_le)
  have "int (length (compacted_logs rf index)) =
      int (length (logs rf)) - (index - lastIncludedIndex rf)"
    using False n by (auto simp: compacted_logs_def Let_def node_ok_def lastLogIndexLocked_def)
  moreover have "hd (compacted_logs rf index) =
      \<lparr>eTerm = eTerm (logs rf ! nat (index - lastIncludedIndex rf)), eCommand = None\<rparr>"
    "compacted_logs rf index \<noteq> []"
    by (simp_all add: compacted_logs_def Let_def)
  ultimately have "raft_inv cd (saved (rf\<lparr>lastIncludedIndex := index,
        lastIncludedTerm := eTerm (logs rf ! nat (index - lastIncludedIndex rf)),
        logs := compacted_logs rf index, encodedLogs := enc, snapshot := data\<rparr>))"
    using n e(2) False by (auto simp: raft_inv_def node_ok_def lastLogIndexLocked_def cache_ok_def)
  with e(1) show ?thesis by blast
qed

section \<open>Replication\<close>

lemma replicate_build_Some:
  assumes "raft_inv cd rf" "0 \<le> peer" "peer < int (npeers rf)"
  shows "\<exists>req. replicate_build rf peer = Some req"
proof (cases "killed rf \<or> rstate rf \<noteq> Leader")
  case False
  define nxt where "nxt = nextIndex rf ! nat peer"
  have "go_index (nextIndex rf) peer = Some nxt"
    using assms False by (auto simp: go_index_def nxt_def raft_inv_def node_ok_def)
  moreover have "lastIncludedIndex rf < nxt \<Longrightarrow> nxt - 1 \<le> lastLogIndexLocked rf \<Longrightarrow>
      go_from (logs rf) (toOffsetLocked rf nxt) = Some (drop (nat (nxt - lastIncludedIndex rf)) (logs rf))"
    by (simp add: go_from_def toOffsetLocked_def lastLogIndexLocked_def)
  ultimately show ?thesis
    using False by (auto simp: replicate_build_def termAtLocked_eq lastLogIndexLocked_def)
qed (auto simp: replicate_build_def)

lemma index_inv:
  assumes "raft_inv cd rf" "length ms = npeers rf" "length ns = npeers rf"
  shows "raft_inv cd (rf\<lparr>matchIndex := ms, nextIndex := ns\<rparr>)"
  using assms by (intro raft_inv_volatile [OF assms(1)])
    (auto simp: raft_inv_def node_ok_def lastLogIndexLocked_def cache_ok_def)

lemma store_max:
  fixes xs :: "int list"
  assumes "0 \<le> p" "p < int (length xs)"
  shows "(if xs ! nat p < v then go_store xs p v else Some xs) = Some (xs[nat p := max v (xs ! nat p)])"
    and "(if xs ! nat p \<le> v then go_store xs p (v + 1) else Some xs) = Some (xs[nat p := max (v + 1) (xs ! nat p)])"
  using assms by (auto simp: go_store_def max_def)

lemma peer_index:
  assumes "raft_inv cd rf" "rstate rf = Leader" "0 \<le> peer" "peer < int (npeers rf)"
  shows "go_index (matchIndex rf) peer = Some (matchIndex rf ! nat peer)"
    and "go_index (nextIndex rf) peer = Some (nextIndex rf ! nat peer)"
    and "peer < int (length (matchIndex rf))" "peer < int (length (nextIndex rf))"
    and "length (matchIndex rf) = npeers rf" "length (nextIndex rf) = npeers rf"
  using assms by (auto simp: raft_inv_def node_ok_def go_index_def)

text \<open>The replication state after the peer acknowledged everything up to \<open>n\<close>.\<close>

definition acked :: "'c raft \<Rightarrow> int \<Rightarrow> int \<Rightarrow> 'c raft" where
  "acked rf peer n =
     rf\<lparr>matchIndex := (matchIndex rf)[nat peer := max n (matchIndex rf ! nat peer)],
        nextIndex := (nextIndex rf)[nat peer := max (n + 1) (nextIndex rf ! nat peer)]\<rparr>"

lemma acked_inv:
  assumes "raft_inv cd rf" "rstate rf = Leader"
  shows "raft_inv cd (acked rf peer n)"
  unfolding acked_def using assms
  by (intro index_inv) (auto simp: raft_inv_def node_ok_def)

lemma replicate_snapshot_reply_inv:
  assumes "raft_inv cd rf" "0 \<le> peer" "peer < int (npeers rf)"
  shows "\<exists>rf' ctl. replicate_snapshot_reply ev rf peer args reply = Some (rf', ctl) \<and> raft_inv cd rf'"
proof (cases "killed rf \<or> isrStopped reply \<or> isrTerm reply > currentTerm rf \<or>
    rstate rf \<noteq> Leader \<or> currentTerm rf \<noteq> isTerm args")
  case True
  then show ?thesis
    by (auto simp: replicate_snapshot_reply_def becomeFollowerLocked_inv [OF assms(1)] assms(1)
        reset_inv follow_inv)
next
  case False
  then have L: "rstate rf = Leader" by blast
  note pi = peer_index [OF assms(1) L assms(2,3)]
  have "replicate_snapshot_reply ev rf peer args reply =
      Some (acked rf peer (isLastIncludedIndex args), CtlContinue)"
    using False
    by (simp add: replicate_snapshot_reply_def pi store_max [OF assms(2) pi(3)]
        store_max [OF assms(2) pi(4)] acked_def split del: if_split)
  with acked_inv [OF assms(1) L] show ?thesis by blast
qed

text \<open>A successful reply: the acknowledgement is recorded and, if new, the commit index advanced.\<close>

lemma replicate_append_reply_success:
  assumes "raft_inv cd rf" "0 \<le> peer" "peer < int (npeers rf)"
    and "\<not> killed rf" "\<not> aerStopped reply" "\<not> aerTerm reply > currentTerm rf" "rstate rf = Leader"
      "currentTerm rf = aeTerm args" "aerSuccess reply"
  defines "a \<equiv> acked rf peer (aePrevLogIndex args + int (length (aeEntries args)))"
  shows "\<exists>ci b ctl. replicate_append_reply ev rf peer args reply = Some (a\<lparr>commitIndex := ci\<rparr>, b, ctl)
    \<and> raft_inv cd (a\<lparr>commitIndex := ci\<rparr>) \<and> commitIndex rf \<le> ci
    \<and> (ci \<noteq> commitIndex rf \<longrightarrow> advanceCommitIndexLocked a = Some (a\<lparr>commitIndex := ci\<rparr>, b))"
proof -
  let ?n = "aePrevLogIndex args + int (length (aeEntries args))"
  note pi = peer_index [OF assms(1,7,2,3)]
  have inv: "raft_inv cd a" unfolding a_def using assms(1,7) by (rule acked_inv)
  have ci: "commitIndex a = commitIndex rf" by (simp add: a_def acked_def)
  obtain c b where adv: "advanceCommitIndexLocked a = Some (a\<lparr>commitIndex := c\<rparr>, b)"
      "raft_inv cd (a\<lparr>commitIndex := c\<rparr>)" "commitIndex rf \<le> c"
    using advanceCommitIndexLocked_inv [OF inv] ci by auto
  have same: "a\<lparr>commitIndex := commitIndex rf\<rparr> = a" by (simp add: ci [symmetric])
  define moved where "moved \<longleftrightarrow> matchIndex rf ! nat peer < ?n"
  define ci' where "ci' = (if moved then c else commitIndex rf)"
  define b' where "b' = (moved \<and> b)"
  have step: "(if moved then advanceCommitIndexLocked a else Some (a, False)) =
      Some (a\<lparr>commitIndex := ci'\<rparr>, b')"
    using adv(1) same by (simp add: ci'_def b'_def)
  have g: "go_index ((matchIndex rf)[nat peer := max ?n (matchIndex rf ! nat peer)]) peer =
      Some (max ?n (matchIndex rf ! nat peer))"
    "go_index (nextIndex (a\<lparr>commitIndex := ci'\<rparr>)) peer = Some (max (?n + 1) (nextIndex rf ! nat peer))"
    using assms(2) pi(3,4) by (simp_all add: a_def acked_def go_index_def nat_less_iff)
  have ae: "rf\<lparr>matchIndex := (matchIndex rf)[nat peer := max ?n (matchIndex rf ! nat peer)],
      nextIndex := (nextIndex rf)[nat peer := max (?n + 1) (nextIndex rf ! nat peer)]\<rparr> = a"
    by (simp add: a_def acked_def)
  have eq: "replicate_append_reply ev rf peer args reply = Some (a\<lparr>commitIndex := ci'\<rparr>, b',
      if max (?n + 1) (nextIndex rf ! nat peer) > lastLogIndexLocked (a\<lparr>commitIndex := ci'\<rparr>)
      then CtlReturn else CtlContinue)"
    using assms(4-9) step g
    by (simp add: replicate_append_reply_def pi store_max [OF assms(2) pi(3)]
        store_max [OF assms(2) pi(4)] Let_def ae
        less_max_iff_disj moved_def [symmetric] cong: if_cong split del: if_split)
  have "raft_inv cd (a\<lparr>commitIndex := ci'\<rparr>)"
    using adv(2) inv same by (cases moved) (simp_all add: ci'_def)
  moreover have "commitIndex rf \<le> ci'" using adv(3) by (simp add: ci'_def)
  moreover have "ci' \<noteq> commitIndex rf \<longrightarrow> advanceCommitIndexLocked a = Some (a\<lparr>commitIndex := ci'\<rparr>, b')"
    using adv(1) by (cases moved) (simp_all add: ci'_def b'_def)
  ultimately show ?thesis using eq by blast
qed

lemma replicate_append_reply_inv:
  assumes "raft_inv cd rf" "0 \<le> peer" "peer < int (npeers rf)"
  shows "\<exists>rf' b ctl. replicate_append_reply ev rf peer args reply = Some (rf', b, ctl) \<and> raft_inv cd rf'"
proof (cases "killed rf \<or> aerStopped reply \<or> aerTerm reply > currentTerm rf \<or>
    rstate rf \<noteq> Leader \<or> currentTerm rf \<noteq> aeTerm args")
  case True
  then show ?thesis
    by (auto simp: replicate_append_reply_def becomeFollowerLocked_inv [OF assms(1)] assms(1)
        reset_inv follow_inv)
next
  case False
  then have L: "rstate rf = Leader" by blast
  note pi = peer_index [OF assms(1) L assms(2,3)]
  show ?thesis
  proof (cases "aerSuccess reply")
    case True
    then show ?thesis using replicate_append_reply_success [OF assms] False by blast
  next
    case fail: False
    let ?ns = "(nextIndex rf)[nat peer := backoffNext rf (matchIndex rf ! nat peer) reply]"
    have "raft_inv cd (rf\<lparr>matchIndex := matchIndex rf, nextIndex := ?ns\<rparr>)"
      using pi by (intro index_inv [OF assms(1)]) simp_all
    then have "raft_inv cd (rf\<lparr>nextIndex := ?ns\<rparr>)" by simp
    then show ?thesis
      using False fail assms(1,2) pi by (auto simp: replicate_append_reply_def go_store_def)
  qed
qed

lemma replicate_append_done_inv:
  assumes "raft_inv cd rf" "0 \<le> peer" "peer < int (npeers rf)"
  shows "\<exists>rf' ctl. replicate_append_done ev rf peer args reply = Some (rf', ctl) \<and> raft_inv cd rf'"
proof -
  obtain r b ctl where "replicate_append_reply ev rf peer args reply = Some (r, b, ctl)" "raft_inv cd r"
    using replicate_append_reply_inv [OF assms] by blast
  then show ?thesis using broadcast_inv [of cd r] by (auto simp: replicate_append_done_def)
qed

lemma worker_inv:
  assumes "raft_inv cd rf" "0 \<le> peer" "peer < int (npeers rf)"
  shows "\<exists>rf' b. replicationWorker_begin rf peer = Some (rf', b) \<and> raft_inv cd rf'"
    and "\<exists>rf'. replicationWorker_end rf peer = Some rf' \<and> raft_inv cd rf'"
proof -
  have n: "length (replicateNotify rf) = npeers rf" "length (replicateBusy rf) = npeers rf"
    using assms(1) by (auto simp: raft_inv_def node_ok_def)
  have inv: "raft_inv cd (rf\<lparr>replicateNotify := nt, replicateBusy := bs\<rparr>)"
    if "length nt = npeers rf" "length bs = npeers rf" for nt bs
    using that assms(1) by (intro raft_inv_volatile [OF assms(1)])
      (auto simp: raft_inv_def node_ok_def lastLogIndexLocked_def cache_ok_def)
  show "\<exists>rf' b. replicationWorker_begin rf peer = Some (rf', b) \<and> raft_inv cd rf'"
    using assms(2,3) n notify_inv [OF assms(1)] inv
    by (auto simp: replicationWorker_begin_def go_store_def Let_def)
  have "raft_inv cd (rf\<lparr>replicateNotify := replicateNotify rf, replicateBusy := (replicateBusy rf)[nat peer := False]\<rparr>)"
    by (rule inv) (simp_all add: n)
  then show "\<exists>rf'. replicationWorker_end rf peer = Some rf' \<and> raft_inv cd rf'"
    using assms(2,3) n by (simp add: replicationWorker_end_def go_store_def)
qed

section \<open>Heartbeats\<close>

lemma heartbeat_reply_inv:
  assumes "raft_inv cd rf"
  shows "\<exists>rf'. heartbeat_reply ev rf reply = Some rf' \<and> raft_inv cd rf'"
  by (simp add: heartbeat_reply_def becomeFollowerLocked_inv [OF assms] assms reset_inv follow_inv)

lemma heartbeatLoop_inv:
  assumes "raft_inv cd rf" "\<forall>p \<in> set ps. 0 \<le> p \<and> p < int (npeers rf)"
  shows "\<exists>rf' ts rs. heartbeatLoop ev ps rf = Some (rf', ts, rs) \<and> raft_inv cd rf'"
  using assms
proof (induction ps arbitrary: rf)
  case (Cons p ps)
  have n: "length (replicateNotify rf) = npeers rf" "length (replicateBusy rf) = npeers rf"
    "length (lastRescueSent rf) = npeers rf" "logs rf \<noteq> []"
    using Cons.prems(1) by (auto simp: raft_inv_def node_ok_def)
  have p: "0 \<le> p" "p < int (npeers rf)" "\<forall>p \<in> set ps. 0 \<le> p \<and> p < int (npeers rf)"
    using Cons.prems(2) by auto
  let ?nt = "rf\<lparr>replicateNotify := (replicateNotify rf)[nat p := True]\<rparr>"
  let ?ls = "rf\<lparr>lastRescueSent := (lastRescueSent rf)[nat p := now ev]\<rparr>"
  have nt: "raft_inv cd ?nt" by (rule notify_inv [OF Cons.prems(1)]) (simp add: n)
  have ls: "raft_inv cd ?ls"
    using Cons.prems(1) by (intro raft_inv_volatile [OF Cons.prems(1)])
      (auto simp: raft_inv_def node_ok_def lastLogIndexLocked_def cache_ok_def)
  have g: "go_index (replicateBusy rf) p = Some (replicateBusy rf ! nat p)"
    "go_index (lastRescueSent rf) p = Some (lastRescueSent rf ! nat p)"
    "go_store (replicateNotify rf) p True = Some ((replicateNotify rf)[nat p := True])"
    "go_store (lastRescueSent rf) p (now ev) = Some ((lastRescueSent rf)[nat p := now ev])"
    using p n by (simp_all add: go_index_def go_store_def)
  show ?case
    using Cons.IH [OF Cons.prems(1) p(3)] Cons.IH [of ?nt] Cons.IH [of ?ls] nt ls p(3)
    by (auto simp: g lastLogTermLocked_eq [OF n(4)] Let_def)
qed simp

lemma heartbeatOrNotifyReplication_inv:
  assumes "raft_inv cd rf"
  shows "\<exists>rf' ts rs. heartbeatOrNotifyReplication ev rf = Some (rf', ts, rs) \<and> raft_inv cd rf'"
  using heartbeatLoop_inv [OF assms peerIds_range, of ev] launchAll_inv [of cd] assms
  by (auto simp: heartbeatOrNotifyReplication_def)

section \<open>The applier\<close>

lemma applier_messages_eq:
  assumes "lastIncludedIndex rf \<le> i" "i + int n \<le> lastIncludedIndex rf + int (length (logs rf))"
  shows "applier_messages rf i n =
    Some (map (\<lambda>k. \<lparr>CommandValid = True,
                     mCommand = eCommand (logs rf ! nat (i + int k - lastIncludedIndex rf)),
                     CommandIndex = i + int k, SnapshotValid = False, mSnapshot = [],
                     SnapshotTerm = 0, SnapshotIndex = 0\<rparr>) [0..<n])"
  using assms
proof (induction n arbitrary: i)
  case (Suc n)
  have "go_index (logs rf) (i - lastIncludedIndex rf) = Some (logs rf ! nat (i - lastIncludedIndex rf))"
    using Suc.prems by (simp add: go_index_def)
  moreover have "map f [0..<Suc n] = f 0 # map (\<lambda>k. f (Suc k)) [0..<n]" for f :: "nat \<Rightarrow> 'a apply_msg"
    by (simp add: upt_conv_Cons map_Suc_upt [symmetric] del: upt_Suc)
  moreover have "applier_messages rf (i + 1) n =
    Some (map (\<lambda>k. \<lparr>CommandValid = True,
                     mCommand = eCommand (logs rf ! nat (i + int (Suc k) - lastIncludedIndex rf)),
                     CommandIndex = i + int (Suc k), SnapshotValid = False, mSnapshot = [],
                     SnapshotTerm = 0, SnapshotIndex = 0\<rparr>) [0..<n])"
    using Suc.IH [of "i + 1"] Suc.prems by (simp add: algebra_simps)
  ultimately show ?case by (simp add: toOffsetLocked_def del: upt_Suc)
qed simp

text \<open>The message that delivers the entry at an index of the log.\<close>

definition command_msg :: "'c raft \<Rightarrow> int \<Rightarrow> 'c apply_msg" where
  "command_msg rf i =
     \<lparr>CommandValid = True, mCommand = eCommand (logs rf ! nat (i - lastIncludedIndex rf)),
      CommandIndex = i, SnapshotValid = False, mSnapshot = [], SnapshotTerm = 0, SnapshotIndex = 0\<rparr>"

lemma applier_commands:
  assumes "node_ok cd rf" "\<not> killed rf" "pendingSnapshot rf = None" "lastApplied rf < commitIndex rf"
  shows "applier rf = Some (rf\<lparr>lastApplied := commitIndex rf\<rparr>,
    ApplierSend (map (command_msg rf) [lastApplied rf + 1..commitIndex rf]))"
proof -
  let ?n = "nat (commitIndex rf - lastApplied rf)"
  have upto: "map f [lastApplied rf + 1..commitIndex rf] = map (\<lambda>k. f (lastApplied rf + 1 + int k)) [0..<?n]"
    for f :: "int \<Rightarrow> 'a apply_msg"
    using assms(4) by (intro nth_equalityI) auto
  have "applier_messages rf (lastApplied rf + 1) ?n =
      Some (map (command_msg rf) [lastApplied rf + 1..commitIndex rf])"
    unfolding upto using assms
    by (subst applier_messages_eq) (auto simp: node_ok_def lastLogIndexLocked_def command_msg_def)
  moreover have "nat (commitIndex rf - (lastApplied rf + 1) + 1) = ?n" by simp
  ultimately show ?thesis
    using assms by (simp add: applier_def Let_def node_ok_def)
qed

lemma applier_inv:
  assumes "raft_inv cd rf"
  shows "\<exists>rf' st. applier rf = Some (rf', st) \<and> raft_inv cd rf'"
proof -
  have n: "node_ok cd rf" using assms by (simp add: raft_inv_def)
  have inv: "raft_inv cd (rf\<lparr>pendingSnapshot := m, lastApplied := i\<rparr>)"
    if "lastApplied rf \<le> i" "i \<le> commitIndex rf" "m = None \<or> m = pendingSnapshot rf" for m i
    using n that by (intro raft_inv_volatile [OF assms])
      (auto simp: node_ok_def lastLogIndexLocked_def cache_ok_def)
  consider (dead) "killed rf" | (snap) m where "\<not> killed rf" "pendingSnapshot rf = Some m"
    | (wait) "\<not> killed rf" "pendingSnapshot rf = None" "lastApplied rf \<ge> commitIndex rf"
    | (send) "\<not> killed rf" "pendingSnapshot rf = None" "lastApplied rf < commitIndex rf"
    by (cases "pendingSnapshot rf") (auto, linarith)
  then show ?thesis
  proof cases
    case snap
    have "SnapshotIndex m \<le> commitIndex rf" using n snap by (auto simp: node_ok_def)
    then show ?thesis
      using snap n inv [of "SnapshotIndex m" None] inv [of "lastApplied rf" None]
      by (auto simp: applier_def node_ok_def)
  next
    case send
    have "raft_inv cd (rf\<lparr>pendingSnapshot := pendingSnapshot rf, lastApplied := commitIndex rf\<rparr>)"
      using send by (intro inv) auto
    then show ?thesis using applier_commands [OF n send] by simp
  qed (auto simp: applier_def assms)
qed

section \<open>Kill\<close>

lemma Kill_inv:
  assumes "raft_inv cd rf"
  shows "raft_inv cd (Kill rf)"
  using assms by (intro raft_inv_volatile [OF assms])
    (auto simp: Kill_def raft_inv_def node_ok_def lastLogIndexLocked_def cache_ok_def)

lemma Kill_wait_inv:
  assumes "raft_inv cd rf"
  shows "raft_inv cd (Kill_wait rf)"
  using assms by (intro raft_inv_volatile [OF assms])
    (auto simp: Kill_wait_def raft_inv_def node_ok_def lastLogIndexLocked_def cache_ok_def)

lemma launch_done_inv:
  assumes "raft_inv cd rf"
  shows "raft_inv cd (launch_done rf)"
  using assms by (intro raft_inv_volatile [OF assms])
    (auto simp: launch_done_def raft_inv_def node_ok_def lastLogIndexLocked_def cache_ok_def)

end
