(* ===== verification/Raft_Events.thy ===== *)
theory Raft_Events
  imports Raft_Leader
begin

text \<open>
  A node as a whole: its creation and recovery (\<^verbatim>\<open>Make\<close>), one event per critical section, and
  what holds along every sequence of events and crashes.
\<close>

section \<open>Creation and recovery\<close>

text \<open>The state that \<^verbatim>\<open>Make\<close> builds from the durable fields it has read.\<close>

definition booted :: "go_env \<Rightarrow> nat \<Rightarrow> int \<Rightarrow> persister \<Rightarrow>
    int \<Rightarrow> int \<Rightarrow> 'c log_entry list \<Rightarrow> bytes list \<Rightarrow> int \<Rightarrow> int \<Rightarrow> 'c raft" where
  "booted ev n self ps ct vf ls es li lt =
     launchAll (length [p. p \<leftarrow> map int [0..<n], p \<noteq> self] + 3)
       \<lparr>npeers = n, persister = ps, encodedLogs = es, me = self, dead = False,
        rdone = False, rstopped = False, workers = 0, currentTerm = ct, votedFor = vf,
        logs = ls, nextIndex = [], matchIndex = [], rstate = Follower,
        electionDeadline = now ev + randomElectionTimeout ev, commitIndex = li, lastApplied = li,
        replicateNotify = replicate n False, replicateBusy = replicate n False,
        lastRescueSent = replicate n 0, lastIncludedIndex = li, lastIncludedTerm = lt,
        snapshot = psnapshot ps, pendingSnapshot = None\<rparr>"

lemma booted_simps [simp]:
  "npeers (booted ev n self ps ct vf ls es li lt) = n" "me (booted ev n self ps ct vf ls es li lt) = self"
  "persister (booted ev n self ps ct vf ls es li lt) = ps"
  "encodedLogs (booted ev n self ps ct vf ls es li lt) = es"
  "logs (booted ev n self ps ct vf ls es li lt) = ls"
  "currentTerm (booted ev n self ps ct vf ls es li lt) = ct"
  "votedFor (booted ev n self ps ct vf ls es li lt) = vf"
  "rstate (booted ev n self ps ct vf ls es li lt) = Follower"
  "killed (booted ev n self ps ct vf ls es li lt) = False"
  "commitIndex (booted ev n self ps ct vf ls es li lt) = li"
  "lastApplied (booted ev n self ps ct vf ls es li lt) = li"
  "lastIncludedIndex (booted ev n self ps ct vf ls es li lt) = li"
  "lastIncludedTerm (booted ev n self ps ct vf ls es li lt) = lt"
  "snapshot (booted ev n self ps ct vf ls es li lt) = psnapshot ps"
  "pendingSnapshot (booted ev n self ps ct vf ls es li lt) = None"
  "replicateNotify (booted ev n self ps ct vf ls es li lt) = replicate n False"
  "replicateBusy (booted ev n self ps ct vf ls es li lt) = replicate n False"
  "lastRescueSent (booted ev n self ps ct vf ls es li lt) = replicate n 0"
  by (simp_all add: booted_def launchAll_eq killed_def)

lemma Make_fresh:
  assumes "encEntry cd \<lparr>eTerm = 0, eCommand = None\<rparr> = Some b" "raftstate ps = []"
  shows "Make cd ev n self ps = Some (booted ev n self ps 0 (-1) [\<lparr>eTerm = 0, eCommand = None\<rparr>] [b] 0 0)"
  using assms
  by (simp add: Make_def rebuildEncodedLogs_def encodeLogEntry_def readPersist_def ReadRaftState_def
      ReadSnapshot_def peerIds_def booted_def Let_def)

lemma Make_recovers:
  assumes "codec_ok cd" "cache_ok cd rf" "sizes_ok rf" "logs rf \<noteq> []" "raftstate ps = persist_bytes rf"
  shows "Make cd ev n self ps =
    Some (booted ev n self ps (currentTerm rf) (votedFor rf) (logs rf) (encodedLogs rf)
      (lastIncludedIndex rf) (lastIncludedTerm rf))"
proof -
  obtain b where b: "encEntry cd \<lparr>eTerm = 0, eCommand = None\<rparr> = Some b"
    using assms(1) by (auto simp: codec_ok_def)
  have "persist_bytes rf \<noteq> []" by (simp add: persist_bytes_def persistMagic_def)
  then show ?thesis
    using assms(5)
    by (simp add: Make_def rebuildEncodedLogs_def encodeLogEntry_def b readPersist_def ReadRaftState_def
        ReadSnapshot_def readCachedPersist_persist_bytes [OF assms(2-4)] peerIds_def booted_def Let_def)
qed

lemma persist_bytes_cong:
  "\<lbrakk>currentTerm rf' = currentTerm rf; votedFor rf' = votedFor rf; encodedLogs rf' = encodedLogs rf;
    lastIncludedIndex rf' = lastIncludedIndex rf; lastIncludedTerm rf' = lastIncludedTerm rf\<rbrakk>
   \<Longrightarrow> persist_bytes rf' = persist_bytes rf"
  by (simp add: persist_bytes_def)

text \<open>A node restarted from the persister that a well-formed node left behind.\<close>

definition same_durable :: "'c raft \<Rightarrow> 'c raft \<Rightarrow> bool" where
  "same_durable rf rf' \<longleftrightarrow>
     currentTerm rf' = currentTerm rf \<and> votedFor rf' = votedFor rf \<and> logs rf' = logs rf \<and>
     lastIncludedIndex rf' = lastIncludedIndex rf \<and> lastIncludedTerm rf' = lastIncludedTerm rf \<and>
     snapshot rf' = snapshot rf"

lemma restart_eq:
  assumes "codec_ok cd" "raft_inv cd rf" "sizes_ok rf"
  shows "\<exists>es. Make cd ev (npeers rf) (me rf) (persister rf) =
      Some (booted ev (npeers rf) (me rf) (persister rf) (currentTerm rf) (votedFor rf) (logs rf) es
              (lastIncludedIndex rf) (lastIncludedTerm rf))
    \<and> list_all2 (\<lambda>b e. decEntry cd b = Some e) es (logs rf)
    \<and> (es = encodedLogs rf \<or> raftstate (persister rf) = [])"
proof -
  have n: "cache_ok cd rf" "logs rf \<noteq> []" and s: "saved_ok rf"
    using assms(2) by (auto simp: raft_inv_def node_ok_def)
  show ?thesis
  proof (cases "raftstate (persister rf) = persist_bytes rf")
    case True
    with Make_recovers [OF assms(1) n(1) assms(3) n(2) True] n(1) show ?thesis
      by (intro exI [of _ "encodedLogs rf"]) (simp add: cache_ok_def)
  next
    case False
    then have f: "raftstate (persister rf) = []" "fresh_durable rf" using s by (auto simp: saved_ok_def)
    obtain b where b: "encEntry cd \<lparr>eTerm = 0, eCommand = None\<rparr> = Some b"
        "decEntry cd b = Some \<lparr>eTerm = 0, eCommand = None\<rparr>"
      using assms(1) by (auto simp: codec_ok_def)
    have eq: "currentTerm rf = 0" "votedFor rf = -1" "logs rf = [\<lparr>eTerm = 0, eCommand = None\<rparr>]"
      "lastIncludedIndex rf = 0" "lastIncludedTerm rf = 0"
      using f(2) by (auto simp: fresh_durable_def)
    show ?thesis
      unfolding eq using Make_fresh [OF b(1) f(1)] f(1) b(2) by (intro exI [of _ "[b]"]) simp
  qed
qed

lemma restart_inv:
  assumes "codec_ok cd" "raft_inv cd rf" "sizes_ok rf"
  shows "\<exists>rf'. Make cd ev (npeers rf) (me rf) (persister rf) = Some rf' \<and> raft_inv cd rf'
    \<and> same_durable rf rf' \<and> rstate rf' = Follower \<and> commitIndex rf' = lastIncludedIndex rf
    \<and> lastApplied rf' = lastIncludedIndex rf \<and> npeers rf' = npeers rf \<and> me rf' = me rf"
proof -
  obtain es where es: "Make cd ev (npeers rf) (me rf) (persister rf) =
      Some (booted ev (npeers rf) (me rf) (persister rf) (currentTerm rf) (votedFor rf) (logs rf) es
              (lastIncludedIndex rf) (lastIncludedTerm rf))" (is "_ = Some ?b")
    and c: "list_all2 (\<lambda>b e. decEntry cd b = Some e) es (logs rf)"
    and d: "es = encodedLogs rf \<or> raftstate (persister rf) = []"
    using restart_eq [OF assms] by blast
  have n: "node_ok cd rf" and s: "saved_ok rf" using assms(2) by (auto simp: raft_inv_def)
  have "node_ok cd ?b"
    using n c by (auto simp: node_ok_def cache_ok_def lastLogIndexLocked_def neq_Nil_conv)
  moreover have "persist_bytes rf \<noteq> []" by (simp add: persist_bytes_def persistMagic_def)
  then have "saved_ok ?b"
    using s d persist_bytes_cong [of ?b rf] by (auto simp: saved_ok_def fresh_durable_def)
  moreover have "same_durable rf ?b" using s by (simp add: same_durable_def saved_ok_def)
  ultimately show ?thesis using es by (simp add: raft_inv_def)
qed

lemma Make_fresh_inv:
  assumes "codec_ok cd" "0 \<le> self" "self < int n"
  shows "\<exists>rf. Make cd ev n self MakePersister = Some rf \<and> raft_inv cd rf
    \<and> fresh_durable rf \<and> npeers rf = n \<and> me rf = self \<and> rstate rf = Follower"
proof -
  obtain b where b: "encEntry cd \<lparr>eTerm = 0, eCommand = None\<rparr> = Some b"
      "decEntry cd b = Some \<lparr>eTerm = 0, eCommand = None\<rparr>"
    using assms(1) by (auto simp: codec_ok_def)
  have "raftstate MakePersister = []" by (simp add: MakePersister_def)
  from Make_fresh [OF b(1) this, of ev n self] b(2) assms(2,3) show ?thesis
    by (auto simp: raft_inv_def node_ok_def saved_ok_def fresh_durable_def cache_ok_def MakePersister_def
        lastLogIndexLocked_def)
qed

section \<open>Events\<close>

text \<open>
  One constructor per critical section of the node. What the section reads from elsewhere (a
  request, a reply, the shared vote counter of an election) is an argument.
\<close>

datatype 'c raft_event =
    EvAppendEntries "'c append_args"
  | EvInstallSnapshot install_args
  | EvRequestVote vote_args
  | EvStartElection
  | EvVoteReply nat int vote_reply
  | EvSnapshotReply int install_args install_reply
  | EvAppendReply int "'c append_args" append_reply
  | EvHeartbeatReply append_reply
  | EvHeartbeatTick
  | EvWorkerBegin int
  | EvWorkerEnd int
  | EvApply
  | EvStart 'c
  | EvSnapshot int bytes
  | EvKill
  | EvStopped
  | EvGoroutineDone

definition raft_step :: "'c codec \<Rightarrow> go_env \<Rightarrow> 'c raft \<Rightarrow> 'c raft_event \<Rightarrow> 'c raft option" where
  "raft_step cd ev rf e =
     (case e of
        EvAppendEntries args \<Rightarrow> map_option fst (AppendEntries cd ev rf args)
      | EvInstallSnapshot args \<Rightarrow> map_option fst (InstallSnapshot cd ev rf args)
      | EvRequestVote args \<Rightarrow> map_option fst (RequestVote ev rf args)
      | EvStartElection \<Rightarrow> map_option fst (startElection ev rf)
      | EvVoteReply votes term reply \<Rightarrow> map_option fst (election_reply ev rf votes term reply)
      | EvSnapshotReply peer args reply \<Rightarrow> map_option fst (replicate_snapshot_reply ev rf peer args reply)
      | EvAppendReply peer args reply \<Rightarrow> map_option fst (replicate_append_done ev rf peer args reply)
      | EvHeartbeatReply reply \<Rightarrow> heartbeat_reply ev rf reply
      | EvHeartbeatTick \<Rightarrow> map_option fst (heartbeatOrNotifyReplication ev rf)
      | EvWorkerBegin peer \<Rightarrow> map_option fst (replicationWorker_begin rf peer)
      | EvWorkerEnd peer \<Rightarrow> replicationWorker_end rf peer
      | EvApply \<Rightarrow> map_option fst (applier rf)
      | EvStart command \<Rightarrow> map_option fst (Start cd rf command)
      | EvSnapshot index data \<Rightarrow> Snapshot cd rf index data
      | EvKill \<Rightarrow> Some (Kill rf)
      | EvStopped \<Rightarrow> Some (Kill_wait rf)
      | EvGoroutineDone \<Rightarrow> Some (launch_done rf))"

text \<open>The events that can occur: peers are in range, and no request contradicts a committed entry.\<close>

definition peer_ok :: "'c raft \<Rightarrow> int \<Rightarrow> bool" where
  "peer_ok rf peer \<longleftrightarrow> 0 \<le> peer \<and> peer < int (npeers rf)"

definition event_ok :: "'c raft \<Rightarrow> 'c raft_event \<Rightarrow> bool" where
  "event_ok rf e =
     (case e of
        EvAppendEntries args \<Rightarrow> append_compat rf args
      | EvSnapshotReply peer _ _ \<Rightarrow> peer_ok rf peer
      | EvAppendReply peer _ _ \<Rightarrow> peer_ok rf peer
      | EvWorkerBegin peer \<Rightarrow> peer_ok rf peer
      | EvWorkerEnd peer \<Rightarrow> peer_ok rf peer
      | _ \<Rightarrow> True)"

lemma raft_step_inv:
  assumes "codec_ok cd" "raft_inv cd rf" "event_ok rf e"
  shows "\<exists>rf'. raft_step cd ev rf e = Some rf' \<and> raft_inv cd rf'"
proof (cases e)
  case (EvAppendEntries args)
  then show ?thesis
    using AppendEntries_inv [OF assms(1,2), of args ev] assms(3) by (auto simp: raft_step_def event_ok_def)
next
  case (EvInstallSnapshot args)
  then show ?thesis using InstallSnapshot_inv [OF assms(1,2), of ev args] by (auto simp: raft_step_def)
next
  case (EvRequestVote args)
  then show ?thesis using RequestVote_inv [OF assms(2), of ev args] by (auto simp: raft_step_def)
next
  case EvStartElection
  then show ?thesis using startElection_inv [OF assms(2), of ev] by (auto simp: raft_step_def)
next
  case (EvVoteReply votes t reply)
  then show ?thesis using election_reply_inv [OF assms(2), of ev votes t reply] by (auto simp: raft_step_def)
next
  case (EvSnapshotReply peer args reply)
  then show ?thesis
    using replicate_snapshot_reply_inv [OF assms(2), of peer ev args reply] assms(3)
    by (auto simp: raft_step_def event_ok_def peer_ok_def)
next
  case (EvAppendReply peer args reply)
  then show ?thesis
    using replicate_append_done_inv [OF assms(2), of peer ev args reply] assms(3)
    by (auto simp: raft_step_def event_ok_def peer_ok_def)
next
  case (EvHeartbeatReply reply)
  then show ?thesis using heartbeat_reply_inv [OF assms(2), of ev reply] by (auto simp: raft_step_def)
next
  case EvHeartbeatTick
  then show ?thesis using heartbeatOrNotifyReplication_inv [OF assms(2), of ev] by (auto simp: raft_step_def)
next
  case (EvWorkerBegin peer)
  then show ?thesis
    using worker_inv(1) [OF assms(2), of peer] assms(3) by (auto simp: raft_step_def event_ok_def peer_ok_def)
next
  case (EvWorkerEnd peer)
  then show ?thesis
    using worker_inv(2) [OF assms(2), of peer] assms(3) by (auto simp: raft_step_def event_ok_def peer_ok_def)
next
  case EvApply
  then show ?thesis using applier_inv [OF assms(2)] by (auto simp: raft_step_def)
next
  case (EvStart command)
  then show ?thesis using Start_inv [OF assms(1,2), of command] by (auto simp: raft_step_def)
next
  case (EvSnapshot index data)
  then show ?thesis using Snapshot_inv [OF assms(1,2), of index data] by (auto simp: raft_step_def)
qed (auto simp: raft_step_def assms(2) Kill_inv Kill_wait_inv launch_done_inv)

section \<open>Progress of a node\<close>

text \<open>The entry at an absolute index of the log.\<close>

definition entryAt :: "'c raft \<Rightarrow> int \<Rightarrow> 'c log_entry" where
  "entryAt rf i = logs rf ! nat (i - lastIncludedIndex rf)"

text \<open>
  How two states of a node, the second later than the first, are related: the term, the commit
  index, the applied index and the snapshot only move forward; a vote is not changed within its
  term; a leader only appends to its log.
\<close>

definition node_le :: "'c raft \<Rightarrow> 'c raft \<Rightarrow> bool" where
  "node_le rf rf' \<longleftrightarrow>
     npeers rf' = npeers rf \<and> me rf' = me rf \<and>
     currentTerm rf \<le> currentTerm rf' \<and>
     (currentTerm rf' = currentTerm rf \<longrightarrow> votedFor rf = -1 \<or> votedFor rf' = votedFor rf) \<and>
     commitIndex rf \<le> commitIndex rf' \<and> lastApplied rf \<le> lastApplied rf' \<and>
     lastIncludedIndex rf \<le> lastIncludedIndex rf'"

definition leader_appends :: "'c raft \<Rightarrow> 'c raft \<Rightarrow> bool" where
  "leader_appends rf rf' \<longleftrightarrow>
     (rstate rf = Leader \<and> rstate rf' = Leader \<and> currentTerm rf' = currentTerm rf \<longrightarrow>
        lastLogIndexLocked rf \<le> lastLogIndexLocked rf' \<and>
        (\<forall>i. lastIncludedIndex rf' < i \<and> i \<le> lastLogIndexLocked rf \<longrightarrow> entryAt rf' i = entryAt rf i))"

lemma node_le_refl: "node_le rf rf"
  by (simp add: node_le_def)

lemma leader_appends_refl: "leader_appends rf rf"
  by (simp add: leader_appends_def)

text \<open>Changes that touch neither the log nor what \<open>node_le\<close> speaks about.\<close>

lemma progress_frame:
  assumes "npeers rf' = npeers rf" "me rf' = me rf" "currentTerm rf' = currentTerm rf"
    "votedFor rf' = votedFor rf" "commitIndex rf \<le> commitIndex rf'" "lastApplied rf \<le> lastApplied rf'"
    "lastIncludedIndex rf' = lastIncludedIndex rf" "logs rf' = logs rf"
  shows "node_le rf rf' \<and> leader_appends rf rf'"
  using assms by (simp add: node_le_def leader_appends_def entryAt_def lastLogIndexLocked_def)

lemma progress_heard: "node_le rf (heard ev rf t) \<and> leader_appends rf (heard ev rf t)"
  by (simp add: node_le_def leader_appends_def heard_def)

lemma progress_follow: "node_le rf (follow rf t) \<and> leader_appends rf (follow rf t)"
  by (simp add: node_le_def leader_appends_def)

abbreviation progress :: "'c raft \<Rightarrow> 'c raft \<Rightarrow> bool" where
  "progress rf rf' \<equiv> node_le rf rf' \<and> leader_appends rf rf'"

lemma AppendEntries_progress:
  assumes "codec_ok cd" "raft_inv cd rf" "AppendEntries cd ev rf args = Some (rf', reply)"
  shows "progress rf rf'"
proof -
  have c: "cache_ok cd rf" using assms(2) by (rule raft_inv_cache)
  let ?h = "heard ev rf (aeTerm args)"
  consider (stale) "killed rf \<or> aeTerm args < currentTerm rf"
    | (reject) "\<not> killed rf" "currentTerm rf \<le> aeTerm args" "\<not> prev_matches rf args"
    | (accept) "\<not> killed rf" "currentTerm rf \<le> aeTerm args" "prev_matches rf args"
    by linarith
  then show ?thesis
  proof cases
    case stale
    then have "rf' = rf" using AppendEntries_stale [of rf args cd ev] assms(3) by simp
    then show ?thesis by (simp add: node_le_refl leader_appends_refl)
  next
    case reject
    then have "rf' = ?h" using AppendEntries_reject [OF c reject, of ev] assms(3) by auto
    then show ?thesis by (simp add: progress_heard)
  next
    case accept
    obtain enc ch where "AppendEntries cd ev rf args =
        Some ((if ch then saved (?h\<lparr>logs := merged_logs rf args, encodedLogs := enc\<rparr>) else ?h)
                \<lparr>commitIndex := append_commit rf args\<rparr>, (appendReply ?h)\<lparr>aerSuccess := True\<rparr>)"
      using AppendEntries_accept [OF assms(1) c accept, of ev] by blast
    then have "rf' = (if ch then saved (?h\<lparr>logs := merged_logs rf args, encodedLogs := enc\<rparr>) else ?h)
                \<lparr>commitIndex := append_commit rf args\<rparr>"
      using assms(3) by simp
    then show ?thesis
      by (cases ch) (simp_all add: node_le_def leader_appends_def heard_def append_commit_def)
  qed
qed

lemma InstallSnapshot_progress:
  assumes "codec_ok cd" "raft_inv cd rf" "InstallSnapshot cd ev rf args = Some (rf', reply)"
  shows "progress rf rf'"
proof -
  have c: "cache_ok cd rf" and n: "lastIncludedIndex rf \<le> commitIndex rf" "lastApplied rf \<le> commitIndex rf"
    using assms(2) by (auto simp: raft_inv_def node_ok_def)
  let ?h = "heard ev rf (isTerm args)"
  consider (stale) "killed rf \<or> isTerm args < currentTerm rf"
    | (old) "\<not> killed rf" "currentTerm rf \<le> isTerm args" "isLastIncludedIndex args \<le> commitIndex rf"
    | (accept) "\<not> killed rf" "currentTerm rf \<le> isTerm args" "commitIndex rf < isLastIncludedIndex args"
    by linarith
  then show ?thesis
  proof cases
    case stale
    then have "rf' = rf" using InstallSnapshot_stale [of rf args cd ev] assms(3) by simp
    then show ?thesis by (simp add: node_le_refl leader_appends_refl)
  next
    case old
    then have "rf' = ?h" using InstallSnapshot_old [OF c old, of ev] assms(3) by simp
    then show ?thesis by (simp add: progress_heard)
  next
    case accept
    obtain enc where "InstallSnapshot cd ev rf args =
        Some ((saved (installed ?h args enc))
              \<lparr>pendingSnapshot := Some (snapshot_msg (saved (installed ?h args enc)))\<rparr>,
            \<lparr>isrTerm = isTerm args, isrStopped = False\<rparr>)"
      using InstallSnapshot_accept [OF assms(1) c n(1) accept, of ev] by blast
    then have "rf' = (saved (installed ?h args enc))
        \<lparr>pendingSnapshot := Some (snapshot_msg (saved (installed ?h args enc)))\<rparr>"
      using assms(3) by simp
    then show ?thesis
      using n accept(3) by (simp add: node_le_def leader_appends_def heard_def installed_def)
  qed
qed

lemma RequestVote_progress:
  assumes "raft_inv cd rf" "RequestVote ev rf args = Some (rf', reply)"
  shows "progress rf rf'"
proof -
  have c: "cache_ok cd rf" and l: "logs rf \<noteq> []" using assms(1) by (auto simp: raft_inv_def node_ok_def)
  consider (stale) "killed rf \<or> rvTerm args < currentTerm rf"
    | (refuse) "\<not> killed rf" "currentTerm rf \<le> rvTerm args" "\<not> vote_granted rf args"
    | (grant) "vote_granted rf args"
    by linarith
  then show ?thesis
  proof cases
    case stale
    then have "rf' = rf" using RequestVote_stale [OF l, of args ev] assms(2) by simp
    then show ?thesis by (simp add: node_le_refl leader_appends_refl)
  next
    case refuse
    then have "rf' = vote_base rf args" using RequestVote_refuse [OF c l refuse, of ev] assms(2) by simp
    then show ?thesis
      by (simp add: vote_base_def progress_follow node_le_refl leader_appends_refl)
  next
    case grant
    then have eq: "rf' = saved (resetElectionDeadlineLocked ev ((vote_base rf args)\<lparr>votedFor := rvCandidateId args\<rparr>))"
      using RequestVote_grant [OF c l grant, of ev] assms(2) by simp
    have "rstate rf' = rstate (vote_base rf args)" by (simp add: eq)
    with eq grant show ?thesis
      by (auto simp: node_le_def leader_appends_def vote_granted_def entryAt_def lastLogIndexLocked_def)
  qed
qed

lemma leader_of_simps [simp]:
  "npeers (leader_of rf) = npeers rf" "me (leader_of rf) = me rf" "logs (leader_of rf) = logs rf"
  "currentTerm (leader_of rf) = currentTerm rf" "votedFor (leader_of rf) = votedFor rf"
  "commitIndex (leader_of rf) = commitIndex rf" "lastApplied (leader_of rf) = lastApplied rf"
  "lastIncludedIndex (leader_of rf) = lastIncludedIndex rf" "rstate (leader_of rf) = Leader"
  by (simp_all add: leader_of_def)

lemma candidate_of_simps [simp]:
  "npeers (candidate_of ev rf) = npeers rf" "me (candidate_of ev rf) = me rf"
  "logs (candidate_of ev rf) = logs rf" "currentTerm (candidate_of ev rf) = currentTerm rf + 1"
  "votedFor (candidate_of ev rf) = me rf" "commitIndex (candidate_of ev rf) = commitIndex rf"
  "lastApplied (candidate_of ev rf) = lastApplied rf"
  "lastIncludedIndex (candidate_of ev rf) = lastIncludedIndex rf"
  "rstate (candidate_of ev rf) = Candidate"
  by (simp_all add: candidate_of_def)

lemma startElection_progress:
  assumes "raft_inv cd rf" "startElection ev rf = Some (rf', reqs)"
  shows "progress rf rf'"
proof (cases "killed rf \<or> rstate rf = Leader \<or> now ev < electionDeadline rf")
  case True
  then have "rf' = rf" using startElection_quiet [of rf ev] assms(2) by auto
  then show ?thesis by (simp add: node_le_refl leader_appends_refl)
next
  case False
  let ?c = "candidate_of ev rf"
  have n: "node_ok cd rf" using assms(1) by (simp add: raft_inv_def)
  obtain nt where b: "broadcastAppendEntries (leader_of ?c) = Some ((leader_of ?c)\<lparr>replicateNotify := nt\<rparr>)"
    using broadcast_inv [OF leader_of_inv [OF candidate_of_inv [OF assms(1)]]] by blast
  have "rf' = (leader_of ?c)\<lparr>replicateNotify := nt\<rparr> \<or> (\<exists>k. rf' = launchAll k ?c)"
    using startElection_eq [of cd rf ev] n False assms(2) b
    by (auto simp: node_ok_def split: if_splits)
  moreover have "progress rf (launchAll k ?c)" for k
    by (simp add: node_le_def leader_appends_def launchAll_eq)
  ultimately show ?thesis by (auto simp: node_le_def leader_appends_def)
qed

lemma election_reply_progress:
  assumes "raft_inv cd rf" "election_reply ev rf votes t reply = Some (rf', votes')"
  shows "progress rf rf'"
proof -
  obtain nt where b: "broadcastAppendEntries (leader_of rf) = Some ((leader_of rf)\<lparr>replicateNotify := nt\<rparr>)"
    using broadcast_inv [OF leader_of_inv [OF assms(1)]] by blast
  have "rf' = rf \<or> (\<exists>t. rf' = heard ev rf t) \<or> rf' = (leader_of rf)\<lparr>replicateNotify := nt\<rparr>"
    using assms(2) b
    by (auto simp: election_reply_def becomeFollowerLocked_inv [OF assms(1)]
        becomeLeaderLocked_inv [OF assms(1)] heard_def split: if_splits)
  moreover have "progress rf ((leader_of rf)\<lparr>replicateNotify := nt\<rparr>)" by (rule progress_frame) simp_all
  ultimately show ?thesis using progress_heard [of rf ev] by (auto simp: node_le_refl leader_appends_refl)
qed

lemma replication_progress:
  assumes "raft_inv cd rf" "0 \<le> peer" "peer < int (npeers rf)"
  shows "replicate_snapshot_reply ev rf peer sargs sreply = Some (rf', ctl) \<Longrightarrow> progress rf rf'"
    and "replicate_append_reply ev rf peer args reply = Some (rf', b, ctl) \<Longrightarrow> progress rf rf'"
proof -
  note pi = peer_index [OF assms(1) _ assms(2,3)]
  have h: "progress rf (resetElectionDeadlineLocked ev (follow rf t))" for t
    using progress_heard [of rf ev t] by (simp add: heard_def)
  have a: "progress rf ((acked rf peer n)\<lparr>commitIndex := c\<rparr>)" if "commitIndex rf \<le> c" for n c
    using that by (intro progress_frame) (simp_all add: acked_def)
  have s: "(acked rf peer n)\<lparr>commitIndex := commitIndex rf\<rparr> = acked rf peer n" for n
    by (simp add: acked_def)
  show "progress rf rf'" if "replicate_snapshot_reply ev rf peer sargs sreply = Some (rf', ctl)"
  proof (cases "killed rf \<or> isrStopped sreply \<or> isrTerm sreply > currentTerm rf \<or>
      rstate rf \<noteq> Leader \<or> currentTerm rf \<noteq> isTerm sargs")
    case True
    with that show ?thesis
      using h by (auto simp: replicate_snapshot_reply_def becomeFollowerLocked_inv [OF assms(1)]
          node_le_refl leader_appends_refl split: if_splits)
  next
    case False
    then have L: "rstate rf = Leader" by blast
    have "replicate_snapshot_reply ev rf peer sargs sreply =
        Some (acked rf peer (isLastIncludedIndex sargs), CtlContinue)"
      using False by (simp add: replicate_snapshot_reply_def pi [OF L] store_max [OF assms(2) pi(3) [OF L]]
          store_max [OF assms(2) pi(4) [OF L]] acked_def split del: if_split)
    with that a [of "commitIndex rf"] s show ?thesis by auto
  qed
  show "progress rf rf'" if r: "replicate_append_reply ev rf peer args reply = Some (rf', b, ctl)"
  proof (cases "killed rf \<or> aerStopped reply \<or> aerTerm reply > currentTerm rf \<or>
      rstate rf \<noteq> Leader \<or> currentTerm rf \<noteq> aeTerm args")
    case True
    with that show ?thesis
      using h by (auto simp: replicate_append_reply_def becomeFollowerLocked_inv [OF assms(1)]
          node_le_refl leader_appends_refl split: if_splits)
  next
    case False
    show ?thesis
    proof (cases "aerSuccess reply")
      case True
      then show ?thesis
        using replicate_append_reply_success [OF assms, of reply args ev] False r a by auto
    next
      case fail: False
      have "\<exists>ns. rf' = rf\<lparr>nextIndex := ns\<rparr>"
        using r False fail pi
        by (auto simp: replicate_append_reply_def bind_eq_Some_conv intro: exI [of _ "nextIndex rf"]
            split: if_splits)
      then show ?thesis using progress_frame [of rf' rf] by auto
    qed
  qed
qed

lemma node_le_trans:
  assumes "node_le a b" "node_le b c"
  shows "node_le a c"
  using assms by (auto simp: node_le_def)

lemma broadcast_frame:
  assumes "raft_inv cd rf" "broadcastAppendEntries rf = Some rf'"
  shows "\<exists>nt. rf' = rf\<lparr>replicateNotify := nt\<rparr>"
  using broadcast_inv [OF assms(1)] assms(2) by auto

lemma heartbeat_frame:
  "heartbeatLoop ev ps rf = Some (rf', ts, rs) \<Longrightarrow>
     \<exists>nt ls. rf' = rf\<lparr>replicateNotify := nt, lastRescueSent := ls\<rparr>"
proof (induction ps arbitrary: rf rf' ts rs)
  case Nil
  then show ?case
    by (intro exI [of _ "replicateNotify rf"] exI [of _ "lastRescueSent rf"]) simp
next
  case (Cons p ps)
  then show ?case
    by (auto simp: bind_eq_Some_conv Let_def dest!: Cons.IH split: if_splits prod.splits) metis+
qed

lemma Start_progress:
  assumes "codec_ok cd" "raft_inv cd rf" "Start cd rf command = Some (rf', r)"
  shows "progress rf rf'"
proof (cases "killed rf \<or> rstate rf \<noteq> Leader")
  case True
  then have "rf' = rf" using Start_quiet [of rf cd command] assms(3) by auto
  then show ?thesis by (simp add: node_le_refl leader_appends_refl)
next
  case False
  then have "\<exists>enc ci nt. rf' = (started rf command enc)\<lparr>commitIndex := ci, replicateNotify := nt\<rparr> \<and>
      commitIndex rf \<le> ci"
    using Start_eq [OF assms(1,2), of command] assms(3) by auto
  then obtain enc ci nt where eq: "rf' = (started rf command enc)\<lparr>commitIndex := ci, replicateNotify := nt\<rparr>"
    "commitIndex rf \<le> ci"
    by blast
  have "lastLogIndexLocked rf' = lastLogIndexLocked rf + 1"
    by (simp add: eq lastLogIndexLocked_def)
  moreover have "entryAt rf' i = entryAt rf i"
    if "lastIncludedIndex rf < i" "i \<le> lastLogIndexLocked rf" for i
    using that by (simp add: eq entryAt_def nth_append lastLogIndexLocked_def)
  ultimately show ?thesis using eq by (auto simp: node_le_def leader_appends_def)
qed

lemma entryAt_compacted:
  assumes "lastIncludedIndex rf \<le> index" "index \<le> lastLogIndexLocked rf" "index < i" "i \<le> lastLogIndexLocked rf"
  shows "compacted_logs rf index ! nat (i - index) = entryAt rf i"
proof -
  have "nat (i - index) = Suc (nat (i - index - 1))" using assms by simp
  moreover have "nat (index - lastIncludedIndex rf) + 1 + nat (i - index - 1) = nat (i - lastIncludedIndex rf)"
    using assms by simp
  ultimately show ?thesis
    using assms by (simp add: compacted_logs_def Let_def entryAt_def lastLogIndexLocked_def)
qed

lemma Snapshot_progress:
  assumes "codec_ok cd" "raft_inv cd rf" "Snapshot cd rf index data = Some rf'"
  shows "progress rf rf'"
proof (cases "killed rf \<or> index \<le> lastIncludedIndex rf \<or> lastApplied rf < index")
  case True
  then have "rf' = rf" using Snapshot_ignored [of rf index cd data] assms(3) by auto
  then show ?thesis by (simp add: node_le_refl leader_appends_refl)
next
  case False
  have n: "node_ok cd rf" using assms(2) by (simp add: raft_inv_def)
  obtain enc where eq: "rf' = saved (rf\<lparr>lastIncludedIndex := index,
        lastIncludedTerm := eTerm (logs rf ! nat (index - lastIncludedIndex rf)),
        logs := compacted_logs rf index, encodedLogs := enc, snapshot := data\<rparr>)"
    using Snapshot_eq [OF assms(1) n, of index data] False assms(3) by auto
  have le: "lastIncludedIndex rf \<le> index" "index \<le> lastLogIndexLocked rf"
    using False n by (auto simp: node_ok_def)
  then have "lastLogIndexLocked rf' = lastLogIndexLocked rf"
    by (simp add: eq lastLogIndexLocked_def compacted_logs_def Let_def)
  moreover have "entryAt rf' i = entryAt rf i"
    if "index < i" "i \<le> lastLogIndexLocked rf" for i
    using entryAt_compacted [OF le that] by (simp add: eq entryAt_def)
  ultimately show ?thesis using eq False by (auto simp: node_le_def leader_appends_def)
qed

lemma progress_launchAll:
  "progress rf (launchAll k (rf\<lparr>replicateNotify := nt, lastRescueSent := ls\<rparr>))"
  by (rule progress_frame) (simp_all add: launchAll_eq)

lemma worker_progress:
  "replicationWorker_begin rf peer = Some (rf', b) \<Longrightarrow> progress rf rf'"
  "replicationWorker_end rf peer = Some rf' \<Longrightarrow> progress rf rf'"
  using progress_frame [of rf' rf]
  by (auto simp: replicationWorker_begin_def replicationWorker_end_def bind_eq_Some_conv Let_def
      split: if_splits)

lemma applier_progress:
  assumes "node_ok cd rf" "applier rf = Some (rf', st)"
  shows "progress rf rf'"
  using assms progress_frame [of rf' rf]
  by (auto simp: applier_def bind_eq_Some_conv Let_def node_ok_def split: if_splits option.splits)

lemma heartbeat_progress:
  assumes "raft_inv cd rf"
  shows "heartbeat_reply ev rf reply = Some rf' \<Longrightarrow> progress rf rf'"
    and "heartbeatOrNotifyReplication ev rf = Some (rf'', ts, rs) \<Longrightarrow> progress rf rf''"
proof -
  show "heartbeat_reply ev rf reply = Some rf' \<Longrightarrow> progress rf rf'"
    using progress_heard [of rf ev "aerTerm reply"]
    by (auto simp: heartbeat_reply_def becomeFollowerLocked_inv [OF assms] heard_def
        node_le_refl leader_appends_refl split: if_splits)
  assume h: "heartbeatOrNotifyReplication ev rf = Some (rf'', ts, rs)"
  have "rf'' = rf \<or> (\<exists>nt ls k. rf'' = launchAll k (rf\<lparr>replicateNotify := nt, lastRescueSent := ls\<rparr>))"
    using h by (auto simp: heartbeatOrNotifyReplication_def bind_eq_Some_conv
        dest!: heartbeat_frame split: if_splits)
  then show "progress rf rf''"
    using progress_launchAll by (auto simp: node_le_refl leader_appends_refl)
qed

lemma append_done_progress:
  assumes "raft_inv cd rf" "0 \<le> peer" "peer < int (npeers rf)"
    and "replicate_append_done ev rf peer args reply = Some (rf', ctl)"
  shows "progress rf rf'"
proof -
  obtain r b ctl' where r: "replicate_append_reply ev rf peer args reply = Some (r, b, ctl')" "raft_inv cd r"
    using replicate_append_reply_inv [OF assms(1-3)] by blast
  have p: "progress rf r" using replication_progress(2) [OF assms(1-3) r(1)] .
  obtain nt where nt: "broadcastAppendEntries r = Some (r\<lparr>replicateNotify := nt\<rparr>)"
    using broadcast_inv [OF r(2)] by blast
  have "rf' = r \<or> rf' = r\<lparr>replicateNotify := nt\<rparr>"
    using assms(4) r(1) nt by (auto simp: replicate_append_done_def split: if_splits)
  then show ?thesis
  proof
    assume "rf' = r\<lparr>replicateNotify := nt\<rparr>"
    with p show ?thesis
      by (simp add: node_le_def leader_appends_def entryAt_def lastLogIndexLocked_def)
  qed (use p in simp)
qed

lemma raft_step_progress:
  assumes "codec_ok cd" "raft_inv cd rf" "event_ok rf e" "raft_step cd ev rf e = Some rf'"
  shows "progress rf rf'"
proof (cases e)
  case (EvAppendEntries args)
  then show ?thesis using assms(4) AppendEntries_progress [OF assms(1,2)] by (auto simp: raft_step_def)
next
  case (EvInstallSnapshot args)
  then show ?thesis using assms(4) InstallSnapshot_progress [OF assms(1,2)] by (auto simp: raft_step_def)
next
  case (EvRequestVote args)
  then show ?thesis using assms(4) RequestVote_progress [OF assms(2)] by (auto simp: raft_step_def)
next
  case EvStartElection
  then show ?thesis using assms(4) startElection_progress [OF assms(2)] by (auto simp: raft_step_def)
next
  case (EvVoteReply votes t reply)
  then show ?thesis using assms(4) election_reply_progress [OF assms(2)] by (auto simp: raft_step_def)
next
  case (EvSnapshotReply peer args reply)
  then show ?thesis
    using assms(3,4) replication_progress(1) [OF assms(2)]
    by (auto simp: raft_step_def event_ok_def peer_ok_def)
next
  case (EvAppendReply peer args reply)
  then show ?thesis
    using assms(3,4) append_done_progress [OF assms(2)] by (auto simp: raft_step_def event_ok_def peer_ok_def)
next
  case (EvHeartbeatReply reply)
  then show ?thesis using assms(4) heartbeat_progress(1) [OF assms(2)] by (auto simp: raft_step_def)
next
  case EvHeartbeatTick
  then show ?thesis using assms(4) heartbeat_progress(2) [OF assms(2)] by (auto simp: raft_step_def)
next
  case (EvWorkerBegin peer)
  then show ?thesis using assms(4) worker_progress(1) by (auto simp: raft_step_def)
next
  case (EvWorkerEnd peer)
  then show ?thesis using assms(4) worker_progress(2) by (auto simp: raft_step_def)
next
  case EvApply
  then show ?thesis
    using assms(2,4) applier_progress [of cd rf] by (auto simp: raft_step_def raft_inv_def)
next
  case (EvStart command)
  then show ?thesis using assms(4) Start_progress [OF assms(1,2)] by (auto simp: raft_step_def)
next
  case (EvSnapshot index data)
  then show ?thesis using assms(4) Snapshot_progress [OF assms(1,2)] by (auto simp: raft_step_def)
next
  case EvKill
  then show ?thesis
    using assms(4) by (cases "killed rf") (auto simp: raft_step_def Kill_def node_le_def leader_appends_def)
next
  case EvStopped
  then show ?thesis using assms(4) progress_frame [of rf' rf] by (auto simp: raft_step_def Kill_wait_def)
next
  case EvGoroutineDone
  then show ?thesis using assms(4) progress_frame [of rf' rf] by (auto simp: raft_step_def launch_done_def)
qed

section \<open>Histories with crashes\<close>

text \<open>
  A node moves by an event, or it crashes and \<^verbatim>\<open>Make\<close> starts it again from its persister. What
  is written as 64-bit integers has to fit when the node crashes.
\<close>

inductive node_next :: "'c codec \<Rightarrow> 'c raft \<Rightarrow> 'c raft \<Rightarrow> bool" for cd where
  event: "event_ok rf e \<Longrightarrow> raft_step cd ev rf e = Some rf' \<Longrightarrow> node_next cd rf rf'"
| crash: "sizes_ok rf \<Longrightarrow> Make cd ev (npeers rf) (me rf) (persister rf) = Some rf' \<Longrightarrow> node_next cd rf rf'"

definition durable_le :: "'c raft \<Rightarrow> 'c raft \<Rightarrow> bool" where
  "durable_le rf rf' \<longleftrightarrow>
     npeers rf' = npeers rf \<and> me rf' = me rf \<and>
     currentTerm rf \<le> currentTerm rf' \<and>
     (currentTerm rf' = currentTerm rf \<longrightarrow> votedFor rf = -1 \<or> votedFor rf' = votedFor rf) \<and>
     lastIncludedIndex rf \<le> lastIncludedIndex rf'"

lemma durable_le_refl: "durable_le rf rf"
  by (simp add: durable_le_def)

lemma durable_le_trans: "durable_le a b \<Longrightarrow> durable_le b c \<Longrightarrow> durable_le a c"
  by (auto simp: durable_le_def)

lemma node_next_inv:
  assumes "codec_ok cd" "raft_inv cd rf" "node_next cd rf rf'"
  shows "raft_inv cd rf' \<and> durable_le rf rf'"
  using assms(3)
proof cases
  case (event e ev)
  with raft_step_inv [OF assms(1,2) event(1), of ev] raft_step_progress [OF assms(1,2) event]
  show ?thesis by (auto simp: durable_le_def node_le_def)
next
  case (crash ev)
  with restart_inv [OF assms(1,2) crash(1), of ev] show ?thesis
    by (auto simp: durable_le_def same_durable_def)
qed

lemma node_history:
  assumes "codec_ok cd" "raft_inv cd rf" "(node_next cd)\<^sup>*\<^sup>* rf rf'"
  shows "raft_inv cd rf' \<and> durable_le rf rf'"
  using assms(3)
proof (induction rule: rtranclp_induct)
  case base
  show ?case using assms(2) by (simp add: durable_le_refl)
next
  case (step a b)
  then show ?case using node_next_inv [OF assms(1)] durable_le_trans by blast
qed

end
