(* ===== verification/Raft_Spec.thy ===== *)
theory Raft_Spec
  imports Raft_Types
begin

text \<open>
  The protocol behind \<^verbatim>\<open>raft1/raft.go\<close>, on the history of a cluster: for each node its term and its
  log with nothing cut off, the votes and candidacies there have been, for each term its leader and the
  log of that leader, and which prefixes of that log nodes have acknowledged. The steps of the protocol
  keep an invariant from which it follows that a chosen entry is in the log of every later leader.
\<close>

section \<open>Histories\<close>

type_synonym 'c elog = "'c log_entry list"

record 'c hist =
  hTerm :: "nat \<Rightarrow> int"
  hLog :: "nat \<Rightarrow> 'c elog"
  hVote :: "nat \<Rightarrow> int \<Rightarrow> nat option"
  hVlog :: "nat \<Rightarrow> int \<Rightarrow> 'c elog"
  hCand :: "nat \<Rightarrow> int \<Rightarrow> 'c elog option"
  hLead :: "int \<Rightarrow> nat option"
  hQuo :: "int \<Rightarrow> nat set"
  hBase :: "int \<Rightarrow> 'c elog"
  hLL :: "int \<Rightarrow> 'c elog"
  hAck :: "(nat \<times> int \<times> nat) set"

text \<open>The log \<open>L\<close> has the log of the leader of term \<open>u\<close> up to index \<open>i\<close>.\<close>

definition has :: "'c hist \<Rightarrow> 'c elog \<Rightarrow> int \<Rightarrow> nat \<Rightarrow> bool" where
  "has h L u i \<longleftrightarrow> i < length L \<and> i < length (hLL h u) \<and> take (Suc i) L = take (Suc i) (hLL h u)"

text \<open>A log that consists of what leaders have appended.\<close>

definition built :: "'c hist \<Rightarrow> 'c elog \<Rightarrow> bool" where
  "built h L \<longleftrightarrow> L \<noteq> [] \<and> hd L = \<lparr>eTerm = 0, eCommand = None\<rparr> \<and> sorted (map eTerm L) \<and>
     (\<forall>i<length L. i \<noteq> 0 \<longrightarrow> 0 < eTerm (L ! i) \<and> hLead h (eTerm (L ! i)) \<noteq> None \<and> has h L (eTerm (L ! i)) i)"

definition missed :: "'c hist \<Rightarrow> int \<Rightarrow> int \<Rightarrow> nat \<Rightarrow> bool" where
  "missed h u v i \<longleftrightarrow> hLead h v \<noteq> None \<and> \<not> has h (hLL h v) u i"

text \<open>
  What \<open>p\<close> has acknowledged before term \<open>t\<close> is in the log \<open>L\<close> with which it voted in term \<open>t\<close>,
  unless a leader in between did not have it.
\<close>

definition kept :: "'c hist \<Rightarrow> nat \<Rightarrow> int \<Rightarrow> 'c elog \<Rightarrow> bool" where
  "kept h p t L \<longleftrightarrow> (\<forall>u i. (p, u, i) \<in> hAck h \<longrightarrow> u < t \<longrightarrow> has h L u i \<or> (\<exists>v. u < v \<and> v < t \<and> missed h u v i))"

definition uptodate :: "'c elog \<Rightarrow> 'c elog \<Rightarrow> bool" where
  "uptodate V L \<longleftrightarrow> eTerm (last L) < eTerm (last V) \<or> eTerm (last L) = eTerm (last V) \<and> length L \<le> length V"

definition log_fact :: "'c hist \<Rightarrow> nat \<Rightarrow> bool" where
  "log_fact h p \<longleftrightarrow> built h (hLog h p) \<and> (\<forall>e \<in> set (hLog h p). eTerm e \<le> hTerm h p)"

definition vote_fact :: "nat \<Rightarrow> 'c hist \<Rightarrow> nat \<Rightarrow> int \<Rightarrow> nat \<Rightarrow> bool" where
  "vote_fact n h p t c \<longleftrightarrow> p < n \<and> t \<le> hTerm h p \<and> built h (hVlog h p t) \<and>
     (hLead h t = None \<longrightarrow> kept h p t (hVlog h p t)) \<and> (\<exists>V. hCand h c t = Some V \<and> uptodate V (hVlog h p t))"

definition cand_fact :: "nat \<Rightarrow> 'c hist \<Rightarrow> nat \<Rightarrow> int \<Rightarrow> 'c elog \<Rightarrow> bool" where
  "cand_fact n h c t V \<longleftrightarrow> c < n \<and> 0 < t \<and> t \<le> hTerm h c \<and> built h V \<and> (\<forall>e \<in> set V. eTerm e < t) \<and> hVote h c t = Some c"

definition lead_fact :: "nat \<Rightarrow> 'c hist \<Rightarrow> int \<Rightarrow> nat \<Rightarrow> bool" where
  "lead_fact n h t l \<longleftrightarrow> hCand h l t = Some (hBase h t) \<and> is_majority n (hQuo h t) \<and> built h (hLL h t) \<and>
     (\<exists>es. hLL h t = hBase h t @ es \<and> (\<forall>e \<in> set es. eTerm e = t)) \<and>
     (\<forall>p \<in> hQuo h t. hVote h p t = Some l \<and> kept h p t (hVlog h p t))"

definition ack_fact :: "nat \<Rightarrow> 'c hist \<Rightarrow> nat \<Rightarrow> int \<Rightarrow> nat \<Rightarrow> bool" where
  "ack_fact n h p u i \<longleftrightarrow> p < n \<and> hLead h u \<noteq> None \<and> u \<le> hTerm h p \<and> i < length (hLL h u) \<and>
     (has h (hLog h p) u i \<or> (\<exists>v. u < v \<and> v \<le> hTerm h p \<and> missed h u v i))"

definition hist_inv :: "nat \<Rightarrow> 'c hist \<Rightarrow> bool" where
  "hist_inv n h \<longleftrightarrow>
     (\<forall>p<n. log_fact h p) \<and> (\<forall>p t c. hVote h p t = Some c \<longrightarrow> vote_fact n h p t c) \<and>
     (\<forall>c t V. hCand h c t = Some V \<longrightarrow> cand_fact n h c t V) \<and> (\<forall>t l. hLead h t = Some l \<longrightarrow> lead_fact n h t l) \<and>
     (\<forall>p u i. (p, u, i) \<in> hAck h \<longrightarrow> ack_fact n h p u i)"

lemma hist_invD:
  assumes "hist_inv n h"
  shows "p < n \<Longrightarrow> log_fact h p" "hVote h p t = Some c \<Longrightarrow> vote_fact n h p t c"
    "hCand h c t = Some V \<Longrightarrow> cand_fact n h c t V" "hLead h t = Some l \<Longrightarrow> lead_fact n h t l"
    "(p, u, i) \<in> hAck h \<Longrightarrow> ack_fact n h p u i"
  using assms by (simp_all add: hist_inv_def)

section \<open>Logs\<close>

lemma has_le: "has h L u i \<Longrightarrow> k \<le> i \<Longrightarrow> has h L u k"
  unfolding has_def using take_eq_mono [of "Suc i" L "hLL h u" "Suc k"] by simp

lemma has_nth: "has h L u i \<Longrightarrow> k \<le> i \<Longrightarrow> L ! k = hLL h u ! k"
  unfolding has_def using nth_eq_of_take_eq [of "Suc i" L "hLL h u" k] by simp

lemma builtD:
  assumes "built h L"
  shows "L \<noteq> []" "hd L = \<lparr>eTerm = 0, eCommand = None\<rparr>" "sorted (map eTerm L)"
    "i < length L \<Longrightarrow> i \<noteq> 0 \<Longrightarrow> 0 < eTerm (L ! i)"
    "i < length L \<Longrightarrow> i \<noteq> 0 \<Longrightarrow> hLead h (eTerm (L ! i)) \<noteq> None"
    "i < length L \<Longrightarrow> i \<noteq> 0 \<Longrightarrow> has h L (eTerm (L ! i)) i"
  using assms unfolding built_def by blast+

lemma built_0: "built h L \<Longrightarrow> L ! 0 = \<lparr>eTerm = 0, eCommand = None\<rparr>"
  using builtD(1,2) [of h L] by (simp add: hd_conv_nth)

lemma built_mono: "built h L \<Longrightarrow> i \<le> k \<Longrightarrow> k < length L \<Longrightarrow> eTerm (L ! i) \<le> eTerm (L ! k)"
  using builtD(3) [of h L] by (simp add: sorted_iff_nth_mono)

lemma built_first: "built h L \<Longrightarrow> built h M \<Longrightarrow> take (Suc 0) L = take (Suc 0) M"
  using builtD(1) [of h L] builtD(1) [of h M] built_0 [of h L] built_0 [of h M] by (cases L; cases M) auto

text \<open>Logs with the same term at an index agree up to that index.\<close>

lemma log_matching:
  assumes "built h L" "built h M" "i < length L" "i < length M" "eTerm (L ! i) = eTerm (M ! i)"
  shows "take (Suc i) L = take (Suc i) M"
proof (cases "i = 0")
  case True
  then show ?thesis using built_first [OF assms(1,2)] by simp
next
  case False
  then show ?thesis using builtD(6) [OF assms(1,3)] builtD(6) [OF assms(2,4)] assms(5) by (simp add: has_def)
qed

lemma built_take:
  assumes "built h L" "0 < m"
  shows "built h (take m L)"
proof (cases "m < length L")
  case True
  have "has h (take m L) (eTerm (L ! i)) i" if "i < m" "i \<noteq> 0" for i
    using builtD(6) [OF assms(1), of i] True that by (simp add: has_def min_def)
  then show ?thesis
    using assms True builtD(2-5) [OF assms(1)] unfolding built_def
    by (auto simp: sorted_wrt_take simp flip: take_map)
qed (use assms in simp)

lemma built_append:
  assumes "built h L" "hLead h (eTerm e) \<noteq> None" "0 < eTerm e" "\<forall>x \<in> set L. eTerm x \<le> eTerm e" "has h (L @ [e]) (eTerm e) (length L)"
  shows "built h (L @ [e])"
proof -
  have "has h (L @ [e]) (eTerm (L ! i)) i" if "i < length L" "i \<noteq> 0" for i
    using builtD(6) [OF assms(1) that] that by (simp add: has_def)
  then show ?thesis
    using assms builtD(1-5) [OF assms(1)] unfolding built_def
    by (auto simp: sorted_append nth_append less_Suc_eq hd_append)
qed

lemma lead_terms:
  assumes "hist_inv n h" "hLead h t \<noteq> None"
  shows "built h (hLL h t)" "e \<in> set (hLL h t) \<Longrightarrow> eTerm e \<le> t" "0 < t"
proof -
  obtain l where l: "hLead h t = Some l" using assms(2) by blast
  note f = hist_invD(4) [OF assms(1) l, unfolded lead_fact_def]
  have c: "cand_fact n h l t (hBase h t)" using f hist_invD(3) [OF assms(1)] by blast
  show "built h (hLL h t)" using f by blast
  show "e \<in> set (hLL h t) \<Longrightarrow> eTerm e \<le> t" using f c by (fastforce simp: cand_fact_def)
  show "0 < t" using c by (simp add: cand_fact_def)
qed

section \<open>Later histories\<close>

definition hist_le :: "'c hist \<Rightarrow> 'c hist \<Rightarrow> bool" where
  "hist_le h h' \<longleftrightarrow>
     (\<forall>p. hTerm h p \<le> hTerm h' p) \<and>
     (\<forall>p t c. hVote h p t = Some c \<longrightarrow> hVote h' p t = Some c \<and> hVlog h' p t = hVlog h p t) \<and>
     (\<forall>c t V. hCand h c t = Some V \<longrightarrow> hCand h' c t = Some V) \<and>
     (\<forall>t l. hLead h t = Some l \<longrightarrow> hLead h' t = Some l \<and> hBase h' t = hBase h t \<and> hQuo h' t = hQuo h t \<and>
        (\<exists>es. hLL h' t = hLL h t @ es \<and> (\<forall>e \<in> set es. eTerm e = t))) \<and>
     hAck h \<subseteq> hAck h' \<and> (\<forall>p u i. (p, u, i) \<in> hAck h' \<longrightarrow> (p, u, i) \<in> hAck h \<or> hTerm h p \<le> u)"

lemma hist_leD:
  assumes "hist_le h h'"
  shows "hTerm h p \<le> hTerm h' p" "hVote h p t = Some c \<Longrightarrow> hVote h' p t = Some c"
    "hVote h p t = Some c \<Longrightarrow> hVlog h' p t = hVlog h p t" "hCand h c t = Some V \<Longrightarrow> hCand h' c t = Some V"
    "hLead h t = Some l \<Longrightarrow> hLead h' t = Some l" "hLead h t = Some l \<Longrightarrow> hBase h' t = hBase h t"
    "hLead h t = Some l \<Longrightarrow> hQuo h' t = hQuo h t"
    "hLead h t = Some l \<Longrightarrow> \<exists>es. hLL h' t = hLL h t @ es \<and> (\<forall>e \<in> set es. eTerm e = t)"
    "a \<in> hAck h \<Longrightarrow> a \<in> hAck h'" "(p, u, i) \<in> hAck h' \<Longrightarrow> (p, u, i) \<in> hAck h \<or> hTerm h p \<le> u"
  using assms unfolding hist_le_def by blast+

lemma hist_le_refl: "hist_le h h"
  by (auto simp: hist_le_def)

lemma hist_le_trans:
  assumes "hist_le a b" "hist_le b c"
  shows "hist_le a c"
proof -
  have "\<exists>es. hLL c t = hLL a t @ es \<and> (\<forall>e \<in> set es. eTerm e = t)" if l: "hLead a t = Some l" for t l
  proof -
    obtain es where "hLL b t = hLL a t @ es" "\<forall>e \<in> set es. eTerm e = t" using hist_leD(8) [OF assms(1) l] by blast
    moreover obtain es' where "hLL c t = hLL b t @ es'" "\<forall>e \<in> set es'. eTerm e = t"
      using hist_leD(8) [OF assms(2) hist_leD(5) [OF assms(1) l]] by blast
    ultimately show ?thesis by (intro exI [of _ "es @ es'"]) auto
  qed
  moreover have "(p, u, i) \<in> hAck a \<or> hTerm a p \<le> u" if "(p, u, i) \<in> hAck c" for p u i
    using hist_leD(10) [OF assms(2) that] hist_leD(10) [OF assms(1)] hist_leD(1) [OF assms(1), of p] by force
  moreover have "hTerm a p \<le> hTerm c p" for p
    using hist_leD(1) [OF assms(1), of p] hist_leD(1) [OF assms(2), of p] by simp
  ultimately show ?thesis
    unfolding hist_le_def
    using hist_leD(2-7,9) [OF assms(1)] hist_leD(2-7,9) [OF assms(2)] by auto
qed

lemma has_later: "hist_le h h' \<Longrightarrow> hLead h u \<noteq> None \<Longrightarrow> has h L u i \<Longrightarrow> has h' L u i"
  using hist_leD(8) [of h h' u] by (fastforce simp: has_def)

lemma has_earlier: "hist_le h h' \<Longrightarrow> hLead h u \<noteq> None \<Longrightarrow> i < length (hLL h u) \<Longrightarrow> has h' L u i \<Longrightarrow> has h L u i"
  using hist_leD(8) [of h h' u] by (fastforce simp: has_def)

lemma built_later: "hist_le h h' \<Longrightarrow> built h L \<Longrightarrow> built h' L"
  unfolding built_def using has_later [of h h'] hist_leD(5) [of h h'] by (metis not_None_eq)

text \<open>A leader that did not have a prefix of an earlier leader's log will never have it.\<close>

lemma missed_later:
  assumes "hist_inv n h" "hist_le h h'" "hLead h u \<noteq> None" "i < length (hLL h u)" "u < v" "missed h u v i"
  shows "missed h' u v i"
proof -
  obtain l where l: "hLead h v = Some l" and m: "\<not> has h (hLL h v) u i" using assms(6) by (auto simp: missed_def)
  obtain es where es: "hLL h' v = hLL h v @ es" "\<forall>e \<in> set es. eTerm e = v" using hist_leD(8) [OF assms(2) l] by blast
  have "\<not> has h (hLL h v @ es) u i"
  proof
    assume a: "has h (hLL h v @ es) u i"
    show False
    proof (cases "i < length (hLL h v)")
      case True
      then show False using a m by (simp add: has_def)
    next
      case False
      have "i - length (hLL h v) < length es" using a False by (auto simp: has_def)
      then have "es ! (i - length (hLL h v)) \<in> set es" by (rule nth_mem)
      moreover have "(hLL h v @ es) ! i = hLL h u ! i" using has_nth [OF a] by simp
      ultimately have "eTerm (hLL h u ! i) = v" using es(2) False by (auto simp: nth_append)
      moreover have "eTerm (hLL h u ! i) \<le> u" using lead_terms(2) [OF assms(1,3)] assms(4) by simp
      ultimately show False using assms(5) by simp
    qed
  qed
  then have "\<not> has h' (hLL h' v) u i" using has_earlier [OF assms(2-4)] es(1) by auto
  then show ?thesis using hist_leD(5) [OF assms(2) l] by (simp add: missed_def)
qed

lemma ack_old:
  assumes "hist_inv n h" "(p, u, i) \<in> hAck h"
  shows "p < n" "hLead h u \<noteq> None" "u \<le> hTerm h p" "i < length (hLL h u)"
  using hist_invD(5) [OF assms] by (simp_all add: ack_fact_def)

lemma kept_acks:
  assumes "hist_inv n h" "hist_le h h'" "\<And>u i. (p, u, i) \<in> hAck h' \<Longrightarrow> u < t \<Longrightarrow> (p, u, i) \<in> hAck h" "kept h p t L"
  shows "kept h' p t L"
  unfolding kept_def
proof (intro allI impI)
  fix u i
  assume a: "(p, u, i) \<in> hAck h'" "u < t"
  note old = assms(3) [OF a]
  note o = ack_old [OF assms(1) old]
  from assms(4) old a(2) have "has h L u i \<or> (\<exists>v. u < v \<and> v < t \<and> missed h u v i)" by (simp add: kept_def)
  then show "has h' L u i \<or> (\<exists>v. u < v \<and> v < t \<and> missed h' u v i)"
    using has_later [OF assms(2) o(2)] missed_later [OF assms(1,2) o(2,4)] by blast
qed

lemma kept_later:
  assumes "hist_inv n h" "hist_le h h'" "t \<le> hTerm h p" "kept h p t L"
  shows "kept h' p t L"
proof (rule kept_acks [OF assms(1,2) _ assms(4)])
  show "(p, u, i) \<in> hAck h" if "(p, u, i) \<in> hAck h'" "u < t" for u i
    using hist_leD(10) [OF assms(2) that(1)] assms(3) that(2) by linarith
qed

text \<open>The log of a node that votes now, in a term that has no leader.\<close>

lemma kept_now:
  assumes "hist_inv n h" "hTerm h p < t \<or> hTerm h p = t \<and> hLead h t = None"
  shows "kept h p t (hLog h p)"
  unfolding kept_def
proof (intro allI impI)
  fix u i
  assume "(p, u, i) \<in> hAck h" "u < t"
  then have "has h (hLog h p) u i \<or> (\<exists>v. u < v \<and> v \<le> hTerm h p \<and> missed h u v i)"
    using hist_invD(5) [OF assms(1)] by (simp add: ack_fact_def)
  moreover have "v < t" if "v \<le> hTerm h p" "missed h u v i" for v
    using that assms(2) by (cases "v = t") (auto simp: missed_def)
  ultimately show "has h (hLog h p) u i \<or> (\<exists>v. u < v \<and> v < t \<and> missed h u v i)" by blast
qed

lemma vote_later:
  assumes "hist_inv n h" "hist_le h h'" "hVote h p t = Some c"
  shows "vote_fact n h' p t c"
proof -
  note f = hist_invD(2) [OF assms(1,3), unfolded vote_fact_def]
  have "hLead h t = None" if "hLead h' t = None" using that hist_leD(5) [OF assms(2)] by (cases "hLead h t") auto
  then show ?thesis
    unfolding vote_fact_def hist_leD(3) [OF assms(2,3)]
    using f hist_leD(1) [OF assms(2), of p] hist_leD(4) [OF assms(2)] built_later [OF assms(2)] kept_later [OF assms(1,2)]
    by (blast intro: order_trans)
qed

lemma cand_later:
  assumes "hist_inv n h" "hist_le h h'" "hCand h c t = Some V"
  shows "cand_fact n h' c t V"
  using hist_invD(3) [OF assms(1,3)] hist_leD(1) [OF assms(2), of c] hist_leD(2) [OF assms(2)] built_later [OF assms(2)]
  unfolding cand_fact_def by (blast intro: order_trans)

lemma lead_later:
  assumes "hist_inv n h" "hist_le h h'" "hLead h t = Some l" "built h' (hLL h' t)"
  shows "lead_fact n h' t l"
proof -
  note f = hist_invD(4) [OF assms(1,3), unfolded lead_fact_def]
  obtain es' where es': "hLL h' t = hLL h t @ es'" "\<forall>e \<in> set es'. eTerm e = t" using hist_leD(8) [OF assms(2,3)] by blast
  obtain es where es: "hLL h t = hBase h t @ es" "\<forall>e \<in> set es. eTerm e = t" using f by blast
  have "\<exists>es. hLL h' t = hBase h' t @ es \<and> (\<forall>e \<in> set es. eTerm e = t)"
    using es es' hist_leD(6) [OF assms(2,3)] by (intro exI [of _ "es @ es'"]) auto
  moreover have "hVote h' p t = Some l \<and> kept h' p t (hVlog h' p t)" if "p \<in> hQuo h t" for p
  proof -
    have v: "hVote h p t = Some l" and k: "kept h p t (hVlog h p t)" using f that by blast+
    have "t \<le> hTerm h p" using hist_invD(2) [OF assms(1) v] by (simp add: vote_fact_def)
    then show ?thesis using kept_later [OF assms(1,2) _ k] hist_leD(2,3) [OF assms(2) v] by simp
  qed
  ultimately show ?thesis
    unfolding lead_fact_def hist_leD(7) [OF assms(2,3)]
    using f hist_leD(4) [OF assms(2)] hist_leD(6) [OF assms(2,3)] assms(4) by auto
qed

lemma ack_later:
  assumes "hist_inv n h" "hist_le h h'" "(p, u, i) \<in> hAck h"
    "has h (hLog h p) u i \<Longrightarrow> has h' (hLog h' p) u i \<or> (\<exists>v. u < v \<and> v \<le> hTerm h' p \<and> missed h' u v i)"
  shows "ack_fact n h' p u i"
proof -
  note o = ack_old [OF assms(1,3)]
  obtain l where l: "hLead h u = Some l" using o(2) by blast
  have "has h (hLog h p) u i \<or> (\<exists>v. u < v \<and> v \<le> hTerm h p \<and> missed h u v i)"
    using hist_invD(5) [OF assms(1,3)] by (simp add: ack_fact_def)
  then have "has h' (hLog h' p) u i \<or> (\<exists>v. u < v \<and> v \<le> hTerm h' p \<and> missed h' u v i)"
    using assms(4) missed_later [OF assms(1,2) o(2,4)] hist_leD(1) [OF assms(2), of p] by (meson order_trans)
  moreover have "i < length (hLL h' u)" using o(4) hist_leD(8) [OF assms(2) l] by auto
  ultimately show ?thesis
    using o hist_leD(1) [OF assms(2), of p] hist_leD(5) [OF assms(2) l] by (auto simp: ack_fact_def)
qed

lemma log_later:
  assumes "hist_inv n h" "hist_le h h'" "p < n" "hLog h' p = hLog h p"
  shows "log_fact h' p"
  using hist_invD(1) [OF assms(1,3)] built_later [OF assms(2)] hist_leD(1) [OF assms(2), of p] assms(4)
  by (auto simp: log_fact_def intro: order_trans)

section \<open>The steps of the protocol\<close>

lemma hist_invI:
  assumes "\<And>p. p < n \<Longrightarrow> log_fact h p" "\<And>p t c. hVote h p t = Some c \<Longrightarrow> vote_fact n h p t c"
    "\<And>c t V. hCand h c t = Some V \<Longrightarrow> cand_fact n h c t V" "\<And>t l. hLead h t = Some l \<Longrightarrow> lead_fact n h t l"
    "\<And>p u i. (p, u, i) \<in> hAck h \<Longrightarrow> ack_fact n h p u i"
  shows "hist_inv n h"
  using assms by (simp add: hist_inv_def)

text \<open>What is not new in a history is shown by what held before.\<close>

lemma hist_step:
  assumes "hist_inv n h" "hist_le h h'"
    and "\<And>p. p < n \<Longrightarrow> hLog h' p \<noteq> hLog h p \<Longrightarrow> log_fact h' p"
    and "\<And>p t c. hVote h' p t = Some c \<Longrightarrow> hVote h p t = None \<Longrightarrow> vote_fact n h' p t c"
    and "\<And>c t V. hCand h' c t = Some V \<Longrightarrow> hCand h c t = None \<Longrightarrow> cand_fact n h' c t V"
    and "\<And>t l. hLead h' t = Some l \<Longrightarrow> hLead h t = None \<Longrightarrow> lead_fact n h' t l"
    and "\<And>t l. hLead h t = Some l \<Longrightarrow> hLL h' t \<noteq> hLL h t \<Longrightarrow> built h' (hLL h' t)"
    and "\<And>p u i. (p, u, i) \<in> hAck h' \<Longrightarrow> (p, u, i) \<notin> hAck h \<Longrightarrow> ack_fact n h' p u i"
    and "\<And>p u i. (p, u, i) \<in> hAck h \<Longrightarrow> hLog h' p \<noteq> hLog h p \<Longrightarrow> has h (hLog h p) u i \<Longrightarrow>
      has h' (hLog h' p) u i \<or> (\<exists>v. u < v \<and> v \<le> hTerm h' p \<and> missed h' u v i)"
  shows "hist_inv n h'"
proof (rule hist_invI)
  show "log_fact h' p" if "p < n" for p
    using that assms(3) log_later [OF assms(1,2)] by blast
  show "vote_fact n h' p t c" if v: "hVote h' p t = Some c" for p t c
  proof (cases "hVote h p t")
    case (Some c')
    then have "c' = c" using v hist_leD(2) [OF assms(2)] by fastforce
    then show ?thesis using vote_later [OF assms(1,2)] Some by simp
  qed (use assms(4) v in blast)
  show "cand_fact n h' c t V" if v: "hCand h' c t = Some V" for c t V
  proof (cases "hCand h c t")
    case (Some V')
    then have "V' = V" using v hist_leD(4) [OF assms(2)] by fastforce
    then show ?thesis using cand_later [OF assms(1,2)] Some by simp
  qed (use assms(5) v in blast)
  show "lead_fact n h' t l" if v: "hLead h' t = Some l" for t l
  proof (cases "hLead h t")
    case (Some l')
    then have l: "hLead h t = Some l" using v hist_leD(5) [OF assms(2)] by fastforce
    have "built h' (hLL h' t)"
      using assms(7) [OF l] built_later [OF assms(2)] hist_invD(4) [OF assms(1) l]
      by (cases "hLL h' t = hLL h t") (simp_all add: lead_fact_def)
    then show ?thesis by (rule lead_later [OF assms(1,2) l])
  qed (use assms(6) v in blast)
  show "ack_fact n h' p u i" if a: "(p, u, i) \<in> hAck h'" for p u i
  proof (cases "(p, u, i) \<in> hAck h")
    case True
    show ?thesis
    proof (rule ack_later [OF assms(1,2) True])
      assume "has h (hLog h p) u i"
      then show "has h' (hLog h' p) u i \<or> (\<exists>v. u < v \<and> v \<le> hTerm h' p \<and> missed h' u v i)"
        using assms(9) [OF True] has_later [OF assms(2) ack_old(2) [OF assms(1) True]]
        by (cases "hLog h' p = hLog h p") auto
    qed
  qed (use assms(8) a in blast)
qed

definition h_term :: "'c hist \<Rightarrow> nat \<Rightarrow> int \<Rightarrow> 'c hist" where
  "h_term h p t = h\<lparr>hTerm := (hTerm h)(p := t)\<rparr>"

lemma h_term_ok:
  assumes "hist_inv n h" "hTerm h p \<le> t"
  shows "hist_inv n (h_term h p t)" "hist_le h (h_term h p t)"
proof -
  show le: "hist_le h (h_term h p t)" using assms(2) by (auto simp: hist_le_def h_term_def)
  show "hist_inv n (h_term h p t)"
    by (rule hist_step [OF assms(1) le]) (simp_all add: h_term_def)
qed

definition h_vote :: "'c hist \<Rightarrow> nat \<Rightarrow> int \<Rightarrow> nat \<Rightarrow> 'c hist" where
  "h_vote h p t c = h\<lparr>hTerm := (hTerm h)(p := t), hVote := (hVote h)(p := (hVote h p)(t := Some c)),
     hVlog := (hVlog h)(p := (hVlog h p)(t := hLog h p))\<rparr>"

lemma h_vote_ok:
  assumes "hist_inv n h" "p < n" "hTerm h p \<le> t" "hVote h p t = None" "hCand h c t = Some V" "uptodate V (hLog h p)"
  shows "hist_inv n (h_vote h p t c)" "hist_le h (h_vote h p t c)"
proof -
  let ?h = "h_vote h p t c"
  show le: "hist_le h ?h" using assms(3,4) by (auto simp: hist_le_def h_vote_def)
  have "vote_fact n ?h p t c"
    unfolding vote_fact_def
  proof (intro conjI impI)
    show "built ?h (hVlog ?h p t)"
      using built_later [OF le] hist_invD(1) [OF assms(1,2)] by (simp add: log_fact_def h_vote_def)
    assume "hLead ?h t = None"
    then have "kept h p t (hLog h p)" using assms(3) by (intro kept_now [OF assms(1)]) (auto simp: h_vote_def)
    then show "kept ?h p t (hVlog ?h p t)"
      using kept_acks [OF assms(1) le] by (simp add: h_vote_def)
  qed (use assms in \<open>simp_all add: h_vote_def\<close>)
  then show "hist_inv n ?h"
    by (intro hist_step [OF assms(1) le]) (auto simp: h_vote_def split: if_splits)
qed

definition h_cand :: "'c hist \<Rightarrow> nat \<Rightarrow> int \<Rightarrow> 'c hist" where
  "h_cand h p t = h\<lparr>hTerm := (hTerm h)(p := t), hVote := (hVote h)(p := (hVote h p)(t := Some p)),
     hVlog := (hVlog h)(p := (hVlog h p)(t := hLog h p)), hCand := (hCand h)(p := (hCand h p)(t := Some (hLog h p)))\<rparr>"

lemma no_vote_ahead: "hist_inv n h \<Longrightarrow> hTerm h p < t \<Longrightarrow> hVote h p t = None \<and> hCand h p t = None"
  using hist_invD(2,3) [of n h] by (cases "hVote h p t"; cases "hCand h p t") (fastforce simp: vote_fact_def cand_fact_def)+

lemma h_cand_ok:
  assumes "hist_inv n h" "p < n" "hTerm h p < t" "0 < t"
  shows "hist_inv n (h_cand h p t)" "hist_le h (h_cand h p t)"
proof -
  let ?h = "h_cand h p t"
  note none = no_vote_ahead [OF assms(1,3)]
  note lg = hist_invD(1) [OF assms(1,2), unfolded log_fact_def]
  show le: "hist_le h ?h" using assms(3) none by (auto simp: hist_le_def h_cand_def)
  have b: "built ?h (hLog h p)" using built_later [OF le] lg by blast
  have "kept ?h p t (hLog h p)"
    using assms(3) by (intro kept_acks [OF assms(1) le _ kept_now [OF assms(1)]]) (auto simp: h_cand_def)
  then have "vote_fact n ?h p t p"
    using b assms(2) by (simp add: vote_fact_def h_cand_def uptodate_def)
  moreover have "cand_fact n ?h p t (hLog h p)"
    using b assms lg by (auto simp: cand_fact_def h_cand_def)
  ultimately show "hist_inv n ?h"
    by (intro hist_step [OF assms(1) le]) (auto simp: h_cand_def split: if_splits)
qed

definition h_elect :: "'c hist \<Rightarrow> nat \<Rightarrow> nat set \<Rightarrow> 'c hist" where
  "h_elect h l Q = (let t = hTerm h l in
     h\<lparr>hLead := (hLead h)(t := Some l), hQuo := (hQuo h)(t := Q), hBase := (hBase h)(t := hLog h l),
       hLL := (hLL h)(t := hLog h l), hAck := hAck h \<union> {(l, t, i) | i. i < length (hLog h l)}\<rparr>)"

lemma h_elect_ok:
  assumes "hist_inv n h" "l < n" "hLead h (hTerm h l) = None" "hCand h l (hTerm h l) = Some (hLog h l)"
    "is_majority n Q" "\<And>p. p \<in> Q \<Longrightarrow> hVote h p (hTerm h l) = Some l"
  shows "hist_inv n (h_elect h l Q)" "hist_le h (h_elect h l Q)"
proof -
  let ?h = "h_elect h l Q" and ?t = "hTerm h l"
  note lg = hist_invD(1) [OF assms(1,2), unfolded log_fact_def]
  show le: "hist_le h ?h" using assms(3) by (auto simp: hist_le_def h_elect_def Let_def)
  have b: "built ?h (hLog h l)" using built_later [OF le] lg by blast
  have "kept ?h p ?t (hVlog h p ?t)" if "p \<in> Q" for p
  proof -
    have v: "vote_fact n h p ?t l" using hist_invD(2) [OF assms(1) assms(6) [OF that]] .
    then show ?thesis using kept_later [OF assms(1) le, of ?t p] assms(3) by (simp add: vote_fact_def)
  qed
  then have "lead_fact n ?h ?t l"
    unfolding lead_fact_def using assms(4-6) b by (simp add: h_elect_def Let_def)
  moreover have "ack_fact n ?h l ?t i" if "i < length (hLog h l)" for i
    using that assms(2) by (simp add: ack_fact_def h_elect_def Let_def has_def)
  ultimately show "hist_inv n ?h"
    using assms(3) by (intro hist_step [OF assms(1) le]) (auto simp: h_elect_def Let_def split: if_splits)
qed

definition h_append :: "'c hist \<Rightarrow> nat \<Rightarrow> 'c log_entry \<Rightarrow> 'c hist" where
  "h_append h l e = (let t = hTerm h l in
     h\<lparr>hLog := (hLog h)(l := hLog h l @ [e]), hLL := (hLL h)(t := hLog h l @ [e]),
       hAck := hAck h \<union> {(l, t, i) | i. i \<le> length (hLog h l)}\<rparr>)"

lemma h_append_ok:
  assumes "hist_inv n h" "l < n" "hLead h (hTerm h l) = Some l" "hLL h (hTerm h l) = hLog h l" "eTerm e = hTerm h l"
  shows "hist_inv n (h_append h l e)" "hist_le h (h_append h l e)"
proof -
  let ?h = "h_append h l e" and ?t = "hTerm h l"
  note lg = hist_invD(1) [OF assms(1,2), unfolded log_fact_def]
  show le: "hist_le h ?h" using assms(3-5) by (auto simp: hist_le_def h_append_def Let_def)
  have "0 < ?t" using lead_terms(3) [OF assms(1)] assms(3) by blast
  then have b: "built ?h (hLog h l @ [e])"
    using built_later [OF le] lg assms(3,5) by (intro built_append) (auto simp: h_append_def Let_def has_def)
  then have "log_fact ?h l" using lg assms(5) by (auto simp: log_fact_def h_append_def Let_def)
  moreover have "ack_fact n ?h l ?t i" if "i \<le> length (hLog h l)" for i
    using that assms(2,3) by (simp add: ack_fact_def h_append_def Let_def has_def)
  moreover have "has ?h (hLog h l @ [e]) u i" if "(l, u, i) \<in> hAck h" "has h (hLog h l) u i" for u i
    using has_later [OF le ack_old(2) [OF assms(1) that(1)] that(2)] by (simp add: has_def)
  ultimately show "hist_inv n ?h"
    using b assms(3) by (intro hist_step [OF assms(1) le]) (auto simp: h_append_def Let_def split: if_splits)
qed

definition accepted :: "'c hist \<Rightarrow> 'c elog \<Rightarrow> int \<Rightarrow> nat \<Rightarrow> 'c elog" where
  "accepted h L t m = (if take m L = take m (hLL h t) then L else take m (hLL h t))"

definition h_accept :: "'c hist \<Rightarrow> nat \<Rightarrow> int \<Rightarrow> nat \<Rightarrow> 'c hist" where
  "h_accept h p t m =
     h\<lparr>hTerm := (hTerm h)(p := t), hLog := (hLog h)(p := accepted h (hLog h p) t m),
       hAck := hAck h \<union> {(p, t, i) | i. i < m}\<rparr>"

lemma accepted_take: "m \<le> length (hLL h t) \<Longrightarrow> take m (accepted h L t m) = take m (hLL h t)"
  by (simp add: accepted_def)

lemma accepted_keeps:
  assumes "has h L u i" "u = t \<or> has h (hLL h t) u i"
  shows "has h (accepted h L t m) u i"
proof (cases "take m L = take m (hLL h t)")
  case False
  have eq: "take (Suc i) L = take (Suc i) (hLL h t)" using assms by (auto simp: has_def)
  have "Suc i \<le> m"
  proof (rule ccontr)
    assume "\<not> Suc i \<le> m"
    then show False using take_eq_mono [OF eq, of m] False by simp
  qed
  then show ?thesis using assms False eq by (auto simp: accepted_def has_def min_def)
qed (use assms in \<open>simp add: accepted_def\<close>)

lemma h_accept_ok:
  assumes "hist_inv n h" "p < n" "hLead h t \<noteq> None" "hTerm h p \<le> t" "0 < m" "m \<le> length (hLL h t)"
  shows "hist_inv n (h_accept h p t m)" "hist_le h (h_accept h p t m)"
proof -
  let ?h = "h_accept h p t m" and ?L = "accepted h (hLog h p) t m"
  note lg = hist_invD(1) [OF assms(1,2), unfolded log_fact_def]
  note ll = lead_terms [OF assms(1,3)]
  show le: "hist_le h ?h" using assms(4) by (auto simp: hist_le_def h_accept_def)
  have "built h ?L" using lg built_take [OF ll(1) assms(5)] by (simp add: accepted_def)
  moreover have "eTerm e \<le> t" if "e \<in> set ?L" for e
    using that lg ll(2) assms(4) by (auto simp: accepted_def dest: in_set_takeD split: if_splits intro: order_trans)
  ultimately have "log_fact ?h p" using built_later [OF le] by (simp add: log_fact_def h_accept_def)
  moreover have "ack_fact n ?h p t i" if "i < m" for i
  proof -
    have t: "take m ?L = take m (hLL h t)" by (rule accepted_take [OF assms(6)])
    have "i < length ?L" using arg_cong [OF t, of length] that assms(6) by simp
    moreover have "take (Suc i) ?L = take (Suc i) (hLL h t)" using take_eq_mono [OF t] that by simp
    ultimately show ?thesis using that assms(2,3,6) by (simp add: ack_fact_def h_accept_def has_def)
  qed
  moreover have "has ?h ?L u i \<or> (\<exists>v. u < v \<and> v \<le> t \<and> missed ?h u v i)" if "(p, u, i) \<in> hAck h" "has h (hLog h p) u i" for u i
  proof -
    note o = ack_old [OF assms(1) that(1)]
    show ?thesis
    proof (cases "u = t \<or> has h (hLL h t) u i")
      case True
      then show ?thesis using has_later [OF le o(2) accepted_keeps [OF that(2)]] by blast
    next
      case False
      then have "u < t" "missed h u t i" using o(3) assms(3,4) by (auto simp: missed_def)
      then show ?thesis using missed_later [OF assms(1) le o(2,4)] by blast
    qed
  qed
  ultimately show "hist_inv n ?h"
    by (intro hist_step [OF assms(1) le]) (auto simp: h_accept_def split: if_splits)
qed

section \<open>Chosen entries\<close>

definition chosen :: "nat \<Rightarrow> 'c hist \<Rightarrow> int \<Rightarrow> nat \<Rightarrow> bool" where
  "chosen n h t i \<longleftrightarrow> hLead h t \<noteq> None \<and> i < length (hLL h t) \<and> eTerm (hLL h t ! i) = t \<and>
     (\<exists>A. is_majority n A \<and> (\<forall>p \<in> A. (p, t, i) \<in> hAck h))"

lemma chosen_later:
  assumes "hist_le h h'" "chosen n h t i"
  shows "chosen n h' t i"
proof -
  obtain l where l: "hLead h t = Some l" using assms(2) by (auto simp: chosen_def)
  then obtain es where "hLL h' t = hLL h t @ es" using hist_leD(8) [OF assms(1)] by blast
  then show ?thesis
    using assms(2) hist_leD(5) [OF assms(1) l] hist_leD(9) [OF assms(1)] unfolding chosen_def
    by (auto simp: nth_append)
qed

text \<open>A log that is as up to date as one that has a chosen entry has it, too.\<close>

lemma uptodate_has:
  assumes "hist_inv n h" "built h V" "built h L" "uptodate V L" "has h L t i" "eTerm (hLL h t ! i) = t" "0 < t"
    "\<And>v. t < v \<Longrightarrow> v \<le> eTerm (last V) \<Longrightarrow> hLead h v \<noteq> None \<Longrightarrow> has h (hLL h v) t i"
  shows "has h V t i"
proof -
  define b where "b = length V - 1"
  have V: "V \<noteq> []" "b < length V" "last V = V ! b" using builtD(1) [OF assms(2)] by (simp_all add: b_def last_conv_nth)
  define k where "k = length L - 1"
  have L: "k < length L" "last L = L ! k" "i \<le> k"
    using builtD(1) [OF assms(3)] assms(5) by (auto simp: k_def last_conv_nth has_def)
  have ti: "eTerm (L ! i) = t" using has_nth [OF assms(5)] assms(6) by simp
  have lt: "t \<le> eTerm (last L)" using built_mono [OF assms(3) L(3,1)] ti L(2) by simp
  show ?thesis
  proof (cases "eTerm (last L) = eTerm (last V)")
    case True
    then have le: "k \<le> b" using assms(4) by (simp add: uptodate_def k_def b_def)
    have "eTerm (last L) \<noteq> 0" using lt assms(7) by simp
    then have nz: "k \<noteq> 0" "b \<noteq> 0" using built_0 [OF assms(3)] built_0 [OF assms(2)] L(2) V(3) True by (metis log_entry.select_convs(1))+
    have "has h L (eTerm (last L)) k" "has h V (eTerm (last L)) b"
      using builtD(6) [OF assms(3) L(1) nz(1)] builtD(6) [OF assms(2) V(2) nz(2)] L(2) V(3) True by simp_all
    then have "take (Suc k) V = take (Suc k) L" using has_le [OF _ le] by (auto simp: has_def)
    then have "take (Suc i) V = take (Suc i) L" by (rule take_eq_mono) (use L(3) in simp)
    then show ?thesis using assms(5) le L(3) V(2) by (simp add: has_def)
  next
    case False
    define v where "v = eTerm (V ! b)"
    have lv: "eTerm (last V) = v" using V(3) by (simp add: v_def)
    have v: "t < v" using False assms(4) lt unfolding uptodate_def lv by auto
    then have nz: "b \<noteq> 0" using built_0 [OF assms(2)] assms(7) by (cases "b = 0") (simp_all add: v_def)
    have hv: "has h V v b" "hLead h v \<noteq> None" using builtD(5,6) [OF assms(2) V(2) nz] by (simp_all add: v_def)
    have lead: "has h (hLL h v) t i" using assms(8) [OF v _ hv(2)] lv by simp
    have "i < b"
    proof (rule ccontr)
      assume "\<not> i < b"
      then have "hLL h v ! b = hLL h t ! b" "V ! b = hLL h v ! b"
        using has_nth [OF lead, of b] has_nth [OF hv(1), of b] by simp_all
      then have "eTerm (hLL h t ! b) = eTerm (V ! b)" by simp
      then have "eTerm (hLL h t ! b) = v" unfolding v_def .
      moreover have "hLead h t \<noteq> None"
        using builtD(5) [OF assms(3), of i] L(1,3) ti assms(7) built_0 [OF assms(3)] by (cases "i = 0") auto
      then have "eTerm (hLL h t ! b) \<le> t"
        using lead_terms(2) [OF assms(1), of t "hLL h t ! b"] \<open>\<not> i < b\<close> lead by (simp add: has_def)
      ultimately show False using v by simp
    qed
    then have "take (Suc i) V = take (Suc i) (hLL h v)" using hv(1) take_eq_mono [of "Suc b" V "hLL h v" "Suc i"] by (simp add: has_def)
    then show ?thesis using lead \<open>i < b\<close> V(2) by (simp add: has_def)
  qed
qed

lemma chosen_in_leaders:
  assumes "hist_inv n h" "chosen n h t i" "t \<le> t'" "hLead h t' \<noteq> None"
  shows "has h (hLL h t') t i"
  using assms(3,4)
proof (induction "nat (t' - t)" arbitrary: t' rule: less_induct)
  case less
  have c: "hLead h t \<noteq> None" "i < length (hLL h t)" "eTerm (hLL h t ! i) = t" using assms(2) by (auto simp: chosen_def)
  show ?case
  proof (cases "t' = t")
    case True
    then show ?thesis using c by (simp add: has_def)
  next
    case False
    then have lt: "t < t'" using less.prems by simp
    obtain l where l: "hLead h t' = Some l" using less.prems by blast
    note f = hist_invD(4) [OF assms(1) l, unfolded lead_fact_def]
    have cand: "cand_fact n h l t' (hBase h t')" using f hist_invD(3) [OF assms(1)] by blast
    have IH: "has h (hLL h v) t i" if "t < v" "v < t'" "hLead h v \<noteq> None" for v
      using less.hyps [of v] that by simp
    obtain A where A: "is_majority n A" "\<forall>p \<in> A. (p, t, i) \<in> hAck h" using assms(2) by (auto simp: chosen_def)
    obtain p where p: "p \<in> A" "p \<in> hQuo h t'" using maj.quorum_meet A(1) f by blast
    have v: "hVote h p t' = Some l" "kept h p t' (hVlog h p t')" using f p(2) by blast+
    note vf = hist_invD(2) [OF assms(1) v(1), unfolded vote_fact_def]
    have "has h (hVlog h p t') t i \<or> (\<exists>v. t < v \<and> v < t' \<and> missed h t v i)"
      using v(2) A(2) p(1) lt by (simp add: kept_def)
    then have hv: "has h (hVlog h p t') t i" using IH by (auto simp: missed_def)
    have up: "uptodate (hBase h t') (hVlog h p t')" using vf f by auto
    have last: "eTerm (last (hBase h t')) < t'" "built h (hBase h t')"
      using cand builtD(1) [of h "hBase h t'"] by (auto simp: cand_fact_def)
    have "has h (hBase h t') t i"
      using IH last(1) vf lead_terms(3) [OF assms(1) c(1)]
      by (intro uptodate_has [OF assms(1) last(2) _ up hv c(3)]) auto
    then show ?thesis using f by (auto simp: has_def)
  qed
qed

section \<open>What nodes may apply\<close>

text \<open>
  \<open>known\<close>: the leader of term \<open>t\<close> may say that everything up to index \<open>c\<close> is committed.
  \<open>safe\<close>: the node \<open>p\<close> may apply its log up to index \<open>c\<close>.
\<close>

definition known :: "nat \<Rightarrow> 'c hist \<Rightarrow> int \<Rightarrow> nat \<Rightarrow> bool" where
  "known n h t c \<longleftrightarrow> c = 0 \<or> (\<exists>u i. u \<le> t \<and> c \<le> i \<and> chosen n h u i)"

definition safe :: "nat \<Rightarrow> 'c hist \<Rightarrow> nat \<Rightarrow> nat \<Rightarrow> bool" where
  "safe n h p c \<longleftrightarrow> c = 0 \<or> (\<exists>u i. u \<le> hTerm h p \<and> c \<le> i \<and> chosen n h u i \<and> has h (hLog h p) u c)"

lemma known_le: "known n h t c \<Longrightarrow> k \<le> c \<Longrightarrow> known n h t k"
  unfolding known_def by (metis le_zero_eq order_trans)

lemma known_later: "hist_le h h' \<Longrightarrow> known n h t c \<Longrightarrow> known n h' t c"
  unfolding known_def using chosen_later by blast

lemma safe_known: "safe n h p c \<Longrightarrow> hTerm h p \<le> t \<Longrightarrow> known n h t c"
  unfolding safe_def known_def by (meson order_trans)

lemma safe_le:
  assumes "safe n h p c" "k \<le> c"
  shows "safe n h p k"
  using assms has_le unfolding safe_def by (metis le_zero_eq order_trans)

lemma safe_later:
  assumes "hist_le h h'" "safe n h p c" "hLog h' p = hLog h p"
  shows "safe n h' p c"
proof (cases "c = 0")
  case False
  then obtain u i where u: "u \<le> hTerm h p" "c \<le> i" "chosen n h u i" "has h (hLog h p) u c"
    using assms(2) by (auto simp: safe_def)
  have "has h' (hLog h p) u c" using has_later [OF assms(1) _ u(4)] u(3) by (auto simp: chosen_def)
  then show ?thesis
    using u(1,2) chosen_later [OF assms(1) u(3)] hist_leD(1) [OF assms(1), of p] assms(3)
    unfolding safe_def by (auto intro!: exI [of _ u] exI [of _ i])
qed (simp add: safe_def)

text \<open>What is known to be committed is in the log of the leader, and the safe part of a log agrees with it.\<close>

lemma known_leader:
  assumes "hist_inv n h" "known n h t c" "hLead h t \<noteq> None"
  shows "c < length (hLL h t)"
proof (cases "c = 0")
  case True
  then show ?thesis using builtD(1) [OF lead_terms(1) [OF assms(1,3)]] by simp
next
  case False
  then obtain u i where "u \<le> t" "c \<le> i" "chosen n h u i" using assms(2) by (auto simp: known_def)
  then show ?thesis using chosen_in_leaders [OF assms(1), of u i t] assms(3) by (simp add: has_def)
qed

lemma safe_leader:
  assumes "hist_inv n h" "p < n" "safe n h p c" "hTerm h p \<le> t" "hLead h t \<noteq> None"
  shows "has h (hLog h p) t c"
proof (cases "c = 0")
  case True
  note b = hist_invD(1) [OF assms(1,2)] lead_terms(1) [OF assms(1,5)]
  have "0 < length (hLog h p)" "0 < length (hLL h t)" using b builtD(1) by (auto simp: log_fact_def)
  moreover have "take (Suc 0) (hLog h p) = take (Suc 0) (hLL h t)"
    using b by (intro built_first [of h]) (auto simp: log_fact_def)
  ultimately show ?thesis using True by (simp add: has_def)
next
  case False
  then obtain u i where u: "u \<le> hTerm h p" "c \<le> i" "chosen n h u i" "has h (hLog h p) u c"
    using assms(3) by (auto simp: safe_def)
  have "has h (hLL h t) u c"
    using chosen_in_leaders [OF assms(1) u(3), of t] u(1,2) assms(4,5) has_le by fastforce
  then show ?thesis using u(4) by (simp add: has_def)
qed

lemma chosen_agree:
  assumes "hist_inv n h" "chosen n h u i" "chosen n h v k" "c \<le> i" "c \<le> k"
  shows "take (Suc c) (hLL h u) = take (Suc c) (hLL h v)"
proof (cases "u \<le> v")
  case True
  have "has h (hLL h v) u i" by (rule chosen_in_leaders [OF assms(1,2) True]) (use assms(3) in \<open>simp add: chosen_def\<close>)
  then have "has h (hLL h v) u c" using has_le assms(4) by blast
  then show ?thesis by (simp add: has_def)
next
  case False
  have "has h (hLL h u) v k" by (rule chosen_in_leaders [OF assms(1,3)]) (use assms(2) False in \<open>simp_all add: chosen_def\<close>)
  then have "has h (hLL h u) v c" using has_le assms(5) by blast
  then show ?thesis by (simp add: has_def)
qed

text \<open>What is safe at one node now and at another node later is the same.\<close>

lemma safe_agree:
  assumes "hist_inv n h" "hist_inv n h'" "hist_le h h'" "p < n" "q < n" "safe n h p c" "safe n h' q c"
  shows "take (Suc c) (hLog h p) = take (Suc c) (hLog h' q)"
proof (cases "c = 0")
  case True
  have "built h' (hLog h p)" "built h' (hLog h' q)"
    using hist_invD(1) [OF assms(1)] hist_invD(1) [OF assms(2)] assms(4,5) built_later [OF assms(3)] by (auto simp: log_fact_def)
  then show ?thesis using True built_first by simp
next
  case False
  then obtain u i where u: "c \<le> i" "chosen n h u i" "has h (hLog h p) u c" using assms(6) by (auto simp: safe_def)
  obtain v k where v: "c \<le> k" "chosen n h' v k" "has h' (hLog h' q) v c" using assms(7) False by (auto simp: safe_def)
  have "has h' (hLog h p) u c" using has_later [OF assms(3) _ u(3)] u(2) by (auto simp: chosen_def)
  then show ?thesis
    using chosen_agree [OF assms(2) chosen_later [OF assms(3) u(2)] v(2) u(1) v(1)] v(3) by (simp add: has_def)
qed

text \<open>Accepting entries keeps what was safe, and what the leader knows to be committed becomes safe.\<close>

lemma accept_safe:
  assumes "hist_inv n h" "p < n" "hLead h t \<noteq> None" "hTerm h p \<le> t" "0 < m" "m \<le> length (hLL h t)"
  shows "safe n h p c \<Longrightarrow> safe n (h_accept h p t m) p c"
    and "known n h t c \<Longrightarrow> c < m \<Longrightarrow> safe n (h_accept h p t m) p c"
proof -
  let ?h = "h_accept h p t m"
  note le = h_accept_ok(2) [OF assms]
  have L: "hLog ?h p = accepted h (hLog h p) t m" "hTerm ?h p = t" "hLL ?h = hLL h"
    by (simp_all add: h_accept_def)
  show "safe n ?h p c" if s: "safe n h p c"
  proof (cases "c = 0")
    case False
    then obtain u i where u: "u \<le> hTerm h p" "c \<le> i" "chosen n h u i" "has h (hLog h p) u c"
      using s by (auto simp: safe_def)
    have "has h (hLL h t) u c"
      using chosen_in_leaders [OF assms(1) u(3), of t] u(1,2) assms(3,4) has_le by fastforce
    then have "has h (accepted h (hLog h p) t m) u c" using accepted_keeps [OF u(4)] by blast
    then have "has ?h (hLog ?h p) u c" unfolding L(1) by (simp add: has_def L(3))
    then show ?thesis
      using u(1,2) chosen_later [OF le u(3)] assms(4) L(2) unfolding safe_def
      by (intro disjI2 exI [of _ u] exI [of _ i]) simp
  qed (simp add: safe_def)
  show "safe n ?h p c" if k: "known n h t c" "c < m"
  proof (cases "c = 0")
    case False
    then obtain u i where u: "u \<le> t" "c \<le> i" "chosen n h u i" using k by (auto simp: known_def)
    have hu: "has h (hLL h t) u c"
      using chosen_in_leaders [OF assms(1) u(3,1) assms(3)] u(2) has_le by blast
    have t: "take m (accepted h (hLog h p) t m) = take m (hLL h t)" by (rule accepted_take [OF assms(6)])
    have "c < length (accepted h (hLog h p) t m)" using arg_cong [OF t, of length] k(2) assms(6) by simp
    moreover have "take (Suc c) (accepted h (hLog h p) t m) = take (Suc c) (hLL h t)" using take_eq_mono [OF t] k(2) by simp
    ultimately have "has h (accepted h (hLog h p) t m) u c" using hu by (simp add: has_def)
    then have "has ?h (hLog ?h p) u c" unfolding L(1) by (simp add: has_def L(3))
    then show ?thesis
      using u(1,2) chosen_later [OF le u(3)] L(2) unfolding safe_def
      by (intro disjI2 exI [of _ u] exI [of _ i]) simp
  qed (simp add: safe_def)
qed

lemma append_safe:
  assumes "hist_inv n h" "hist_le h h'" "safe n h p c" "hLog h' p = hLog h p @ es"
  shows "safe n h' p c"
proof (cases "c = 0")
  case False
  then obtain u i where u: "u \<le> hTerm h p" "c \<le> i" "chosen n h u i" "has h (hLog h p) u c"
    using assms(3) by (auto simp: safe_def)
  have "has h' (hLog h p) u c" using has_later [OF assms(2) _ u(4)] u(3) by (auto simp: chosen_def)
  then have "has h' (hLog h' p) u c" by (simp add: has_def assms(4))
  then show ?thesis
    using u(1,2) chosen_later [OF assms(2) u(3)] hist_leD(1) [OF assms(2), of p]
    unfolding safe_def by (intro disjI2 exI [of _ u] exI [of _ i]) simp
qed (simp add: safe_def)

lemma chosen_safe:
  assumes "chosen n h (hTerm h p) i" "hLog h p = hLL h (hTerm h p)"
  shows "safe n h p i"
  using assms unfolding safe_def
  by (intro disjI2 exI [of _ "hTerm h p"] exI [of _ i]) (simp add: chosen_def has_def)

end
