(* ===== verification/Raft_Cluster.thy ===== *)
theory Raft_Cluster
  imports Raft_Events Raft_Spec
begin

text \<open>
  A cluster of nodes running \<^verbatim>\<open>raft1/raft.go\<close> over a network that can lose, delay, duplicate and reorder
  every message, with nodes that crash and restart at any time; and how such a cluster follows the
  protocol of \<^verbatim>\<open>Raft_Spec\<close>.
\<close>

section \<open>The cluster\<close>

text \<open>
  The messages are those ever sent: a request with its destination, a reply with the node that gave it
  and the request. \<open>clElect\<close> has the elections whose goroutines are still waiting: the vote counter
  they share and the peers that have not answered.
\<close>

record 'c cluster =
  clNode :: "nat \<Rightarrow> 'c raft"
  clElect :: "nat \<Rightarrow> int \<Rightarrow> (nat \<times> nat set) option"
  clVoteReq :: "(nat \<times> vote_args) set"
  clVoteRep :: "(nat \<times> vote_args \<times> vote_reply) set"
  clAppend :: "(nat \<times> 'c append_args) set"
  clAppendRep :: "(nat \<times> 'c append_args \<times> append_reply) set"
  clInstall :: "(nat \<times> install_args) set"
  clInstallRep :: "(nat \<times> install_args \<times> install_reply) set"

text \<open>The events of a node that involve no other node.\<close>

fun local_event :: "'c raft \<Rightarrow> 'c raft_event \<Rightarrow> bool" where
  "local_event rf (EvWorkerBegin peer) \<longleftrightarrow> peer_ok rf peer"
| "local_event rf (EvWorkerEnd peer) \<longleftrightarrow> peer_ok rf peer"
| "local_event rf EvApply \<longleftrightarrow> True"
| "local_event rf (EvStart command) \<longleftrightarrow> True"
| "local_event rf (EvSnapshot index data) \<longleftrightarrow> True"
| "local_event rf EvKill \<longleftrightarrow> True"
| "local_event rf EvStopped \<longleftrightarrow> True"
| "local_event rf EvGoroutineDone \<longleftrightarrow> True"
| "local_event rf _ \<longleftrightarrow> False"

definition to_peers :: "(int \<times> 'm) list \<Rightarrow> (nat \<times> 'm) set" where
  "to_peers ms = (\<lambda>(i, m). (nat i, m)) ` set ms"

text \<open>The steps of the protocol: a message is sent or handled.\<close>

inductive cluster_net :: "'c codec \<Rightarrow> nat \<Rightarrow> 'c cluster \<Rightarrow> 'c cluster \<Rightarrow> bool" for cd n where
  start_election: "p < n \<Longrightarrow> startElection ev (clNode c p) = Some (rf, reqs) \<Longrightarrow>
    cluster_net cd n c (c\<lparr>clNode := (clNode c)(p := rf), clVoteReq := clVoteReq c \<union> to_peers reqs,
      clElect := (if reqs = [] then clElect c
                  else (clElect c)(p := (clElect c p)(currentTerm rf := Some (1, fst ` to_peers reqs))))\<rparr>)"
| vote: "(q, args) \<in> clVoteReq c \<Longrightarrow> RequestVote ev (clNode c q) args = Some (rf, reply) \<Longrightarrow>
    cluster_net cd n c (c\<lparr>clNode := (clNode c)(q := rf), clVoteRep := insert (q, args, reply) (clVoteRep c)\<rparr>)"
| vote_reply: "p < n \<Longrightarrow> clElect c p t = Some (votes, waiting) \<Longrightarrow> q \<in> waiting \<Longrightarrow> (q, args, reply) \<in> clVoteRep c \<Longrightarrow>
    rvTerm args = t \<Longrightarrow> rvCandidateId args = int p \<Longrightarrow> election_reply ev (clNode c p) votes t reply = Some (rf, votes') \<Longrightarrow>
    cluster_net cd n c (c\<lparr>clNode := (clNode c)(p := rf),
      clElect := (clElect c)(p := (clElect c p)(t := Some (votes', waiting - {q})))\<rparr>)"
| send_append: "p < n \<Longrightarrow> q < n \<Longrightarrow> q \<noteq> p \<Longrightarrow> replicate_build (clNode c p) (int q) = Some (RepAppend args) \<Longrightarrow>
    cluster_net cd n c (c\<lparr>clAppend := insert (q, args) (clAppend c)\<rparr>)"
| send_install: "p < n \<Longrightarrow> q < n \<Longrightarrow> q \<noteq> p \<Longrightarrow> replicate_build (clNode c p) (int q) = Some (RepSnapshot sargs) \<Longrightarrow>
    cluster_net cd n c (c\<lparr>clInstall := insert (q, sargs) (clInstall c)\<rparr>)"
| heartbeat: "p < n \<Longrightarrow> heartbeatOrNotifyReplication ev (clNode c p) = Some (rf, tasks, rescue) \<Longrightarrow>
    cluster_net cd n c (c\<lparr>clNode := (clNode c)(p := rf), clAppend := clAppend c \<union> to_peers tasks\<rparr>)"
| append: "(q, args) \<in> clAppend c \<Longrightarrow> AppendEntries cd ev (clNode c q) args = Some (rf, areply) \<Longrightarrow>
    cluster_net cd n c (c\<lparr>clNode := (clNode c)(q := rf), clAppendRep := insert (q, args, areply) (clAppendRep c)\<rparr>)"
| install: "(q, sargs) \<in> clInstall c \<Longrightarrow> InstallSnapshot cd ev (clNode c q) sargs = Some (rf, sreply) \<Longrightarrow>
    cluster_net cd n c (c\<lparr>clNode := (clNode c)(q := rf), clInstallRep := insert (q, sargs, sreply) (clInstallRep c)\<rparr>)"
| append_reply: "p < n \<Longrightarrow> (q, args, areply) \<in> clAppendRep c \<Longrightarrow> aeLeaderId args = int p \<Longrightarrow>
    replicate_append_done ev (clNode c p) (int q) args areply = Some (rf, ctl) \<Longrightarrow>
    cluster_net cd n c (c\<lparr>clNode := (clNode c)(p := rf)\<rparr>)"
| heartbeat_reply: "p < n \<Longrightarrow> (q, args, areply) \<in> clAppendRep c \<Longrightarrow> aeLeaderId args = int p \<Longrightarrow>
    heartbeat_reply ev (clNode c p) areply = Some rf \<Longrightarrow>
    cluster_net cd n c (c\<lparr>clNode := (clNode c)(p := rf)\<rparr>)"
| install_reply: "p < n \<Longrightarrow> (q, sargs, sreply) \<in> clInstallRep c \<Longrightarrow> isLeaderId sargs = int p \<Longrightarrow>
    replicate_snapshot_reply ev (clNode c p) (int q) sargs sreply = Some (rf, ctl) \<Longrightarrow>
    cluster_net cd n c (c\<lparr>clNode := (clNode c)(p := rf)\<rparr>)"

text \<open>And the nodes' own events: a local section, or a crash and the restart from disk.\<close>

inductive cluster_step :: "'c codec \<Rightarrow> nat \<Rightarrow> 'c cluster \<Rightarrow> 'c cluster \<Rightarrow> bool" for cd n where
  net: "cluster_net cd n c c' \<Longrightarrow> cluster_step cd n c c'"
| local: "p < n \<Longrightarrow> local_event (clNode c p) e \<Longrightarrow> raft_step cd ev (clNode c p) e = Some rf \<Longrightarrow>
    cluster_step cd n c (c\<lparr>clNode := (clNode c)(p := rf)\<rparr>)"
| crash: "p < n \<Longrightarrow> sizes_ok (clNode c p) \<Longrightarrow> Make cd ev n (int p) (persister (clNode c p)) = Some rf \<Longrightarrow>
    cluster_step cd n c (c\<lparr>clNode := (clNode c)(p := rf), clElect := (clElect c)(p := (\<lambda>_. None))\<rparr>)"

text \<open>A new cluster: every node has been made from an empty persister, and nothing has been sent.\<close>

definition cluster_start :: "'c codec \<Rightarrow> nat \<Rightarrow> 'c cluster \<Rightarrow> bool" where
  "cluster_start cd n c \<longleftrightarrow>
     (\<forall>p<n. \<exists>ev. Make cd ev n (int p) MakePersister = Some (clNode c p)) \<and>
     clElect c = (\<lambda>_ _. None) \<and> clVoteReq c = {} \<and> clVoteRep c = {} \<and> clAppend c = {} \<and> clAppendRep c = {} \<and>
     clInstall c = {} \<and> clInstallRep c = {}"

section \<open>Compacted logs\<close>

text \<open>The node keeps of its log the part behind the snapshot, with a sentinel for the last entry in it.\<close>

definition compact :: "'c elog \<Rightarrow> nat \<Rightarrow> 'c elog" where
  "compact L k = \<lparr>eTerm = eTerm (L ! k), eCommand = None\<rparr> # drop (Suc k) L"

lemma compact_length: "k < length L \<Longrightarrow> length (compact L k) = length L - k"
  by (simp add: compact_def)

lemma compact_nth: "0 < i \<Longrightarrow> k + i < length L \<Longrightarrow> compact L k ! i = L ! (k + i)"
  by (cases i) (simp_all add: compact_def)

lemma compact_term: "k + i < length L \<Longrightarrow> eTerm (compact L k ! i) = eTerm (L ! (k + i))"
  by (cases "i = 0") (simp_all add: compact_nth, simp add: compact_def)

lemma compact_compact:
  assumes "k + i < length L"
  shows "compact (compact L k) i = compact L (k + i)"
  using assms compact_term [OF assms] by (simp add: compact_def add.commute)

lemma compact_last:
  assumes "k < length L"
  shows "eTerm (last (compact L k)) = eTerm (last L)"
proof (cases "Suc k = length L")
  case True
  then have "last L = L ! k" by (metis assms diff_Suc_1 last_conv_nth length_0_conv not_less_zero)
  then show ?thesis using True by (simp add: compact_def)
qed (use assms in \<open>simp add: compact_def\<close>)

lemma compact_append: "k < length L \<Longrightarrow> compact (L @ es) k = compact L k @ es"
  by (simp add: compact_def nth_append)

lemma merge_compact:
  assumes "0 < j" "k + j \<le> length L" "k < length L"
  shows "merge_logs (compact L k) j es = compact (merge_logs L (k + j) es) k"
  using assms(1,2)
proof (induction es arbitrary: j)
  case (Cons e es)
  show ?case
  proof (cases "k + j < length L")
    case True
    have t: "eTerm (compact L k ! j) = eTerm (L ! (k + j))" by (rule compact_term [OF True])
    have "take j (compact L k) @ e # es = compact (take (k + j) L @ e # es) k"
      using Cons.prems(1) True assms(3) by (cases j) (simp_all add: compact_def nth_append drop_take min_def)
    moreover have "j < length (compact L k)" using True assms(3) by (simp add: compact_length)
    ultimately show ?thesis using True t Cons.IH [of "Suc j"] by simp
  next
    case False
    then have "\<not> j < length (compact L k)" using Cons.prems assms(3) by (simp add: compact_length)
    then show ?thesis using False assms(3) by (simp add: compact_append)
  qed
qed simp

text \<open>The merge of the part of a leader's log from \<open>j\<close> on, where the logs before agree.\<close>

lemma merge_leader:
  assumes "\<And>i. i < length L \<Longrightarrow> i < length M \<Longrightarrow> eTerm (L ! i) = eTerm (M ! i) \<Longrightarrow> take (Suc i) L = take (Suc i) M"
    and "j \<le> length M" "take j L = take j M"
  shows "merge_logs L j (drop j M) = (if take (length M) L = M then L else M)"
  using assms(2,3)
proof (induction "length M - j" arbitrary: j)
  case 0
  then show ?case by simp
next
  case (Suc d)
  then have j: "j < length M" by simp
  then have d: "drop j M = M ! j # drop (Suc j) M" by (simp add: Cons_nth_drop_Suc)
  have split: "take j M @ drop j M = M" by simp
  have len: "j \<le> length L" using arg_cong [OF Suc.prems(2), of length] j by simp
  show ?case
  proof (cases "j < length L")
    case True
    show ?thesis
    proof (cases "eTerm (L ! j) = eTerm (M ! j)")
      case eq: True
      then have "merge_logs L (Suc j) (drop (Suc j) M) = (if take (length M) L = M then L else M)"
        using Suc.hyps True j assms(1) by (intro Suc.hyps(1)) auto
      then show ?thesis using d True eq by simp
    next
      case False
      then have "take (length M) L \<noteq> M" using j by (metis nth_take)
      then show ?thesis using d True False Suc.prems(2) split by simp
    qed
  next
    case False
    then have "take (length M) L \<noteq> M" using j by (metis length_take min.strict_boundedE order_less_irrefl)
    moreover have "L = take j M" using False len Suc.prems(2) by simp
    ultimately show ?thesis using d False split by simp
  qed
qed

section \<open>How a cluster follows the protocol\<close>

definition leads :: "nat \<Rightarrow> 'c hist \<Rightarrow> nat \<Rightarrow> 'c raft \<Rightarrow> bool" where
  "leads n h p rf \<longleftrightarrow> hLead h (currentTerm rf) = Some p \<and> hLL h (currentTerm rf) = hLog h p \<and>
     (\<forall>q<n. \<forall>i. 0 < i \<longrightarrow> int i \<le> matchIndex rf ! q \<longrightarrow> (q, currentTerm rf, i) \<in> hAck h)"

definition node_rel :: "'c codec \<Rightarrow> nat \<Rightarrow> 'c hist \<Rightarrow> nat \<Rightarrow> 'c raft \<Rightarrow> bool" where
  "node_rel cd n h p rf \<longleftrightarrow>
     raft_inv cd rf \<and> me rf = int p \<and> npeers rf = n \<and> currentTerm rf = hTerm h p \<and> 0 \<le> hTerm h p \<and>
     votedFor rf = (case hVote h p (hTerm h p) of None \<Rightarrow> -1 | Some c \<Rightarrow> int c) \<and>
     nat (lastIncludedIndex rf) < length (hLog h p) \<and> logs rf = compact (hLog h p) (nat (lastIncludedIndex rf)) \<and>
     safe n h p (nat (commitIndex rf)) \<and>
     (rstate rf = Candidate \<longrightarrow> hCand h p (hTerm h p) = Some (hLog h p) \<and> hLead h (hTerm h p) \<noteq> Some p) \<and>
     (rstate rf = Leader \<longrightarrow> leads n h p rf)"

definition same_at :: "'c hist \<Rightarrow> 'c hist \<Rightarrow> nat \<Rightarrow> bool" where
  "same_at h h' q \<longleftrightarrow> hTerm h' q = hTerm h q \<and> hLog h' q = hLog h q \<and> hVote h' q = hVote h q \<and>
     (\<forall>t. hLead h t = Some q \<longrightarrow> hLL h' t = hLL h t) \<and> (\<forall>t. hLead h' t = Some q \<longrightarrow> hLead h t = Some q)"

text \<open>A step of the protocol in which only \<open>p\<close> takes part.\<close>

definition moves :: "nat \<Rightarrow> nat \<Rightarrow> 'c hist \<Rightarrow> 'c hist \<Rightarrow> bool" where
  "moves n p h h' \<longleftrightarrow> hist_inv n h' \<and> hist_le h h' \<and> (\<forall>q. q \<noteq> p \<longrightarrow> same_at h h' q)"

lemma movesD:
  assumes "moves n p h h'"
  shows "hist_inv n h'" "hist_le h h'" "q \<noteq> p \<Longrightarrow> same_at h h' q"
  using assms by (simp_all add: moves_def)

lemma moves_refl: "hist_inv n h \<Longrightarrow> moves n p h h"
  by (simp add: moves_def hist_le_refl same_at_def)

lemma moves_trans: "moves n p a b \<Longrightarrow> moves n p b c \<Longrightarrow> moves n p a c"
  unfolding moves_def same_at_def using hist_le_trans hist_leD(5) by (metis (no_types, lifting))

lemma node_relD:
  assumes "node_rel cd n h p rf"
  shows "raft_inv cd rf" "me rf = int p" "npeers rf = n" "currentTerm rf = hTerm h p" "0 \<le> hTerm h p"
    "votedFor rf = (case hVote h p (hTerm h p) of None \<Rightarrow> -1 | Some c \<Rightarrow> int c)"
    "nat (lastIncludedIndex rf) < length (hLog h p)" "logs rf = compact (hLog h p) (nat (lastIncludedIndex rf))"
    "safe n h p (nat (commitIndex rf))"
    "rstate rf = Candidate \<Longrightarrow> hCand h p (hTerm h p) = Some (hLog h p)"
    "rstate rf = Candidate \<Longrightarrow> hLead h (hTerm h p) \<noteq> Some p"
    "rstate rf = Leader \<Longrightarrow> leads n h p rf"
  using assms by (simp_all add: node_rel_def)

lemma node_rel_moves:
  assumes "node_rel cd n h q rf" "moves n p h h'" "q \<noteq> p"
  shows "node_rel cd n h' q rf"
proof -
  note le = movesD(2) [OF assms(2)]
  have s: "hTerm h' q = hTerm h q" "hLog h' q = hLog h q" "hVote h' q = hVote h q"
    "\<And>t. hLead h t = Some q \<Longrightarrow> hLL h' t = hLL h t" "\<And>t. hLead h' t = Some q \<Longrightarrow> hLead h t = Some q"
    using movesD(3) [OF assms(2,3)] by (simp_all add: same_at_def)
  have "leads n h' q rf" if "rstate rf = Leader"
    using node_relD(12) [OF assms(1) that] s(2,4) hist_leD(5,9) [OF le] by (simp add: leads_def)
  moreover have "hCand h' q (hTerm h q) = Some (hLog h q)" "hLead h' (hTerm h q) \<noteq> Some q" if "rstate rf = Candidate"
    using node_relD(10,11) [OF assms(1) that] hist_leD(4) [OF le] s(5) by blast+
  ultimately show ?thesis
    using node_relD(1-9) [OF assms(1)] safe_later [OF le node_relD(9) [OF assms(1)] s(2)] s(1-3)
    by (simp add: node_rel_def)
qed

text \<open>Changes of a node that the protocol does not see.\<close>

lemma node_rel_frame:
  assumes "node_rel cd n h p rf" "raft_inv cd rf'" "me rf' = me rf" "npeers rf' = npeers rf" "currentTerm rf' = currentTerm rf"
    "votedFor rf' = votedFor rf" "logs rf' = logs rf" "lastIncludedIndex rf' = lastIncludedIndex rf"
    "commitIndex rf' = commitIndex rf" "rstate rf' = rstate rf \<or> rstate rf' = Follower"
    "rstate rf' = Leader \<Longrightarrow> matchIndex rf' = matchIndex rf"
  shows "node_rel cd n h p rf'"
  using assms by (auto simp: node_rel_def leads_def)

lemma node_rel_log:
  assumes "node_rel cd n h p rf"
  shows "0 \<le> lastIncludedIndex rf" "0 \<le> commitIndex rf" "lastLogIndexLocked rf = int (length (hLog h p)) - 1"
    "eTerm (last (logs rf)) = eTerm (last (hLog h p))"
    "lastIncludedIndex rf \<le> int i \<Longrightarrow> i < length (hLog h p) \<Longrightarrow> eTerm (logs rf ! nat (int i - lastIncludedIndex rf)) = eTerm (hLog h p ! i)"
    "lastIncludedIndex rf < int i \<Longrightarrow> i < length (hLog h p) \<Longrightarrow> logs rf ! nat (int i - lastIncludedIndex rf) = hLog h p ! i"
    "int (nat (lastIncludedIndex rf)) = lastIncludedIndex rf" "lastIncludedIndex rf \<le> commitIndex rf"
    "nat (commitIndex rf) < length (hLog h p)"
proof -
  note r = node_relD [OF assms]
  let ?k = "nat (lastIncludedIndex rf)"
  have n: "0 \<le> lastIncludedIndex rf" "lastIncludedIndex rf \<le> commitIndex rf" "commitIndex rf \<le> lastLogIndexLocked rf"
    using r(1) by (auto simp: raft_inv_def node_ok_def)
  show "0 \<le> lastIncludedIndex rf" "0 \<le> commitIndex rf" "int ?k = lastIncludedIndex rf" "lastIncludedIndex rf \<le> commitIndex rf"
    using n by simp_all
  show l: "lastLogIndexLocked rf = int (length (hLog h p)) - 1"
    using r(7,8) n(1) by (simp add: lastLogIndexLocked_def compact_length of_nat_diff)
  show "nat (commitIndex rf) < length (hLog h p)" using n l by linarith
  show "eTerm (last (logs rf)) = eTerm (last (hLog h p))" using r(7,8) by (simp add: compact_last)
  have i: "nat (int i - lastIncludedIndex rf) = i - ?k" "?k + (i - ?k) = i" if "lastIncludedIndex rf \<le> int i" for i
    using that n(1) by auto
  show "eTerm (logs rf ! nat (int i - lastIncludedIndex rf)) = eTerm (hLog h p ! i)"
    if "lastIncludedIndex rf \<le> int i" "i < length (hLog h p)" for i
    using compact_term [of ?k "i - ?k" "hLog h p"] i [OF that(1)] that(2) r(8) by simp
  show "logs rf ! nat (int i - lastIncludedIndex rf) = hLog h p ! i"
    if "lastIncludedIndex rf < int i" "i < length (hLog h p)" for i
    using compact_nth [of "i - ?k" ?k "hLog h p"] i [of i] that r(8) by simp
qed

lemma no_vote_now:
  assumes "hist_inv n h" "hTerm h p \<le> t"
  shows "(if hTerm h p < t then -1 else (case hVote h p (hTerm h p) of None \<Rightarrow> -1 | Some c \<Rightarrow> int c)) =
    (case hVote h p t of None \<Rightarrow> -1 | Some c \<Rightarrow> int c)"
  using assms(2) no_vote_ahead [OF assms(1), of p t] by auto

lemma moves_term:
  assumes "hist_inv n h" "hTerm h p \<le> t"
  shows "moves n p h (h_term h p t)"
  using h_term_ok [OF assms] by (simp add: moves_def same_at_def h_term_def)

lemma follow_rel:
  assumes "hist_inv n h" "node_rel cd n h p rf"
  shows "moves n p h (h_term h p (max t (hTerm h p)))" "node_rel cd n (h_term h p (max t (hTerm h p))) p (follow rf t)"
proof -
  let ?t = "max t (hTerm h p)"
  let ?h = "h_term h p ?t"
  note r = node_relD [OF assms(2)]
  show m: "moves n p h ?h" by (rule moves_term [OF assms(1)]) simp
  have s: "safe n ?h p (nat (commitIndex rf))"
    by (rule safe_later [OF movesD(2) [OF m] r(9)]) (simp add: h_term_def)
  have "votedFor (follow rf t) = (case hVote h p ?t of None \<Rightarrow> -1 | Some c \<Rightarrow> int c)"
    using no_vote_now [OF assms(1), of p ?t] r(4,6) by (auto simp: max_def)
  then show "node_rel cd n ?h p (follow rf t)"
    using r follow_inv [OF r(1)] s by (auto simp: node_rel_def h_term_def)
qed

lemma heard_rel:
  assumes "hist_inv n h" "node_rel cd n h p rf"
  shows "node_rel cd n (h_term h p (max t (hTerm h p))) p (heard ev rf t)"
  by (rule node_rel_frame [OF follow_rel(2) [OF assms, of t]])
    (use heard_inv [OF node_relD(1) [OF assms(2)]] in \<open>simp_all add: heard_def\<close>)

section \<open>Elections\<close>

definition vote_req_ok :: "nat \<Rightarrow> 'c hist \<Rightarrow> nat \<Rightarrow> vote_args \<Rightarrow> bool" where
  "vote_req_ok n h q a \<longleftrightarrow> q < n \<and> (\<exists>p V. rvCandidateId a = int p \<and> hCand h p (rvTerm a) = Some V \<and>
     rvLastLogIndex a = int (length V) - 1 \<and> rvLastLogTerm a = eTerm (last V))"

definition vote_rep_ok :: "nat \<Rightarrow> 'c hist \<Rightarrow> nat \<Rightarrow> vote_args \<Rightarrow> vote_reply \<Rightarrow> bool" where
  "vote_rep_ok n h q a r \<longleftrightarrow> q < n \<and> (rvrVoteGranted r \<longrightarrow> (\<exists>p. rvCandidateId a = int p \<and> hVote h q (rvTerm a) = Some p))"

definition elect_ok :: "nat \<Rightarrow> 'c hist \<Rightarrow> nat \<Rightarrow> int \<Rightarrow> nat \<Rightarrow> nat set \<Rightarrow> bool" where
  "elect_ok n h p t votes waiting \<longleftrightarrow> waiting \<subseteq> {..<n} \<and>
     (\<exists>S \<subseteq> {..<n}. card S = votes \<and> S \<inter> waiting = {} \<and> (\<forall>q \<in> S. hVote h q t = Some p))"

lemma voter_follower:
  assumes "hist_inv n h" "node_rel cd n h q rf" "hVote h q (hTerm h q) = None"
  shows "rstate rf = Follower"
proof (cases "rstate rf")
  case Candidate
  then have "cand_fact n h q (hTerm h q) (hLog h q)" using hist_invD(3) [OF assms(1)] node_relD(10) [OF assms(2)] by blast
  then show ?thesis using assms(3) by (simp add: cand_fact_def)
next
  case Leader
  then have "hLead h (hTerm h q) = Some q" using node_relD(4,12) [OF assms(2)] by (simp add: leads_def)
  then have "hCand h q (hTerm h q) = Some (hBase h (hTerm h q))" using hist_invD(4) [OF assms(1)] by (simp add: lead_fact_def)
  then have "cand_fact n h q (hTerm h q) (hBase h (hTerm h q))" by (rule hist_invD(3) [OF assms(1)])
  then show ?thesis using assms(3) by (simp add: cand_fact_def)
qed

lemma grant_rel:
  assumes "hist_inv n h" "node_rel cd n h q rf" "q < n" "vote_granted rf args"
    "hCand h p (rvTerm args) = Some V" "rvCandidateId args = int p"
    "rvLastLogIndex args = int (length V) - 1" "rvLastLogTerm args = eTerm (last V)"
    "rf' = saved (resetElectionDeadlineLocked ev ((vote_base rf args)\<lparr>votedFor := rvCandidateId args\<rparr>))"
    "raft_inv cd rf'"
  shows "\<exists>h'. moves n q h h' \<and> node_rel cd n h' q rf' \<and> hVote h' q (rvTerm args) = Some p"
proof -
  let ?t = "rvTerm args"
  note r = node_relD [OF assms(2)]
  have g: "hTerm h q \<le> ?t" "hTerm h q < ?t \<or> votedFor rf = -1 \<or> votedFor rf = int p" "up_to_date rf args"
    using assms(4,6) r(4) by (auto simp: vote_granted_def)
  show ?thesis
  proof (cases "hVote h q ?t")
    case (Some c)
    then have t: "hTerm h q = ?t" using no_vote_ahead [OF assms(1), of q ?t] g(1) by force
    then have "c = p" using g(2) Some r(6) by auto
    moreover have "node_rel cd n h q rf'"
      using t r(4,6) Some \<open>c = p\<close> assms(6)
      by (intro node_rel_frame [OF assms(2,10)]) (auto simp: assms(9) vote_base_def)
    ultimately show ?thesis using Some moves_refl [OF assms(1)] by blast
  next
    case None
    let ?h = "h_vote h q ?t p"
    have "uptodate V (hLog h q)"
      using g(3) node_rel_log(3,4) [OF assms(2)] assms(7,8) by (auto simp: up_to_date_def uptodate_def)
    note ok = h_vote_ok [OF assms(1,3) g(1) None assms(5) this]
    have m: "moves n q h ?h" using ok by (simp add: moves_def same_at_def h_vote_def)
    have f: "rstate rf' = Follower"
    proof (cases "hTerm h q = ?t")
      case True
      then show ?thesis
        using voter_follower [OF assms(1,2)] None r(4) by (simp add: assms(9) vote_base_def)
    next
      case False
      then show ?thesis using g(1) r(4) by (simp add: assms(9) vote_base_def)
    qed
    have "safe n ?h q (nat (commitIndex rf))"
      by (rule safe_later [OF ok(2) r(9)]) (simp add: h_vote_def)
    moreover have "max ?t (currentTerm rf) = ?t" using g(1) r(4) by simp
    ultimately have "node_rel cd n ?h q rf'"
      using r assms(6,10) f g(1) by (simp add: node_rel_def assms(9) h_vote_def)
    then show ?thesis using m by (intro exI [of _ ?h]) (simp add: h_vote_def)
  qed
qed

lemma RequestVote_rel:
  assumes "hist_inv n h" "node_rel cd n h q rf" "vote_req_ok n h q args" "RequestVote ev rf args = Some (rf', reply)"
  shows "\<exists>h'. moves n q h h' \<and> node_rel cd n h' q rf' \<and> vote_rep_ok n h' q args reply"
proof -
  note r = node_relD [OF assms(2)]
  have c: "cache_ok cd rf" and l: "logs rf \<noteq> []" using r(1) by (auto simp: raft_inv_def node_ok_def)
  obtain p V where q: "q < n" and pv: "hCand h p (rvTerm args) = Some V" "rvCandidateId args = int p"
    "rvLastLogIndex args = int (length V) - 1" "rvLastLogTerm args = eTerm (last V)"
    using assms(3) by (auto simp: vote_req_ok_def)
  have inv: "raft_inv cd rf'" using RequestVote_inv [OF r(1), of ev args] assms(4) by auto
  consider (stale) "killed rf \<or> rvTerm args < currentTerm rf"
    | (refuse) "\<not> killed rf" "currentTerm rf \<le> rvTerm args" "\<not> vote_granted rf args"
    | (grant) "vote_granted rf args"
    by linarith
  then show ?thesis
  proof cases
    case stale
    then have "rf' = rf" "\<not> rvrVoteGranted reply" using RequestVote_stale [OF l, of args ev] assms(4) by auto
    then show ?thesis using assms(2) moves_refl [OF assms(1)] q by (intro exI [of _ h]) (simp add: vote_rep_ok_def)
  next
    case refuse
    then have e: "rf' = vote_base rf args" "\<not> rvrVoteGranted reply" using RequestVote_refuse [OF c l refuse, of ev] assms(4) by auto
    show ?thesis
    proof (cases "rvTerm args > currentTerm rf")
      case True
      then show ?thesis
        using follow_rel [OF assms(1,2), of "rvTerm args"] e q by (auto simp: vote_base_def vote_rep_ok_def)
    next
      case False
      then show ?thesis
        using assms(2) moves_refl [OF assms(1)] e q by (intro exI [of _ h]) (simp add: vote_base_def vote_rep_ok_def)
    qed
  next
    case grant
    have e: "rf' = saved (resetElectionDeadlineLocked ev ((vote_base rf args)\<lparr>votedFor := rvCandidateId args\<rparr>))"
      using RequestVote_grant [OF c l grant, of ev] assms(4) by simp
    from grant_rel [OF assms(1,2) q grant pv e inv]
    show ?thesis using pv(2) q by (auto simp: vote_rep_ok_def)
  qed
qed

text \<open>A candidate with a majority becomes the leader of its term.\<close>

lemma lead_rel:
  assumes "hist_inv n h" "node_rel cd n h p rf" "p < n" "rstate rf = Candidate" "is_majority n Q"
    "\<And>q. q \<in> Q \<Longrightarrow> hVote h q (hTerm h p) = Some p"
  shows "moves n p h (h_elect h p Q)" "node_rel cd n (h_elect h p Q) p (leader_of rf)"
proof -
  let ?h = "h_elect h p Q" and ?t = "hTerm h p"
  note r = node_relD [OF assms(2)]
  have none: "hLead h ?t = None"
  proof (rule ccontr)
    assume "hLead h ?t \<noteq> None"
    then obtain l where l: "hLead h ?t = Some l" by blast
    note f = hist_invD(4) [OF assms(1) l, unfolded lead_fact_def]
    obtain q where "q \<in> Q" "q \<in> hQuo h ?t" using maj.quorum_meet assms(5) f by blast
    then have "l = p" using assms(6) f by fastforce
    then show False using l r(11) [OF assms(4)] by simp
  qed
  have ok: "hist_inv n ?h" "hist_le h ?h"
    using h_elect_ok [OF assms(1,3) none r(10) [OF assms(4)] assms(5)] assms(6) by blast+
  show m: "moves n p h ?h"
    unfolding moves_def same_at_def using ok none by (auto simp: h_elect_def Let_def)
  have s: "safe n ?h p (nat (commitIndex rf))"
    by (rule safe_later [OF ok(2) r(9)]) (simp add: h_elect_def Let_def)
  have "(q, ?t, i) \<in> hAck ?h" if "q < n" "0 < i" "int i \<le> matchIndex (leader_of rf) ! q" for q i
    using that node_rel_log(3) [OF assms(2)] r(2,3) assms(3)
    by (auto simp: leader_of_def h_elect_def Let_def nth_list_update split: if_splits)
  then have "leads n ?h p (leader_of rf)" using r(4) by (simp add: leads_def h_elect_def Let_def)
  then show "node_rel cd n ?h p (leader_of rf)"
    using r leader_of_inv [OF r(1)] s unfolding node_rel_def by (simp add: h_elect_def Let_def)
qed

lemma candidate_rel:
  assumes "hist_inv n h" "node_rel cd n h p rf" "p < n"
  shows "moves n p h (h_cand h p (hTerm h p + 1))" "node_rel cd n (h_cand h p (hTerm h p + 1)) p (candidate_of ev rf)"
proof -
  let ?t = "hTerm h p + 1"
  let ?h = "h_cand h p ?t"
  note r = node_relD [OF assms(2)]
  note ok = h_cand_ok [OF assms(1,3), of ?t]
  show m: "moves n p h ?h" using ok r(5) by (simp add: moves_def same_at_def h_cand_def)
  have s: "safe n ?h p (nat (commitIndex rf))"
    using ok(2) r(5) by (intro safe_later [OF _ r(9)]) (simp_all add: h_cand_def)
  have "hLead h ?t \<noteq> Some p"
  proof
    assume l: "hLead h ?t = Some p"
    then have "hCand h p ?t = Some (hBase h ?t)" using hist_invD(4) [OF assms(1) l] by (simp add: lead_fact_def)
    then show False using no_vote_ahead [OF assms(1), of p ?t] by simp
  qed
  then show "node_rel cd n ?h p (candidate_of ev rf)"
    using r candidate_of_inv [OF r(1), of ev] s unfolding node_rel_def by (simp add: h_cand_def)
qed

lemma vote_request_ok:
  assumes "node_rel cd n h p rf" "rstate rf = Candidate" "q < n"
  shows "vote_req_ok n h q (vote_request rf)"
  using node_relD(2,4,10) [OF assms(1)] node_rel_log(3,4) [OF assms(1)] assms(2,3)
  by (simp add: vote_req_ok_def vote_request_def)

lemma notify_rel:
  assumes "node_rel cd n h p rf"
  shows "raft_inv cd (rf\<lparr>replicateNotify := nt\<rparr>) \<Longrightarrow> node_rel cd n h p (rf\<lparr>replicateNotify := nt\<rparr>)"
    and "broadcastAppendEntries rf = Some rf' \<Longrightarrow> node_rel cd n h p rf'"
    and "node_rel cd n h p (launchAll k rf)"
proof -
  show "node_rel cd n h p (rf\<lparr>replicateNotify := nt\<rparr>)" if "raft_inv cd (rf\<lparr>replicateNotify := nt\<rparr>)" for nt
    by (rule node_rel_frame [OF assms that]) simp_all
  then show "node_rel cd n h p rf'" if "broadcastAppendEntries rf = Some rf'"
    using broadcast_inv [OF node_relD(1) [OF assms]] that by auto
  show "node_rel cd n h p (launchAll k rf)"
    by (rule node_rel_frame [OF assms launchAll_inv [OF node_relD(1) [OF assms]]]) (simp_all add: launchAll_eq)
qed

lemma startElection_rel:
  assumes "hist_inv n h" "node_rel cd n h p rf" "p < n" "startElection ev rf = Some (rf', reqs)"
  shows "\<exists>h'. moves n p h h' \<and> node_rel cd n h' p rf' \<and> (\<forall>(q, a) \<in> to_peers reqs. vote_req_ok n h' q a) \<and>
    (reqs \<noteq> [] \<longrightarrow> elect_ok n h' p (currentTerm rf') 1 (fst ` to_peers reqs))"
proof (cases "killed rf \<or> rstate rf = Leader \<or> now ev < electionDeadline rf")
  case True
  then have "rf' = rf" "reqs = []" using startElection_quiet [of rf ev] assms(4) by auto
  then show ?thesis using assms(2) moves_refl [OF assms(1)] by (intro exI [of _ h]) (simp add: to_peers_def)
next
  case False
  note r = node_relD [OF assms(2)]
  have nok: "cache_ok cd rf" "logs rf \<noteq> []" "0 \<le> me rf" "me rf < int (npeers rf)"
    using r(1) by (auto simp: raft_inv_def node_ok_def)
  let ?c = "candidate_of ev rf" and ?h = "h_cand h p (hTerm h p + 1)"
  note cand = candidate_rel [OF assms(1-3)]
  have inv: "hist_inv n ?h" by (rule movesD(1) [OF cand(1)])
  have vote: "hVote ?h p (hTerm ?h p) = Some p" by (simp add: h_cand_def)
  note eq = startElection_eq [OF nok, of ev]
  show ?thesis
  proof (cases "1 \<ge> majority n")
    case True
    have b: "broadcastAppendEntries (leader_of ?c) = Some rf'" "reqs = []"
      using eq False True assms(4) r(3) by (cases "broadcastAppendEntries (leader_of ?c)"; simp)+
    have "is_majority n {p}" using True assms(3) by (simp add: is_majority_def)
    note l = lead_rel [OF inv cand(2) assms(3) _ this]
    have "moves n p h (h_elect ?h p {p})" using moves_trans [OF cand(1) l(1)] vote by simp
    moreover have "node_rel cd n (h_elect ?h p {p}) p rf'" using notify_rel(2) [OF l(2) b(1)] vote by simp
    ultimately show ?thesis using b(2) by (intro exI [of _ "h_elect ?h p {p}"]) (simp add: to_peers_def)
  next
    case no: False
    let ?ids = "filter (\<lambda>i. i \<noteq> me rf) (peerIds rf)"
    have e: "rf' = launchAll (length ?ids) ?c" "reqs = map (\<lambda>i. (i, vote_request ?c)) ?ids"
      using eq False no assms(4) r(3) by auto
    have ids: "\<forall>i \<in> set ?ids. nat i < n \<and> nat i \<noteq> p" using r(2,3) by (auto simp: peerIds_def)
    have "\<forall>(q, a) \<in> to_peers reqs. vote_req_ok n ?h q a"
      using vote_request_ok [OF cand(2)] ids by (auto simp: to_peers_def e(2))
    moreover have "fst ` to_peers reqs = nat ` set ?ids" by (force simp: to_peers_def e(2))
    then have "fst ` to_peers reqs \<subseteq> {..<n}" "p \<notin> fst ` to_peers reqs" using ids by auto
    then have "elect_ok n ?h p (currentTerm rf') 1 (fst ` to_peers reqs)"
      using assms(3) r(4) by (auto simp: elect_ok_def e(1) launchAll_eq h_cand_def intro!: exI [of _ "{p}"])
    ultimately show ?thesis
      using cand(1) notify_rel(3) [OF cand(2)] e(1) by (intro exI [of _ ?h]) simp
  qed
qed

lemma election_reply_cases:
  assumes "raft_inv cd rf" "election_reply ev rf votes t reply = Some (rf', votes')"
  shows "rf' = rf \<and> votes' = votes \<or> rf' = heard ev rf (rvrTerm reply) \<and> votes' = votes \<or>
    rf' = rf \<and> votes' = votes + 1 \<and> rvrVoteGranted reply \<or>
    rstate rf = Candidate \<and> currentTerm rf = t \<and> rvrVoteGranted reply \<and> votes + 1 \<ge> majority (npeers rf) \<and>
      broadcastAppendEntries (leader_of rf) = Some rf' \<and> votes' = votes + 1"
proof -
  note eq = assms(2) [unfolded election_reply_def becomeFollowerLocked_inv [OF assms(1)] becomeLeaderLocked_inv [OF assms(1)]]
  consider "killed rf" | "\<not> killed rf" "rvrTerm reply > currentTerm rf"
    | "\<not> killed rf" "\<not> rvrTerm reply > currentTerm rf" "rstate rf \<noteq> Candidate \<or> currentTerm rf \<noteq> t"
    | "\<not> killed rf" "\<not> rvrTerm reply > currentTerm rf" "rstate rf = Candidate" "currentTerm rf = t" "\<not> rvrVoteGranted reply"
    | (more) "\<not> killed rf" "\<not> rvrTerm reply > currentTerm rf" "rstate rf = Candidate" "currentTerm rf = t" "rvrVoteGranted reply"
    by blast
  then show ?thesis
  proof cases
    case more
    then show ?thesis
      using eq by (cases "votes + 1 \<ge> majority (npeers rf)"; cases "broadcastAppendEntries (leader_of rf)") simp_all
  qed (use eq in \<open>simp_all add: heard_def\<close>)
qed

lemma election_reply_rel:
  assumes "hist_inv n h" "node_rel cd n h p rf" "p < n" "elect_ok n h p t votes waiting" "q \<in> waiting"
    "vote_rep_ok n h q args reply" "rvTerm args = t" "rvCandidateId args = int p"
    "election_reply ev rf votes t reply = Some (rf', votes')"
  shows "\<exists>h'. moves n p h h' \<and> node_rel cd n h' p rf' \<and> elect_ok n h' p t votes' (waiting - {q})"
proof -
  note r = node_relD [OF assms(2)]
  obtain S where S: "waiting \<subseteq> {..<n}" "S \<subseteq> {..<n}" "card S = votes" "S \<inter> waiting = {}" "\<And>x. x \<in> S \<Longrightarrow> hVote h x t = Some p"
    using assms(4) by (auto simp: elect_ok_def)
  have keep: "elect_ok n h' p t votes (waiting - {q})" if "hist_le h h'" for h'
    using S hist_leD(2) [OF that] unfolding elect_ok_def by (intro conjI exI [of _ S]) auto
  have fin: "finite S" using S(2) finite_subset by blast
  have more: "elect_ok n h' p t (votes + 1) (waiting - {q})" if "hist_le h h'" "rvrVoteGranted reply" for h'
  proof -
    have "hVote h q t = Some p" using assms(6-8) that(2) by (auto simp: vote_rep_ok_def)
    then have "\<forall>x \<in> insert q S. hVote h' x t = Some p" using S(5) hist_leD(2) [OF that(1)] by blast
    moreover have "card (insert q S) = votes + 1" using fin S(3,4) assms(5) by (subst card_insert_disjoint) auto
    ultimately show ?thesis
      using S assms(5) unfolding elect_ok_def by (intro conjI exI [of _ "insert q S"]) auto
  qed
  consider (same) "rf' = rf" "votes' = votes" | (higher) "rf' = heard ev rf (rvrTerm reply)" "votes' = votes"
    | (count) "rf' = rf" "votes' = votes + 1" "rvrVoteGranted reply"
    | (win) "rstate rf = Candidate" "currentTerm rf = t" "rvrVoteGranted reply" "votes + 1 \<ge> majority n"
        "broadcastAppendEntries (leader_of rf) = Some rf'" "votes' = votes + 1"
    using election_reply_cases [OF r(1) assms(9)] r(3) by blast
  then show ?thesis
  proof cases
    case same
    then show ?thesis using assms(2) moves_refl [OF assms(1)] keep hist_le_refl by blast
  next
    case higher
    then show ?thesis
      using heard_rel [OF assms(1,2)] follow_rel(1) [OF assms(1,2), of "rvrTerm reply"] keep [OF movesD(2)] by blast
  next
    case count
    then show ?thesis using assms(2) moves_refl [OF assms(1)] more hist_le_refl by blast
  next
    case win
    have e: "elect_ok n h p t (votes + 1) (waiting - {q})" by (rule more [OF hist_le_refl win(3)])
    obtain Q where Q: "Q \<subseteq> {..<n}" "card Q = votes + 1" "\<forall>x \<in> Q. hVote h x t = Some p" using e by (auto simp: elect_ok_def)
    have "is_majority n Q" using Q win(4) by (simp add: is_majority_def)
    note l = lead_rel [OF assms(1-3) win(1) this]
    have v: "\<And>x. x \<in> Q \<Longrightarrow> hVote h x (hTerm h p) = Some p" using Q(3) win(2) r(4) by auto
    have "elect_ok n (h_elect h p Q) p t (votes + 1) (waiting - {q})"
      by (rule more [OF movesD(2) [OF l(1) [OF v]] win(3)])
    then show ?thesis using l(1) [OF v] notify_rel(2) [OF l(2) [OF v] win(5)] win(6) by blast
  qed
qed

end
