(* ===== verification/Raft_Replic.thy ===== *)
theory Raft_Replic
  imports Raft_Cluster
begin

text \<open>
  How replication in a cluster follows the protocol: the requests a leader sends, the handlers of
  \<^verbatim>\<open>AppendEntries\<close> and \<^verbatim>\<open>InstallSnapshot\<close>, what a leader does with the replies, and the events of a node
  on its own.
\<close>

section \<open>Messages\<close>

definition append_req_ok :: "nat \<Rightarrow> 'c hist \<Rightarrow> nat \<Rightarrow> 'c append_args \<Rightarrow> bool" where
  "append_req_ok n h q a \<longleftrightarrow> q < n \<and> hLead h (aeTerm a) \<noteq> None \<and>
     (\<exists>pv. aePrevLogIndex a = int pv \<and> pv + length (aeEntries a) < length (hLL h (aeTerm a)) \<and>
        aePrevLogTerm a = eTerm (hLL h (aeTerm a) ! pv) \<and>
        aeEntries a = take (length (aeEntries a)) (drop (Suc pv) (hLL h (aeTerm a)))) \<and>
     0 \<le> aeLeaderCommit a \<and> known n h (aeTerm a) (nat (aeLeaderCommit a))"

definition append_rep_ok :: "nat \<Rightarrow> 'c hist \<Rightarrow> nat \<Rightarrow> 'c append_args \<Rightarrow> append_reply \<Rightarrow> bool" where
  "append_rep_ok n h q a r \<longleftrightarrow> q < n \<and>
     (aerSuccess r \<longrightarrow> (\<forall>i. int i \<le> aePrevLogIndex a + int (length (aeEntries a)) \<longrightarrow> (q, aeTerm a, i) \<in> hAck h))"

definition install_req_ok :: "nat \<Rightarrow> 'c hist \<Rightarrow> nat \<Rightarrow> install_args \<Rightarrow> bool" where
  "install_req_ok n h q a \<longleftrightarrow> q < n \<and> hLead h (isTerm a) \<noteq> None \<and>
     (\<exists>k. isLastIncludedIndex a = int k \<and> k < length (hLL h (isTerm a)) \<and>
        isLastIncludedTerm a = eTerm (hLL h (isTerm a) ! k) \<and> known n h (isTerm a) k)"

definition install_rep_ok :: "nat \<Rightarrow> 'c hist \<Rightarrow> nat \<Rightarrow> install_args \<Rightarrow> install_reply \<Rightarrow> bool" where
  "install_rep_ok n h q a r \<longleftrightarrow> q < n \<and>
     (\<not> isrStopped r \<and> isrTerm r \<le> isTerm a \<longrightarrow> (\<forall>i. int i \<le> isLastIncludedIndex a \<longrightarrow> (q, isTerm a, i) \<in> hAck h))"

text \<open>What a message says stays true.\<close>

lemma lead_later_nth:
  assumes "hist_le h h'" "hLead h t \<noteq> None" "i < length (hLL h t)"
  shows "hLead h' t \<noteq> None" "i < length (hLL h' t)" "hLL h' t ! i = hLL h t ! i"
    "take k (drop j (hLL h t)) = xs \<Longrightarrow> j + k \<le> length (hLL h t) \<Longrightarrow> take k (drop j (hLL h' t)) = xs"
proof -
  obtain l where l: "hLead h t = Some l" using assms(2) by blast
  obtain es where es: "hLL h' t = hLL h t @ es" using hist_leD(8) [OF assms(1) l] by blast
  show "hLead h' t \<noteq> None" using hist_leD(5) [OF assms(1) l] by simp
  show "i < length (hLL h' t)" "hLL h' t ! i = hLL h t ! i" using es assms(3) by (simp_all add: nth_append)
  show "take k (drop j (hLL h' t)) = xs" if "take k (drop j (hLL h t)) = xs" "j + k \<le> length (hLL h t)"
    using that es by simp
qed

lemma append_req_later:
  assumes "hist_le h h'" "append_req_ok n h q a"
  shows "append_req_ok n h' q a"
proof -
  obtain pv where pv: "aePrevLogIndex a = int pv" "pv + length (aeEntries a) < length (hLL h (aeTerm a))"
    "aePrevLogTerm a = eTerm (hLL h (aeTerm a) ! pv)" "take (length (aeEntries a)) (drop (Suc pv) (hLL h (aeTerm a))) = aeEntries a"
    and l: "hLead h (aeTerm a) \<noteq> None" using assms(2) by (auto simp: append_req_ok_def)
  note later = lead_later_nth [OF assms(1) l]
  show ?thesis
    using assms(2) known_later [OF assms(1)] pv later(1,2) [OF pv(2)] later(3) [of pv] later(4) [OF pv(2) pv(4)]
    unfolding append_req_ok_def by (intro conjI exI [of _ pv]) auto
qed

lemma install_req_later:
  assumes "hist_le h h'" "install_req_ok n h q a"
  shows "install_req_ok n h' q a"
proof -
  obtain k where k: "isLastIncludedIndex a = int k" "k < length (hLL h (isTerm a))"
    "isLastIncludedTerm a = eTerm (hLL h (isTerm a) ! k)" "known n h (isTerm a) k"
    and l: "hLead h (isTerm a) \<noteq> None" using assms(2) by (auto simp: install_req_ok_def)
  show ?thesis
    using assms(2) k lead_later_nth(1-3) [OF assms(1) l k(2)] known_later [OF assms(1) k(4)]
    unfolding install_req_ok_def by (intro conjI exI [of _ k]) auto
qed

lemma reply_later:
  assumes "hist_le h h'"
  shows "append_rep_ok n h q a r \<Longrightarrow> append_rep_ok n h' q a r" "install_rep_ok n h q b s \<Longrightarrow> install_rep_ok n h' q b s"
    "vote_rep_ok n h q c v \<Longrightarrow> vote_rep_ok n h' q c v" "vote_req_ok n h q c \<Longrightarrow> vote_req_ok n h' q c"
    "elect_ok n h p t votes waiting \<Longrightarrow> elect_ok n h' p t votes waiting"
proof -
  show "append_rep_ok n h q a r \<Longrightarrow> append_rep_ok n h' q a r" "install_rep_ok n h q b s \<Longrightarrow> install_rep_ok n h' q b s"
    using hist_leD(9) [OF assms] by (auto simp: append_rep_ok_def install_rep_ok_def)
  show "vote_rep_ok n h q c v \<Longrightarrow> vote_rep_ok n h' q c v" "vote_req_ok n h q c \<Longrightarrow> vote_req_ok n h' q c"
    using hist_leD(2,4) [OF assms] by (auto simp: vote_rep_ok_def vote_req_ok_def)
  assume "elect_ok n h p t votes waiting"
  then obtain S where "waiting \<subseteq> {..<n}" "S \<subseteq> {..<n}" "card S = votes" "S \<inter> waiting = {}" "\<forall>q \<in> S. hVote h q t = Some p"
    by (auto simp: elect_ok_def)
  then show "elect_ok n h' p t votes waiting"
    using hist_leD(2) [OF assms] unfolding elect_ok_def by (intro conjI exI [of _ S]) auto
qed

section \<open>Accepting entries\<close>

lemma accept_rel:
  assumes "hist_inv n h" "node_rel cd n h q rf" "q < n" "hLead h t \<noteq> None" "hTerm h q \<le> t" "0 < m" "m \<le> length (hLL h t)"
    and "raft_inv cd rf'" "me rf' = me rf" "npeers rf' = npeers rf" "currentTerm rf' = t"
      "votedFor rf' = (if currentTerm rf < t then -1 else votedFor rf)" "rstate rf' = Follower"
      "nat (lastIncludedIndex rf') < length (accepted h (hLog h q) t m)"
      "logs rf' = compact (accepted h (hLog h q) t m) (nat (lastIncludedIndex rf'))"
      "commitIndex rf' = commitIndex rf \<or> known n h t (nat (commitIndex rf')) \<and> nat (commitIndex rf') < m"
  shows "moves n q h (h_accept h q t m)" "node_rel cd n (h_accept h q t m) q rf'" "i < m \<Longrightarrow> (q, t, i) \<in> hAck (h_accept h q t m)"
proof -
  let ?h = "h_accept h q t m"
  note r = node_relD [OF assms(2)]
  show "moves n q h ?h" using h_accept_ok [OF assms(1,3-7)] by (simp add: moves_def same_at_def h_accept_def)
  have "safe n ?h q (nat (commitIndex rf'))"
    using assms(16) accept_safe [OF assms(1,3-7)] r(9) by auto
  moreover have "votedFor rf' = (case hVote h q t of None \<Rightarrow> -1 | Some c \<Rightarrow> int c)"
    using no_vote_now [OF assms(1,5)] assms(12) r(4,6) by auto
  ultimately show "node_rel cd n ?h q rf'"
    unfolding node_rel_def using assms(5,8-11,13-15) r(2,3,5) by (auto simp: h_accept_def)
  show "i < m \<Longrightarrow> (q, t, i) \<in> hAck ?h" by (simp add: h_accept_def)
qed

lemma prev_agrees:
  assumes "hist_inv n h" "node_rel cd n h q rf" "q < n" "hLead h t \<noteq> None" "aePrevLogIndex args = int pv"
    "pv < length (hLL h t)" "aePrevLogTerm args = eTerm (hLL h t ! pv)" "prev_matches rf args"
  shows "pv < length (hLog h q)" "nat (lastIncludedIndex rf) \<le> pv" "take (Suc pv) (hLog h q) = take (Suc pv) (hLL h t)"
proof -
  note l = node_rel_log [OF assms(2)]
  show p: "pv < length (hLog h q)" "nat (lastIncludedIndex rf) \<le> pv" using assms(5,8) l(3) by (auto simp: prev_matches_def)
  have "eTerm (hLog h q ! pv) = eTerm (hLL h t ! pv)"
    using assms(5,7,8) l(5) [of pv] p(1) by (auto simp: prev_matches_def)
  then show "take (Suc pv) (hLog h q) = take (Suc pv) (hLL h t)"
    using hist_invD(1) [OF assms(1,3)] lead_terms(1) [OF assms(1,4)] p(1) assms(6)
    by (intro log_matching [of h]) (simp_all add: log_fact_def)
qed

lemma merged_accepted:
  assumes "hist_inv n h" "node_rel cd n h q rf" "q < n" "hLead h t \<noteq> None" "aePrevLogIndex args = int pv"
    "pv + length (aeEntries args) < length (hLL h t)" "aePrevLogTerm args = eTerm (hLL h t ! pv)" "prev_matches rf args"
    "aeEntries args = take (length (aeEntries args)) (drop (Suc pv) (hLL h t))"
  defines "m \<equiv> Suc (pv + length (aeEntries args))"
  shows "merged_logs rf args = compact (accepted h (hLog h q) t m) (nat (lastIncludedIndex rf))"
    "nat (lastIncludedIndex rf) < length (accepted h (hLog h q) t m)"
proof -
  note r = node_relD [OF assms(2)]
  let ?L = "hLog h q" and ?k = "nat (lastIncludedIndex rf)" and ?M = "take m (hLL h t)"
  have pv: "pv < length ?L" "?k \<le> pv" "take (Suc pv) ?L = take (Suc pv) (hLL h t)"
    using prev_agrees [OF assms(1-5) _ assms(7,8)] assms(6) by auto
  have es: "aeEntries args = drop (Suc pv) ?M"
    unfolding m_def drop_take by (subst assms(9)) simp
  have lenM: "length ?M = m" using assms(6) by (simp add: m_def)
  have off: "nat (aePrevLogIndex args + 1 - lastIncludedIndex rf) = Suc pv - ?k"
    using assms(5) pv(2) node_rel_log(1) [OF assms(2)] by linarith
  have kj: "0 < Suc pv - ?k" "?k + (Suc pv - ?k) = Suc pv" "?k + (Suc pv - ?k) \<le> length ?L" using pv by auto
  have "merge_logs ?L (Suc pv) (drop (Suc pv) ?M) = (if take (length ?M) ?L = ?M then ?L else ?M)"
  proof (rule merge_leader)
    fix i
    assume "i < length ?L" "i < length ?M" "eTerm (?L ! i) = eTerm (?M ! i)"
    then show "take (Suc i) ?L = take (Suc i) ?M"
      using hist_invD(1) [OF assms(1,3)] built_take [OF lead_terms(1) [OF assms(1,4)], of m]
      by (intro log_matching [of h]) (simp_all add: log_fact_def m_def)
  next
    show "Suc pv \<le> length ?M" unfolding lenM by (simp add: m_def)
    show "take (Suc pv) ?L = take (Suc pv) ?M" using pv(3) by (simp add: m_def min_def)
  qed
  also have "\<dots> = accepted h ?L t m" unfolding lenM by (simp add: accepted_def)
  finally have "merge_logs ?L (Suc pv) (aeEntries args) = accepted h ?L t m" by (simp add: es [symmetric])
  then show "merged_logs rf args = compact (accepted h ?L t m) ?k"
    unfolding merged_logs_def r(8) off using merge_compact [OF kj(1,3)] pv kj(2) by simp
  show "?k < length (accepted h ?L t m)" using pv lenM by (auto simp: accepted_def m_def)
qed

lemma append_compat_rel:
  assumes "hist_inv n h" "node_rel cd n h q rf" "append_req_ok n h q args" "currentTerm rf \<le> aeTerm args"
  shows "append_compat rf args"
  unfolding append_compat_def
proof (intro impI allI)
  note r = node_relD [OF assms(2)] and l = node_rel_log [OF assms(2)]
  let ?t = "aeTerm args"
  obtain pv where q: "q < n" and pv: "aePrevLogIndex args = int pv" "pv + length (aeEntries args) < length (hLL h ?t)"
    "aeEntries args = take (length (aeEntries args)) (drop (Suc pv) (hLL h ?t))"
    and ld: "hLead h ?t \<noteq> None" using assms(3) by (auto simp: append_req_ok_def)
  fix i
  assume li: "lastIncludedIndex rf \<le> aePrevLogIndex args" and i: "i < length (aeEntries args)" "aePrevLogIndex args + 1 + int i \<le> commitIndex rf"
  have has: "has h (hLog h q) ?t (nat (commitIndex rf))"
    using safe_leader [OF assms(1) q r(9) _ ld] assms(4) r(4) by simp
  let ?j = "Suc (pv + i)"
  have j: "?j \<le> nat (commitIndex rf)" "int ?j = aePrevLogIndex args + 1 + int i" using i(2) pv(1) by auto
  have "eTerm (logs rf ! nat (int ?j - lastIncludedIndex rf)) = eTerm (hLog h q ! ?j)"
    using li j l(9) pv(1) by (intro l(5)) auto
  also have "hLog h q ! ?j = hLL h ?t ! ?j" by (rule has_nth [OF has j(1)])
  also have "hLL h ?t ! ?j = aeEntries args ! i"
    using i(1) pv(2) by (subst pv(3)) simp
  finally show "eTerm (logs rf ! nat (aePrevLogIndex args + 1 + int i - lastIncludedIndex rf)) = eTerm (aeEntries args ! i)"
    unfolding j(2) .
qed

lemma AppendEntries_total:
  assumes "codec_ok cd" "hist_inv n h" "node_rel cd n h q rf" "append_req_ok n h q args"
  shows "\<exists>rf' reply. AppendEntries cd ev rf args = Some (rf', reply) \<and> raft_inv cd rf'"
proof (cases "currentTerm rf \<le> aeTerm args")
  case True
  then show ?thesis by (intro AppendEntries_inv [OF assms(1) node_relD(1) [OF assms(3)]] append_compat_rel [OF assms(2-4)])
next
  case False
  then show ?thesis using AppendEntries_stale [of rf args cd ev] node_relD(1) [OF assms(3)] by auto
qed

lemma AppendEntries_rel:
  assumes "codec_ok cd" "hist_inv n h" "node_rel cd n h q rf" "append_req_ok n h q args"
    "AppendEntries cd ev rf args = Some (rf', reply)"
  shows "\<exists>h'. moves n q h h' \<and> node_rel cd n h' q rf' \<and> append_rep_ok n h' q args reply"
proof -
  note r = node_relD [OF assms(3)] and l = node_rel_log [OF assms(3)]
  let ?t = "aeTerm args"
  have c: "cache_ok cd rf" using r(1) by (rule raft_inv_cache)
  have inv: "raft_inv cd rf'" using AppendEntries_total [OF assms(1-4), of ev] assms(5) by auto
  obtain pv where q: "q < n" and pv: "aePrevLogIndex args = int pv" "pv + length (aeEntries args) < length (hLL h ?t)"
    "aePrevLogTerm args = eTerm (hLL h ?t ! pv)" "aeEntries args = take (length (aeEntries args)) (drop (Suc pv) (hLL h ?t))"
    and ld: "hLead h ?t \<noteq> None" and lc: "0 \<le> aeLeaderCommit args" "known n h ?t (nat (aeLeaderCommit args))"
    using assms(4) by (auto simp: append_req_ok_def)
  consider (stale) "killed rf \<or> ?t < currentTerm rf"
    | (reject) "\<not> killed rf" "currentTerm rf \<le> ?t" "\<not> prev_matches rf args"
    | (accept) "\<not> killed rf" "currentTerm rf \<le> ?t" "prev_matches rf args"
    by linarith
  then show ?thesis
  proof cases
    case stale
    then have "rf' = rf" "\<not> aerSuccess reply" using AppendEntries_stale [of rf args cd ev] assms(5) by (auto simp: appendReply_def)
    then show ?thesis using assms(3) moves_refl [OF assms(2)] q by (intro exI [of _ h]) (simp add: append_rep_ok_def)
  next
    case reject
    then have "rf' = heard ev rf ?t" "\<not> aerSuccess reply" using AppendEntries_reject [OF c reject, of ev] assms(5) by auto
    then show ?thesis
      using heard_rel [OF assms(2,3), of ?t ev] follow_rel(1) [OF assms(2,3), of ?t] q by (auto simp: append_rep_ok_def)
  next
    case accept
    let ?m = "Suc (pv + length (aeEntries args))" and ?h = "heard ev rf ?t"
    obtain enc ch where e: "\<not> ch \<longrightarrow> merged_logs rf args = logs rf \<and> enc = encodedLogs rf"
      "AppendEntries cd ev rf args =
        Some ((if ch then saved (?h\<lparr>logs := merged_logs rf args, encodedLogs := enc\<rparr>) else ?h)
                \<lparr>commitIndex := append_commit rf args\<rparr>, (appendReply ?h)\<lparr>aerSuccess := True\<rparr>)"
      using AppendEntries_accept [OF assms(1) c accept, of ev] by blast
    then have rf': "rf' = (if ch then saved (?h\<lparr>logs := merged_logs rf args, encodedLogs := enc\<rparr>) else ?h)
        \<lparr>commitIndex := append_commit rf args\<rparr>" using assms(5) by simp
    have f: "me rf' = me rf" "npeers rf' = npeers rf" "currentTerm rf' = ?t"
      "votedFor rf' = (if currentTerm rf < ?t then -1 else votedFor rf)" "rstate rf' = Follower"
      "lastIncludedIndex rf' = lastIncludedIndex rf" "logs rf' = merged_logs rf args" "commitIndex rf' = append_commit rf args"
      using e(1) accept(2) unfolding rf' by (simp_all add: heard_def)
    note mg = merged_accepted [OF assms(2,3) q ld pv(1-3) accept(3) pv(4)]
    have ci: "commitIndex rf' = commitIndex rf \<or> known n h ?t (nat (commitIndex rf')) \<and> nat (commitIndex rf') < ?m"
      using known_le [OF lc(2)] l(2) lc(1) pv(1) unfolding f(8) append_commit_def by (auto simp: max_def min_def)
    have le: "hTerm h q \<le> ?t" using accept(2) r(4) by simp
    note a = accept_rel [OF assms(2,3) q ld le _ _ inv f(1-5) _ _ ci]
    show ?thesis
      using a mg f(6,7) pv(1,2) q by (intro exI [of _ "h_accept h q ?t ?m"]) (auto simp: append_rep_ok_def)
  qed
qed

lemma installed_accepted:
  assumes "hist_inv n h" "node_rel cd n h q rf" "q < n" "hLead h t \<noteq> None" "isLastIncludedIndex args = int k"
    "k < length (hLL h t)" "isLastIncludedTerm args = eTerm (hLL h t ! k)" "commitIndex rf < int k"
  shows "installed_logs rf args = compact (accepted h (hLog h q) t (Suc k)) k" "k < length (accepted h (hLog h q) t (Suc k))"
proof -
  note r = node_relD [OF assms(2)] and l = node_rel_log [OF assms(2)]
  let ?L = "hLog h q" and ?i = "nat (lastIncludedIndex rf)"
  have ik: "?i < k" "lastIncludedIndex rf \<le> int k" using assms(8) l(1,8) by linarith+
  have off: "nat (int k - lastIncludedIndex rf) = k - ?i" using ik l(1) by (simp add: nat_diff_distrib)
  have built: "built h ?L" "built h (hLL h t)"
    using hist_invD(1) [OF assms(1,3)] lead_terms(1) [OF assms(1,4)] by (simp_all add: log_fact_def)
  have match: "take (Suc k) ?L = take (Suc k) (hLL h t) \<longleftrightarrow> k < length ?L \<and> eTerm (?L ! k) = eTerm (hLL h t ! k)"
  proof
    assume eq: "take (Suc k) ?L = take (Suc k) (hLL h t)"
    have "k < length ?L" using arg_cong [OF eq, of length] assms(6) by simp
    then show "k < length ?L \<and> eTerm (?L ! k) = eTerm (hLL h t ! k)" using nth_eq_of_take_eq [OF eq, of k] by simp
  qed (use log_matching [OF built] assms(6) in blast)
  show len: "k < length (accepted h ?L t (Suc k))" using match assms(6) by (auto simp: accepted_def)
  show "installed_logs rf args = compact (accepted h ?L t (Suc k)) k"
  proof (cases "take (Suc k) ?L = take (Suc k) (hLL h t)")
    case True
    then have k: "k < length ?L" "eTerm (?L ! k) = eTerm (hLL h t ! k)" using match by blast+
    have "drop (nat (int k - lastIncludedIndex rf) + 1) (logs rf) = drop (Suc k) ?L"
      unfolding off r(8) using ik(1) by (simp add: compact_def)
    moreover have "eTerm (logs rf ! nat (int k - lastIncludedIndex rf)) = eTerm (?L ! k)" by (rule l(5) [OF ik(2) k(1)])
    ultimately show ?thesis
      using True k l(3) by (simp add: installed_logs_def assms(5,7) accepted_def compact_def)
  next
    case False
    have "\<not> (int k \<le> lastLogIndexLocked rf \<and> eTerm (logs rf ! nat (int k - lastIncludedIndex rf)) = isLastIncludedTerm args)"
      using False match l(3) l(5) [OF ik(2)] assms(7) by auto
    then show ?thesis using False assms(6) by (auto simp: installed_logs_def assms(5,7) accepted_def compact_def)
  qed
qed

lemma InstallSnapshot_rel:
  assumes "codec_ok cd" "hist_inv n h" "node_rel cd n h q rf" "install_req_ok n h q args"
    "InstallSnapshot cd ev rf args = Some (rf', reply)"
  shows "\<exists>h'. moves n q h h' \<and> node_rel cd n h' q rf' \<and> install_rep_ok n h' q args reply"
proof -
  note r = node_relD [OF assms(3)] and l = node_rel_log [OF assms(3)]
  let ?t = "isTerm args" and ?h = "heard ev rf (isTerm args)"
  have c: "cache_ok cd rf" and li: "lastIncludedIndex rf \<le> commitIndex rf"
    using r(1) by (auto simp: raft_inv_def node_ok_def)
  have inv: "raft_inv cd rf'" using InstallSnapshot_inv [OF assms(1) r(1), of ev args] assms(5) by auto
  obtain k where q: "q < n" and k: "isLastIncludedIndex args = int k" "k < length (hLL h ?t)"
    "isLastIncludedTerm args = eTerm (hLL h ?t ! k)" "known n h ?t k"
    and ld: "hLead h ?t \<noteq> None" using assms(4) by (auto simp: install_req_ok_def)
  let ?h' = "h_accept h q ?t (Suc k)"
  have acks: "install_rep_ok n ?h' q args reply" using q k(1) by (simp add: install_rep_ok_def h_accept_def)
  consider (stale) "killed rf \<or> ?t < currentTerm rf"
    | (old) "\<not> killed rf" "currentTerm rf \<le> ?t" "isLastIncludedIndex args \<le> commitIndex rf"
    | (accept) "\<not> killed rf" "currentTerm rf \<le> ?t" "commitIndex rf < isLastIncludedIndex args"
    by linarith
  then show ?thesis
  proof cases
    case stale
    then have "rf' = rf" "isrStopped reply \<or> ?t < isrTerm reply" using InstallSnapshot_stale [of rf args cd ev] assms(5) by auto
    then show ?thesis using assms(3) moves_refl [OF assms(2)] q by (intro exI [of _ h]) (auto simp: install_rep_ok_def)
  next
    case old
    have le: "hTerm h q \<le> ?t" using old(2) r(4) by simp
    have rf': "rf' = ?h" using InstallSnapshot_old [OF c old, of ev] assms(5) by simp
    have "has h (hLog h q) ?t k"
      by (rule has_le [OF safe_leader [OF assms(2) q r(9) le ld]]) (use old(3) k(1) in linarith)
    then have a: "accepted h (hLog h q) ?t (Suc k) = hLog h q" by (simp add: has_def accepted_def)
    have "moves n q h ?h' \<and> node_rel cd n ?h' q rf'"
      using r(7,8) k(2) old(2) inv rf' by (intro conjI accept_rel [where rf' = rf', OF assms(2,3) q ld le]) (auto simp: a heard_def)
    then show ?thesis using acks by blast
  next
    case accept
    have le: "hTerm h q \<le> ?t" using accept(2) r(4) by simp
    obtain enc where "InstallSnapshot cd ev rf args =
        Some ((saved (installed ?h args enc))\<lparr>pendingSnapshot := Some (snapshot_msg (saved (installed ?h args enc)))\<rparr>,
            \<lparr>isrTerm = ?t, isrStopped = False\<rparr>)"
      using InstallSnapshot_accept [OF assms(1) c li accept, of ev] by blast
    then have rf': "rf' = (saved (installed ?h args enc))\<lparr>pendingSnapshot := Some (snapshot_msg (saved (installed ?h args enc)))\<rparr>"
      using assms(5) by simp
    have il: "installed_logs ?h args = installed_logs rf args" by (simp add: installed_logs_def heard_def)
    have f: "me rf' = me rf" "npeers rf' = npeers rf" "currentTerm rf' = ?t"
      "votedFor rf' = (if currentTerm rf < ?t then -1 else votedFor rf)" "rstate rf' = Follower"
      "lastIncludedIndex rf' = int k" "logs rf' = installed_logs rf args" "commitIndex rf' = int k"
      using accept(2) unfolding rf' by (simp_all add: installed_def il k(1)) (simp_all add: heard_def)
    note ia = installed_accepted [OF assms(2,3) q ld k(1-3)]
    have "moves n q h ?h' \<and> node_rel cd n ?h' q rf'"
      using f ia k(1,2,4) accept(3) inv by (intro conjI accept_rel [where rf' = rf', OF assms(2,3) q ld le]) auto
    then show ?thesis using acks by blast
  qed
qed

section \<open>What a leader sends\<close>

lemma leader_window:
  assumes "hist_inv n h" "node_rel cd n h p rf" "rstate rf = Leader" "q < n" "pv < length (hLog h p)" "aeTerm a = currentTerm rf"
    "aePrevLogIndex a = int pv" "aePrevLogTerm a = eTerm (hLog h p ! pv)" "aeLeaderCommit a = commitIndex rf"
    "aeEntries a = [] \<or> aeEntries a = drop (Suc pv) (hLog h p)"
  shows "append_req_ok n h q a"
proof -
  note r = node_relD [OF assms(2)] and l = node_rel_log [OF assms(2)]
  have ld: "hLead h (aeTerm a) = Some p" "hLL h (aeTerm a) = hLog h p"
    using r(12) [OF assms(3)] assms(6) by (simp_all add: leads_def)
  have k: "known n h (aeTerm a) (nat (aeLeaderCommit a))"
    using safe_known [OF r(9), of "aeTerm a"] assms(6,9) r(4) by simp
  show ?thesis
    unfolding append_req_ok_def ld(2)
    using assms(4,5,7-10) ld(1) k l(2) by (intro conjI exI [of _ pv]) auto
qed

lemma replicate_build_rel:
  assumes "hist_inv n h" "node_rel cd n h p rf" "q < n"
  shows "replicate_build rf (int q) = Some (RepAppend args) \<Longrightarrow> append_req_ok n h q args"
    and "replicate_build rf (int q) = Some (RepSnapshot sargs) \<Longrightarrow> install_req_ok n h q sargs"
proof -
  note r = node_relD [OF assms(2)] and l = node_rel_log [OF assms(2)]
  have lead: "hLead h (currentTerm rf) = Some p" "hLL h (currentTerm rf) = hLog h p" if "rstate rf = Leader"
    using r(12) [OF that] by (simp_all add: leads_def)
  assume b: "replicate_build rf (int q) = Some (RepAppend args)"
  then have L: "\<not> killed rf" "rstate rf = Leader" by (auto simp: replicate_build_def split: if_splits)
  obtain nxt where nxt: "go_index (nextIndex rf) (int q) = Some nxt" "lastIncludedIndex rf < nxt"
    using b L by (cases "go_index (nextIndex rf) (int q)") (auto simp: replicate_build_def split: if_splits)
  define pv where "pv = nat (nxt - 1)"
  have pv: "nxt = int (Suc pv)" "lastIncludedIndex rf \<le> int pv" using nxt(2) l(1) by (auto simp: pv_def)
  have in_log: "pv < length (hLog h p)"
    using b L nxt l(3) pv(1) by (auto simp: replicate_build_def termAtLocked_eq lastLogIndexLocked_def split: if_splits)
  have t: "termAtLocked rf (nxt - 1) = Some (eTerm (hLog h p ! pv), True)"
    using l(3) l(5) [OF pv(2) in_log] pv in_log by (simp add: termAtLocked_eq lastLogIndexLocked_def)
  have "nat (nxt - lastIncludedIndex rf) = Suc pv - nat (lastIncludedIndex rf)" using pv l(1) by linarith
  moreover have "drop (Suc pv - nat (lastIncludedIndex rf)) (logs rf) = drop (Suc pv) (hLog h p)"
    using pv l(1) unfolding r(8) by (simp add: compact_def Suc_diff_le nat_le_iff)
  moreover have "nxt - lastIncludedIndex rf \<le> int (length (logs rf))" using l(3) pv in_log by (simp add: lastLogIndexLocked_def)
  ultimately have d: "go_from (logs rf) (toOffsetLocked rf nxt) = Some (drop (Suc pv) (hLog h p))"
    using nxt(2) by (simp add: go_from_def toOffsetLocked_def)
  have a: "args = \<lparr>aeTerm = currentTerm rf, aeLeaderId = me rf, aePrevLogIndex = int pv, aePrevLogTerm = eTerm (hLog h p ! pv),
      aeEntries = drop (Suc pv) (hLog h p), aeLeaderCommit = commitIndex rf\<rparr>"
    using b L nxt t d pv(1) by (simp add: replicate_build_def)
  show "append_req_ok n h q args"
    by (rule leader_window [OF assms(1,2) L(2) assms(3) in_log]) (simp_all add: a)
next
  note r = node_relD [OF assms(2)] and l = node_rel_log [OF assms(2)]
  assume b: "replicate_build rf (int q) = Some (RepSnapshot sargs)"
  then have L: "rstate rf = Leader" and a: "sargs = \<lparr>isTerm = currentTerm rf, isLeaderId = me rf,
      isLastIncludedIndex = lastIncludedIndex rf, isLastIncludedTerm = lastIncludedTerm rf, isData = snapshot rf\<rparr>"
    by (auto simp: replicate_build_def bind_eq_Some_conv split: if_splits)
  have ld: "hLead h (currentTerm rf) = Some p" "hLL h (currentTerm rf) = hLog h p"
    using r(12) [OF L] by (simp_all add: leads_def)
  have "lastIncludedTerm rf = eTerm (hLog h p ! nat (lastIncludedIndex rf))"
    using r(1,8) by (simp add: raft_inv_def node_ok_def compact_def)
  moreover have "known n h (currentTerm rf) (nat (commitIndex rf))" by (rule safe_known [OF r(9)]) (simp add: r(4))
  then have "known n h (currentTerm rf) (nat (lastIncludedIndex rf))" by (rule known_le) (rule nat_mono [OF l(8)])
  ultimately show "install_req_ok n h q sargs"
    unfolding install_req_ok_def a using ld assms(3) r(7) l(7)
    by (intro conjI exI [of _ "nat (lastIncludedIndex rf)"]) auto
qed

lemma heartbeatLoop_tasks:
  assumes "heartbeatLoop ev ps rf = Some (rf', ts, rs)" "logs rf \<noteq> []" "(i, a) \<in> set ts"
  shows "i \<in> set ps \<and> i \<noteq> me rf \<and> aeTerm a = currentTerm rf \<and> aePrevLogIndex a = lastLogIndexLocked rf \<and>
    aePrevLogTerm a = eTerm (last (logs rf)) \<and> aeEntries a = [] \<and> aeLeaderCommit a = commitIndex rf"
  using assms
proof (induction ps arbitrary: rf rf' ts rs)
  case (Cons p ps)
  let ?nt = "\<lambda>nt. rf\<lparr>replicateNotify := nt\<rparr>" and ?ls = "\<lambda>ls. rf\<lparr>lastRescueSent := ls\<rparr>"
  have sk: "lastLogIndexLocked (?nt nt) = lastLogIndexLocked rf" "lastLogIndexLocked (?ls ls) = lastLogIndexLocked rf" for nt ls
    by (simp_all add: lastLogIndexLocked_def)
  show ?case
  proof (cases "p = me rf")
    case True
    then show ?thesis using Cons by auto
  next
    case False
    obtain busy where busy: "go_index (replicateBusy rf) p = Some busy" using Cons.prems(1) False by (auto simp: bind_eq_Some_conv)
    show ?thesis
    proof (cases busy)
      case True
      then obtain rf0 r0 ts' rs' where h: "heartbeatLoop ev ps rf0 = Some (r0, ts', rs')" "rf0 = rf \<or> (\<exists>ls. rf0 = ?ls ls)"
        "ts = (p, \<lparr>aeTerm = currentTerm rf, aeLeaderId = me rf, aePrevLogIndex = lastLogIndexLocked rf,
          aePrevLogTerm = eTerm (last (logs rf)), aeEntries = [], aeLeaderCommit = commitIndex rf\<rparr>) # ts'"
        using Cons.prems(1,2) False busy
        by (auto simp: bind_eq_Some_conv Let_def lastLogTermLocked_eq split: if_splits prod.splits) blast
      show ?thesis
      proof (cases "(i, a) \<in> set ts'")
        case True
        have "logs rf0 \<noteq> []" using h(2) Cons.prems(2) by auto
        from Cons.IH [OF h(1) this True] h(2) show ?thesis by (auto simp: sk)
      qed (use Cons.prems(3) h(3) False in auto)
    next
      case no: False
      then obtain nt where "heartbeatLoop ev ps (?nt nt) = Some (rf', ts, rs)"
        using Cons.prems(1) False busy by (auto simp: bind_eq_Some_conv)
      from Cons.IH [OF this] Cons.prems(2,3) show ?thesis by (auto simp: sk)
    qed
  qed
qed simp

lemma heartbeat_rel:
  assumes "hist_inv n h" "node_rel cd n h p rf" "p < n" "heartbeatOrNotifyReplication ev rf = Some (rf', tasks, rescue)"
  shows "node_rel cd n h p rf'" "(q, a) \<in> to_peers tasks \<Longrightarrow> append_req_ok n h q a"
proof -
  note r = node_relD [OF assms(2)] and l = node_rel_log [OF assms(2)]
  have inv: "raft_inv cd rf'" using heartbeatOrNotifyReplication_inv [OF r(1), of ev] assms(4) by auto
  have "rf' = rf \<or> (\<exists>nt ls k. rf' = launchAll k (rf\<lparr>replicateNotify := nt, lastRescueSent := ls\<rparr>))"
    using assms(4) by (auto simp: heartbeatOrNotifyReplication_def bind_eq_Some_conv dest!: heartbeat_frame split: if_splits)
  then show "node_rel cd n h p rf'"
    using inv by (intro node_rel_frame [OF assms(2)]) (auto simp: launchAll_eq)
  assume "(q, a) \<in> to_peers tasks"
  then obtain i where i: "(i, a) \<in> set tasks" "q = nat i" by (auto simp: to_peers_def)
  then have L: "rstate rf = Leader" using assms(4) by (auto simp: heartbeatOrNotifyReplication_def split: if_splits)
  have "\<exists>r0. heartbeatLoop ev (peerIds rf) rf = Some (r0, tasks, rescue)"
    using assms(4) i(1) by (auto simp: heartbeatOrNotifyReplication_def bind_eq_Some_conv split: if_splits)
  then obtain r0 where "heartbeatLoop ev (peerIds rf) rf = Some (r0, tasks, rescue)" ..
  from heartbeatLoop_tasks [OF this raft_inv_logs [OF r(1)] i(1)]
  have a: "i \<in> set (peerIds rf)" "aeTerm a = currentTerm rf" "aePrevLogIndex a = lastLogIndexLocked rf"
    "aePrevLogTerm a = eTerm (last (logs rf))" "aeEntries a = []" "aeLeaderCommit a = commitIndex rf" by auto
  have q: "q < n" using a(1) i(2) r(3) by (auto simp: peerIds_def)
  have ne: "hLog h p \<noteq> []" using r(7) by auto
  show "append_req_ok n h q a"
    using a ne l(3,4)
    by (intro leader_window [OF assms(1,2) L q, of "length (hLog h p) - 1"]) (auto simp: last_conv_nth of_nat_diff Suc_leI)
qed

section \<open>What a leader does with replies\<close>

text \<open>An index that the leader may commit has been chosen.\<close>

lemma committable_safe:
  assumes "node_rel cd n h p rf" "rstate rf = Leader" "committable rf i" "0 < i"
  shows "safe n h p (nat i)"
proof -
  note r = node_relD [OF assms(1)] and l = node_rel_log [OF assms(1)]
  have ld: "hLead h (hTerm h p) = Some p" "hLL h (hTerm h p) = hLog h p"
    "\<And>q i. q < n \<Longrightarrow> 0 < i \<Longrightarrow> int i \<le> matchIndex rf ! q \<Longrightarrow> (q, hTerm h p, i) \<in> hAck h"
    using r(12) [OF assms(2)] r(4) by (simp_all add: leads_def)
  have len: "length (matchIndex rf) = n" using r(1,3) assms(2) by (simp add: raft_inv_def node_ok_def)
  have i: "lastIncludedIndex rf \<le> i" "i \<le> lastLogIndexLocked rf" "eTerm (logs rf ! nat (i - lastIncludedIndex rf)) = hTerm h p"
    "majority n \<le> length (filter (\<lambda>m. i \<le> m) (matchIndex rf))"
    using assms(3) r(3,4) by (auto simp: committable_def)
  let ?A = "{q. q < n \<and> i \<le> matchIndex rf ! q}"
  have "is_majority n ?A" using i(4) len by (auto simp: is_majority_def length_filter_conv_card)
  moreover have "\<forall>q \<in> ?A. (q, hTerm h p, nat i) \<in> hAck h" using ld(3) assms(4) by auto
  moreover have "nat i < length (hLog h p)" using i(2) l(3) assms(4) by linarith
  moreover have "eTerm (hLog h p ! nat i) = hTerm h p" using i l(5) [of "nat i"] assms(4) calculation(3) by simp
  ultimately have "chosen n h (hTerm h p) (nat i)" unfolding chosen_def ld(2) using ld(1) by blast
  then show ?thesis by (rule chosen_safe) (simp add: ld(2))
qed

lemma advance_rel:
  assumes "node_rel cd n h p rf" "advanceCommitIndexLocked rf = Some (rf', b)"
  shows "node_rel cd n h p rf'"
proof -
  note r = node_relD [OF assms(1)]
  have inv: "raft_inv cd rf'" using advanceCommitIndexLocked_inv [OF r(1)] assms(2) by auto
  have spec: "Some (rf', b) = (if rstate rf = Leader \<and> (\<exists>i > commitIndex rf. committable rf i)
     then Some (rf\<lparr>commitIndex := Max {i. commitIndex rf < i \<and> committable rf i}\<rparr>, True) else Some (rf, False))"
    unfolding assms(2) [symmetric] using r(1) by (intro advanceCommitIndexLocked_spec) (simp_all add: raft_inv_def node_ok_def)
  show ?thesis
  proof (cases "rstate rf = Leader \<and> (\<exists>i > commitIndex rf. committable rf i)")
    case True
    define m where "m = Max {i. commitIndex rf < i \<and> committable rf i}"
    have rf': "rf' = rf\<lparr>commitIndex := m\<rparr>" using spec True by (simp add: m_def)
    have "commitIndex rf < m" "committable rf m" using committable_Max [of rf] True by (simp_all add: m_def)
    then have "safe n h p (nat m)" using True node_rel_log(2) [OF assms(1)] by (intro committable_safe [OF assms(1)]) auto
    then show ?thesis using r inv unfolding node_rel_def rf' by (simp add: leads_def)
  next
    case False
    then have "rf' = rf" using spec by (simp split: if_splits)
    then show ?thesis using assms(1) by simp
  qed
qed

lemma acked_rel:
  assumes "node_rel cd n h p rf" "rstate rf = Leader" "q < n"
    "\<And>i. int i \<le> m \<Longrightarrow> (q, currentTerm rf, i) \<in> hAck h"
  shows "node_rel cd n h p (acked rf (int q) m)"
proof -
  note r = node_relD [OF assms(1)]
  have len: "length (matchIndex rf) = n" using r(1,3) assms(2) by (simp add: raft_inv_def node_ok_def)
  have "leads n h p (acked rf (int q) m)"
    using r(12) [OF assms(2)] assms(3,4) len by (auto simp: leads_def acked_def nth_list_update le_max_iff_disj)
  then show ?thesis using r(2-11) assms(2) acked_inv [OF r(1) assms(2), of "int q" m] unfolding node_rel_def by (simp add: acked_def)
qed

lemma append_done_rel:
  assumes "hist_inv n h" "node_rel cd n h p rf" "append_rep_ok n h q args reply"
    "replicate_append_done ev rf (int q) args reply = Some (rf', ctl)"
  shows "\<exists>h'. moves n p h h' \<and> node_rel cd n h' p rf'"
proof -
  note r = node_relD [OF assms(2)]
  have q: "q < n" "0 \<le> int q" "int q < int (npeers rf)" using assms(3) r(3) by (auto simp: append_rep_ok_def)
  obtain rf0 b ctl0 where r0: "replicate_append_reply ev rf (int q) args reply = Some (rf0, b, ctl0)" "raft_inv cd rf0"
    using replicate_append_reply_inv [OF r(1) q(2,3)] by blast
  have "\<exists>h'. moves n p h h' \<and> node_rel cd n h' p rf0"
  proof (cases "killed rf \<or> aerStopped reply \<or> aerTerm reply > currentTerm rf \<or> rstate rf \<noteq> Leader \<or> currentTerm rf \<noteq> aeTerm args")
    case True
    then have "rf0 = rf \<or> rf0 = heard ev rf (aerTerm reply)"
      using r0(1) by (auto simp: replicate_append_reply_def becomeFollowerLocked_inv [OF r(1)] heard_def split: if_splits)
    then show ?thesis
      using assms(2) moves_refl [OF assms(1)] heard_rel [OF assms(1,2)] follow_rel(1) [OF assms(1,2)] by blast
  next
    case False
    then have L: "rstate rf = Leader" "currentTerm rf = aeTerm args" by auto
    show ?thesis
    proof (cases "aerSuccess reply")
      case True
      let ?a = "acked rf (int q) (aePrevLogIndex args + int (length (aeEntries args)))"
      have a: "node_rel cd n h p ?a"
        using assms(3) True by (intro acked_rel [OF assms(2) L(1) q(1)]) (simp add: append_rep_ok_def L(2))
      obtain ci b' ctl' where e: "replicate_append_reply ev rf (int q) args reply = Some (?a\<lparr>commitIndex := ci\<rparr>, b', ctl')"
        "ci \<noteq> commitIndex rf \<longrightarrow> advanceCommitIndexLocked ?a = Some (?a\<lparr>commitIndex := ci\<rparr>, b')"
        using replicate_append_reply_success [OF r(1) q(2,3), of reply args ev] False True by auto
      have "node_rel cd n h p rf0"
      proof (cases "ci = commitIndex rf")
        case True
        then show ?thesis using a e(1) r0(1) by (simp add: acked_def)
      next
        case False
        then show ?thesis using advance_rel [OF a] e r0(1) by simp
      qed
      then show ?thesis using moves_refl [OF assms(1)] by blast
    next
      case fail: False
      have "\<exists>ns. rf0 = rf\<lparr>nextIndex := ns\<rparr>"
        using r0(1) False fail peer_index [OF r(1) L(1) q(2,3)]
        by (auto simp: replicate_append_reply_def bind_eq_Some_conv intro: exI [of _ "nextIndex rf"] split: if_splits)
      then have "node_rel cd n h p rf0" using r0(2) by (intro node_rel_frame [OF assms(2)]) auto
      then show ?thesis using moves_refl [OF assms(1)] by blast
    qed
  qed
  then obtain h' where h': "moves n p h h'" "node_rel cd n h' p rf0" by blast
  have "node_rel cd n h' p rf'"
    using assms(4) r0(1) h'(2) notify_rel(2) [OF h'(2)]
    by (auto simp: replicate_append_done_def bind_eq_Some_conv split: if_splits)
  then show ?thesis using h'(1) by blast
qed

lemma snapshot_reply_rel:
  assumes "hist_inv n h" "node_rel cd n h p rf" "install_rep_ok n h q args reply"
    "replicate_snapshot_reply ev rf (int q) args reply = Some (rf', ctl)"
  shows "\<exists>h'. moves n p h h' \<and> node_rel cd n h' p rf'"
proof -
  note r = node_relD [OF assms(2)]
  have q: "q < n" "0 \<le> int q" "int q < int (npeers rf)" using assms(3) r(3) by (auto simp: install_rep_ok_def)
  show ?thesis
  proof (cases "killed rf \<or> isrStopped reply \<or> isrTerm reply > currentTerm rf \<or> rstate rf \<noteq> Leader \<or> currentTerm rf \<noteq> isTerm args")
    case True
    then have "rf' = rf \<or> rf' = heard ev rf (isrTerm reply)"
      using assms(4) by (auto simp: replicate_snapshot_reply_def becomeFollowerLocked_inv [OF r(1)] heard_def split: if_splits)
    then show ?thesis
      using assms(2) moves_refl [OF assms(1)] heard_rel [OF assms(1,2)] follow_rel(1) [OF assms(1,2)] by blast
  next
    case False
    then have L: "rstate rf = Leader" "currentTerm rf = isTerm args" by auto
    note pi = peer_index [OF r(1) L(1) q(2,3)]
    have "replicate_snapshot_reply ev rf (int q) args reply = Some (acked rf (int q) (isLastIncludedIndex args), CtlContinue)"
      using False by (simp add: replicate_snapshot_reply_def pi(1,2) acked_def
            store_max [OF q(2) pi(3), unfolded nat_int] store_max [OF q(2) pi(4), unfolded nat_int] split del: if_split)
    then have "rf' = acked rf (int q) (isLastIncludedIndex args)" using assms(4) by simp
    then have "node_rel cd n h p rf'"
      using assms(3) False acked_rel [OF assms(2) L(1) q(1)] by (simp add: install_rep_ok_def L(2))
    then show ?thesis using moves_refl [OF assms(1)] by blast
  qed
qed

lemma heartbeat_reply_rel:
  assumes "hist_inv n h" "node_rel cd n h p rf" "heartbeat_reply ev rf reply = Some rf'"
  shows "\<exists>h'. moves n p h h' \<and> node_rel cd n h' p rf'"
proof -
  have "rf' = rf \<or> rf' = heard ev rf (aerTerm reply)"
    using assms(3) by (auto simp: heartbeat_reply_def becomeFollowerLocked_inv [OF node_relD(1) [OF assms(2)]] heard_def split: if_splits)
  then show ?thesis
    using assms(2) moves_refl [OF assms(1)] heard_rel [OF assms(1,2)] follow_rel(1) [OF assms(1,2)] by blast
qed

section \<open>Events of one node\<close>

lemma started_rel:
  assumes "hist_inv n h" "node_rel cd n h p rf" "p < n" "rstate rf = Leader" "raft_inv cd (started rf command enc)"
  defines "e \<equiv> \<lparr>eTerm = hTerm h p, eCommand = Some command\<rparr>"
  shows "moves n p h (h_append h p e)" "node_rel cd n (h_append h p e) p (started rf command enc)"
proof -
  let ?h = "h_append h p e"
  note r = node_relD [OF assms(2)] and l = node_rel_log [OF assms(2)]
  have ld: "hLead h (hTerm h p) = Some p" "hLL h (hTerm h p) = hLog h p"
    "\<And>q i. q < n \<Longrightarrow> 0 < i \<Longrightarrow> int i \<le> matchIndex rf ! q \<Longrightarrow> (q, hTerm h p, i) \<in> hAck h"
    using r(12) [OF assms(4)] r(4) by (simp_all add: leads_def)
  have len: "length (matchIndex rf) = n" using r(1,3) assms(4) by (simp add: raft_inv_def node_ok_def)
  have ok: "hist_inv n ?h" "hist_le h ?h"
    using h_append_ok [OF assms(1,3) ld(1,2), of e] by (simp_all add: e_def)
  show "moves n p h ?h" unfolding moves_def same_at_def using ok ld(1) by (auto simp: h_append_def Let_def)
  have s: "safe n ?h p (nat (commitIndex rf))"
    by (rule append_safe [OF assms(1) ok(2) r(9), of "[e]"]) (simp add: h_append_def Let_def)
  have "leads n ?h p (started rf command enc)"
    using ld len l(3) r(2,4) assms(3) by (auto simp: leads_def h_append_def Let_def nth_list_update split: if_splits)
  then show "node_rel cd n ?h p (started rf command enc)"
    using r assms(4,5) s compact_append [OF r(7)] unfolding node_rel_def by (simp add: h_append_def Let_def e_def)
qed

lemma Start_rel:
  assumes "codec_ok cd" "hist_inv n h" "node_rel cd n h p rf" "p < n" "Start cd rf command = Some (rf', res)"
  shows "\<exists>h'. moves n p h h' \<and> node_rel cd n h' p rf'"
proof (cases "killed rf \<or> rstate rf \<noteq> Leader")
  case True
  then have "rf' = rf" using Start_quiet [of rf cd command] assms(5) by simp
  then show ?thesis using assms(3) moves_refl [OF assms(2)] by blast
next
  case False
  note r = node_relD [OF assms(3)]
  let ?e = "\<lparr>eTerm = currentTerm rf, eCommand = Some command\<rparr>"
  have c: "cache_ok cd rf" using r(1) by (rule raft_inv_cache)
  obtain bs where bs: "appendLogs cd rf [?e] = Some (rf\<lparr>logs := logs rf @ [?e], encodedLogs := encodedLogs rf @ bs\<rparr>)"
      "cache_ok cd (rf\<lparr>logs := logs rf @ [?e], encodedLogs := encodedLogs rf @ bs\<rparr>)"
    using appendLogs_Some [OF assms(1) c] by blast
  let ?s = "started rf command (encodedLogs rf @ bs)"
  have inv: "raft_inv cd ?s" using started_inv [OF r(1) bs(2)] .
  have "go_store (matchIndex rf) (me rf) i = Some ((matchIndex rf)[nat (me rf) := i])"
    "go_store (nextIndex rf) (me rf) i = Some ((nextIndex rf)[nat (me rf) := i])" for i
    using r(1) False by (simp_all add: raft_inv_def node_ok_def go_store_def)
  then obtain rf1 where rf1: "(if npeers rf = 1 then map_option fst (advanceCommitIndexLocked ?s) else Some ?s) = Some rf1"
    "broadcastAppendEntries rf1 = Some rf'"
    using assms(5) False
    by (auto simp: Start_def bs(1) persist_saved [OF bs(2)] Let_def started_def bind_eq_Some_conv cong: if_cong split del: if_split)
  note st = started_rel [OF assms(2-4) _ inv]
  have "node_rel cd n (h_append h p \<lparr>eTerm = hTerm h p, eCommand = Some command\<rparr>) p rf1"
    using rf1(1) st(2) advance_rel [OF st(2)] False by (auto split: if_splits)
  then show ?thesis using st(1) notify_rel(2) rf1(2) False by blast
qed

lemma Snapshot_rel:
  assumes "codec_ok cd" "node_rel cd n h p rf" "Snapshot cd rf index data = Some rf'"
  shows "node_rel cd n h p rf'"
proof (cases "killed rf \<or> index \<le> lastIncludedIndex rf \<or> lastApplied rf < index")
  case True
  then have "rf' = rf" using Snapshot_ignored [of rf index cd data] assms(3) by simp
  then show ?thesis using assms(2) by simp
next
  case False
  note r = node_relD [OF assms(2)] and l = node_rel_log [OF assms(2)]
  have n: "node_ok cd rf" using r(1) by (simp add: raft_inv_def)
  have inv: "raft_inv cd rf'" using Snapshot_inv [OF assms(1) r(1), of index data] assms(3) by simp
  obtain enc where e: "rf' = saved (rf\<lparr>lastIncludedIndex := index,
        lastIncludedTerm := eTerm (logs rf ! nat (index - lastIncludedIndex rf)),
        logs := compacted_logs rf index, encodedLogs := enc, snapshot := data\<rparr>)"
    using Snapshot_eq [OF assms(1) n, of index data] False assms(3) by auto
  define k where "k = nat (lastIncludedIndex rf)"
  define j where "j = nat (index - lastIncludedIndex rf)"
  have kj: "nat index = k + j" using False l(1) unfolding k_def j_def by linarith
  have "index \<le> lastLogIndexLocked rf" using False n by (auto simp: node_ok_def)
  then have len: "k + j < length (hLog h p)" using l(3) kj False l(1) by linarith
  have "compacted_logs rf index = compact (compact (hLog h p) k) j"
    by (simp add: compacted_logs_def compact_def [of "compact _ _"] r(8) k_def j_def Let_def)
  then have "compacted_logs rf index = compact (hLog h p) (nat index)"
    using compact_compact [OF len] kj by simp
  then show ?thesis
    using r inv len kj unfolding node_rel_def by (simp add: e leads_def)
qed

lemma volatile_rel:
  assumes "node_rel cd n h p rf" "raft_inv cd rf'"
    "npeers rf' = npeers rf \<and> me rf' = me rf \<and> currentTerm rf' = currentTerm rf \<and> votedFor rf' = votedFor rf \<and> logs rf' = logs rf \<and>
     lastIncludedIndex rf' = lastIncludedIndex rf \<and> commitIndex rf' = commitIndex rf \<and> matchIndex rf' = matchIndex rf \<and>
     (rstate rf' = rstate rf \<or> rstate rf' = Follower)"
  shows "node_rel cd n h p rf'"
  using assms by (intro node_rel_frame [OF assms(1,2)]) auto

lemma local_rel:
  assumes "codec_ok cd" "hist_inv n h" "node_rel cd n h p rf" "p < n" "local_event rf e" "raft_step cd ev rf e = Some rf'"
  shows "\<exists>h'. moves n p h h' \<and> node_rel cd n h' p rf'"
proof -
  note r = node_relD [OF assms(3)]
  have ok: "event_ok rf e" using assms(5) by (cases e) (simp_all add: event_ok_def)
  have inv: "raft_inv cd rf'" using raft_step_inv [OF assms(1) r(1) ok, of ev] assms(6) by simp
  have stay: ?thesis if "node_rel cd n h p rf'" using that moves_refl [OF assms(2)] by blast
  note v = stay [OF volatile_rel [OF assms(3) inv]]
  show ?thesis
  proof (cases e)
    case (EvStart command)
    then show ?thesis using Start_rel [OF assms(1-4)] assms(6) by (auto simp: raft_step_def)
  next
    case (EvSnapshot index data)
    then show ?thesis using Snapshot_rel [OF assms(1,3)] assms(6) stay by (auto simp: raft_step_def)
  next
    case (EvWorkerBegin peer)
    then show ?thesis
      using assms(6) by (intro v) (auto simp: raft_step_def replicationWorker_begin_def bind_eq_Some_conv Let_def split: if_splits)
  next
    case (EvWorkerEnd peer)
    then show ?thesis
      using assms(6) by (intro v) (auto simp: raft_step_def replicationWorker_end_def bind_eq_Some_conv)
  next
    case EvApply
    then show ?thesis
      using assms(6) by (intro v) (auto simp: raft_step_def applier_def bind_eq_Some_conv Let_def split: if_splits option.splits)
  next
    case EvKill
    then show ?thesis using assms(6) by (intro v) (auto simp: raft_step_def Kill_def)
  next
    case EvStopped
    then show ?thesis using assms(6) by (intro v) (auto simp: raft_step_def Kill_wait_def)
  next
    case EvGoroutineDone
    then show ?thesis using assms(6) by (intro v) (auto simp: raft_step_def launch_done_def)
  qed (use assms(5) in simp_all)
qed

lemma crash_rel:
  assumes "codec_ok cd" "node_rel cd n h p rf" "sizes_ok rf" "Make cd ev n (int p) (persister rf) = Some rf'"
  shows "node_rel cd n h p rf'"
proof -
  note r = node_relD [OF assms(2)] and l = node_rel_log [OF assms(2)]
  have "Make cd ev (npeers rf) (me rf) (persister rf) = Some rf'" using assms(4) r(2,3) by simp
  then have f: "raft_inv cd rf'" "same_durable rf rf'" "rstate rf' = Follower" "commitIndex rf' = lastIncludedIndex rf"
    "npeers rf' = npeers rf" "me rf' = me rf"
    using restart_inv [OF assms(1) r(1) assms(3), of ev] by auto
  have "safe n h p (nat (lastIncludedIndex rf))" by (rule safe_le [OF r(9) nat_mono [OF l(8)]])
  then show ?thesis using r f unfolding node_rel_def same_durable_def by simp
qed

end
