(* ===== verification/Raft_Props.thy ===== *)
theory Raft_Props
  imports Raft_Events
begin

text \<open>
  The properties of a single Raft node, each with an instance on a small concrete node. The
  instances use \<open>sample_codec\<close>, an encoding of entries without data, which shows that the
  assumption \<open>codec_ok\<close> can be met.
\<close>

section \<open>A concrete codec and concrete nodes\<close>

definition sample_codec :: "unit codec" where
  "sample_codec =
     \<lparr>encEntry = (\<lambda>e. Some ((if eCommand e = None then 0 else 1) # (if eTerm e < 0 then 1 else 0) #
                            replicate (nat \<bar>eTerm e\<bar>) 0)),
      decEntry = (\<lambda>b. case b of
          c # s # r \<Rightarrow> Some \<lparr>eTerm = (if s = 0 then int (length r) else - int (length r)),
                             eCommand = (if c = 0 then None else Some ())\<rparr>
        | _ \<Rightarrow> None),
      decLegacy = (\<lambda>_. None)\<rparr>"

lemma sample_codec_ok: "codec_ok sample_codec"
  unfolding codec_ok_def
proof
  fix e :: "unit log_entry"
  show "\<exists>b. encEntry sample_codec e = Some b \<and> decEntry sample_codec b = Some e"
    by (cases e; cases "eCommand e") (auto simp: sample_codec_def)
qed

definition sample_logs :: "int list \<Rightarrow> unit log_entry list" where
  "sample_logs ts = \<lparr>eTerm = 0, eCommand = None\<rparr> # map (\<lambda>t. \<lparr>eTerm = t, eCommand = Some ()\<rparr>) ts"

text \<open>Node \<open>0\<close> of three, with entries of the given terms, of which the first \<open>ci\<close> are committed.\<close>

definition sample_node :: "role \<Rightarrow> int \<Rightarrow> int \<Rightarrow> int list \<Rightarrow> int \<Rightarrow> unit raft" where
  "sample_node r t vf ts ci =
     saved \<lparr>npeers = 3, persister = MakePersister,
            encodedLogs = map (\<lambda>e. the (encEntry sample_codec e)) (sample_logs ts),
            me = 0, dead = False, rdone = False, rstopped = False, workers = 5, currentTerm = t,
            votedFor = vf, logs = sample_logs ts,
            nextIndex = replicate 3 (int (length ts) + 1), matchIndex = [int (length ts), 0, 0],
            rstate = r, electionDeadline = 0, commitIndex = ci, lastApplied = 0,
            replicateNotify = replicate 3 False, replicateBusy = replicate 3 False,
            lastRescueSent = replicate 3 0, lastIncludedIndex = 0, lastIncludedTerm = 0,
            snapshot = [], pendingSnapshot = None\<rparr>"

lemma sample_node_inv:
  assumes "0 \<le> ci" "ci \<le> int (length ts)"
  shows "raft_inv sample_codec (sample_node r t vf ts ci)"
proof -
  have dec: "\<forall>e. decEntry sample_codec (the (encEntry sample_codec e)) = Some e"
    using sample_codec_ok unfolding codec_ok_def by (metis option.sel)
  have "list_all2 (\<lambda>b e. decEntry sample_codec b = Some e)
      (map (\<lambda>e. the (encEntry sample_codec e)) ls) ls" for ls
    using dec by (simp add: list_all2_map1 list_all2_same)
  moreover have "sample_logs ts \<noteq> []" "eTerm (hd (sample_logs ts)) = 0" "length (sample_logs ts) = length ts + 1"
    by (simp_all add: sample_logs_def)
  ultimately show ?thesis
    using assms by (simp add: raft_inv_def sample_node_def node_ok_def lastLogIndexLocked_def cache_ok_def)
qed

lemma sample_node_simps [simp]:
  "npeers (sample_node r t vf ts ci) = 3" "me (sample_node r t vf ts ci) = 0"
  "currentTerm (sample_node r t vf ts ci) = t" "votedFor (sample_node r t vf ts ci) = vf"
  "logs (sample_node r t vf ts ci) = sample_logs ts" "rstate (sample_node r t vf ts ci) = r"
  "commitIndex (sample_node r t vf ts ci) = ci" "lastApplied (sample_node r t vf ts ci) = 0"
  "lastIncludedIndex (sample_node r t vf ts ci) = 0" "killed (sample_node r t vf ts ci) = False"
  "pendingSnapshot (sample_node r t vf ts ci) = None"
  "matchIndex (sample_node r t vf ts ci) = [int (length ts), 0, 0]"
  "electionDeadline (sample_node r t vf ts ci) = 0"
  "lastLogIndexLocked (sample_node r t vf ts ci) = int (length ts)"
  by (simp_all add: sample_node_def killed_def lastLogIndexLocked_def sample_logs_def)

definition sample_env :: go_env where
  "sample_env = \<lparr>now = 1000000000, rnd63 = 7\<rparr>"

section \<open>No panic\<close>



section \<open>Votes\<close>

lemma RequestVote_granted:
  assumes "raft_inv cd rf" "RequestVote ev rf args = Some (rf', reply)" "rvrVoteGranted reply"
  shows "vote_granted rf args"
    and "rf' = saved (resetElectionDeadlineLocked ev ((vote_base rf args)\<lparr>votedFor := rvCandidateId args\<rparr>))"
proof -
  have c: "cache_ok cd rf" "logs rf \<noteq> []" using assms(1) by (auto simp: raft_inv_def node_ok_def)
  show g: "vote_granted rf args"
  proof (rule ccontr)
    assume "\<not> vote_granted rf args"
    then show False
      using RequestVote_stale [OF c(2), of args ev] RequestVote_refuse [OF c, of args ev] assms(2,3)
      by (cases "killed rf \<or> rvTerm args < currentTerm rf") auto
  qed
  show "rf' = saved (resetElectionDeadlineLocked ev ((vote_base rf args)\<lparr>votedFor := rvCandidateId args\<rparr>))"
    using RequestVote_grant [OF c g, of ev] assms(2) by simp
qed

text \<open>
  In one term a node grants its vote to one candidate only, whatever happens between the two
  grants, crashes included.
\<close>

theorem one_vote_per_term:
  assumes "codec_ok cd" "raft_inv cd rf"
    and "RequestVote ev rf args = Some (rf1, reply)" "rvrVoteGranted reply" "0 \<le> rvCandidateId args"
    and "(node_next cd)\<^sup>*\<^sup>* rf1 rf2"
    and "RequestVote ev' rf2 args' = Some (rf3, reply')" "rvrVoteGranted reply'"
    and "rvTerm args' = rvTerm args"
  shows "rvCandidateId args' = rvCandidateId args"
proof -
  note g1 = RequestVote_granted [OF assms(2,3,4)]
  have i1: "raft_inv cd rf1" using RequestVote_inv [OF assms(2), of ev args] assms(3) by auto
  have h: "raft_inv cd rf2" "durable_le rf1 rf2" using node_history [OF assms(1) i1 assms(6)] by auto
  note g2 = RequestVote_granted [OF h(1) assms(7,8)]
  have "currentTerm rf1 = rvTerm args" "votedFor rf1 = rvCandidateId args"
    using g1 by (simp_all add: vote_granted_def)
  with h(2) g2(1) assms(5,9) show ?thesis by (auto simp: durable_le_def vote_granted_def)
qed

theorem one_vote_per_term_witness:
  "\<exists>rf1 r. RequestVote sample_env (sample_node Follower 1 (-1) [1] 0)
      \<lparr>rvTerm = 2, rvCandidateId = 1, rvLastLogIndex = 1, rvLastLogTerm = 1\<rparr> = Some (rf1, r) \<and>
    rvrVoteGranted r \<and>
    (\<forall>rf3 r'. RequestVote sample_env rf1
      \<lparr>rvTerm = 2, rvCandidateId = 2, rvLastLogIndex = 1, rvLastLogTerm = 1\<rparr> = Some (rf3, r') \<longrightarrow>
      \<not> rvrVoteGranted r')"
proof -
  let ?rf = "sample_node Follower 1 (-1) [1] 0"
  let ?a = "\<lparr>rvTerm = 2, rvCandidateId = 1, rvLastLogIndex = 1, rvLastLogTerm = 1\<rparr>"
  have inv: "raft_inv sample_codec ?rf" by (rule sample_node_inv) simp_all
  then have c: "cache_ok sample_codec ?rf" "logs ?rf \<noteq> []" by (auto simp: raft_inv_def node_ok_def)
  have "vote_granted ?rf ?a" by (simp add: vote_granted_def up_to_date_def sample_logs_def)
  from RequestVote_grant [OF c this, of sample_env] obtain rf1 r
    where g: "RequestVote sample_env ?rf ?a = Some (rf1, r)" "rvrVoteGranted r" by simp
  then show ?thesis
    using one_vote_per_term [OF sample_codec_ok inv g _ rtranclp.rtrancl_refl] by fastforce
qed

text \<open>
  C29. The vote rule: a request is granted exactly when the node is alive, the request's term is not
  old, the node has not voted for another candidate in that term, and the candidate's log is at
  least as up to date. The granted vote is in the state and on disk when the reply is sent.
\<close>

theorem RequestVote_correct:
  assumes "raft_inv cd rf"
  shows "\<exists>rf' reply. RequestVote ev rf args = Some (rf', reply) \<and>
    (rvrVoteGranted reply \<longleftrightarrow> vote_granted rf args) \<and>
    rvrTerm reply = currentTerm rf' \<and> logs rf' = logs rf \<and>
    (rvrVoteGranted reply \<longrightarrow> currentTerm rf' = rvTerm args \<and> votedFor rf' = rvCandidateId args \<and>
       raftstate (persister rf') = persist_bytes rf')"
proof -
  have c: "cache_ok cd rf" and l: "logs rf \<noteq> []" using assms by (auto simp: raft_inv_def node_ok_def)
  consider (stale) "killed rf \<or> rvTerm args < currentTerm rf"
    | (refuse) "\<not> killed rf" "currentTerm rf \<le> rvTerm args" "\<not> vote_granted rf args"
    | (grant) "vote_granted rf args"
    by linarith
  then show ?thesis
  proof cases
    case stale
    then show ?thesis using RequestVote_stale [OF l stale, of ev] by (auto simp: vote_granted_def)
  next
    case refuse
    then show ?thesis using RequestVote_refuse [OF c l refuse, of ev] by simp
  next
    case grant
    then show ?thesis
      using RequestVote_grant [OF c l grant, of ev] by (simp add: vote_granted_def saved_def Save_def)
  qed
qed

theorem RequestVote_correct_witness:
  "\<exists>rf' reply. RequestVote sample_env (sample_node Follower 3 (-1) [1, 3] 1)
      \<lparr>rvTerm = 4, rvCandidateId = 1, rvLastLogIndex = 9, rvLastLogTerm = 2\<rparr> = Some (rf', reply) \<and>
    \<not> rvrVoteGranted reply"
  using RequestVote_correct [OF sample_node_inv [of 1 "[1, 3]" Follower 3 "-1"], of sample_env
      "\<lparr>rvTerm = 4, rvCandidateId = 1, rvLastLogIndex = 9, rvLastLogTerm = 2\<rparr>"]
  by (auto simp: vote_granted_def up_to_date_def sample_logs_def)

section \<open>Progress\<close>

text \<open>
  No critical section takes anything back: the term, the commit index, the applied index and
  the snapshot index never decrease, and within a term a vote that was given stays.
\<close>

theorem raft_step_monotone:
  assumes "codec_ok cd" "raft_inv cd rf" "event_ok rf e" "raft_step cd ev rf e = Some rf'"
  shows "currentTerm rf \<le> currentTerm rf' \<and> commitIndex rf \<le> commitIndex rf' \<and>
    lastApplied rf \<le> lastApplied rf' \<and> lastIncludedIndex rf \<le> lastIncludedIndex rf' \<and>
    (currentTerm rf' = currentTerm rf \<longrightarrow> votedFor rf \<noteq> -1 \<longrightarrow> votedFor rf' = votedFor rf)"
  using raft_step_progress [OF assms] by (auto simp: node_le_def)

theorem raft_step_monotone_witness:
  "\<exists>rf'. raft_step sample_codec sample_env (sample_node Leader 2 0 [1, 2] 1) (EvStart ()) = Some rf' \<and>
     (1::int) \<le> commitIndex rf'"
proof -
  have inv: "raft_inv sample_codec (sample_node Leader 2 0 [1, 2] 1)" by (rule sample_node_inv) simp_all
  have ok: "event_ok (sample_node Leader 2 0 [1, 2] 1) (EvStart ())" by (simp add: event_ok_def)
  obtain rf' where s: "raft_step sample_codec sample_env (sample_node Leader 2 0 [1, 2] 1) (EvStart ()) = Some rf'"
    using raft_step_inv [OF sample_codec_ok inv ok] by blast
  with raft_step_monotone [OF sample_codec_ok inv ok s] show ?thesis by simp
qed

text \<open>
  Leader append-only: as long as a node stays leader of its term, no event removes or changes
  an entry of its log above the snapshot.
\<close>

theorem leader_append_only:
  assumes "codec_ok cd" "raft_inv cd rf" "event_ok rf e" "raft_step cd ev rf e = Some rf'"
    and "rstate rf = Leader" "rstate rf' = Leader" "currentTerm rf' = currentTerm rf"
  shows "lastLogIndexLocked rf \<le> lastLogIndexLocked rf' \<and>
    (\<forall>i. lastIncludedIndex rf' < i \<and> i \<le> lastLogIndexLocked rf \<longrightarrow> entryAt rf' i = entryAt rf i)"
  using raft_step_progress [OF assms(1-4)] assms(5-7) by (auto simp: leader_appends_def)

theorem leader_append_only_witness:
  "\<exists>rf'. raft_step sample_codec sample_env (sample_node Leader 2 0 [1, 2] 1) (EvStart ()) = Some rf' \<and>
     2 \<le> lastLogIndexLocked rf' \<and> eTerm (entryAt rf' 1) = 1"
proof -
  let ?rf = "sample_node Leader 2 0 [1, 2] 1"
  have inv: "raft_inv sample_codec ?rf" by (rule sample_node_inv) simp_all
  have ok: "event_ok ?rf (EvStart ())" by (simp add: event_ok_def)
  obtain enc ci nt where s: "Start sample_codec ?rf () =
      Some ((started ?rf () enc)\<lparr>commitIndex := ci, replicateNotify := nt\<rparr>, lastLogIndexLocked ?rf + 1, 2, True)"
    using Start_eq [OF sample_codec_ok inv, of "()"] by auto
  let ?rf' = "(started ?rf () enc)\<lparr>commitIndex := ci, replicateNotify := nt\<rparr>"
  have step: "raft_step sample_codec sample_env ?rf (EvStart ()) = Some ?rf'"
    by (simp add: raft_step_def s)
  from leader_append_only [OF sample_codec_ok inv ok step] show ?thesis
    by (intro exI [of _ ?rf'] conjI step) (auto simp: entryAt_def sample_logs_def)
qed

section \<open>Replication\<close>



text \<open>
  A request that does not contradict a committed entry leaves the committed part of the log as
  it is; and a request whose entries agree with the log, such as one that was delayed in the
  network and overtaken by newer ones, removes nothing at all.
\<close>

theorem AppendEntries_keeps:
  assumes "codec_ok cd" "raft_inv cd rf" "AppendEntries cd ev rf args = Some (rf', reply)"
  shows "(append_compat rf args \<longrightarrow>
       (\<forall>i. lastIncludedIndex rf \<le> i \<and> i \<le> commitIndex rf \<longrightarrow> entryAt rf' i = entryAt rf i)) \<and>
    ((\<forall>i < length (aeEntries args). aePrevLogIndex args + 1 + int i \<le> lastLogIndexLocked rf \<longrightarrow>
        eTerm (entryAt rf (aePrevLogIndex args + 1 + int i)) = eTerm (aeEntries args ! i)) \<longrightarrow>
       (\<exists>more. logs rf' = logs rf @ more))"
proof -
  have c: "cache_ok cd rf" and n: "node_ok cd rf" using assms(2) by (auto simp: raft_inv_def node_ok_def)
  let ?h = "heard ev rf (aeTerm args)"
  show ?thesis
  proof (cases "\<not> killed rf \<and> currentTerm rf \<le> aeTerm args \<and> prev_matches rf args")
    case False
    then have "rf' = rf \<or> rf' = ?h"
      using AppendEntries_stale [of rf args cd ev] AppendEntries_reject [OF c, of args ev] assms(3)
      by (cases "killed rf \<or> aeTerm args < currentTerm rf") auto
    then show ?thesis by (auto simp: heard_def entryAt_def)
  next
    case True
    then have pm: "prev_matches rf args" by blast
    obtain enc ch where r: "\<not> ch \<longrightarrow> merged_logs rf args = logs rf \<and> enc = encodedLogs rf"
        "AppendEntries cd ev rf args =
          Some ((if ch then saved (?h\<lparr>logs := merged_logs rf args, encodedLogs := enc\<rparr>) else ?h)
                  \<lparr>commitIndex := append_commit rf args\<rparr>, (appendReply ?h)\<lparr>aerSuccess := True\<rparr>)"
      using AppendEntries_accept [OF assms(1) c, of args ev] True by blast
    then have f: "logs rf' = merged_logs rf args" "lastIncludedIndex rf' = lastIncludedIndex rf"
      using assms(3) by (auto simp: heard_def)
    define k where "k = nat (aePrevLogIndex args + 1 - lastIncludedIndex rf)"
    have k: "k \<le> length (logs rf)" "int k = aePrevLogIndex args + 1 - lastIncludedIndex rf"
      using pm by (auto simp: k_def prev_matches_def lastLogIndexLocked_def)
    have ki: "nat (aePrevLogIndex args + 1 + int i - lastIncludedIndex rf) = k + i" for i
      using k(2) by linarith
    have "merged_logs rf args = logs rf @ drop (length (logs rf) - k) (aeEntries args)"
      if "\<forall>i < length (aeEntries args). aePrevLogIndex args + 1 + int i \<le> lastLogIndexLocked rf \<longrightarrow>
        eTerm (entryAt rf (aePrevLogIndex args + 1 + int i)) = eTerm (aeEntries args ! i)"
      unfolding merged_logs_def k_def [symmetric]
      using that k by (intro merge_logs_agree) (auto simp: entryAt_def ki lastLogIndexLocked_def)
    moreover have "entryAt rf' i = entryAt rf i"
      if "append_compat rf args" "lastIncludedIndex rf \<le> i" "i \<le> commitIndex rf" for i
      using nth_eq_of_take_eq [OF merged_logs_facts(4) [OF n pm that(1)], of "nat (i - lastIncludedIndex rf)"]
        that(2,3) by (simp add: entryAt_def f)
    ultimately show ?thesis using f(1) by auto
  qed
qed

theorem AppendEntries_keeps_witness:
  "\<exists>rf' reply more. AppendEntries sample_codec sample_env (sample_node Follower 2 1 [1, 1, 2] 1)
      \<lparr>aeTerm = 2, aeLeaderId = 2, aePrevLogIndex = 0, aePrevLogTerm = 0,
       aeEntries = [\<lparr>eTerm = 1, eCommand = Some ()\<rparr>], aeLeaderCommit = 0\<rparr> = Some (rf', reply) \<and>
    logs rf' = sample_logs [1, 1, 2] @ more"
proof -
  let ?rf = "sample_node Follower 2 1 [1, 1, 2] 1"
  let ?a = "\<lparr>aeTerm = 2, aeLeaderId = 2, aePrevLogIndex = 0, aePrevLogTerm = 0,
       aeEntries = [\<lparr>eTerm = 1, eCommand = Some ()\<rparr>], aeLeaderCommit = 0\<rparr>"
  have inv: "raft_inv sample_codec ?rf" by (rule sample_node_inv) simp_all
  have compat: "append_compat ?rf ?a" by (simp add: append_compat_def sample_logs_def)
  obtain rf' reply where a: "AppendEntries sample_codec sample_env ?rf ?a = Some (rf', reply)"
    using AppendEntries_inv [OF sample_codec_ok inv compat] by blast
  with AppendEntries_keeps [OF sample_codec_ok inv a] show ?thesis
    by (simp add: entryAt_def sample_logs_def)
qed

text \<open>
  The hint of a refused \<^verbatim>\<open>AppendEntries\<close>: when the terms at the preceding index differ, it
  names the local term there and the first index of the run of that term that ends there; when the
  log is too short, the index after its end.
\<close>

theorem AppendEntries_hint:
  assumes "raft_inv cd rf" "\<not> killed rf" "currentTerm rf \<le> aeTerm args"
    and "lastIncludedIndex rf \<le> aePrevLogIndex args" "\<not> prev_matches rf args"
  shows "\<exists>reply. AppendEntries cd ev rf args = Some (heard ev rf (aeTerm args), reply) \<and> \<not> aerSuccess reply \<and>
    (if lastLogIndexLocked rf < aePrevLogIndex args
     then aerConflictTerm reply = -1 \<and> aerConflictIndex reply = lastLogIndexLocked rf + 1
     else let ct = eTerm (entryAt rf (aePrevLogIndex args)); ci = aerConflictIndex reply in
       aerConflictTerm reply = ct \<and> lastIncludedIndex rf \<le> ci \<and> ci \<le> aePrevLogIndex args \<and>
       (\<forall>i. ci \<le> i \<and> i \<le> aePrevLogIndex args \<longrightarrow> eTerm (entryAt rf i) = ct) \<and>
       (ci = lastIncludedIndex rf \<or> eTerm (entryAt rf (ci - 1)) \<noteq> ct))"
proof -
  let ?h = "heard ev rf (aeTerm args)"
  have c: "cache_ok cd rf" using assms(1) by (rule raft_inv_cache)
  have b: "becomeFollowerLocked rf (aeTerm args) = Some (follow rf (aeTerm args))"
    "resetElectionDeadlineLocked ev (follow rf (aeTerm args)) = ?h"
    using becomeFollowerLocked_eq [OF c] by (simp_all add: heard_def)
  have hs: "logs ?h = logs rf" "lastIncludedIndex ?h = lastIncludedIndex rf"
    "lastLogIndexLocked ?h = lastLogIndexLocked rf"
    by (simp_all add: heard_def)
  show ?thesis
  proof (cases "lastLogIndexLocked rf < aePrevLogIndex args")
    case True
    then show ?thesis using assms(2,3) by (simp add: AppendEntries_def b hs appendReply_def Let_def)
  next
    case False
    define k where "k = nat (aePrevLogIndex args - lastIncludedIndex rf)"
    have "aePrevLogIndex args = lastIncludedIndex rf + int k" "k < length (logs rf)"
      using False assms(4) by (auto simp: k_def lastLogIndexLocked_def)
    then have k: "aePrevLogIndex args = lastIncludedIndex ?h + int k" "k < length (logs ?h)"
      unfolding hs by blast+
    define ct where "ct = eTerm (logs rf ! k)"
    have ht: "eTerm (logs ?h ! k) = ct" by (simp add: ct_def hs)
    obtain j where j: "j \<le> k" "conflictScan ?h ct k (lastIncludedIndex ?h + int k) = Some (lastIncludedIndex ?h + int j)"
        "\<forall>i. j \<le> i \<and> i \<le> k \<longrightarrow> eTerm (logs ?h ! i) = ct"
        "j + k = k \<or> (0 < j \<and> eTerm (logs ?h ! (j - 1)) \<noteq> ct)"
      using conflictScan_spec [OF le_refl k(2) ht] by blast
    have scan: "conflictScan ?h ct (nat (aePrevLogIndex args - firstLogIndexLocked ?h)) (aePrevLogIndex args) =
        Some (lastIncludedIndex rf + int j)"
      using j(2) k(1) by (simp add: firstLogIndexLocked_def hs)
    have t: "termAtLocked ?h (aePrevLogIndex args) = Some (ct, True)"
      using k by (simp add: termAtLocked_eq hs ct_def)
    have ne: "ct \<noteq> aePrevLogTerm args"
      using assms(4,5) False by (auto simp: prev_matches_def ct_def k_def)
    have "\<not> aePrevLogIndex args < firstLogIndexLocked ?h" using assms(4) by (simp add: firstLogIndexLocked_def hs)
    then have "AppendEntries cd ev rf args = Some (?h, (appendReply ?h)\<lparr>aerConflictTerm := ct,
        aerConflictIndex := lastIncludedIndex rf + int j\<rparr>)" (is "_ = Some (_, ?r)")
      using assms(2,3) ne False by (simp add: AppendEntries_def b hs t scan Let_def)
    moreover have "eTerm (entryAt rf i) = ct" if "lastIncludedIndex rf + int j \<le> i" "i \<le> aePrevLogIndex args" for i
    proof -
      have "j \<le> nat (i - lastIncludedIndex rf) \<and> nat (i - lastIncludedIndex rf) \<le> k"
        using that k(1) unfolding hs by linarith
      then show ?thesis using j(3) by (simp add: entryAt_def hs)
    qed
    moreover have "j = 0 \<or> eTerm (entryAt rf (lastIncludedIndex rf + int j - 1)) \<noteq> ct"
      using j(4) by (auto simp: entryAt_def hs nat_diff_distrib)
    ultimately show ?thesis
      using False j(1) k(1) by (intro exI [of _ ?r]) (auto simp: Let_def appendReply_def entryAt_def hs ct_def)
  qed
qed

theorem AppendEntries_hint_witness:
  "\<exists>rf' reply. AppendEntries sample_codec sample_env (sample_node Follower 5 1 [1, 2, 2, 2] 1)
      \<lparr>aeTerm = 5, aeLeaderId = 2, aePrevLogIndex = 4, aePrevLogTerm = 3, aeEntries = [], aeLeaderCommit = 0\<rparr>
      = Some (rf', reply) \<and> aerConflictTerm reply = 2 \<and> aerConflictIndex reply \<le> 4"
proof -
  let ?rf = "sample_node Follower 5 1 [1, 2, 2, 2] 1"
  let ?a = "\<lparr>aeTerm = 5, aeLeaderId = 2, aePrevLogIndex = 4, aePrevLogTerm = 3, aeEntries = [],
    aeLeaderCommit = 0\<rparr> :: unit append_args"
  have inv: "raft_inv sample_codec ?rf" by (rule sample_node_inv) simp_all
  have "\<not> prev_matches ?rf ?a" by (simp add: prev_matches_def sample_logs_def)
  from AppendEntries_hint [OF inv _ _ _ this, of sample_env] show ?thesis
    by (auto simp: Let_def entryAt_def sample_logs_def)
qed

section \<open>Commit\<close>

text \<open>
  C24. The commit rule: a leader moves its commit index to the highest index beyond it that holds an
  entry of its own term and that a majority of the nodes has acknowledged, and leaves it where it
  is if there is none.
\<close>

theorem advanceCommitIndexLocked_correct:
  assumes "raft_inv cd rf"
  shows "\<exists>rf' moved. advanceCommitIndexLocked rf = Some (rf', moved) \<and>
    rf' = rf\<lparr>commitIndex := commitIndex rf'\<rparr> \<and>
    (moved \<longleftrightarrow> rstate rf = Leader \<and> (\<exists>i > commitIndex rf. committable rf i)) \<and>
    (moved \<longrightarrow> commitIndex rf < commitIndex rf' \<and> committable rf (commitIndex rf') \<and>
        (\<forall>i. committable rf i \<longrightarrow> i \<le> commitIndex rf')) \<and>
    (\<not> moved \<longrightarrow> rf' = rf)"
proof -
  have n: "rstate rf = Leader \<Longrightarrow> length (matchIndex rf) = npeers rf" "commitIndex rf \<le> lastLogIndexLocked rf"
    using assms by (auto simp: raft_inv_def node_ok_def)
  note spec = advanceCommitIndexLocked_spec [OF n]
  show ?thesis
  proof (cases "rstate rf = Leader \<and> (\<exists>i > commitIndex rf. committable rf i)")
    case True
    define M where "M = Max {i. commitIndex rf < i \<and> committable rf i}"
    have M: "commitIndex rf < M" "committable rf M"
      using committable_Max [of rf] True by (auto simp: M_def)
    have "finite {i. commitIndex rf < i \<and> committable rf i}"
      by (rule finite_subset [of _ "{commitIndex rf..lastLogIndexLocked rf}"]) (auto simp: committable_def)
    then have "i \<le> M" if "committable rf i" for i
      using M(1) Max_ge [of "{i. commitIndex rf < i \<and> committable rf i}" i] that
      by (cases "commitIndex rf < i") (auto simp: M_def)
    moreover have "advanceCommitIndexLocked rf = Some (rf\<lparr>commitIndex := M\<rparr>, True)"
      using True spec by (simp add: M_def)
    ultimately show ?thesis using M True by (intro exI [of _ "rf\<lparr>commitIndex := M\<rparr>"] exI [of _ True]) simp
  next
    case False
    then show ?thesis using spec by auto
  qed
qed

theorem advanceCommitIndexLocked_correct_witness:
  "\<exists>rf' moved. advanceCommitIndexLocked ((sample_node Leader 2 0 [1, 2, 2] 0)\<lparr>matchIndex := [3, 2, 0]\<rparr>) =
     Some (rf', moved) \<and> moved \<and> 2 \<le> commitIndex rf'"
proof -
  let ?rf = "(sample_node Leader 2 0 [1, 2, 2] 0)\<lparr>matchIndex := [3, 2, 0]\<rparr>"
  have i: "raft_inv sample_codec (sample_node Leader 2 0 [1, 2, 2] 0)" by (rule sample_node_inv) simp_all
  have inv: "raft_inv sample_codec ?rf"
    using i by (intro raft_inv_volatile [OF i])
      (auto simp: raft_inv_def node_ok_def lastLogIndexLocked_def cache_ok_def)
  have com: "committable ?rf 2"
    by (simp add: committable_def sample_logs_def lastLogIndexLocked_def majority_def)
  then have "\<exists>i > commitIndex ?rf. committable ?rf i" by (intro exI [of _ 2]) simp
  then have L: "rstate ?rf = Leader \<and> (\<exists>i > commitIndex ?rf. committable ?rf i)" by simp
  from advanceCommitIndexLocked_correct [OF inv] show ?thesis
  proof (elim exE conjE)
    fix rf' moved
    assume "advanceCommitIndexLocked ?rf = Some (rf', moved)"
      "moved = (rstate ?rf = Leader \<and> (\<exists>i > commitIndex ?rf. committable ?rf i))"
      "moved \<longrightarrow> commitIndex ?rf < commitIndex rf' \<and> committable ?rf (commitIndex rf') \<and>
         (\<forall>i. committable ?rf i \<longrightarrow> i \<le> commitIndex rf')"
    with com L show ?thesis by (intro exI [of _ rf'] exI [of _ moved] conjI) simp_all
  qed
qed

section \<open>Start, the applier and snapshots\<close>

text \<open>
  \<^verbatim>\<open>Start\<close> on a live leader appends exactly one entry, of its term and with the given
  command, at the index it returns, and the entry is on disk when it returns; otherwise it changes
  nothing and reports that the node is not the leader.
\<close>

theorem Start_correct:
  assumes "codec_ok cd" "raft_inv cd rf"
  shows "if \<not> killed rf \<and> rstate rf = Leader
    then \<exists>rf'. Start cd rf command = Some (rf', lastLogIndexLocked rf + 1, currentTerm rf, True) \<and>
       logs rf' = logs rf @ [\<lparr>eTerm = currentTerm rf, eCommand = Some command\<rparr>] \<and>
       lastLogIndexLocked rf' = lastLogIndexLocked rf + 1 \<and>
       raftstate (persister rf') = persist_bytes rf' \<and>
       matchIndex rf' ! nat (me rf) = lastLogIndexLocked rf'
    else Start cd rf command = Some (rf, -1, currentTerm rf, False)"
proof (cases "\<not> killed rf \<and> rstate rf = Leader")
  case True
  then obtain enc ci nt where s: "Start cd rf command =
      Some ((started rf command enc)\<lparr>commitIndex := ci, replicateNotify := nt\<rparr>,
            lastLogIndexLocked rf + 1, currentTerm rf, True)"
    using Start_eq [OF assms, of command] by blast
  let ?rf' = "(started rf command enc)\<lparr>commitIndex := ci, replicateNotify := nt\<rparr>"
  have "lastLogIndexLocked ?rf' = lastLogIndexLocked rf + 1" by (simp add: lastLogIndexLocked_def)
  moreover have "raftstate (persister ?rf') = persist_bytes ?rf'"
    by (simp add: started_def Let_def saved_def Save_def)
  moreover have "nat (me rf) < length (matchIndex rf)"
    using assms(2) True by (auto simp: raft_inv_def node_ok_def nat_less_iff)
  ultimately show ?thesis using True s by simp
next
  case False
  then show ?thesis using Start_quiet [of rf cd command] by auto
qed

theorem Start_correct_witness:
  "\<exists>rf'. Start sample_codec (sample_node Leader 2 0 [1] 0) () = Some (rf', 2, 2, True) \<and>
     lastLogIndexLocked rf' = 2"
  using Start_correct [OF sample_codec_ok sample_node_inv [of 0 "[1]" Leader 2 0], of "()"] by auto

text \<open>
  C30. The applier delivers without gaps and in order: with no snapshot pending it sends exactly
  the commands at the indices after the last one applied up to the commit index, each once, with
  the command of the log at its index; a pending snapshot goes first.
\<close>

theorem applier_in_order:
  assumes "raft_inv cd rf" "\<not> killed rf" "pendingSnapshot rf \<noteq> None \<or> lastApplied rf < commitIndex rf"
  shows "\<exists>rf' ms. applier rf = Some (rf', ApplierSend ms) \<and>
    (case pendingSnapshot rf of
       Some m \<Rightarrow> ms = [m] \<and> pendingSnapshot rf' = None \<and> SnapshotIndex m \<le> lastApplied rf'
     | None \<Rightarrow> map CommandIndex ms = [lastApplied rf + 1..commitIndex rf] \<and>
         (\<forall>m \<in> set ms. CommandValid m \<and> mCommand m = eCommand (entryAt rf (CommandIndex m))) \<and>
         lastApplied rf' = commitIndex rf)"
proof (cases "pendingSnapshot rf")
  case None
  have n: "node_ok cd rf" using assms(1) by (simp add: raft_inv_def)
  show ?thesis
    using applier_commands [OF n assms(2) None] assms(3) None
    by (auto simp: command_msg_def entryAt_def o_def)
next
  case (Some m)
  then show ?thesis using assms(2) by (simp add: applier_def)
qed

theorem applier_in_order_witness:
  "\<exists>rf' ms. applier (sample_node Follower 2 1 [1, 1, 2] 2) = Some (rf', ApplierSend ms) \<and>
     map CommandIndex ms = [1, 2]"
  using applier_in_order [OF sample_node_inv [of 2 "[1, 1, 2]" Follower 2 1]] by (auto simp: upto.simps)

text \<open>
  C31. Compaction: \<^verbatim>\<open>Snapshot\<close> at an applied index keeps the end of the log, every entry above
  the index and the term at the index, and saves the new snapshot with the shortened log in one
  write; at any other index it does nothing.
\<close>

theorem Snapshot_correct:
  assumes "codec_ok cd" "raft_inv cd rf"
  shows "\<exists>rf'. Snapshot cd rf index data = Some rf' \<and>
    (if \<not> killed rf \<and> lastIncludedIndex rf < index \<and> index \<le> lastApplied rf
     then lastIncludedIndex rf' = index \<and> lastLogIndexLocked rf' = lastLogIndexLocked rf \<and>
       eTerm (entryAt rf' index) = eTerm (entryAt rf index) \<and>
       (\<forall>i. index < i \<and> i \<le> lastLogIndexLocked rf \<longrightarrow> entryAt rf' i = entryAt rf i) \<and>
       persister rf' = \<lparr>raftstate = persist_bytes rf', psnapshot = data\<rparr>
     else rf' = rf)"
proof (cases "\<not> killed rf \<and> lastIncludedIndex rf < index \<and> index \<le> lastApplied rf")
  case True
  have n: "node_ok cd rf" using assms(2) by (simp add: raft_inv_def)
  obtain enc where e: "Snapshot cd rf index data = Some (saved (rf\<lparr>lastIncludedIndex := index,
        lastIncludedTerm := eTerm (logs rf ! nat (index - lastIncludedIndex rf)),
        logs := compacted_logs rf index, encodedLogs := enc, snapshot := data\<rparr>))" (is "_ = Some ?rf'")
    using Snapshot_eq [OF assms(1) n, of index data] True by blast
  have le: "lastIncludedIndex rf \<le> index" "index \<le> lastLogIndexLocked rf"
    using True n by (auto simp: node_ok_def)
  have "lastLogIndexLocked ?rf' = lastLogIndexLocked rf"
    using le by (simp add: lastLogIndexLocked_def compacted_logs_def Let_def)
  moreover have "eTerm (entryAt ?rf' index) = eTerm (entryAt rf index)"
    by (simp add: entryAt_def compacted_logs_def Let_def)
  moreover have "\<forall>i. index < i \<and> i \<le> lastLogIndexLocked rf \<longrightarrow> entryAt ?rf' i = entryAt rf i"
    using entryAt_compacted [OF le] by (simp add: entryAt_def)
  moreover have "persister ?rf' = \<lparr>raftstate = persist_bytes ?rf', psnapshot = data\<rparr>"
    by (simp add: saved_def Save_def)
  ultimately show ?thesis using e True by simp
next
  case False
  then show ?thesis using Snapshot_ignored [of rf index cd data] by (auto simp: not_less not_le)
qed

theorem Snapshot_correct_witness:
  "\<exists>rf'. Snapshot sample_codec ((sample_node Follower 2 1 [1, 1, 2] 2)\<lparr>lastApplied := 2\<rparr>) 1 [7] = Some rf' \<and>
     lastIncludedIndex rf' = 1 \<and> psnapshot (persister rf') = [7]"
proof -
  have i: "raft_inv sample_codec (sample_node Follower 2 1 [1, 1, 2] 2)" by (rule sample_node_inv) simp_all
  let ?rf = "(sample_node Follower 2 1 [1, 1, 2] 2)\<lparr>lastApplied := 2\<rparr>"
  have inv: "raft_inv sample_codec ?rf"
    using i by (intro raft_inv_volatile [OF i])
      (auto simp: raft_inv_def node_ok_def lastLogIndexLocked_def cache_ok_def)
  have "\<not> killed ?rf" by (simp add: killed_def sample_node_def)
  with Snapshot_correct [OF sample_codec_ok inv, of 1 "[7]"] show ?thesis by auto
qed

section \<open>Crash recovery\<close>

text \<open>
  C26. What \<^verbatim>\<open>persist\<close> writes, \<^verbatim>\<open>readPersist\<close> reads back, byte for byte and for every log:
  the term, the vote, the log with its cached encodings and the snapshot boundary.
\<close>

theorem persist_roundtrip:
  assumes "cache_ok cd rf" "sizes_ok rf" "logs rf \<noteq> []" "persist rf = Some rf1"
  shows "readPersist cd rf0 (ReadRaftState (persister rf1)) =
    Some (rf0\<lparr>currentTerm := currentTerm rf, votedFor := votedFor rf, logs := logs rf,
              encodedLogs := encodedLogs rf, lastIncludedIndex := lastIncludedIndex rf,
              lastIncludedTerm := lastIncludedTerm rf\<rparr>) \<and>
    ReadSnapshot (persister rf1) = snapshot rf"
proof -
  have "persist_bytes rf \<noteq> []" by (simp add: persist_bytes_def persistMagic_def)
  moreover have "persister rf1 = Save (persister rf) (persist_bytes rf) (snapshot rf)"
    using persist_Some [OF assms(1)] assms(4) by auto
  ultimately show ?thesis
    using readCachedPersist_persist_bytes [OF assms(1-3)] by (simp add: readPersist_def)
qed

theorem persist_roundtrip_witness:
  "\<exists>rf1. persist (sample_node Leader 2 0 [1, 2] 1) = Some rf1 \<and>
     map_option currentTerm (readPersist sample_codec rf1 (ReadRaftState (persister rf1))) = Some 2"
proof -
  let ?rf = "sample_node Leader 2 0 [1, 2] 1"
  have inv: "raft_inv sample_codec ?rf" by (rule sample_node_inv) simp_all
  then have c: "cache_ok sample_codec ?rf" "logs ?rf \<noteq> []" by (auto simp: raft_inv_def node_ok_def)
  have sz: "sizes_ok ?rf"
    by (simp add: sizes_ok_def fits_int64_def sample_node_def sample_logs_def sample_codec_def)
  from persist_roundtrip [OF c(1) sz c(2) persist_saved [OF c(1)], of "saved ?rf"] show ?thesis
    by (simp add: persist_saved [OF c(1)])
qed

end
