(* ===== verification/Raft_Safety.thy ===== *)
theory Raft_Safety
  imports Raft_Replic Raft_Props
begin

text \<open>
  The safety of a cluster: every run of the nodes and the network follows the protocol history, so
  that terms have one leader, logs with a common entry agree before it, committed entries are in the
  log of every later leader, and no two nodes deliver different commands at one index.
\<close>

section \<open>A cluster follows the protocol\<close>

definition msgs_ok :: "nat \<Rightarrow> 'c hist \<Rightarrow> 'c cluster \<Rightarrow> bool" where
  "msgs_ok n h c \<longleftrightarrow>
     (\<forall>p t v w. clElect c p t = Some (v, w) \<longrightarrow> elect_ok n h p t v w) \<and>
     (\<forall>q a. (q, a) \<in> clVoteReq c \<longrightarrow> vote_req_ok n h q a) \<and>
     (\<forall>q a r. (q, a, r) \<in> clVoteRep c \<longrightarrow> vote_rep_ok n h q a r) \<and>
     (\<forall>q a. (q, a) \<in> clAppend c \<longrightarrow> append_req_ok n h q a) \<and>
     (\<forall>q a r. (q, a, r) \<in> clAppendRep c \<longrightarrow> append_rep_ok n h q a r) \<and>
     (\<forall>q a. (q, a) \<in> clInstall c \<longrightarrow> install_req_ok n h q a) \<and>
     (\<forall>q a r. (q, a, r) \<in> clInstallRep c \<longrightarrow> install_rep_ok n h q a r)"

definition follows :: "'c codec \<Rightarrow> nat \<Rightarrow> 'c hist \<Rightarrow> 'c cluster \<Rightarrow> bool" where
  "follows cd n h c \<longleftrightarrow> hist_inv n h \<and> (\<forall>p<n. node_rel cd n h p (clNode c p)) \<and> msgs_ok n h c"

lemma followsD:
  assumes "follows cd n h c"
  shows "hist_inv n h" "p < n \<Longrightarrow> node_rel cd n h p (clNode c p)" "msgs_ok n h c"
  using assms by (auto simp: follows_def)

lemma msgs_okD:
  assumes "msgs_ok n h c"
  shows "clElect c p t = Some (v, w) \<Longrightarrow> elect_ok n h p t v w"
    "(q, a) \<in> clVoteReq c \<Longrightarrow> vote_req_ok n h q a" "(q, a, r) \<in> clVoteRep c \<Longrightarrow> vote_rep_ok n h q a r"
    "(q, b) \<in> clAppend c \<Longrightarrow> append_req_ok n h q b" "(q, b, s) \<in> clAppendRep c \<Longrightarrow> append_rep_ok n h q b s"
    "(q, d) \<in> clInstall c \<Longrightarrow> install_req_ok n h q d" "(q, d, u) \<in> clInstallRep c \<Longrightarrow> install_rep_ok n h q d u"
  using assms unfolding msgs_ok_def by blast+

lemma msgs_later:
  assumes "hist_le h h'" "msgs_ok n h c"
  shows "msgs_ok n h' c"
  using msgs_okD [OF assms(2)] unfolding msgs_ok_def
  by (intro conjI allI impI reply_later [OF assms(1)] append_req_later [OF assms(1)] install_req_later [OF assms(1)]) blast+

lemma follows_node:
  assumes "follows cd n h c" "moves n p h h'" "node_rel cd n h' p rf" "clNode c' = (clNode c)(p := rf)" "msgs_ok n h' c'"
  shows "hist_le h h' \<and> follows cd n h' c'"
  using assms node_rel_moves [OF _ assms(2)] movesD(1,2) [OF assms(2)] by (simp add: follows_def)

text \<open>A section of one node that leaves the messages as they are.\<close>

lemma follows_same:
  assumes "follows cd n h c" "\<exists>h'. moves n p h h' \<and> node_rel cd n h' p rf"
  shows "\<exists>h'. hist_le h h' \<and> follows cd n h' (c\<lparr>clNode := (clNode c)(p := rf)\<rparr>)"
proof -
  obtain h' where h': "moves n p h h'" "node_rel cd n h' p rf" using assms(2) by blast
  note m = msgs_later [OF movesD(2) [OF h'(1)] followsD(3) [OF assms(1)]]
  show ?thesis
    by (rule exI [of _ h'], rule follows_node [OF assms(1) h']) (use m in \<open>simp_all add: msgs_ok_def\<close>)
qed

text \<open>The steps of an election.\<close>

lemma election_follows:
  assumes "follows cd n h c" "p < n" "startElection ev (clNode c p) = Some (rf, reqs)"
  shows "\<exists>h'. hist_le h h' \<and> follows cd n h' (c\<lparr>clNode := (clNode c)(p := rf), clVoteReq := clVoteReq c \<union> to_peers reqs,
      clElect := (if reqs = [] then clElect c
                  else (clElect c)(p := (clElect c p)(currentTerm rf := Some (1, fst ` to_peers reqs))))\<rparr>)"
proof -
  obtain h' where h': "moves n p h h'" "node_rel cd n h' p rf" "\<forall>(q, a) \<in> to_peers reqs. vote_req_ok n h' q a"
    "reqs \<noteq> [] \<longrightarrow> elect_ok n h' p (currentTerm rf) 1 (fst ` to_peers reqs)"
    using startElection_rel [OF followsD(1) [OF assms(1)] followsD(2) [OF assms(1,2)] assms(2,3)] by blast
  note m = msgs_later [OF movesD(2) [OF h'(1)] followsD(3) [OF assms(1)]]
  show ?thesis
    by (rule exI [of _ h'], rule follows_node [OF assms(1) h'(1,2)])
      (use m h'(3,4) in \<open>auto simp: msgs_ok_def\<close>)
qed

lemma vote_follows:
  assumes "follows cd n h c" "(q, args) \<in> clVoteReq c" "RequestVote ev (clNode c q) args = Some (rf, reply)"
  shows "\<exists>h'. hist_le h h' \<and> follows cd n h' (c\<lparr>clNode := (clNode c)(q := rf), clVoteRep := insert (q, args, reply) (clVoteRep c)\<rparr>)"
proof -
  have v: "vote_req_ok n h q args" using msgs_okD(2) [OF followsD(3) [OF assms(1)] assms(2)] .
  then have q: "q < n" by (simp add: vote_req_ok_def)
  obtain h' where h': "moves n q h h'" "node_rel cd n h' q rf" "vote_rep_ok n h' q args reply"
    using RequestVote_rel [OF followsD(1) [OF assms(1)] followsD(2) [OF assms(1) q] v assms(3)] by blast
  note m = msgs_later [OF movesD(2) [OF h'(1)] followsD(3) [OF assms(1)]]
  show ?thesis
    by (rule exI [of _ h'], rule follows_node [OF assms(1) h'(1,2)]) (use m h'(3) in \<open>auto simp: msgs_ok_def\<close>)
qed

lemma vote_reply_follows:
  assumes "follows cd n h c" "p < n" "clElect c p t = Some (votes, waiting)" "q \<in> waiting" "(q, args, reply) \<in> clVoteRep c"
    "rvTerm args = t" "rvCandidateId args = int p" "election_reply ev (clNode c p) votes t reply = Some (rf, votes')"
  shows "\<exists>h'. hist_le h h' \<and> follows cd n h' (c\<lparr>clNode := (clNode c)(p := rf),
      clElect := (clElect c)(p := (clElect c p)(t := Some (votes', waiting - {q})))\<rparr>)"
proof -
  note M = msgs_okD [OF followsD(3) [OF assms(1)]]
  obtain h' where h': "moves n p h h'" "node_rel cd n h' p rf" "elect_ok n h' p t votes' (waiting - {q})"
    using election_reply_rel [OF followsD(1) [OF assms(1)] followsD(2) [OF assms(1,2)] assms(2) M(1) [OF assms(3)] assms(4)
        M(3) [OF assms(5)] assms(6-8)] by blast
  note m = msgs_later [OF movesD(2) [OF h'(1)] followsD(3) [OF assms(1)]]
  show ?thesis
    by (rule exI [of _ h'], rule follows_node [OF assms(1) h'(1,2)]) (use m h'(3) in \<open>auto simp: msgs_ok_def\<close>)
qed

text \<open>The steps of replication.\<close>

lemma heartbeat_follows:
  assumes "follows cd n h c" "p < n" "heartbeatOrNotifyReplication ev (clNode c p) = Some (rf, tasks, rescue)"
  shows "\<exists>h'. hist_le h h' \<and> follows cd n h' (c\<lparr>clNode := (clNode c)(p := rf), clAppend := clAppend c \<union> to_peers tasks\<rparr>)"
proof -
  note r = heartbeat_rel [OF followsD(1) [OF assms(1)] followsD(2) [OF assms(1,2)] assms(2,3)]
  show ?thesis
    by (rule exI [of _ h], rule follows_node [OF assms(1) moves_refl [OF followsD(1) [OF assms(1)]] r(1)])
      (use followsD(3) [OF assms(1)] r(2) in \<open>auto simp: msgs_ok_def\<close>)
qed

lemma append_follows:
  assumes "codec_ok cd" "follows cd n h c" "(q, args) \<in> clAppend c" "AppendEntries cd ev (clNode c q) args = Some (rf, reply)"
  shows "\<exists>h'. hist_le h h' \<and> follows cd n h' (c\<lparr>clNode := (clNode c)(q := rf), clAppendRep := insert (q, args, reply) (clAppendRep c)\<rparr>)"
proof -
  have v: "append_req_ok n h q args" using msgs_okD(4) [OF followsD(3) [OF assms(2)] assms(3)] .
  then have q: "q < n" by (simp add: append_req_ok_def)
  obtain h' where h': "moves n q h h'" "node_rel cd n h' q rf" "append_rep_ok n h' q args reply"
    using AppendEntries_rel [OF assms(1) followsD(1) [OF assms(2)] followsD(2) [OF assms(2) q] v assms(4)] by blast
  note m = msgs_later [OF movesD(2) [OF h'(1)] followsD(3) [OF assms(2)]]
  show ?thesis
    by (rule exI [of _ h'], rule follows_node [OF assms(2) h'(1,2)]) (use m h'(3) in \<open>auto simp: msgs_ok_def\<close>)
qed

lemma install_follows:
  assumes "codec_ok cd" "follows cd n h c" "(q, args) \<in> clInstall c" "InstallSnapshot cd ev (clNode c q) args = Some (rf, reply)"
  shows "\<exists>h'. hist_le h h' \<and> follows cd n h' (c\<lparr>clNode := (clNode c)(q := rf), clInstallRep := insert (q, args, reply) (clInstallRep c)\<rparr>)"
proof -
  have v: "install_req_ok n h q args" using msgs_okD(6) [OF followsD(3) [OF assms(2)] assms(3)] .
  then have q: "q < n" by (simp add: install_req_ok_def)
  obtain h' where h': "moves n q h h'" "node_rel cd n h' q rf" "install_rep_ok n h' q args reply"
    using InstallSnapshot_rel [OF assms(1) followsD(1) [OF assms(2)] followsD(2) [OF assms(2) q] v assms(4)] by blast
  note m = msgs_later [OF movesD(2) [OF h'(1)] followsD(3) [OF assms(2)]]
  show ?thesis
    by (rule exI [of _ h'], rule follows_node [OF assms(2) h'(1,2)]) (use m h'(3) in \<open>auto simp: msgs_ok_def\<close>)
qed

lemma send_follows:
  assumes "follows cd n h c" "p < n" "q < n"
  shows "replicate_build (clNode c p) (int q) = Some (RepAppend args) \<Longrightarrow> follows cd n h (c\<lparr>clAppend := insert (q, args) (clAppend c)\<rparr>)"
    and "replicate_build (clNode c p) (int q) = Some (RepSnapshot sargs) \<Longrightarrow> follows cd n h (c\<lparr>clInstall := insert (q, sargs) (clInstall c)\<rparr>)"
  using replicate_build_rel [OF followsD(1) [OF assms(1)] followsD(2) [OF assms(1,2)] assms(3)] assms(1)
  by (auto simp: follows_def msgs_ok_def)

lemma crash_follows:
  assumes "codec_ok cd" "follows cd n h c" "p < n" "sizes_ok (clNode c p)" "Make cd ev n (int p) (persister (clNode c p)) = Some rf"
  shows "follows cd n h (c\<lparr>clNode := (clNode c)(p := rf), clElect := (clElect c)(p := (\<lambda>_. None))\<rparr>)"
proof -
  have r: "node_rel cd n h p rf" using crash_rel [OF assms(1) followsD(2) [OF assms(2,3)] assms(4,5)] .
  show ?thesis
    by (rule conjunct2, rule follows_node [OF assms(2) moves_refl [OF followsD(1) [OF assms(2)]] r])
      (use followsD(3) [OF assms(2)] in \<open>auto simp: msgs_ok_def\<close>)
qed

lemma net_follows:
  assumes "cluster_net cd n c c'" "codec_ok cd" "follows cd n h c"
  shows "\<exists>h'. hist_le h h' \<and> follows cd n h' c'"
  using assms(1)
proof cases
  case start_election
  then show ?thesis using election_follows [OF assms(3)] by simp
next
  case vote
  then show ?thesis using vote_follows [OF assms(3)] by simp
next
  case vote_reply
  then show ?thesis using vote_reply_follows [OF assms(3)] by simp
next
  case send_append
  then show ?thesis using send_follows(1) [OF assms(3)] hist_le_refl by blast
next
  case send_install
  then show ?thesis using send_follows(2) [OF assms(3)] hist_le_refl by blast
next
  case heartbeat
  then show ?thesis using heartbeat_follows [OF assms(3)] by simp
next
  case append
  then show ?thesis using append_follows [OF assms(2,3)] by simp
next
  case install
  then show ?thesis using install_follows [OF assms(2,3)] by simp
next
  case (append_reply p q args areply ev rf ctl)
  show ?thesis unfolding append_reply(1)
    by (rule follows_same [OF assms(3) append_done_rel [OF followsD(1) [OF assms(3)] followsD(2) [OF assms(3) append_reply(2)]
          msgs_okD(5) [OF followsD(3) [OF assms(3)] append_reply(3)] append_reply(5)]])
next
  case (heartbeat_reply p q args areply ev rf)
  show ?thesis unfolding heartbeat_reply(1)
    by (rule follows_same [OF assms(3) heartbeat_reply_rel [OF followsD(1) [OF assms(3)] followsD(2) [OF assms(3) heartbeat_reply(2)]
          heartbeat_reply(5)]])
next
  case (install_reply p q args sreply ev rf ctl)
  show ?thesis unfolding install_reply(1)
    by (rule follows_same [OF assms(3) snapshot_reply_rel [OF followsD(1) [OF assms(3)] followsD(2) [OF assms(3) install_reply(2)]
          msgs_okD(7) [OF followsD(3) [OF assms(3)] install_reply(3)] install_reply(5)]])
qed

lemma cluster_follows:
  assumes "cluster_step cd n c c'" "codec_ok cd" "follows cd n h c"
  shows "\<exists>h'. hist_le h h' \<and> follows cd n h' c'"
  using assms(1)
proof cases
  case net
  then show ?thesis using net_follows [OF _ assms(2,3)] by blast
next
  case (local p e ev rf)
  show ?thesis unfolding local(1)
    by (rule follows_same [OF assms(3) local_rel [OF assms(2) followsD(1) [OF assms(3)] followsD(2) [OF assms(3) local(2)] local(2-4)]])
next
  case crash
  then show ?thesis using crash_follows [OF assms(2,3)] hist_le_refl by blast
qed

lemma cluster_run_follows:
  assumes "(cluster_step cd n)\<^sup>*\<^sup>* c c'" "codec_ok cd" "follows cd n h c"
  shows "\<exists>h'. hist_le h h' \<and> follows cd n h' c'"
  using assms(1)
proof (induction rule: rtranclp_induct)
  case base
  then show ?case using assms(3) hist_le_refl by blast
next
  case (step c1 c2)
  then show ?case using cluster_follows [OF step(2) assms(2)] hist_le_trans by blast
qed

text \<open>The history of a new cluster.\<close>

definition hist0 :: "'c hist" where
  "hist0 = \<lparr>hTerm = (\<lambda>_. 0), hLog = (\<lambda>_. [\<lparr>eTerm = 0, eCommand = None\<rparr>]), hVote = (\<lambda>_ _. None), hVlog = (\<lambda>_ _. []),
     hCand = (\<lambda>_ _. None), hLead = (\<lambda>_. None), hQuo = (\<lambda>_. {}), hBase = (\<lambda>_. []), hLL = (\<lambda>_. []), hAck = {}\<rparr>"

lemma hist0_inv: "hist_inv n hist0"
  by (simp add: hist_inv_def hist0_def log_fact_def built_def)

lemma start_follows:
  assumes "codec_ok cd" "cluster_start cd n c"
  shows "follows cd n hist0 c"
proof -
  have "node_rel cd n hist0 p (clNode c p)" if p: "p < n" for p
  proof -
    obtain ev where "Make cd ev n (int p) MakePersister = Some (clNode c p)" using assms(2) p by (auto simp: cluster_start_def)
    then have m: "raft_inv cd (clNode c p)" "fresh_durable (clNode c p)" "npeers (clNode c p) = n" "me (clNode c p) = int p"
      "rstate (clNode c p) = Follower" using Make_fresh_inv [OF assms(1), of "int p" n ev] p by auto
    have "commitIndex (clNode c p) = 0" using m(1,2) by (simp add: raft_inv_def node_ok_def fresh_durable_def lastLogIndexLocked_def)
    then show ?thesis using m by (simp add: node_rel_def hist0_def fresh_durable_def compact_def safe_def)
  qed
  moreover have "msgs_ok n hist0 c" using assms(2) by (simp add: msgs_ok_def cluster_start_def)
  ultimately show ?thesis using hist0_inv by (simp add: follows_def)
qed

section \<open>What is observed of a node\<close>

text \<open>The entry of the log at an index behind the snapshot.\<close>

definition entry_at :: "'c raft \<Rightarrow> int \<Rightarrow> 'c log_entry option" where
  "entry_at rf i =
     (if lastIncludedIndex rf < i \<and> i \<le> lastLogIndexLocked rf then Some (logs rf ! nat (i - lastIncludedIndex rf)) else None)"

text \<open>The commands, with their indices, that the next turn of the applier sends on \<^verbatim>\<open>applyCh\<close>.\<close>

definition deliveries :: "'c raft \<Rightarrow> (int \<times> 'c option) list" where
  "deliveries rf = (case applier rf of
       Some (_, ApplierSend ms) \<Rightarrow> map (\<lambda>m. (CommandIndex m, mCommand m)) (filter CommandValid ms)
     | _ \<Rightarrow> [])"

lemma entry_at_rel:
  assumes "node_rel cd n h p rf"
  shows "entry_at rf i = (if lastIncludedIndex rf < i \<and> nat i < length (hLog h p) then Some (hLog h p ! nat i) else None)"
  using node_rel_log(1,3) [OF assms] node_rel_log(6) [OF assms, of "nat i"] by (auto simp: entry_at_def)

lemma deliveries_committed:
  assumes "node_rel cd n h p rf" "(i, x) \<in> set (deliveries rf)"
  shows "i \<le> commitIndex rf" "0 < i" "nat i < length (hLog h p)" "x = eCommand (hLog h p ! nat i)"
proof -
  have n: "node_ok cd rf" using node_relD(1) [OF assms(1)] by (simp add: raft_inv_def)
  have s: "\<not> killed rf" "pendingSnapshot rf = None" "lastApplied rf < commitIndex rf"
    using assms(2) n by (auto simp: deliveries_def applier_def node_ok_def Let_def split: if_splits option.splits)
  have i: "lastApplied rf < i" "i \<le> commitIndex rf" "x = eCommand (logs rf ! nat (i - lastIncludedIndex rf))"
    using assms(2) by (auto simp: deliveries_def applier_commands [OF n s] command_msg_def)
  have k: "lastIncludedIndex rf < i" using i(1) n by (simp add: node_ok_def)
  then show "i \<le> commitIndex rf" "0 < i" using i(2) node_rel_log(1) [OF assms(1)] by simp_all
  show "nat i < length (hLog h p)" using i(2) node_rel_log(2,9) [OF assms(1)] by simp
  then show "x = eCommand (hLog h p ! nat i)" using node_rel_log(6) [OF assms(1), of "nat i"] i(3) k node_rel_log(1) [OF assms(1)] by simp
qed

section \<open>Safety\<close>

text \<open>Two clusters of one run, with the history that explains the first and the longer one of the second.\<close>

lemma run_histories:
  assumes "codec_ok cd" "cluster_start cd n c0" "(cluster_step cd n)\<^sup>*\<^sup>* c0 c" "(cluster_step cd n)\<^sup>*\<^sup>* c c'"
  obtains h h' where "follows cd n h c" "follows cd n h' c'" "hist_le h h'"
  using cluster_run_follows [OF assms(3,1) start_follows [OF assms(1,2)]] cluster_run_follows [OF assms(4,1)] by blast

lemma leader_history:
  assumes "follows cd n h c" "p < n" "rstate (clNode c p) = Leader"
  shows "hLead h (currentTerm (clNode c p)) = Some p" "hLL h (currentTerm (clNode c p)) = hLog h p"
  using node_relD(12) [OF followsD(2) [OF assms(1,2)] assms(3)] by (simp_all add: leads_def)

lemma logs_built:
  assumes "follows cd n h c" "p < n"
  shows "built h (hLog h p)"
  using hist_invD(1) [OF followsD(1) [OF assms(1)] assms(2)] by (simp add: log_fact_def)

text \<open>
  C6. Election safety: in every run of a cluster, with messages lost, repeated and reordered and nodes
  that crash and restart, two nodes that are leaders of the same term, at the same time or one later
  than the other, are the same node.
\<close>

theorem election_safety:
  assumes "codec_ok cd" "cluster_start cd n c0" "(cluster_step cd n)\<^sup>*\<^sup>* c0 c" "(cluster_step cd n)\<^sup>*\<^sup>* c c'"
    "p < n" "q < n" "rstate (clNode c p) = Leader" "rstate (clNode c' q) = Leader"
    "currentTerm (clNode c p) = currentTerm (clNode c' q)"
  shows "p = q"
proof -
  obtain h h' where h: "follows cd n h c" "follows cd n h' c'" "hist_le h h'" using run_histories [OF assms(1-4)] .
  have "hLead h' (currentTerm (clNode c p)) = Some p" using hist_leD(5) [OF h(3) leader_history(1) [OF h(1) assms(5,7)]] .
  then show ?thesis using leader_history(1) [OF h(2) assms(6,8)] assms(9) by simp
qed

text \<open>
  C7. Log matching: when the logs of two nodes, at the same time or one later than the other, have
  entries of the same term at an index, they have the same entries at this index and at every
  index before it that neither has discarded with a snapshot.
\<close>

theorem log_matching_property:
  assumes "codec_ok cd" "cluster_start cd n c0" "(cluster_step cd n)\<^sup>*\<^sup>* c0 c" "(cluster_step cd n)\<^sup>*\<^sup>* c c'"
    "p < n" "q < n" "entry_at (clNode c p) i = Some e" "entry_at (clNode c' q) i = Some e'" "eTerm e = eTerm e'"
    "j \<le> i" "lastIncludedIndex (clNode c p) < j" "lastIncludedIndex (clNode c' q) < j"
  shows "entry_at (clNode c p) j = entry_at (clNode c' q) j \<and> entry_at (clNode c p) j \<noteq> None"
proof -
  obtain h h' where h: "follows cd n h c" "follows cd n h' c'" "hist_le h h'" using run_histories [OF assms(1-4)] .
  note e = entry_at_rel [OF followsD(2) [OF h(1) assms(5)]] and e' = entry_at_rel [OF followsD(2) [OF h(2) assms(6)]]
  have i: "nat i < length (hLog h p)" "nat i < length (hLog h' q)" "eTerm (hLog h p ! nat i) = eTerm (hLog h' q ! nat i)"
    using assms(7-9) unfolding e e' by (auto split: if_splits)
  have t: "take (Suc (nat i)) (hLog h p) = take (Suc (nat i)) (hLog h' q)"
    using log_matching [OF built_later [OF h(3) logs_built [OF h(1) assms(5)]] logs_built [OF h(2) assms(6)] i] .
  have "nat j < Suc (nat i)" using assms(10) by linarith
  then have "hLog h p ! nat j = hLog h' q ! nat j" using arg_cong [OF t, of "\<lambda>l. l ! nat j"] by simp
  then show ?thesis using assms(10-12) i(1,2) unfolding e e' by auto
qed

text \<open>
  C5. Leader completeness: an entry that some node has committed is in the log of every later leader of
  that or a higher term, or in its snapshot.
\<close>

theorem leader_completeness:
  assumes "codec_ok cd" "cluster_start cd n c0" "(cluster_step cd n)\<^sup>*\<^sup>* c0 c" "(cluster_step cd n)\<^sup>*\<^sup>* c c'"
    "p < n" "q < n" "entry_at (clNode c p) i = Some e" "i \<le> commitIndex (clNode c p)"
    "rstate (clNode c' q) = Leader" "currentTerm (clNode c p) \<le> currentTerm (clNode c' q)"
  shows "entry_at (clNode c' q) i = Some e \<or> i \<le> lastIncludedIndex (clNode c' q)"
proof -
  obtain h h' where h: "follows cd n h c" "follows cd n h' c'" "hist_le h h'" using run_histories [OF assms(1-4)] .
  note r = followsD(2) [OF h(1) assms(5)] and r' = followsD(2) [OF h(2) assms(6)]
  have i: "0 < i" "e = hLog h p ! nat i" using assms(7) node_rel_log(1) [OF r] by (auto simp: entry_at_rel [OF r] split: if_splits)
  have "safe n h p (nat i)" using safe_le [OF node_relD(9) [OF r]] assms(8) by simp
  then obtain u k where u: "u \<le> hTerm h p" "nat i \<le> k" "chosen n h u k" "has h (hLog h p) u (nat i)"
    using i(1) by (auto simp: safe_def)
  have "has h' (hLog h' q) u k"
    using chosen_in_leaders [OF followsD(1) [OF h(2)] chosen_later [OF h(3) u(3)], of "currentTerm (clNode c' q)"]
      leader_history [OF h(2) assms(6,9)] u(1) assms(10) node_relD(4) [OF r] by simp
  then have q: "has h' (hLog h' q) u (nat i)" using has_le u(2) by blast
  have p: "has h' (hLog h p) u (nat i)" using has_later [OF h(3) _ u(4)] u(3) by (auto simp: chosen_def)
  have "hLog h' q ! nat i = e" "nat i < length (hLog h' q)"
    using has_nth [OF q, of "nat i"] has_nth [OF p, of "nat i"] i(2) q by (simp_all add: has_def)
  then show ?thesis by (auto simp: entry_at_rel [OF r'])
qed

text \<open>
  C4. State machine safety: if one node delivers a command to its service at some index, no node ever
  delivers a different command at that index.
\<close>

theorem state_machine_safety:
  assumes "codec_ok cd" "cluster_start cd n c0" "(cluster_step cd n)\<^sup>*\<^sup>* c0 c" "(cluster_step cd n)\<^sup>*\<^sup>* c c'"
    "p < n" "q < n" "(i, x) \<in> set (deliveries (clNode c p))" "(i, y) \<in> set (deliveries (clNode c' q))"
  shows "x = y"
proof -
  obtain h h' where h: "follows cd n h c" "follows cd n h' c'" "hist_le h h'" using run_histories [OF assms(1-4)] .
  note r = followsD(2) [OF h(1) assms(5)] and r' = followsD(2) [OF h(2) assms(6)]
  note d = deliveries_committed [OF r assms(7)] and d' = deliveries_committed [OF r' assms(8)]
  have "safe n h p (nat i)" "safe n h' q (nat i)"
    using safe_le [OF node_relD(9) [OF r], of "nat i"] safe_le [OF node_relD(9) [OF r'], of "nat i"] d(1) d'(1) by simp_all
  then have t: "take (Suc (nat i)) (hLog h p) = take (Suc (nat i)) (hLog h' q)"
    using safe_agree [OF followsD(1) [OF h(1)] followsD(1) [OF h(2)] h(3) assms(5,6)] by blast
  have "hLog h p ! nat i = hLog h' q ! nat i" using arg_cong [OF t, of "\<lambda>l. l ! nat i"] by simp
  then show ?thesis using d(4) d'(4) by simp
qed

section \<open>No section panics\<close>

text \<open>Every section that can run in a cluster, on the messages that were really sent, runs to its end.\<close>

definition cluster_ready :: "'c codec \<Rightarrow> go_env \<Rightarrow> nat \<Rightarrow> 'c cluster \<Rightarrow> bool" where
  "cluster_ready cd ev n c \<longleftrightarrow>
     (\<forall>p<n. startElection ev (clNode c p) \<noteq> None \<and> heartbeatOrNotifyReplication ev (clNode c p) \<noteq> None \<and>
        (\<forall>q<n. replicate_build (clNode c p) (int q) \<noteq> None) \<and>
        (\<forall>e. local_event (clNode c p) e \<longrightarrow> raft_step cd ev (clNode c p) e \<noteq> None) \<and>
        (sizes_ok (clNode c p) \<longrightarrow> Make cd ev n (int p) (persister (clNode c p)) \<noteq> None)) \<and>
     (\<forall>q a. (q, a) \<in> clVoteReq c \<longrightarrow> RequestVote ev (clNode c q) a \<noteq> None) \<and>
     (\<forall>q a r. (q, a, r) \<in> clVoteRep c \<longrightarrow> (\<forall>p<n. \<forall>v. election_reply ev (clNode c p) v (rvTerm a) r \<noteq> None)) \<and>
     (\<forall>q a. (q, a) \<in> clAppend c \<longrightarrow> AppendEntries cd ev (clNode c q) a \<noteq> None) \<and>
     (\<forall>q a. (q, a) \<in> clInstall c \<longrightarrow> InstallSnapshot cd ev (clNode c q) a \<noteq> None) \<and>
     (\<forall>q a r. (q, a, r) \<in> clAppendRep c \<longrightarrow> (\<forall>p<n. replicate_append_done ev (clNode c p) (int q) a r \<noteq> None \<and> heartbeat_reply ev (clNode c p) r \<noteq> None)) \<and>
     (\<forall>q a r. (q, a, r) \<in> clInstallRep c \<longrightarrow> (\<forall>p<n. replicate_snapshot_reply ev (clNode c p) (int q) a r \<noteq> None))"

lemma ready_node:
  assumes "codec_ok cd" "follows cd n h c" "p < n"
  shows "startElection ev (clNode c p) \<noteq> None" "heartbeatOrNotifyReplication ev (clNode c p) \<noteq> None"
    "q < n \<Longrightarrow> replicate_build (clNode c p) (int q) \<noteq> None"
    "local_event (clNode c p) e \<Longrightarrow> raft_step cd ev (clNode c p) e \<noteq> None"
    "sizes_ok (clNode c p) \<Longrightarrow> Make cd ev n (int p) (persister (clNode c p)) \<noteq> None"
    "RequestVote ev (clNode c p) va \<noteq> None" "election_reply ev (clNode c p) v t vr \<noteq> None"
    "InstallSnapshot cd ev (clNode c p) ia \<noteq> None" "heartbeat_reply ev (clNode c p) ar \<noteq> None"
    "q < n \<Longrightarrow> replicate_append_done ev (clNode c p) (int q) aa ar \<noteq> None"
    "q < n \<Longrightarrow> replicate_snapshot_reply ev (clNode c p) (int q) ia ir \<noteq> None"
proof -
  note r = node_relD(1-3) [OF followsD(2) [OF assms(2,3)]]
  have q: "int q < int (npeers (clNode c p))" if "q < n" for q using that r(3) by simp
  have ok: "local_event (clNode c p) e \<Longrightarrow> event_ok (clNode c p) e" by (cases e) (simp_all add: event_ok_def)
  show "startElection ev (clNode c p) \<noteq> None" using startElection_inv [OF r(1), of ev] by auto
  show "heartbeatOrNotifyReplication ev (clNode c p) \<noteq> None" using heartbeatOrNotifyReplication_inv [OF r(1), of ev] by auto
  show "replicate_build (clNode c p) (int q) \<noteq> None" if "q < n" using replicate_build_Some [OF r(1) _ q [OF that]] by auto
  show "raft_step cd ev (clNode c p) e \<noteq> None" if "local_event (clNode c p) e"
    using raft_step_inv [OF assms(1) r(1) ok [OF that], of ev] by auto
  show "Make cd ev n (int p) (persister (clNode c p)) \<noteq> None" if "sizes_ok (clNode c p)"
    using restart_inv [OF assms(1) r(1) that, of ev] r(2,3) by auto
  show "RequestVote ev (clNode c p) va \<noteq> None" using RequestVote_inv [OF r(1), of ev va] by auto
  show "election_reply ev (clNode c p) v t vr \<noteq> None" using election_reply_inv [OF r(1), of ev v t vr] by auto
  show "InstallSnapshot cd ev (clNode c p) ia \<noteq> None" using InstallSnapshot_inv [OF assms(1) r(1), of ev ia] by auto
  show "heartbeat_reply ev (clNode c p) ar \<noteq> None" using heartbeat_reply_inv [OF r(1), of ev ar] by auto
  show "replicate_append_done ev (clNode c p) (int q) aa ar \<noteq> None" if "q < n"
    using replicate_append_done_inv [OF r(1) _ q [OF that], of ev aa ar] by auto
  show "replicate_snapshot_reply ev (clNode c p) (int q) ia ir \<noteq> None" if "q < n"
    using replicate_snapshot_reply_inv [OF r(1) _ q [OF that], of ev ia ir] by auto
qed


section \<open>Runs of a concrete cluster\<close>

text \<open>The steps of a cluster as a function of what happens, so that runs can be computed.\<close>

datatype 'c cluster_event =
    CElection nat
  | CVote nat vote_args
  | CVoteReply nat nat vote_args vote_reply
  | CSend nat nat
  | CHeartbeat nat
  | CAppend nat "'c append_args"
  | CInstall nat install_args
  | CAppendReply nat nat "'c append_args" append_reply
  | CInstallReply nat nat install_args install_reply
  | CLocal nat "'c raft_event"

fun cluster_exec :: "'c codec \<Rightarrow> go_env \<Rightarrow> nat \<Rightarrow> 'c cluster \<Rightarrow> 'c cluster_event \<Rightarrow> 'c cluster option" where
  "cluster_exec cd ev n c (CElection p) =
     (case startElection ev (clNode c p) of
        Some (rf, reqs) \<Rightarrow>
          if p < n then Some (c\<lparr>clNode := (clNode c)(p := rf), clVoteReq := clVoteReq c \<union> to_peers reqs,
            clElect := (if reqs = [] then clElect c
                        else (clElect c)(p := (clElect c p)(currentTerm rf := Some (1, fst ` to_peers reqs))))\<rparr>)
          else None
      | None \<Rightarrow> None)"
| "cluster_exec cd ev n c (CVote q args) =
     (case RequestVote ev (clNode c q) args of
        Some (rf, reply) \<Rightarrow>
          if (q, args) \<in> clVoteReq c
          then Some (c\<lparr>clNode := (clNode c)(q := rf), clVoteRep := insert (q, args, reply) (clVoteRep c)\<rparr>) else None
      | None \<Rightarrow> None)"
| "cluster_exec cd ev n c (CVoteReply p q args reply) =
     (case clElect c p (rvTerm args) of
        Some (votes, waiting) \<Rightarrow>
          (case election_reply ev (clNode c p) votes (rvTerm args) reply of
             Some (rf, votes') \<Rightarrow>
               if p < n \<and> q \<in> waiting \<and> (q, args, reply) \<in> clVoteRep c \<and> rvCandidateId args = int p
               then Some (c\<lparr>clNode := (clNode c)(p := rf),
                 clElect := (clElect c)(p := (clElect c p)(rvTerm args := Some (votes', waiting - {q})))\<rparr>) else None
           | None \<Rightarrow> None)
      | None \<Rightarrow> None)"
| "cluster_exec cd ev n c (CSend p q) =
     (if p < n \<and> q < n \<and> q \<noteq> p then
        (case replicate_build (clNode c p) (int q) of
           Some (RepAppend args) \<Rightarrow> Some (c\<lparr>clAppend := insert (q, args) (clAppend c)\<rparr>)
         | Some (RepSnapshot args) \<Rightarrow> Some (c\<lparr>clInstall := insert (q, args) (clInstall c)\<rparr>)
         | _ \<Rightarrow> None)
      else None)"
| "cluster_exec cd ev n c (CHeartbeat p) =
     (case heartbeatOrNotifyReplication ev (clNode c p) of
        Some (rf, tasks, rescue) \<Rightarrow>
          if p < n then Some (c\<lparr>clNode := (clNode c)(p := rf), clAppend := clAppend c \<union> to_peers tasks\<rparr>) else None
      | None \<Rightarrow> None)"
| "cluster_exec cd ev n c (CAppend q args) =
     (case AppendEntries cd ev (clNode c q) args of
        Some (rf, reply) \<Rightarrow>
          if (q, args) \<in> clAppend c
          then Some (c\<lparr>clNode := (clNode c)(q := rf), clAppendRep := insert (q, args, reply) (clAppendRep c)\<rparr>) else None
      | None \<Rightarrow> None)"
| "cluster_exec cd ev n c (CInstall q args) =
     (case InstallSnapshot cd ev (clNode c q) args of
        Some (rf, reply) \<Rightarrow>
          if (q, args) \<in> clInstall c
          then Some (c\<lparr>clNode := (clNode c)(q := rf), clInstallRep := insert (q, args, reply) (clInstallRep c)\<rparr>) else None
      | None \<Rightarrow> None)"
| "cluster_exec cd ev n c (CAppendReply p q args reply) =
     (case replicate_append_done ev (clNode c p) (int q) args reply of
        Some (rf, ctl) \<Rightarrow>
          if p < n \<and> (q, args, reply) \<in> clAppendRep c \<and> aeLeaderId args = int p
          then Some (c\<lparr>clNode := (clNode c)(p := rf)\<rparr>) else None
      | None \<Rightarrow> None)"
| "cluster_exec cd ev n c (CInstallReply p q args reply) =
     (case replicate_snapshot_reply ev (clNode c p) (int q) args reply of
        Some (rf, ctl) \<Rightarrow>
          if p < n \<and> (q, args, reply) \<in> clInstallRep c \<and> isLeaderId args = int p
          then Some (c\<lparr>clNode := (clNode c)(p := rf)\<rparr>) else None
      | None \<Rightarrow> None)"
| "cluster_exec cd ev n c (CLocal p e) =
     (case raft_step cd ev (clNode c p) e of
        Some rf \<Rightarrow> if p < n \<and> local_event (clNode c p) e then Some (c\<lparr>clNode := (clNode c)(p := rf)\<rparr>) else None
      | None \<Rightarrow> None)"

fun cluster_runs :: "'c codec \<Rightarrow> go_env \<Rightarrow> nat \<Rightarrow> 'c cluster \<Rightarrow> 'c cluster_event list \<Rightarrow> 'c cluster option" where
  "cluster_runs cd ev n c [] = Some c"
| "cluster_runs cd ev n c (e # es) = (case cluster_exec cd ev n c e of Some c' \<Rightarrow> cluster_runs cd ev n c' es | None \<Rightarrow> None)"

lemma cluster_exec_net:
  assumes "cluster_exec cd ev n c e = Some c'" "\<nexists>p x. e = CLocal p x"
  shows "cluster_net cd n c c'"
proof (cases e)
  case (CElection p)
  then show ?thesis
    using assms cluster_net.start_election [of p n ev c _ _ cd] by (auto split: option.splits if_splits simp del: fun_upd_apply)
qed (use assms in \<open>auto split: option.splits prod.splits if_splits rep_request.splits simp del: fun_upd_apply
      intro: cluster_net.intros\<close>)

lemma cluster_exec_step:
  assumes "cluster_exec cd ev n c e = Some c'"
  shows "cluster_step cd n c c'"
proof (cases "\<exists>p x. e = CLocal p x")
  case True
  then show ?thesis using assms by (auto split: option.splits if_splits intro: cluster_step.local)
next
  case False
  then show ?thesis using cluster_exec_net [OF assms] cluster_step.net by blast
qed

lemma cluster_runs_steps:
  "cluster_runs cd ev n c es = Some c' \<Longrightarrow> (cluster_step cd n)\<^sup>*\<^sup>* c c'"
  by (induction es arbitrary: c) (auto split: option.splits intro: converse_rtranclp_into_rtranclp cluster_exec_step)

text \<open>A codec for numbers as commands, in unary.\<close>

definition count_codec :: "nat codec" where
  "count_codec =
     \<lparr>encEntry = (\<lambda>e. Some (replicate (case eCommand e of None \<Rightarrow> 0 | Some k \<Rightarrow> Suc k) 1 @ 0 # (if eTerm e < 0 then 1 else 0) #
                            replicate (nat \<bar>eTerm e\<bar>) 0)),
      decEntry = (\<lambda>b. case dropWhile (\<lambda>x. x = 1) b of
          _ # s # r \<Rightarrow> Some \<lparr>eTerm = (if s = 0 then int (length r) else - int (length r)),
             eCommand = (case length (takeWhile (\<lambda>x. x = 1) b) of 0 \<Rightarrow> None | Suc k \<Rightarrow> Some k)\<rparr>
        | _ \<Rightarrow> None),
      decLegacy = (\<lambda>_. None)\<rparr>"

lemma count_codec_ok: "codec_ok count_codec"
  unfolding codec_ok_def
proof
  fix e :: "nat log_entry"
  have t: "takeWhile (\<lambda>x. x = 1) (replicate k (1::8 word) @ 0 # r) = replicate k 1"
    "dropWhile (\<lambda>x. x = 1) (replicate k (1::8 word) @ 0 # r) = 0 # r" for k r by (induction k) auto
  show "\<exists>b. encEntry count_codec e = Some b \<and> decEntry count_codec b = Some e"
    by (cases e; cases "eCommand e") (auto simp: count_codec_def t)
qed

text \<open>
  Three nodes: node 0 is elected by node 1, commits a command together with node 1, and then
  node 1 is elected by node 2, which has an empty log, in the next term.
\<close>

definition sample_cluster :: "nat cluster" where
  "sample_cluster =
     \<lparr>clNode = (\<lambda>p. the (Make count_codec sample_env 3 (int p) MakePersister)), clElect = (\<lambda>_ _. None), clVoteReq = {},
      clVoteRep = {}, clAppend = {}, clAppendRep = {}, clInstall = {}, clInstallRep = {}\<rparr>"

definition run_env :: "int \<Rightarrow> go_env" where
  "run_env k = \<lparr>now = k * 100000000000, rnd63 = 7\<rparr>"

definition elected_run :: "nat cluster_event list" where
  "elected_run =
     (let va = \<lparr>rvTerm = 1, rvCandidateId = 0, rvLastLogIndex = 0, rvLastLogTerm = 0\<rparr>
      in [CElection 0, CVote 1 va, CVoteReply 0 1 va \<lparr>rvrTerm = 1, rvrVoteGranted = True\<rparr>])"

definition commit_run :: "nat cluster_event list" where
  "commit_run =
     (let e = \<lparr>eTerm = 1, eCommand = Some 7\<rparr>;
          aa = \<lparr>aeTerm = 1, aeLeaderId = 0, aePrevLogIndex = 0, aePrevLogTerm = 0, aeEntries = [e], aeLeaderCommit = 0\<rparr>;
          ar = \<lparr>aerTerm = 1, aerSuccess = True, aerStopped = False, aerConflictTerm = -1, aerConflictIndex = 0\<rparr>;
          ab = \<lparr>aeTerm = 1, aeLeaderId = 0, aePrevLogIndex = 1, aePrevLogTerm = 1, aeEntries = [], aeLeaderCommit = 1\<rparr>
      in [CLocal 0 (EvStart 7), CSend 0 1, CAppend 1 aa, CAppendReply 0 1 aa ar, CSend 0 1, CAppend 1 ab])"

definition later_run :: "nat cluster_event list" where
  "later_run =
     (let va = \<lparr>rvTerm = 2, rvCandidateId = 1, rvLastLogIndex = 1, rvLastLogTerm = 1\<rparr>
      in [CElection 1, CVote 2 va, CVoteReply 1 2 va \<lparr>rvrTerm = 2, rvrVoteGranted = True\<rparr>])"

definition committed_cluster :: "nat cluster" where
  "committed_cluster = the (cluster_runs count_codec (run_env 1) 3 sample_cluster (elected_run @ commit_run))"

definition later_cluster :: "nat cluster" where
  "later_cluster = the (cluster_runs count_codec (run_env 2) 3 committed_cluster later_run)"

lemma sample_start: "cluster_start count_codec 3 sample_cluster"
proof -
  have "\<exists>ev. Make count_codec ev 3 (int p) MakePersister = Some (clNode sample_cluster p)" if "p < 3" for p
    using Make_fresh_inv [OF count_codec_ok, of "int p" 3 sample_env] that by (auto simp: sample_cluster_def)
  then show ?thesis by (simp add: cluster_start_def sample_cluster_def)
qed

lemma the_runs:
  assumes "cluster_runs cd ev n c es \<noteq> None"
  shows "(cluster_step cd n)\<^sup>*\<^sup>* c (the (cluster_runs cd ev n c es))"
  using assms cluster_runs_steps [of cd ev n c es] by auto

lemma sample_committed: "(cluster_step count_codec 3)\<^sup>*\<^sup>* sample_cluster committed_cluster"
  unfolding committed_cluster_def by (rule the_runs) code_simp

lemma sample_later: "(cluster_step count_codec 3)\<^sup>*\<^sup>* committed_cluster later_cluster"
  unfolding later_cluster_def by (rule the_runs) code_simp

lemmas sample_runs = count_codec_ok sample_start sample_committed sample_later

definition view :: "'c raft \<Rightarrow> role \<times> int \<times> int \<times> int \<times> 'c log_entry option \<times> (int \<times> 'c option) list" where
  "view rf = (rstate rf, currentTerm rf, commitIndex rf, lastIncludedIndex rf, entry_at rf 1, deliveries rf)"

lemma committed_view:
  "(view (clNode committed_cluster 0), view (clNode committed_cluster 1)) =
     ((Leader, 1, 1, 0, Some \<lparr>eTerm = 1, eCommand = Some 7\<rparr>, [(1, Some 7)]),
      (Follower, 1, 1, 0, Some \<lparr>eTerm = 1, eCommand = Some 7\<rparr>, [(1, Some 7)]))"
  by code_simp

lemma later_view:
  "(view (clNode later_cluster 0), view (clNode later_cluster 1)) =
     ((Leader, 1, 1, 0, Some \<lparr>eTerm = 1, eCommand = Some 7\<rparr>, [(1, Some 7)]),
      (Leader, 2, 1, 0, Some \<lparr>eTerm = 1, eCommand = Some 7\<rparr>, [(1, Some 7)]))"
  by code_simp

lemma committed_facts:
  "rstate (clNode committed_cluster 0) = Leader" "currentTerm (clNode committed_cluster 0) = 1"
  "entry_at (clNode committed_cluster 0) 1 = Some \<lparr>eTerm = 1, eCommand = Some 7\<rparr>" "commitIndex (clNode committed_cluster 0) = 1"
  "deliveries (clNode committed_cluster 0) = [(1, Some 7)]" "lastIncludedIndex (clNode committed_cluster 0) = 0"
  using committed_view by (simp_all add: view_def)

lemma later_facts:
  "rstate (clNode later_cluster 1) = Leader" "currentTerm (clNode later_cluster 1) = 2" "rstate (clNode later_cluster 0) = Leader"
  "currentTerm (clNode later_cluster 0) = 1" "lastIncludedIndex (clNode later_cluster 1) = 0"
  "deliveries (clNode later_cluster 1) = [(1, Some 7)]" "entry_at (clNode later_cluster 1) 1 = Some \<lparr>eTerm = 1, eCommand = Some 7\<rparr>"
  using later_view by (simp_all add: view_def)

theorem election_safety_witness:
  "{q. q < 3 \<and> rstate (clNode later_cluster q) = Leader \<and> currentTerm (clNode later_cluster q) = 1} = {0}"
proof -
  have "0 = q" if "q < 3" "rstate (clNode later_cluster q) = Leader" "currentTerm (clNode later_cluster q) = 1" for q
    using election_safety [OF sample_runs, of 0 q] that committed_facts(1,2) by simp
  then show ?thesis using later_facts(3,4) by auto
qed

theorem log_matching_property_witness:
  "entry_at (clNode committed_cluster 0) 1 = entry_at (clNode later_cluster 1) 1 \<and> entry_at (clNode committed_cluster 0) 1 \<noteq> None"
  by (rule log_matching_property [OF sample_runs _ _ committed_facts(3) later_facts(7)]) (simp_all add: committed_facts later_facts del: One_nat_def)

theorem leader_completeness_witness:
  "entry_at (clNode later_cluster 1) 1 = Some \<lparr>eTerm = 1, eCommand = Some 7\<rparr>"
  using leader_completeness [OF sample_runs _ _ committed_facts(3) _ later_facts(1)] by (simp add: committed_facts later_facts del: One_nat_def)

theorem state_machine_safety_witness:
  "{y. (1, y) \<in> set (deliveries (clNode later_cluster 1))} = {Some 7}"
proof -
  have "Some 7 = y" if "(1, y) \<in> set (deliveries (clNode later_cluster 1))" for y
    using state_machine_safety [OF sample_runs, of 0 1 1 "Some 7" y] that committed_facts(5) by (simp del: One_nat_def)
  then show ?thesis using later_facts(6) by auto
qed


end
