(* ===== verification/Raft_View.thy ===== *)
theory Raft_View
  imports Raft_Safety
begin

text \<open>
  What the service above a node depends on: the entries of its log, its snapshot and what it has still
  to deliver, and how each section of the code changes it.
\<close>

section \<open>The view of a node\<close>

definition seen :: "'c raft \<Rightarrow> 'c log_entry list \<times> int \<times> bytes \<times> 'c apply_msg option \<times> int" where
  "seen rf = (logs rf, lastIncludedIndex rf, snapshot rf, pendingSnapshot rf, lastApplied rf)"

definition entries :: "'c raft \<Rightarrow> (int \<times> 'c log_entry) set" where
  "entries rf = {(i, e). entry_at rf i = Some e}"

definition sent :: "'c append_args \<Rightarrow> (int \<times> 'c log_entry) set" where
  "sent a = {(aePrevLogIndex a + 1 + int k, aeEntries a ! k) |k. k < length (aeEntries a)}"

lemma seen_entries: "seen rf' = seen rf \<Longrightarrow> entries rf' = entries rf"
  by (simp add: seen_def entries_def entry_at_def lastLogIndexLocked_def cong: if_cong)

lemma seenD:
  assumes "seen rf' = seen rf"
  shows "logs rf' = logs rf" "lastIncludedIndex rf' = lastIncludedIndex rf" "snapshot rf' = snapshot rf"
    "pendingSnapshot rf' = pendingSnapshot rf" "lastApplied rf' = lastApplied rf"
  using assms by (simp_all add: seen_def)

text \<open>Fields of a node that its service does not depend on.\<close>

lemma seen_frame [simp]:
  "seen (rf\<lparr>persister := x1\<rparr>) = seen rf" "seen (rf\<lparr>rstate := x2\<rparr>) = seen rf" "seen (rf\<lparr>currentTerm := x3\<rparr>) = seen rf"
  "seen (rf\<lparr>votedFor := x4\<rparr>) = seen rf" "seen (rf\<lparr>electionDeadline := x5\<rparr>) = seen rf" "seen (rf\<lparr>nextIndex := x6\<rparr>) = seen rf"
  "seen (rf\<lparr>matchIndex := x6\<rparr>) = seen rf" "seen (rf\<lparr>lastRescueSent := x6\<rparr>) = seen rf" "seen (rf\<lparr>commitIndex := x3\<rparr>) = seen rf"
  "seen (rf\<lparr>replicateNotify := x7\<rparr>) = seen rf" "seen (rf\<lparr>replicateBusy := x7\<rparr>) = seen rf" "seen (rf\<lparr>workers := x8\<rparr>) = seen rf"
  "seen (rf\<lparr>dead := x9\<rparr>) = seen rf" "seen (rf\<lparr>rdone := x9\<rparr>) = seen rf" "seen (rf\<lparr>rstopped := x9\<rparr>) = seen rf"
  by (simp_all add: seen_def)

lemma advanceLoop_seen: "advanceLoop rf k i = Some (rf', b) \<Longrightarrow> seen rf' = seen rf"
  by (induction k arbitrary: i) (auto simp: bind_eq_Some_conv split: if_splits)

lemma seen_updates [simp]: "seen (resetElectionDeadlineLocked ev rf) = seen rf" "seen (launchAll k rf) = seen rf"
  by (simp_all add: resetElectionDeadlineLocked_def launchAll_eq)

lemma seen_basic:
  "persist rf = Some rf' \<Longrightarrow> seen rf' = seen rf" "becomeLeaderLocked rf = Some rf' \<Longrightarrow> seen rf' = seen rf"
  "broadcastAppendEntries rf = Some rf' \<Longrightarrow> seen rf' = seen rf" "advanceCommitIndexLocked rf = Some (rf', b) \<Longrightarrow> seen rf' = seen rf"
  by (auto simp: persist_def becomeLeaderLocked_def broadcastAppendEntries_def
      advanceCommitIndexLocked_def bind_eq_Some_conv Let_def split: if_splits dest: advanceLoop_seen)

lemma becomeFollower_seen: "becomeFollowerLocked rf t = Some rf' \<Longrightarrow> seen rf' = seen rf"
  by (auto simp: becomeFollowerLocked_def bind_eq_Some_conv split: if_splits dest: seen_basic(1))

lemmas seen_parts = seen_basic becomeFollower_seen

lemma seen_elections:
  "startElection ev rf = Some (rf', reqs) \<Longrightarrow> seen rf' = seen rf"
  "RequestVote ev rf va = Some (rf', vr) \<Longrightarrow> seen rf' = seen rf"
  "election_reply ev rf votes t vr = Some (rf', votes') \<Longrightarrow> seen rf' = seen rf"
  by (auto simp: startElection_def RequestVote_def election_reply_def bind_eq_Some_conv Let_def split: if_splits dest!: seen_parts)

lemma heartbeatLoop_seen: "heartbeatLoop ev ps rf = Some (rf', ts, rs) \<Longrightarrow> seen rf' = seen rf"
  by (induction ps arbitrary: rf rf' ts rs)
    (auto simp: bind_eq_Some_conv Let_def split: if_splits option.splits)

lemma append_reply_seen:
  assumes "raft_inv cd rf" "0 \<le> peer" "peer < int (npeers rf)" "replicate_append_reply ev rf peer aa ar = Some (rf', b, ctl)"
  shows "seen rf' = seen rf"
proof (cases "killed rf \<or> aerStopped ar \<or> aerTerm ar > currentTerm rf \<or> rstate rf \<noteq> Leader \<or> currentTerm rf \<noteq> aeTerm aa")
  case True
  then show ?thesis
    using assms(4) by (auto simp: replicate_append_reply_def becomeFollowerLocked_inv [OF assms(1)] bind_eq_Some_conv follow_def
        saved_def split: if_splits)
next
  case False
  show ?thesis
  proof (cases "aerSuccess ar")
    case True
    then show ?thesis
      using replicate_append_reply_success [OF assms(1-3), of ar aa ev] False assms(4) by (auto simp: acked_def)
  next
    case fail: False
    then show ?thesis
      using assms(4) False by (auto simp: replicate_append_reply_def bind_eq_Some_conv split: if_splits)
  qed
qed

lemma seen_heartbeats:
  "heartbeat_reply ev rf ar = Some rf' \<Longrightarrow> seen rf' = seen rf"
  "heartbeatOrNotifyReplication ev rf = Some (rf', tasks, rescue) \<Longrightarrow> seen rf' = seen rf"
  by (auto simp: heartbeat_reply_def heartbeatOrNotifyReplication_def bind_eq_Some_conv Let_def split: if_splits
      dest!: becomeFollower_seen heartbeatLoop_seen)

lemma snapshot_reply_seen:
  assumes "replicate_snapshot_reply ev rf peer ia ir = Some (rf', ctl)"
  shows "seen rf' = seen rf"
proof (cases "killed rf \<or> isrStopped ir \<or> isrTerm ir > currentTerm rf \<or> rstate rf \<noteq> Leader \<or> currentTerm rf \<noteq> isTerm ia")
  case True
  then show ?thesis
    using assms by (auto simp: replicate_snapshot_reply_def bind_eq_Some_conv split: if_splits dest!: becomeFollower_seen)
next
  case False
  then show ?thesis
    using assms by (auto simp: replicate_snapshot_reply_def bind_eq_Some_conv split del: if_split)
qed

lemma append_done_seen:
  assumes "raft_inv cd rf" "0 \<le> peer" "peer < int (npeers rf)" "replicate_append_done ev rf peer aa ar = Some (rf', ctl)"
  shows "seen rf' = seen rf"
proof -
  obtain r b where r: "replicate_append_reply ev rf peer aa ar = Some (r, b, ctl)" "(if b then broadcastAppendEntries r else Some r) = Some rf'"
    using assms(4) by (auto simp: replicate_append_done_def bind_eq_Some_conv split del: if_split)
  then have "seen rf' = seen r" using seen_basic(3) by (cases b) auto
  then show ?thesis using append_reply_seen [OF assms(1-3) r(1)] by simp
qed

section \<open>Sections that change the log\<close>

lemma merge_logs_nth:
  "k \<le> length xs \<Longrightarrow> j < length (merge_logs xs k es) \<Longrightarrow>
     j < length xs \<and> merge_logs xs k es ! j = xs ! j \<or> k \<le> j \<and> j - k < length es \<and> merge_logs xs k es ! j = es ! (j - k)"
proof (induction xs k es rule: merge_logs.induct)
  case (2 xs k e es)
  show ?case
  proof (cases "k < length xs \<and> eTerm (xs ! k) = eTerm e")
    case True
    then show ?thesis using 2 by (auto simp: Suc_diff_le nth_Cons' not_less_eq_eq)
  next
    case False
    then have "merge_logs xs k (e # es) = take k xs @ e # es" using 2(2) by auto
    then show ?thesis using 2(2,3) by (auto simp: nth_append)
  qed
qed simp

lemma entries_eq: "entries rf = {(lastIncludedIndex rf + int k, logs rf ! k) |k. 0 < k \<and> k < length (logs rf)}"
proof -
  have "entry_at rf i = Some e \<longleftrightarrow> (\<exists>k. i = lastIncludedIndex rf + int k \<and> e = logs rf ! k \<and> 0 < k \<and> k < length (logs rf))" for i e
    by (auto simp: entry_at_def lastLogIndexLocked_def intro!: exI [of _ "nat (i - lastIncludedIndex rf)"] split: if_splits)
  then show ?thesis unfolding entries_def by auto
qed

lemma AppendEntries_view:
  assumes "codec_ok cd" "raft_inv cd rf" "AppendEntries cd ev rf args = Some (rf', reply)"
  shows "lastIncludedIndex rf' = lastIncludedIndex rf" "snapshot rf' = snapshot rf" "pendingSnapshot rf' = pendingSnapshot rf"
    "lastApplied rf' = lastApplied rf" "entries rf' \<subseteq> entries rf \<union> sent args"
proof -
  have c: "cache_ok cd rf" using assms(2) by (rule raft_inv_cache)
  let ?h = "heard ev rf (aeTerm args)"
  have h: "seen ?h = seen rf" by (simp add: heard_def follow_def saved_def)
  consider (same) "seen rf' = seen rf"
    | (merged) "prev_matches rf args" "seen rf' = (merged_logs rf args, lastIncludedIndex rf, snapshot rf, pendingSnapshot rf, lastApplied rf)"
  proof -
    consider (stale) "killed rf \<or> aeTerm args < currentTerm rf"
      | (reject) "\<not> killed rf" "currentTerm rf \<le> aeTerm args" "\<not> prev_matches rf args"
      | (accept) "\<not> killed rf" "currentTerm rf \<le> aeTerm args" "prev_matches rf args" by linarith
    then show thesis
    proof cases
      case stale
      then show ?thesis using AppendEntries_stale [of rf args cd ev] assms(3) same by simp
    next
      case reject
      then show ?thesis using AppendEntries_reject [OF c reject, of ev] assms(3) h same by auto
    next
      case accept
      obtain enc ch where "\<not> ch \<longrightarrow> merged_logs rf args = logs rf \<and> enc = encodedLogs rf" "AppendEntries cd ev rf args =
          Some ((if ch then saved (?h\<lparr>logs := merged_logs rf args, encodedLogs := enc\<rparr>) else ?h)
                \<lparr>commitIndex := append_commit rf args\<rparr>, (appendReply ?h)\<lparr>aerSuccess := True\<rparr>)"
        using AppendEntries_accept [OF assms(1) c accept, of ev] by blast
      then show ?thesis using merged [OF accept(3)] assms(3) h by (auto simp: seen_def saved_def)
    qed
  qed
  note views = this
  show "lastIncludedIndex rf' = lastIncludedIndex rf" "snapshot rf' = snapshot rf" "pendingSnapshot rf' = pendingSnapshot rf"
    "lastApplied rf' = lastApplied rf"
    using views by (cases; simp add: seen_def)+
  from views show "entries rf' \<subseteq> entries rf \<union> sent args"
  proof cases
    case merged
    define k where "k = nat (aePrevLogIndex args + 1 - lastIncludedIndex rf)"
    have k: "k \<le> length (logs rf)" "lastIncludedIndex rf + int k = aePrevLogIndex args + 1"
      using merged(1) by (auto simp: prev_matches_def k_def lastLogIndexLocked_def)
    have l: "logs rf' = merge_logs (logs rf) k (aeEntries args)" "lastIncludedIndex rf' = lastIncludedIndex rf"
      using merged(2) by (simp_all add: seen_def merged_logs_def k_def)
    have "(lastIncludedIndex rf + int j, logs rf' ! j) \<in> entries rf \<union> sent args" if j: "0 < j" "j < length (logs rf')" for j
    proof (cases "j < length (logs rf) \<and> logs rf' ! j = logs rf ! j")
      case True
      then show ?thesis using j(1) by (auto simp: entries_eq)
    next
      case False
      then have m: "k \<le> j" "j - k < length (aeEntries args)" "logs rf' ! j = aeEntries args ! (j - k)"
        using merge_logs_nth [OF k(1), of j "aeEntries args"] j(2) l(1) by auto
      have "lastIncludedIndex rf + int j = aePrevLogIndex args + 1 + int (j - k)" using k(2) m(1) by simp
      then show ?thesis using m(2,3) by (auto simp: sent_def)
    qed
    then show ?thesis unfolding entries_eq [of rf'] l(2) by blast
  qed (use seen_entries [of rf' rf] in blast)
qed

text \<open>A log that has lost a part at its beginning, or at both ends.\<close>

lemma entries_cut:
  assumes "lastIncludedIndex rf' = lastIncludedIndex rf + int d" "tl (logs rf') = [] \<or> tl (logs rf') = drop (Suc d) (logs rf)"
  shows "entries rf' \<subseteq> entries rf"
proof -
  have "(lastIncludedIndex rf' + int k, logs rf' ! k) \<in> entries rf" if k: "0 < k" "k < length (logs rf')" for k
  proof -
    have ne: "tl (logs rf') ! (k - 1) = logs rf' ! k" "k - 1 < length (tl (logs rf'))" using k by (auto simp: nth_tl)
    have "tl (logs rf') \<noteq> []" using ne(2) by (metis length_0_conv not_less_zero)
    then have "tl (logs rf') = drop (Suc d) (logs rf)" using assms(2) by blast
    then have "logs rf' ! k = logs rf ! (d + k)" "d + k < length (logs rf)" using ne k(1) by auto
    then show ?thesis using assms(1) k(1) by (auto simp: entries_eq [of rf] intro!: exI [of _ "d + k"])
  qed
  then show ?thesis unfolding entries_eq [of rf'] by blast
qed

lemma InstallSnapshot_view:
  assumes "codec_ok cd" "raft_inv cd rf" "InstallSnapshot cd ev rf args = Some (rf', reply)"
  shows "seen rf' = seen rf \<or> commitIndex rf < isLastIncludedIndex args \<and> lastIncludedIndex rf' = isLastIncludedIndex args \<and>
    snapshot rf' = isData args \<and> lastApplied rf' = isLastIncludedIndex args \<and> entries rf' \<subseteq> entries rf \<and>
    (\<exists>m. pendingSnapshot rf' = Some m \<and> SnapshotValid m \<and> SnapshotIndex m = isLastIncludedIndex args \<and> mSnapshot m = isData args)"
proof -
  have c: "cache_ok cd rf" and li: "lastIncludedIndex rf \<le> commitIndex rf" using assms(2) by (auto simp: raft_inv_def node_ok_def)
  let ?h = "heard ev rf (isTerm args)"
  have h: "seen ?h = seen rf" by (simp add: heard_def follow_def saved_def)
  consider (stale) "killed rf \<or> isTerm args < currentTerm rf"
    | (old) "\<not> killed rf" "currentTerm rf \<le> isTerm args" "isLastIncludedIndex args \<le> commitIndex rf"
    | (accept) "\<not> killed rf" "currentTerm rf \<le> isTerm args" "commitIndex rf < isLastIncludedIndex args" by linarith
  then show ?thesis
  proof cases
    case stale
    then show ?thesis using InstallSnapshot_stale [of rf args cd ev] assms(3) by simp
  next
    case old
    then show ?thesis using InstallSnapshot_old [OF c old, of ev] assms(3) h by simp
  next
    case accept
    obtain enc where "InstallSnapshot cd ev rf args =
        Some ((saved (installed ?h args enc))\<lparr>pendingSnapshot := Some (snapshot_msg (saved (installed ?h args enc)))\<rparr>,
            \<lparr>isrTerm = isTerm args, isrStopped = False\<rparr>)"
      using InstallSnapshot_accept [OF assms(1) c li accept, of ev] by blast
    then have rf': "rf' = (saved (installed ?h args enc))\<lparr>pendingSnapshot := Some (snapshot_msg (saved (installed ?h args enc)))\<rparr>"
      using assms(3) by simp
    define d where "d = nat (isLastIncludedIndex args - lastIncludedIndex rf)"
    have f: "lastIncludedIndex rf' = lastIncludedIndex rf + int d"
      "tl (logs rf') = [] \<or> tl (logs rf') = drop (Suc d) (logs rf)"
      using li accept(3) seenD [OF h] by (simp_all add: rf' installed_def installed_logs_def d_def)
    show ?thesis using accept(3) entries_cut [OF f] by (simp add: rf' installed_def snapshot_msg_def)
  qed
qed

lemma Snapshot_view:
  assumes "codec_ok cd" "raft_inv cd rf" "Snapshot cd rf index data = Some rf'"
  shows "seen rf' = seen rf \<or> lastIncludedIndex rf < index \<and> index \<le> lastApplied rf \<and> lastIncludedIndex rf' = index \<and>
    snapshot rf' = data \<and> lastApplied rf' = lastApplied rf \<and> pendingSnapshot rf' = pendingSnapshot rf \<and> entries rf' \<subseteq> entries rf"
proof (cases "killed rf \<or> index \<le> lastIncludedIndex rf \<or> lastApplied rf < index")
  case True
  then show ?thesis using Snapshot_ignored [of rf index cd data] assms(3) by simp
next
  case False
  obtain enc where e: "rf' = saved (rf\<lparr>lastIncludedIndex := index,
        lastIncludedTerm := eTerm (logs rf ! nat (index - lastIncludedIndex rf)),
        logs := compacted_logs rf index, encodedLogs := enc, snapshot := data\<rparr>)"
    using Snapshot_eq [OF assms(1), of rf index data] False assms(2,3) by (auto simp: raft_inv_def)
  have f: "lastIncludedIndex rf' = lastIncludedIndex rf + int (nat (index - lastIncludedIndex rf))"
    "tl (logs rf') = [] \<or> tl (logs rf') = drop (Suc (nat (index - lastIncludedIndex rf))) (logs rf)"
    using False by (simp_all add: e compacted_logs_def Let_def)
  show ?thesis using False entries_cut [OF f] by (simp add: e)
qed

lemma Start_view:
  assumes "codec_ok cd" "raft_inv cd rf" "Start cd rf command = Some (rf', i, t, isLeader)"
  shows "\<not> isLeader \<and> rf' = rf \<or> isLeader \<and> lastIncludedIndex rf' = lastIncludedIndex rf \<and> snapshot rf' = snapshot rf \<and>
    lastApplied rf' = lastApplied rf \<and> pendingSnapshot rf' = pendingSnapshot rf \<and>
    (\<exists>e. eCommand e = Some command \<and> entries rf' = insert (i, e) (entries rf))"
proof (cases "killed rf \<or> rstate rf \<noteq> Leader")
  case True
  then show ?thesis using Start_quiet [of rf cd command] assms(3) by simp
next
  case False
  obtain enc ci nt where e: "rf' = (started rf command enc)\<lparr>commitIndex := ci, replicateNotify := nt\<rparr>"
    "i = lastLogIndexLocked rf + 1" "isLeader"
    using Start_eq [OF assms(1,2), of command] False assms(3) by auto
  let ?e = "\<lparr>eTerm = currentTerm rf, eCommand = Some command\<rparr>"
  have ne: "logs rf \<noteq> []" using assms(2) by (rule raft_inv_logs)
  have l: "logs rf' = logs rf @ [?e]" "lastIncludedIndex rf' = lastIncludedIndex rf" by (simp_all add: e started_def Let_def)
  have "entries rf' = insert (i, ?e) (entries rf)"
  proof -
    have i: "i = lastIncludedIndex rf + int (length (logs rf))" by (simp add: e(2) lastLogIndexLocked_def)
    have img: "entries r = (\<lambda>k. (lastIncludedIndex r + int k, logs r ! k)) ` {0<..<length (logs r)}" for r :: "'a raft"
      unfolding entries_eq setcompr_eq_image by (rule arg_cong [of _ _ "image _"]) auto
    have "{0<..<length (logs rf')} = insert (length (logs rf)) {0<..<length (logs rf)}" using ne by (auto simp: l(1))
    then have "entries rf' = insert (i, ?e) ((\<lambda>k. (lastIncludedIndex rf + int k, logs rf' ! k)) ` {0<..<length (logs rf)})"
      unfolding img [of rf'] by (simp add: l i)
    also have "(\<lambda>k. (lastIncludedIndex rf + int k, logs rf' ! k)) ` {0<..<length (logs rf)} = entries rf"
      unfolding img [of rf] by (rule image_cong) (simp_all add: l(1) nth_append)
    finally show ?thesis .
  qed
  then show ?thesis using e(3) by (auto simp: e(1) started_def Let_def intro!: exI [of _ ?e])
qed

section \<open>The view of a cluster\<close>

text \<open>The entries in the logs and in the requests that have been sent.\<close>

definition cluster_entries :: "nat \<Rightarrow> 'c cluster \<Rightarrow> (int \<times> 'c log_entry) set" where
  "cluster_entries n c = {x. (\<exists>p<n. x \<in> entries (clNode c p)) \<or> (\<exists>(q, a) \<in> clAppend c. x \<in> sent a)}"

lemma cluster_entriesI:
  "p < n \<Longrightarrow> x \<in> entries (clNode c p) \<Longrightarrow> x \<in> cluster_entries n c" "(q, a) \<in> clAppend c \<Longrightarrow> x \<in> sent a \<Longrightarrow> x \<in> cluster_entries n c"
  by (auto simp: cluster_entries_def)

lemma cluster_entries_le:
  assumes "\<And>p. p < n \<Longrightarrow> entries (clNode c' p) \<subseteq> cluster_entries n c"
    "\<And>q a. (q, a) \<in> clAppend c' \<Longrightarrow> (q, a) \<in> clAppend c \<or> sent a \<subseteq> cluster_entries n c"
  shows "cluster_entries n c' \<subseteq> cluster_entries n c"
  using assms cluster_entriesI(2) by (fastforce simp: cluster_entries_def [of n c'])

definition same_upcalls :: "'c raft \<Rightarrow> 'c raft \<Rightarrow> bool" where
  "same_upcalls rf rf' \<longleftrightarrow> lastIncludedIndex rf' = lastIncludedIndex rf \<and> snapshot rf' = snapshot rf \<and>
     pendingSnapshot rf' = pendingSnapshot rf \<and> lastApplied rf' = lastApplied rf"

definition installs :: "install_args \<Rightarrow> 'c raft \<Rightarrow> 'c raft \<Rightarrow> bool" where
  "installs a rf rf' \<longleftrightarrow> commitIndex rf < isLastIncludedIndex a \<and> lastIncludedIndex rf' = isLastIncludedIndex a \<and>
     snapshot rf' = isData a \<and> lastApplied rf' = isLastIncludedIndex a \<and>
     (\<exists>m. pendingSnapshot rf' = Some m \<and> SnapshotValid m \<and> SnapshotIndex m = isLastIncludedIndex a \<and> mSnapshot m = isData a)"

text \<open>A step that brings no new entry and no new snapshot.\<close>

definition nothing_new :: "nat \<Rightarrow> 'c cluster \<Rightarrow> 'c cluster \<Rightarrow> bool" where
  "nothing_new n c c' \<longleftrightarrow> cluster_entries n c' \<subseteq> cluster_entries n c \<and>
     (\<forall>p<n. same_upcalls (clNode c p) (clNode c' p) \<or> (\<exists>a. (p, a) \<in> clInstall c \<and> installs a (clNode c p) (clNode c' p))) \<and>
     (\<forall>(q, a) \<in> clInstall c'. (q, a) \<in> clInstall c \<or>
        (\<exists>p<n. isLastIncludedIndex a = lastIncludedIndex (clNode c p) \<and> isData a = snapshot (clNode c p)))"

lemma seen_upcalls: "seen rf' = seen rf \<Longrightarrow> same_upcalls rf rf'"
  by (simp add: seen_def same_upcalls_def)

lemma same_upcalls_refl [simp]: "same_upcalls rf rf"
  by (simp add: same_upcalls_def)

lemma nothing_new_seen:
  assumes "clNode c' = (clNode c)(p := rf)" "seen rf = seen (clNode c p)" "clInstall c' = clInstall c"
    "\<And>q a. (q, a) \<in> clAppend c' \<Longrightarrow> (q, a) \<in> clAppend c \<or> sent a \<subseteq> cluster_entries n c"
  shows "nothing_new n c c'"
proof -
  have "entries (clNode c' q) = entries (clNode c q)" "same_upcalls (clNode c q) (clNode c' q)" for q
    using assms(1) seen_entries [OF assms(2)] seen_upcalls [OF assms(2)] by simp_all
  note same = this
  have "cluster_entries n c' \<subseteq> cluster_entries n c"
    using assms(4) by (rule cluster_entries_le [rotated]) (auto simp: same(1) intro: cluster_entriesI(1))
  then show ?thesis unfolding nothing_new_def using same(2) assms(3) by blast
qed

lemma sent_build:
  assumes "raft_inv cd rf" "replicate_build rf peer = Some (RepAppend a)"
  shows "sent a \<subseteq> entries rf"
proof -
  obtain nxt where x: "lastIncludedIndex rf < nxt" "go_from (logs rf) (toOffsetLocked rf nxt) = Some (aeEntries a)" "aePrevLogIndex a = nxt - 1"
    using assms(2) by (auto simp: replicate_build_def bind_eq_Some_conv split: if_splits)
  define d where "d = nat (nxt - lastIncludedIndex rf)"
  have d: "aeEntries a = drop d (logs rf)" "0 < d" "nxt = lastIncludedIndex rf + int d"
    using x(1,2) by (auto simp: go_from_def toOffsetLocked_def d_def split: if_splits)
  show ?thesis
  proof
    fix y assume "y \<in> sent a"
    then obtain k where "y = (nxt + int k, drop d (logs rf) ! k)" "d + k < length (logs rf)" by (auto simp: sent_def d(1) x(3))
    then show "y \<in> entries rf" using d(2,3) by (auto simp: entries_eq intro!: exI [of _ "d + k"])
  qed
qed

lemma install_build:
  "replicate_build rf peer = Some (RepSnapshot a) \<Longrightarrow> isLastIncludedIndex a = lastIncludedIndex rf \<and> isData a = snapshot rf"
  by (auto simp: replicate_build_def bind_eq_Some_conv split: if_splits)

lemma heartbeat_sends:
  assumes "raft_inv cd rf" "heartbeatOrNotifyReplication ev rf = Some (rf', tasks, rescue)" "(q, a) \<in> to_peers tasks"
  shows "sent a = {}"
proof -
  obtain i where i: "(i, a) \<in> set tasks" using assms(3) by (auto simp: to_peers_def)
  then obtain r where "heartbeatLoop ev (peerIds rf) rf = Some (r, tasks, rescue)"
    using assms(2) by (auto simp: heartbeatOrNotifyReplication_def bind_eq_Some_conv split: if_splits)
  then show ?thesis using heartbeatLoop_tasks [OF _ raft_inv_logs [OF assms(1)] i] by (simp add: sent_def)
qed

lemma append_new:
  assumes "codec_ok cd" "raft_inv cd (clNode c q)" "(q, args) \<in> clAppend c" "q < n"
    "AppendEntries cd ev (clNode c q) args = Some (rf, reply)"
  shows "nothing_new n c (c\<lparr>clNode := (clNode c)(q := rf), clAppendRep := insert (q, args, reply) (clAppendRep c)\<rparr>)"
proof -
  note v = AppendEntries_view [OF assms(1,2,5)]
  have "same_upcalls (clNode c q) rf" using v by (simp add: same_upcalls_def)
  moreover have "entries rf \<subseteq> cluster_entries n c" using v(5) assms(3,4) by (auto simp: cluster_entries_def)
  ultimately show ?thesis unfolding nothing_new_def by (auto simp: cluster_entries_def split: if_splits)
qed

lemma install_new:
  assumes "codec_ok cd" "raft_inv cd (clNode c q)" "(q, args) \<in> clInstall c" "q < n"
    "InstallSnapshot cd ev (clNode c q) args = Some (rf, reply)"
  shows "nothing_new n c (c\<lparr>clNode := (clNode c)(q := rf), clInstallRep := insert (q, args, reply) (clInstallRep c)\<rparr>)"
proof -
  have "same_upcalls (clNode c q) rf \<or> installs args (clNode c q) rf" "entries rf \<subseteq> entries (clNode c q)"
    using InstallSnapshot_view [OF assms(1,2,5)] seen_upcalls seen_entries unfolding installs_def by blast+
  then show ?thesis using assms(3,4) unfolding nothing_new_def by (auto simp: cluster_entries_def split: if_splits)
qed

lemma send_new:
  assumes "raft_inv cd (clNode c p)" "p < n"
  shows "replicate_build (clNode c p) peer = Some (RepAppend args) \<Longrightarrow> nothing_new n c (c\<lparr>clAppend := insert (q, args) (clAppend c)\<rparr>)"
    and "replicate_build (clNode c p) peer = Some (RepSnapshot sargs) \<Longrightarrow> nothing_new n c (c\<lparr>clInstall := insert (q, sargs) (clInstall c)\<rparr>)"
proof -
  assume b: "replicate_build (clNode c p) peer = Some (RepAppend args)"
  have "sent args \<subseteq> cluster_entries n c" using sent_build [OF assms(1) b] assms(2) by (auto simp: cluster_entries_def)
  then show "nothing_new n c (c\<lparr>clAppend := insert (q, args) (clAppend c)\<rparr>)"
    by (intro nothing_new_seen [where p = p and rf = "clNode c p"]) auto
next
  assume "replicate_build (clNode c p) peer = Some (RepSnapshot sargs)"
  then show "nothing_new n c (c\<lparr>clInstall := insert (q, sargs) (clInstall c)\<rparr>)"
    using install_build assms(2) unfolding nothing_new_def by (fastforce simp: cluster_entries_def)
qed

lemma net_new:
  assumes "cluster_net cd n c c'" "codec_ok cd" "follows cd n h c"
  shows "nothing_new n c c'"
proof -
  note inv = node_relD(1) [OF followsD(2) [OF assms(3)]] and np = node_relD(3) [OF followsD(2) [OF assms(3)]]
    and m = msgs_okD [OF followsD(3) [OF assms(3)]]
  from assms(1) show ?thesis
  proof cases
    case (start_election p ev rf reqs)
    then show ?thesis using seen_elections(1) by (intro nothing_new_seen [where p = p and rf = rf]) auto
  next
    case (vote q args ev rf reply)
    then show ?thesis using seen_elections(2) by (intro nothing_new_seen [where p = q and rf = rf]) auto
  next
    case (vote_reply p t votes waiting q args reply ev rf votes')
    then show ?thesis using seen_elections(3) by (intro nothing_new_seen [where p = p and rf = rf]) auto
  next
    case (send_append p q args)
    then show ?thesis using send_new(1) [OF inv] by blast
  next
    case (send_install p q sargs)
    then show ?thesis using send_new(2) [OF inv] by blast
  next
    case (heartbeat p ev rf tasks rescue)
    then show ?thesis using seen_heartbeats(2) heartbeat_sends [OF inv]
      by (intro nothing_new_seen [where p = p and rf = rf]) auto
  next
    case (append q args ev rf areply)
    then show ?thesis using append_new [OF assms(2) inv] m(4) by (auto simp: append_req_ok_def)
  next
    case (install q sargs ev rf sreply)
    then show ?thesis using install_new [OF assms(2) inv] m(6) by (auto simp: install_req_ok_def)
  next
    case (append_reply p q args areply ev rf ctl)
    have q: "int q < int (npeers (clNode c p))" using m(5) [OF append_reply(3)] np append_reply(2) by (simp add: append_rep_ok_def)
    show ?thesis using append_done_seen [OF inv [OF append_reply(2)] _ q append_reply(5)] append_reply(1)
      by (intro nothing_new_seen [where p = p and rf = rf]) auto
  next
    case (heartbeat_reply p q args areply ev rf)
    then show ?thesis using seen_heartbeats(1) by (intro nothing_new_seen [where p = p and rf = rf]) auto
  next
    case (install_reply p q sargs sreply ev rf ctl)
    then show ?thesis using snapshot_reply_seen by (intro nothing_new_seen [where p = p and rf = rf]) auto
  qed
qed

end
