(* ===== verification/Rpc.thy ===== *)
theory Rpc
  imports Prelude "HOL-Library.Char_ord" "HOL-Library.List_Lexorder"
begin

text \<open>
  The messages of \<^verbatim>\<open>kvsrv1/rpc/rpc.go\<close> and the sequential specification of the key/value store,
  \<^verbatim>\<open>models1/kv.go\<close>.
\<close>

section \<open>Messages\<close>

datatype Err = OK | ErrNoKey | ErrVersion | ErrMaybe | ErrWrongLeader | ErrWrongGroup | ErrStaleRequest

type_synonym Tversion = u64

record put_args =
  pKey :: string
  pValue :: string
  pVersion :: Tversion
  pClientID :: u64
  pSequence :: u64
  pAck :: u64

record put_reply =
  prErr :: Err

record get_args =
  gKey :: string

record get_reply =
  grValue :: string
  grVersion :: Tversion
  grErr :: Err

text \<open>The value \<^verbatim>\<open>rpc.GetReply{Err: e}\<close>.\<close>

definition get_error :: "Err \<Rightarrow> get_reply" where
  "get_error e = \<lparr>grValue = [], grVersion = 0, grErr = e\<rparr>"

section \<open>The sequential specification\<close>

text \<open>
  \<^verbatim>\<open>KvModel\<close>: one key, whose state is a value and a version; \<^verbatim>\<open>Step\<close> says whether an output
  is legal and what the next state is.
\<close>

record kv_input =
  kiOp :: "8 word"
  kiKey :: string
  kiValue :: string
  kiVersion :: u64

record kv_output =
  koValue :: string
  koVersion :: u64
  koErr :: Err

record kv_state =
  ksValue :: string
  ksVersion :: u64

definition KvModel_Init :: kv_state where
  "KvModel_Init = \<lparr>ksValue = [], ksVersion = 0\<rparr>"

definition KvModel_Step :: "kv_state \<Rightarrow> kv_input \<Rightarrow> kv_output \<Rightarrow> bool \<times> kv_state option" where
  "KvModel_Step st inp out =
     (if kiOp inp = 0 then (koValue out = ksValue st, Some st)
      else if kiOp inp = 1 then
        (if ksVersion st = kiVersion inp
         then (koErr out = OK \<or> koErr out = ErrMaybe,
               Some \<lparr>ksValue = kiValue inp, ksVersion = ksVersion st + 1\<rparr>)
         else (koErr out = ErrVersion \<or> koErr out = ErrMaybe, Some st))
      else (False, None))"

text \<open>\<^verbatim>\<open>Partition\<close>: the history split by key, the keys in order.\<close>

definition KvModel_Partition :: "(kv_input \<times> kv_output) list \<Rightarrow> (kv_input \<times> kv_output) list list" where
  "KvModel_Partition history =
     (let keys = sort (remdups (map (\<lambda>h. kiKey (fst h)) history))
      in map (\<lambda>k. filter (\<lambda>h. kiKey (fst h) = k) history) keys)"

text \<open>Whether a history of one key, in the order given, is accepted by the specification.\<close>

fun KvModel_accepts :: "kv_state \<Rightarrow> (kv_input \<times> kv_output) list \<Rightarrow> bool" where
  "KvModel_accepts st [] = True"
| "KvModel_accepts st ((inp, out) # h) =
     (case KvModel_Step st inp out of
        (True, Some st') \<Rightarrow> KvModel_accepts st' h
      | _ \<Rightarrow> False)"

text \<open>The error code as the specification has it, which knows no missing keys for a write.\<close>

definition model_err :: "Err \<Rightarrow> Err" where
  "model_err e = (if e = ErrNoKey then ErrVersion else e)"

end
