(* ===== verification/Rsm.thy ===== *)
theory Rsm
  imports Raft_Events Rpc
begin

text \<open>
  The replicated state machine of \<^verbatim>\<open>kvraft1/rsm/rsm.go\<close>: it submits operations to Raft, applies
  the committed ones to the service in log order, wakes the submitter of each and takes snapshots.
\<close>

section \<open>The interface of the service\<close>

text \<open>The Go interface \<^verbatim>\<open>StateMachine\<close> as a record of functions.\<close>

record ('s, 'r, 'p) statemachine =
  smDoOp :: "'s \<Rightarrow> 'r \<Rightarrow> ('s \<times> 'p) option"
  smSnapshot :: "'s \<Rightarrow> bytes option"
  smRestore :: "'s \<Rightarrow> bytes \<Rightarrow> 's option"

record 'r rsm_op =
  opServer :: int
  opEpoch :: u64
  opSequence :: u64
  opReq :: 'r

type_synonym op_id = "int \<times> u64 \<times> u64"

definition opID :: "'r rsm_op \<Rightarrow> op_id" where
  "opID op = (opServer op, opEpoch op, opSequence op)"

text \<open>
  The struct \<^verbatim>\<open>RSM\<close>. A waiter's channel has capacity one: it is empty or holds a reply.
  \<open>rsRf\<close> is \<^term>\<open>None\<close> when there is no Raft (\<^verbatim>\<open>rf == nil\<close>).
\<close>

record ('s, 'r, 'p) rsm =
  rsMe :: int
  rsRf :: "'r rsm_op raft option"
  rsMaxraftstate :: int
  rsSm :: 's
  rsEpoch :: u64
  rsNextSequence :: u64
  rsWaiters :: "op_id \<rightharpoonup> 'p option"
  rsDone :: bool

definition raftDone :: "('s, 'r, 'p) rsm \<Rightarrow> bool" where
  "raftDone r = (case rsRf r of None \<Rightarrow> False | Some rf \<Rightarrow> Done rf)"

text \<open>\<open>epochBytes\<close> is what \<^verbatim>\<open>cryptorand.Read\<close> gives, \<^term>\<open>None\<close> an error.\<close>

definition MakeRSM ::
  "('s, 'r, 'p) statemachine \<Rightarrow> 'r rsm_op codec \<Rightarrow> go_env \<Rightarrow> bool \<Rightarrow> bytes option \<Rightarrow> nat \<Rightarrow> int \<Rightarrow>
   persister \<Rightarrow> int \<Rightarrow> 's \<Rightarrow> ('s, 'r, 'p) rsm option" where
  "MakeRSM sm cd ev useRaftStateMachine epochBytes n self ps maxraftstate st = do {
     eb \<leftarrow> epochBytes;
     let snapshot = ReadSnapshot ps;
     st \<leftarrow> (if length snapshot > 0 then smRestore sm st snapshot else Some st);
     rf \<leftarrow> (if useRaftStateMachine then Some None
            else do { rf \<leftarrow> Make cd ev n self ps; Some (Some rf) });
     Some \<lparr>rsMe = self, rsRf = rf, rsMaxraftstate = maxraftstate, rsSm = st, rsEpoch = Uint64 eb,
           rsNextSequence = 0, rsWaiters = (\<lambda>_. None), rsDone = False\<rparr>
   }"

section \<open>Submitting\<close>

definition removeWaiter :: "('s, 'r, 'p) rsm \<Rightarrow> op_id \<Rightarrow> ('s, 'r, 'p) rsm" where
  "removeWaiter r i = r\<lparr>rsWaiters := (rsWaiters r)(i := None)\<rparr>"

text \<open>
  \<^verbatim>\<open>SubmitWithTimeout\<close> up to the registration of the waiter: \<open>Inl\<close> is an early return, \<open>Inr\<close>
  the operation that is then handed to Raft.
\<close>

definition submit_register ::
  "('s, 'r, 'p) rsm \<Rightarrow> 'r \<Rightarrow> ('s, 'r, 'p) rsm \<times> ((Err \<times> 'p option) + 'r rsm_op)" where
  "submit_register r req =
     (if rsDone r \<or> raftDone r then (r, Inl (ErrWrongLeader, None))
      else let r = r\<lparr>rsNextSequence := rsNextSequence r + 1\<rparr>;
               op = \<lparr>opServer = rsMe r, opEpoch = rsEpoch r, opSequence = rsNextSequence r, opReq = req\<rparr>
           in (r\<lparr>rsWaiters := (rsWaiters r)(opID op \<mapsto> None)\<rparr>, Inr op))"

text \<open>The call of \<^verbatim>\<open>Start\<close>: an early return, or the term in which the operation was started.\<close>

definition submit_start ::
  "'r rsm_op codec \<Rightarrow> ('s, 'r, 'p) rsm \<Rightarrow> 'r rsm_op \<Rightarrow>
   (('s, 'r, 'p) rsm \<times> ((Err \<times> 'p option) + int)) option" where
  "submit_start cd r op =
     (case rsRf r of
        None \<Rightarrow> Some (removeWaiter r (opID op), Inl (ErrWrongLeader, None))
      | Some rf \<Rightarrow> do {
          (rf, _, term, isLeader) \<leftarrow> Start cd rf op;
          let r = r\<lparr>rsRf := Some rf\<rparr>;
          Some (if isLeader then (r, Inr term)
                else (removeWaiter r (opID op), Inl (ErrWrongLeader, None)))
        })"

text \<open>The cases of the \<^verbatim>\<open>select\<close> in the waiting loop.\<close>

datatype wait_case = WaitResult | WaitDeadline | WaitRaftDone | WaitTick | WaitDone

text \<open>
  One turn of the loop: \<^term>\<open>None\<close> when the case is not ready, \<open>Inr\<close> when the loop goes on.
  Every return runs the deferred \<^verbatim>\<open>removeWaiter\<close>.
\<close>

definition submit_wait ::
  "('s, 'r, 'p) rsm \<Rightarrow> op_id \<Rightarrow> int \<Rightarrow> wait_case \<Rightarrow>
   (('s, 'r, 'p) rsm \<times> ((Err \<times> 'p option) + unit)) option" where
  "submit_wait r i term w =
     (let waiting = (case rsWaiters r i of Some (Some reply) \<Rightarrow> Some reply | _ \<Rightarrow> None);
          return = (\<lambda>res. Some (removeWaiter r i, Inl res));
          result_or_wrong = (case waiting of Some reply \<Rightarrow> return (OK, Some reply)
                                           | None \<Rightarrow> return (ErrWrongLeader, None))
      in case w of
        WaitResult \<Rightarrow> (case waiting of Some reply \<Rightarrow> return (OK, Some reply) | None \<Rightarrow> None)
      | WaitDeadline \<Rightarrow> result_or_wrong
      | WaitRaftDone \<Rightarrow> (if raftDone r then return (ErrWrongLeader, None) else None)
      | WaitDone \<Rightarrow> (if rsDone r then return (ErrWrongLeader, None) else None)
      | WaitTick \<Rightarrow>
          (case rsRf r of
             None \<Rightarrow> None
           | Some rf \<Rightarrow>
               (case GetState rf of (ct, stillLeader) \<Rightarrow>
                  if ct \<noteq> term \<or> \<not> stillLeader then result_or_wrong
                  else Some (r, Inr ()))))"

section \<open>Applying\<close>

definition shouldSnapshot :: "('s, 'r, 'p) rsm \<Rightarrow> bool" where
  "shouldSnapshot r =
     (case rsRf r of
        None \<Rightarrow> False
      | Some rf \<Rightarrow> rsMaxraftstate r \<ge> 0 \<and> PersistBytes rf \<ge> rsMaxraftstate r)"

text \<open>Waking the waiter: the send is dropped when nobody waits or the channel is full.\<close>

definition wake :: "('s, 'r, 'p) rsm \<Rightarrow> op_id \<Rightarrow> 'p \<Rightarrow> ('s, 'r, 'p) rsm" where
  "wake r i reply =
     (case rsWaiters r i of
        Some None \<Rightarrow> r\<lparr>rsWaiters := (rsWaiters r)(i \<mapsto> Some reply)\<rparr>
      | _ \<Rightarrow> r)"

text \<open>\<^verbatim>\<open>applier\<close>: the handling of one message from \<^verbatim>\<open>applyCh\<close>.\<close>

definition rsm_apply ::
  "('s, 'r, 'p) statemachine \<Rightarrow> 'r rsm_op codec \<Rightarrow> ('s, 'r, 'p) rsm \<Rightarrow> 'r rsm_op apply_msg \<Rightarrow>
   ('s, 'r, 'p) rsm option" where
  "rsm_apply sm cd r msg =
     (if SnapshotValid msg then
        (if length (mSnapshot msg) > 0
         then do { st \<leftarrow> smRestore sm (rsSm r) (mSnapshot msg); Some (r\<lparr>rsSm := st\<rparr>) }
         else Some r)
      else if \<not> CommandValid msg then Some r
      else do {
        op \<leftarrow> mCommand msg;
        (st, reply) \<leftarrow> smDoOp sm (rsSm r) (opReq op);
        let r = r\<lparr>rsSm := st\<rparr>;
        r \<leftarrow> (case rsRf r of
                Some rf \<Rightarrow>
                  if shouldSnapshot r then do {
                    snap \<leftarrow> smSnapshot sm st;
                    rf \<leftarrow> Snapshot cd rf (CommandIndex msg) snap;
                    Some (r\<lparr>rsRf := Some rf\<rparr>)
                  }
                  else Some r
              | None \<Rightarrow> Some r);
        Some (wake r (opID op) reply)
      })"

text \<open>The end of the applier, when Raft is done or the channel is closed.\<close>

definition applier_exit :: "('s, 'r, 'p) rsm \<Rightarrow> ('s, 'r, 'p) rsm" where
  "applier_exit r = r\<lparr>rsDone := True\<rparr>"

section \<open>Replay\<close>

text \<open>The service's state after the operations of a log, in order.\<close>

primrec replay :: "('s, 'r, 'p) statemachine \<Rightarrow> 's \<Rightarrow> 'r list \<Rightarrow> 's option" where
  "replay sm st [] = Some st"
| "replay sm st (req # reqs) = do { (st', _) \<leftarrow> smDoOp sm st req; replay sm st' reqs }"

lemma replay_append: "replay sm st (xs @ ys) = do { st' \<leftarrow> replay sm st xs; replay sm st' ys }"
  by (induction xs arbitrary: st) (auto simp: bind_eq_Some_conv split: bind_splits)

text \<open>
  The messages a replica receives from Raft when the committed log is \<open>L\<close> and it has applied the
  first \<open>k\<close> operations: the next operation, or a snapshot of a later prefix.
\<close>

definition msg_from ::
  "('s, 'r, 'p) statemachine \<Rightarrow> 's \<Rightarrow> 'r rsm_op list \<Rightarrow> nat \<Rightarrow> 'r rsm_op apply_msg \<Rightarrow> nat \<Rightarrow> bool" where
  "msg_from sm s0 L k msg k' \<longleftrightarrow>
     (if SnapshotValid msg
      then k \<le> k' \<and> k' \<le> length L \<and> SnapshotIndex msg = int k' \<and>
        (\<exists>s. replay sm s0 (map opReq (take k' L)) = Some s \<and> smSnapshot sm s = Some (mSnapshot msg))
      else CommandValid msg \<and> k < length L \<and> CommandIndex msg = int k + 1 \<and>
        mCommand msg = Some (L ! k) \<and> k' = k + 1)"

inductive feed ::
  "('s, 'r, 'p) statemachine \<Rightarrow> 'r rsm_op codec \<Rightarrow> 's \<Rightarrow> 'r rsm_op list \<Rightarrow>
   ('s, 'r, 'p) rsm \<times> nat \<Rightarrow> ('s, 'r, 'p) rsm \<times> nat \<Rightarrow> bool" for sm cd s0 L where
  msg: "msg_from sm s0 L k m k' \<Longrightarrow> rsm_apply sm cd r m = Some r' \<Longrightarrow> feed sm cd s0 L (r, k) (r', k')"
| other: "rsSm r' = rsSm r \<Longrightarrow> feed sm cd s0 L (r, k) (r', k)"

lemma take_Suc_reqs: "k < length L \<Longrightarrow> map opReq (take (Suc k) L) = map opReq (take k L) @ [opReq (L ! k)]"
  by (simp add: take_Suc_conv_app_nth)

lemma wake_sm [simp]: "rsSm (wake r i p) = rsSm r" "rsRf (wake r i p) = rsRf r"
  by (auto simp: wake_def split: option.splits)

text \<open>The interface between the replicated state machine and a service, with what it relies on.\<close>

locale replicated_service =
  fixes sm :: "('s, 'r, 'p) statemachine"
    and ok :: "'s \<Rightarrow> bool"
  assumes DoOp_keeps: "ok s \<Longrightarrow> smDoOp sm s req = Some (s', p) \<Longrightarrow> ok s'"
    and Snapshot_Restore: "ok s \<Longrightarrow> \<exists>b. smSnapshot sm s = Some b \<and> b \<noteq> [] \<and> (\<forall>s'. smRestore sm s' b = Some s)"
begin

lemma replay_keeps: "ok s \<Longrightarrow> replay sm s reqs = Some s' \<Longrightarrow> ok s'"
  by (induction reqs arbitrary: s) (auto simp: bind_eq_Some_conv dest: DoOp_keeps)

lemma Restore_snapshot_of:
  assumes "ok s" "smSnapshot sm s = Some b"
  shows "b \<noteq> []" "smRestore sm s' b = Some s"
  using Snapshot_Restore [OF assms(1)] assms(2) by auto

text \<open>Applying a message keeps the replica's state equal to the replay of its prefix of the log.\<close>

lemma apply_replays:
  assumes "ok s0" "replay sm s0 (map opReq (take k L)) = Some (rsSm r)" "msg_from sm s0 L k m k'"
    and "rsm_apply sm cd r m = Some r'"
  shows "replay sm s0 (map opReq (take k' L)) = Some (rsSm r')"
proof (cases "SnapshotValid m")
  case True
  then obtain s where s: "replay sm s0 (map opReq (take k' L)) = Some s" "smSnapshot sm s = Some (mSnapshot m)"
    using assms(3) by (auto simp: msg_from_def)
  have "ok s" using replay_keeps [OF assms(1) s(1)] .
  from Restore_snapshot_of [OF this s(2)] True assms(4) s(1) show ?thesis
    by (auto simp: rsm_apply_def)
next
  case False
  then have m: "CommandValid m" "k < length L" "mCommand m = Some (L ! k)" "k' = Suc k"
    using assms(3) by (auto simp: msg_from_def)
  obtain st reply where d: "smDoOp sm (rsSm r) (opReq (L ! k)) = Some (st, reply)"
    using assms(4) False m by (auto simp: rsm_apply_def bind_eq_Some_conv)
  then have "rsSm r' = st"
    using assms(4) False m
    by (auto simp: rsm_apply_def bind_eq_Some_conv Let_def split: option.splits if_splits)
  with m d assms(2) show ?thesis by (simp add: take_Suc_reqs replay_append)
qed

text \<open>And no message makes the replica panic, when the log itself can be replayed.\<close>

lemma command_total:
  assumes "ok (rsSm r)" "\<not> SnapshotValid m" "CommandValid m" "mCommand m = Some op"
    and "smDoOp sm (rsSm r) (opReq op) \<noteq> None" "codec_ok cd" "\<And>rf. rsRf r = Some rf \<Longrightarrow> raft_inv cd rf"
  shows "\<exists>r'. rsm_apply sm cd r m = Some r'"
proof -
  obtain st reply where d: "smDoOp sm (rsSm r) (opReq op) = Some (st, reply)" using assms(5) by auto
  obtain b where b: "smSnapshot sm st = Some b" using Snapshot_Restore DoOp_keeps [OF assms(1) d] by blast
  show ?thesis
  proof (cases "rsRf r")
    case None
    then show ?thesis using assms(2-4) d by (simp add: rsm_apply_def Let_def)
  next
    case (Some rf)
    obtain rf' where "Snapshot cd rf (CommandIndex m) b = Some rf'"
      using Snapshot_inv [OF assms(6) assms(7) [OF Some], of "CommandIndex m" b] by blast
    with Some show ?thesis using assms(2-4) d b by (simp add: rsm_apply_def Let_def)
  qed
qed

lemma apply_total:
  assumes "ok s0" "replay sm s0 (map opReq (take k L)) = Some (rsSm r)" "msg_from sm s0 L k m k'"
    and "replay sm s0 (map opReq L) \<noteq> None" "codec_ok cd" "\<And>rf. rsRf r = Some rf \<Longrightarrow> raft_inv cd rf"
  shows "\<exists>r'. rsm_apply sm cd r m = Some r'"
proof (cases "SnapshotValid m")
  case True
  then obtain s where s: "replay sm s0 (map opReq (take k' L)) = Some s" "smSnapshot sm s = Some (mSnapshot m)"
    using assms(3) by (auto simp: msg_from_def)
  have "ok s" using replay_keeps [OF assms(1) s(1)] .
  from Restore_snapshot_of [OF this s(2)] True show ?thesis by (simp add: rsm_apply_def)
next
  case False
  then have m: "CommandValid m" "k < length L" "mCommand m = Some (L ! k)"
    using assms(3) by (auto simp: msg_from_def)
  have "L = take k L @ L ! k # drop (Suc k) L" using m(2) by (rule id_take_nth_drop)
  then have "map opReq L = map opReq (take k L) @ opReq (L ! k) # map opReq (drop (Suc k) L)"
    by (metis list.simps(9) map_append)
  with assms(2,4) have "smDoOp sm (rsSm r) (opReq (L ! k)) \<noteq> None"
    by (cases "smDoOp sm (rsSm r) (opReq (L ! k))") (auto simp: replay_append)
  then show ?thesis using command_total [OF replay_keeps [OF assms(1,2)] False m(1,3) _ assms(5,6)] by blast
qed

lemma feed_replays:
  assumes "ok s0" "(feed sm cd s0 L)\<^sup>*\<^sup>* (r, k) (r', k')" "replay sm s0 (map opReq (take k L)) = Some (rsSm r)"
  shows "replay sm s0 (map opReq (take k' L)) = Some (rsSm r')"
  using assms(2)
proof (induction "(r', k')" arbitrary: r' k' rule: rtranclp_induct)
  case base
  then show ?case using assms(3) by simp
next
  case (step y)
  obtain r1 k1 where y: "y = (r1, k1)" by (cases y)
  have IH: "replay sm s0 (map opReq (take k1 L)) = Some (rsSm r1)" using step(3) y by blast
  from step(2) show ?case
    unfolding y by cases (use apply_replays [OF assms(1) IH] IH in auto)
qed

end

section \<open>Submitters and their replies\<close>

text \<open>
  One server process with its concurrent submitters. \<open>sbSubs\<close> records the request submitted
  under each identity, \<open>sbExec\<close> what the applier executed and replied. That only this process
  starts operations with its own server number and epoch is the guard of \<open>apply_msg\<close>.
\<close>

record ('s, 'r, 'p) submissions =
  sbRsm :: "('s, 'r, 'p) rsm"
  sbSubs :: "op_id \<rightharpoonup> 'r"
  sbExec :: "(op_id \<times> 'r \<times> 'p) set"

definition own_op :: "('s, 'r, 'p) submissions \<Rightarrow> 'r rsm_op \<Rightarrow> bool" where
  "own_op b op \<longleftrightarrow>
     (opServer op = rsMe (sbRsm b) \<and> opEpoch op = rsEpoch (sbRsm b) \<longrightarrow>
        sbSubs b (opID op) = Some (opReq op))"

definition executed_by ::
  "('s, 'r, 'p) statemachine \<Rightarrow> 's \<Rightarrow> 'r rsm_op apply_msg \<Rightarrow> (op_id \<times> 'r \<times> 'p) set" where
  "executed_by sm st m =
     (if SnapshotValid m \<or> \<not> CommandValid m then {}
      else case mCommand m of
        None \<Rightarrow> {}
      | Some op \<Rightarrow> (case smDoOp sm st (opReq op) of None \<Rightarrow> {} | Some (_, p) \<Rightarrow> {(opID op, opReq op, p)}))"

inductive sub_step ::
  "('s, 'r, 'p) statemachine \<Rightarrow> 'r rsm_op codec \<Rightarrow> ('s, 'r, 'p) submissions \<Rightarrow> ('s, 'r, 'p) submissions \<Rightarrow> bool"
  for sm cd where
  register: "submit_register (sbRsm b) req = (r, Inr op) \<Longrightarrow>
    sub_step sm cd b (b\<lparr>sbRsm := r, sbSubs := (sbSubs b)(opID op \<mapsto> req)\<rparr>)"
| started: "submit_start cd (sbRsm b) op = Some (r, res) \<Longrightarrow> sub_step sm cd b (b\<lparr>sbRsm := r\<rparr>)"
| waited: "submit_wait (sbRsm b) i t w = Some (r, res) \<Longrightarrow> sub_step sm cd b (b\<lparr>sbRsm := r\<rparr>)"
| applied: "(\<And>op. mCommand m = Some op \<Longrightarrow> own_op b op) \<Longrightarrow> rsm_apply sm cd (sbRsm b) m = Some r \<Longrightarrow>
    sub_step sm cd b (b\<lparr>sbRsm := r, sbExec := sbExec b \<union> executed_by sm (rsSm (sbRsm b)) m\<rparr>)"
| raft: "sub_step sm cd b (b\<lparr>sbRsm := (sbRsm b)\<lparr>rsRf := rf, rsDone := d\<rparr>\<rparr>)"

definition sub_inv :: "('s, 'r, 'p) submissions \<Rightarrow> bool" where
  "sub_inv b \<longleftrightarrow>
     (\<forall>i w. rsWaiters (sbRsm b) i = Some w \<longrightarrow>
        fst i = rsMe (sbRsm b) \<and> fst (snd i) = rsEpoch (sbRsm b) \<and>
        (\<forall>p. w = Some p \<longrightarrow> (\<exists>req. sbSubs b i = Some req \<and> (i, req, p) \<in> sbExec b)))"

lemma sub_invD:
  assumes "sub_inv b" "rsWaiters (sbRsm b) i = Some w"
  shows "fst i = rsMe (sbRsm b)" "fst (snd i) = rsEpoch (sbRsm b)"
    and "w = Some p \<Longrightarrow> \<exists>req. sbSubs b i = Some req \<and> (i, req, p) \<in> sbExec b"
  using assms unfolding sub_inv_def by blast+

lemma removeWaiter_simps [simp]:
  "rsWaiters (removeWaiter r i) = (rsWaiters r)(i := None)" "rsMe (removeWaiter r i) = rsMe r"
  "rsEpoch (removeWaiter r i) = rsEpoch r" "rsSm (removeWaiter r i) = rsSm r"
  by (simp_all add: removeWaiter_def)

lemma submit_wait_OK:
  assumes "submit_wait r i t w = Some (r', Inl (OK, Some p))"
  shows "rsWaiters r i = Some (Some p)" "rsWaiters r' i = None"
  using assms by (cases w; auto simp: submit_wait_def Let_def split: option.splits prod.splits if_splits)+

lemma rsm_apply_waiters:
  assumes "rsm_apply sm cd r m = Some r'"
  shows "rsMe r' = rsMe r \<and> rsEpoch r' = rsEpoch r \<and>
    (rsWaiters r' = rsWaiters r \<or>
     (\<exists>op p. mCommand m = Some op \<and> (opID op, opReq op, p) \<in> executed_by sm (rsSm r) m \<and>
        rsWaiters r (opID op) = Some None \<and> rsWaiters r' = (rsWaiters r)(opID op \<mapsto> Some p)))"
proof (cases "SnapshotValid m \<or> \<not> CommandValid m")
  case True
  then show ?thesis
    using assms by (auto simp: rsm_apply_def bind_eq_Some_conv split: if_splits)
next
  case False
  then obtain op st p where m: "mCommand m = Some op" "smDoOp sm (rsSm r) (opReq op) = Some (st, p)"
    using assms by (auto simp: rsm_apply_def bind_eq_Some_conv)
  then have "r' = wake (r\<lparr>rsSm := st\<rparr>) (opID op) p \<or>
      (\<exists>rf. r' = wake (r\<lparr>rsSm := st, rsRf := Some rf\<rparr>) (opID op) p)"
    using assms False
    by (cases "rsRf r") (auto simp: rsm_apply_def bind_eq_Some_conv Let_def split: if_splits)
  moreover have "(opID op, opReq op, p) \<in> executed_by sm (rsSm r) m" using m False by (simp add: executed_by_def)
  ultimately show ?thesis using m by (auto simp: wake_def split: option.splits)
qed

lemma sub_step_inv:
  assumes "sub_step sm cd b b'" "sub_inv b"
  shows "sub_inv b'"
  using assms(1)
proof cases
  case (register req r op)
  then show ?thesis
    using assms(2) by (auto simp: sub_inv_def submit_register_def opID_def Let_def split: if_splits)
next
  case (started op r res)
  have "(rsWaiters r = rsWaiters (sbRsm b) \<or> rsWaiters r = (rsWaiters (sbRsm b))(opID op := None)) \<and>
      rsMe r = rsMe (sbRsm b) \<and> rsEpoch r = rsEpoch (sbRsm b)"
    using started(2)
    by (auto simp: submit_start_def bind_eq_Some_conv Let_def split: option.splits prod.splits if_splits)
  then show ?thesis using assms(2) by (auto simp: started(1) sub_inv_def split: if_splits)
next
  case (waited i t w r res)
  have "(rsWaiters r = rsWaiters (sbRsm b) \<or> rsWaiters r = (rsWaiters (sbRsm b))(i := None)) \<and>
      rsMe r = rsMe (sbRsm b) \<and> rsEpoch r = rsEpoch (sbRsm b)"
    using waited(2)
    by (cases w) (auto simp: submit_wait_def Let_def split: option.splits prod.splits if_splits)
  then show ?thesis using assms(2) by (auto simp: waited(1) sub_inv_def split: if_splits)
next
  case (applied m r)
  note w = rsm_apply_waiters [OF applied(3)]
  show ?thesis
  proof (cases "rsWaiters r = rsWaiters (sbRsm b)")
    case True
    with w assms(2) show ?thesis by (fastforce simp: applied(1) sub_inv_def)
  next
    case False
    with w obtain op p where o: "mCommand m = Some op"
        "(opID op, opReq op, p) \<in> executed_by sm (rsSm (sbRsm b)) m"
        "rsWaiters (sbRsm b) (opID op) = Some None" "rsWaiters r = (rsWaiters (sbRsm b))(opID op \<mapsto> Some p)"
      by blast
    have "opServer op = rsMe (sbRsm b)" "opEpoch op = rsEpoch (sbRsm b)"
      using assms(2) o(3) by (auto simp: sub_inv_def opID_def)
    then have "sbSubs b (opID op) = Some (opReq op)" using applied(2) [OF o(1)] by (simp add: own_op_def)
    then have "\<exists>req. sbSubs b' i = Some req \<and> (i, req, p') \<in> sbExec b'"
      if "rsWaiters r i = Some (Some p')" for i p'
      using that o(2,4) sub_invD(3) [OF assms(2), of i "Some p'" p'] by (cases "i = opID op") (auto simp: applied(1))
    moreover have "fst i = rsMe r \<and> fst (snd i) = rsEpoch r" if "rsWaiters r i = Some wt" for i wt
      using that o(3,4) sub_invD(1,2) [OF assms(2)] w by (cases "i = opID op") auto
    ultimately show ?thesis by (simp add: applied(1) sub_inv_def)
  qed
next
  case (raft rf d)
  then show ?thesis using assms(2) by (simp add: sub_inv_def)
qed

section \<open>Properties\<close>

text \<open>
  A submitter that is told \<^verbatim>\<open>OK\<close> receives the reply of its own operation: in every state the
  server process can reach, the reply was computed by executing the request that was submitted
  under that identity, whatever other operations were submitted, applied or given up meanwhile.
\<close>

theorem Submit_returns_own_reply:
  assumes "(sub_step sm cd)\<^sup>*\<^sup>* b0 b" "rsWaiters (sbRsm b0) = (\<lambda>_. None)"
    and "submit_wait (sbRsm b) i t w = Some (r, Inl (OK, Some p))"
  shows "\<exists>req. sbSubs b i = Some req \<and> (i, req, p) \<in> sbExec b \<and> rsWaiters r i = None"
proof -
  have inv: "sub_inv b"
    using assms(1)
  proof (induction rule: rtranclp_induct)
    case base
    show ?case by (simp add: sub_inv_def assms(2))
  qed (rule sub_step_inv)
  note w = submit_wait_OK [OF assms(3)]
  from sub_invD(3) [OF inv w(1) refl] w(2) show ?thesis by auto
qed

definition sample_counter :: "(nat, unit, nat) statemachine" where
  "sample_counter = \<lparr>smDoOp = (\<lambda>n _. Some (n + 1, n)), smSnapshot = (\<lambda>n. Some (replicate (n + 1) 0)),
     smRestore = (\<lambda>_ b. if b = [] then None else Some (length b - 1))\<rparr>"

definition sample_rsm :: "(nat, unit, nat) rsm" where
  "sample_rsm = \<lparr>rsMe = 0, rsRf = None, rsMaxraftstate = -1, rsSm = 4, rsEpoch = 9, rsNextSequence = 0,
     rsWaiters = (\<lambda>_. None), rsDone = False\<rparr>"

definition sample_op_codec :: "unit rsm_op codec" where
  "sample_op_codec = \<lparr>encEntry = (\<lambda>_. None), decEntry = (\<lambda>_. None), decLegacy = (\<lambda>_. None)\<rparr>"

theorem Submit_returns_own_reply_witness:
  "\<exists>b r. (sub_step sample_counter sample_op_codec)\<^sup>*\<^sup>* \<lparr>sbRsm = sample_rsm, sbSubs = (\<lambda>_. None), sbExec = {}\<rparr> b \<and>
     submit_wait (sbRsm b) (0, 9, 1) 1 WaitResult = Some (r, Inl (OK, Some 4)) \<and>
     ((0, 9, 1), (), 4) \<in> sbExec b"
proof -
  let ?cd = sample_op_codec
  define op :: "unit rsm_op" where "op = \<lparr>opServer = 0, opEpoch = 9, opSequence = 1, opReq = ()\<rparr>"
  define b0 :: "(nat, unit, nat) submissions" where "b0 = \<lparr>sbRsm = sample_rsm, sbSubs = (\<lambda>_. None), sbExec = {}\<rparr>"
  define r1 where "r1 = sample_rsm\<lparr>rsNextSequence := 1, rsWaiters := [(0, 9, 1) \<mapsto> None]\<rparr>"
  define b1 where "b1 = b0\<lparr>sbRsm := r1, sbSubs := (sbSubs b0)(opID op \<mapsto> ())\<rparr>"
  define m where "m = \<lparr>CommandValid = True, mCommand = Some op, CommandIndex = 1, SnapshotValid = False,
    mSnapshot = [], SnapshotTerm = 0, SnapshotIndex = 0\<rparr>"
  define r2 where "r2 = r1\<lparr>rsSm := 5, rsWaiters := [(0, 9, 1) \<mapsto> Some 4]\<rparr>"
  define b2 where "b2 = b1\<lparr>sbRsm := r2, sbExec := sbExec b1 \<union> executed_by sample_counter (rsSm (sbRsm b1)) m\<rparr>"
  have "submit_register (sbRsm b0) () = (r1, Inr op)"
    by (simp add: submit_register_def b0_def sample_rsm_def raftDone_def Let_def op_def r1_def opID_def)
  then have 1: "sub_step sample_counter ?cd b0 b1" unfolding b1_def by (rule sub_step.register)
  have "own_op b1 op'" if "mCommand m = Some op'" for op'
    using that by (simp add: own_op_def b1_def m_def)
  moreover have "rsm_apply sample_counter ?cd (sbRsm b1) m = Some r2"
    by (simp add: rsm_apply_def m_def b1_def r1_def r2_def sample_rsm_def sample_counter_def op_def wake_def opID_def)
  ultimately have 2: "sub_step sample_counter ?cd b1 b2" unfolding b2_def by (rule sub_step.applied)
  have reach: "(sub_step sample_counter ?cd)\<^sup>*\<^sup>* b0 b2"
    by (rule converse_rtranclp_into_rtranclp [of "sub_step sample_counter ?cd", OF 1
          r_into_rtranclp [of "sub_step sample_counter ?cd", OF 2]])
  have w: "submit_wait (sbRsm b2) (0, 9, 1) 1 WaitResult = Some (removeWaiter r2 (0, 9, 1), Inl (OK, Some 4))"
    by (simp add: submit_wait_def b2_def r2_def Let_def)
  have "((0, 9, 1), (), 4) \<in> sbExec b2"
    using Submit_returns_own_reply [OF reach _ w] by (simp add: b0_def sample_rsm_def)
  with reach w show ?thesis unfolding b0_def by (intro exI conjI)
qed

end
