(* ===== verification/Raft_Service.thy ===== *)
theory Raft_Service
  imports Raft_View Rsm
begin

text \<open>
  A replicated service as a whole: on each server the replicated state machine of
  \<^verbatim>\<open>kvraft1/rsm/rsm.go\<close> on top of its Raft node, the channel between the two, the submitters, the
  network between the nodes, and crashes.
\<close>

section \<open>The system\<close>

text \<open>
  \<open>svChan\<close> is what the applier of a node has still to send on \<^verbatim>\<open>applyCh\<close>, \<open>svTodo\<close> the operations that
  are registered but not yet handed to Raft. The last three fields record the past: \<open>svAt\<close> how far in
  the log the state of a server is; \<open>svOps\<close> for each operation its request, the indices that had been
  executed when it was submitted, and the index at which it was appended; \<open>svExec\<close> what was executed
  at which index and with what result.
\<close>

record ('s, 'r, 'p) service =
  svCl :: "'r rsm_op cluster"
  svRsm :: "nat \<Rightarrow> ('s, 'r, 'p) rsm"
  svChan :: "nat \<Rightarrow> 'r rsm_op apply_msg list"
  svTodo :: "(nat \<times> 'r rsm_op) set"
  svAt :: "nat \<Rightarrow> nat"
  svOps :: "op_id \<rightharpoonup> 'r \<times> nat set \<times> int option"
  svExec :: "(nat \<times> 'r rsm_op \<times> 'p) set"

definition rsm_at :: "('s, 'r, 'p) service \<Rightarrow> nat \<Rightarrow> ('s, 'r, 'p) rsm" where
  "rsm_at s p = (svRsm s p)\<lparr>rsRf := Some (clNode (svCl s) p)\<rparr>"

text \<open>The requests that have been submitted.\<close>

definition submitted :: "('s, 'r, 'p) service \<Rightarrow> 'r set" where
  "submitted s = {req. \<exists>x E i. svOps s x = Some (req, E, i)}"

definition set_node :: "'c cluster \<Rightarrow> nat \<Rightarrow> 'c raft \<Rightarrow> 'c cluster" where
  "set_node c p rf = c\<lparr>clNode := (clNode c)(p := rf)\<rparr>"

definition msg_index :: "'c apply_msg \<Rightarrow> nat" where
  "msg_index m = nat (if SnapshotValid m then SnapshotIndex m else CommandIndex m)"

definition executions :: "('s, 'r, 'p) statemachine \<Rightarrow> 's \<Rightarrow> 'r rsm_op apply_msg \<Rightarrow> (nat \<times> 'r rsm_op \<times> 'p) set" where
  "executions sm st m =
     (if SnapshotValid m \<or> \<not> CommandValid m then {}
      else case mCommand m of
        None \<Rightarrow> {}
      | Some op \<Rightarrow> (case smDoOp sm st (opReq op) of None \<Rightarrow> {} | Some (_, p) \<Rightarrow> {(nat (CommandIndex m), op, p)}))"

fun plain_event :: "'c raft_event \<Rightarrow> bool" where
  "plain_event (EvWorkerBegin _) \<longleftrightarrow> True"
| "plain_event (EvWorkerEnd _) \<longleftrightarrow> True"
| "plain_event EvKill \<longleftrightarrow> True"
| "plain_event EvStopped \<longleftrightarrow> True"
| "plain_event EvGoroutineDone \<longleftrightarrow> True"
| "plain_event _ \<longleftrightarrow> False"

text \<open>
  Each step is one section of the code under its mutex. A server that restarts draws an epoch that
  none of its operations has, as 64 bits of \<^verbatim>\<open>cryptorand\<close> are meant to give, and a server numbers
  fewer than $2^{64}$ operations between two restarts.
\<close>

inductive service_step ::
  "('s, 'r, 'p) statemachine \<Rightarrow> 'r rsm_op codec \<Rightarrow> 's \<Rightarrow> nat \<Rightarrow> ('s, 'r, 'p) service \<Rightarrow> ('s, 'r, 'p) service \<Rightarrow> bool"
  for sm cd s0 n where
  net: "cluster_net cd n (svCl s) c \<Longrightarrow> service_step sm cd s0 n s (s\<lparr>svCl := c\<rparr>)"
| node: "p < n \<Longrightarrow> plain_event e \<Longrightarrow> local_event (clNode (svCl s) p) e \<Longrightarrow> raft_step cd ev (clNode (svCl s) p) e = Some rf \<Longrightarrow>
    service_step sm cd s0 n s (s\<lparr>svCl := set_node (svCl s) p rf\<rparr>)"
| deliver: "p < n \<Longrightarrow> svChan s p = [] \<Longrightarrow> applier (clNode (svCl s) p) = Some (rf, ApplierSend ms) \<Longrightarrow>
    service_step sm cd s0 n s (s\<lparr>svCl := set_node (svCl s) p rf, svChan := (svChan s)(p := ms)\<rparr>)"
| apply_msg: "p < n \<Longrightarrow> svChan s p = m # ms \<Longrightarrow> rsm_apply sm cd (rsm_at s p) m = Some r \<Longrightarrow> rsRf r = Some rf \<Longrightarrow>
    service_step sm cd s0 n s
      (s\<lparr>svCl := set_node (svCl s) p rf, svRsm := (svRsm s)(p := r), svChan := (svChan s)(p := ms),
         svAt := (svAt s)(p := msg_index m), svExec := svExec s \<union> executions sm (rsSm (svRsm s p)) m\<rparr>)"
| submit: "p < n \<Longrightarrow> submit_register (rsm_at s p) req = (r, Inr op) \<Longrightarrow> rsNextSequence (svRsm s p) \<noteq> - 1 \<Longrightarrow>
    service_step sm cd s0 n s
      (s\<lparr>svRsm := (svRsm s)(p := r), svTodo := insert (p, op) (svTodo s),
         svOps := (svOps s)(opID op \<mapsto> (req, fst ` svExec s, None))\<rparr>)"
| start: "(p, op) \<in> svTodo s \<Longrightarrow> Start cd (clNode (svCl s) p) op = Some (rf, i, t, isLeader) \<Longrightarrow>
    submit_start cd (rsm_at s p) op = Some (r, res) \<Longrightarrow>
    service_step sm cd s0 n s
      (s\<lparr>svCl := set_node (svCl s) p rf, svRsm := (svRsm s)(p := r), svTodo := svTodo s - {(p, op)},
         svOps := (if isLeader then (svOps s)(opID op := map_option (\<lambda>(req, E, _). (req, E, Some i)) (svOps s (opID op)))
                   else svOps s)\<rparr>)"
| wait: "p < n \<Longrightarrow> submit_wait (rsm_at s p) x t w = Some (r, res) \<Longrightarrow>
    service_step sm cd s0 n s (s\<lparr>svRsm := (svRsm s)(p := r)\<rparr>)"
| closed: "p < n \<Longrightarrow> service_step sm cd s0 n s (s\<lparr>svRsm := (svRsm s)(p := applier_exit (svRsm s p))\<rparr>)"
| restart: "p < n \<Longrightarrow> sizes_ok (clNode (svCl s) p) \<Longrightarrow>
    MakeRSM sm cd ev False (Some eb) n (int p) (persister (clNode (svCl s) p)) mrs s0 = Some r \<Longrightarrow> rsRf r = Some rf \<Longrightarrow>
    (\<forall>x \<in> dom (svOps s). fst x = int p \<longrightarrow> fst (snd x) \<noteq> Uint64 eb) \<Longrightarrow>
    service_step sm cd s0 n s
      (s\<lparr>svCl := (svCl s)\<lparr>clNode := (clNode (svCl s))(p := rf), clElect := (clElect (svCl s))(p := (\<lambda>_. None))\<rparr>,
         svRsm := (svRsm s)(p := r), svChan := (svChan s)(p := []), svTodo := {x \<in> svTodo s. fst x \<noteq> p},
         svAt := (svAt s)(p := nat (lastIncludedIndex rf))\<rparr>)"

text \<open>The servers have been made on empty disks, and nothing has been submitted.\<close>

definition service_start :: "('s, 'r, 'p) statemachine \<Rightarrow> 'r rsm_op codec \<Rightarrow> 's \<Rightarrow> nat \<Rightarrow> ('s, 'r, 'p) service \<Rightarrow> bool" where
  "service_start sm cd s0 n s \<longleftrightarrow>
     (\<forall>p<n. \<exists>ev eb mrs. MakeRSM sm cd ev False (Some eb) n (int p) MakePersister mrs s0 = Some (svRsm s p) \<and>
        rsRf (svRsm s p) = Some (clNode (svCl s) p)) \<and>
     clElect (svCl s) = (\<lambda>_ _. None) \<and> clVoteReq (svCl s) = {} \<and> clVoteRep (svCl s) = {} \<and> clAppend (svCl s) = {} \<and>
     clAppendRep (svCl s) = {} \<and> clInstall (svCl s) = {} \<and> clInstallRep (svCl s) = {} \<and>
     svChan s = (\<lambda>_. []) \<and> svTodo s = {} \<and> svAt s = (\<lambda>_. 0) \<and> svOps s = (\<lambda>_. None) \<and> svExec s = {}"

section \<open>Chosen prefixes of the log\<close>

definition chosen_prefix :: "nat \<Rightarrow> 'c hist \<Rightarrow> 'c elog \<Rightarrow> bool" where
  "chosen_prefix n h P \<longleftrightarrow> P = [\<lparr>eTerm = 0, eCommand = None\<rparr>] \<or>
     (\<exists>u k. chosen n h u k \<and> 0 < length P \<and> length P \<le> Suc k \<and> P = take (length P) (hLL h u))"

lemma chosen_lead: "chosen n h u k \<Longrightarrow> \<exists>l. hLead h u = Some l" "chosen n h u k \<Longrightarrow> k < length (hLL h u)"
  by (auto simp: chosen_def)

lemma prefix_later:
  assumes "hist_le h h'" "chosen_prefix n h P"
  shows "chosen_prefix n h' P"
proof (cases "P = [\<lparr>eTerm = 0, eCommand = None\<rparr>]")
  case False
  then obtain u k where u: "chosen n h u k" "0 < length P" "length P \<le> Suc k" "P = take (length P) (hLL h u)"
    using assms(2) by (auto simp: chosen_prefix_def)
  obtain l where l: "hLead h u = Some l" using chosen_lead(1) [OF u(1)] by blast
  obtain es where "hLL h' u = hLL h u @ es" using hist_leD(8) [OF assms(1) l] by blast
  then have "P = take (length P) (hLL h' u)" using u(3,4) chosen_lead(2) [OF u(1)] by simp
  then show ?thesis unfolding chosen_prefix_def using chosen_later [OF assms(1) u(1)] u(2,3) by blast
qed (simp add: chosen_prefix_def)

lemma prefix_agree:
  assumes "hist_inv n h" "chosen_prefix n h P" "chosen_prefix n h Q" "length P \<le> length Q"
  shows "P = take (length P) Q"
proof -
  have first: "take 1 (hLL h u) = [\<lparr>eTerm = 0, eCommand = None\<rparr>]" if c: "chosen n h u k" for u k
  proof -
    obtain l where "hLead h u = Some l" using chosen_lead(1) [OF c] by blast
    then have "built h (hLL h u)" using hist_invD(4) [OF assms(1)] by (simp add: lead_fact_def)
    then show ?thesis by (cases "hLL h u") (auto simp: built_def)
  qed
  have one: "take 1 Q = [\<lparr>eTerm = 0, eCommand = None\<rparr>]" if "chosen_prefix n h Q" for Q
  proof (cases "Q = [\<lparr>eTerm = 0, eCommand = None\<rparr>]")
    case False
    then obtain u k where u: "chosen n h u k" "0 < length Q" "Q = take (length Q) (hLL h u)"
      using \<open>chosen_prefix n h Q\<close> by (auto simp: chosen_prefix_def)
    have "take 1 Q = take 1 (take (length Q) (hLL h u))" using u(3) by simp
    then show ?thesis using first [OF u(1)] u(2) by (simp add: min_def split: if_splits)
  qed simp
  show ?thesis
  proof (cases "length P \<le> 1")
    case True
    then show ?thesis using one [OF assms(2)] one [OF assms(3)] by (cases P) auto
  next
    case False
    then obtain u k v j where u: "chosen n h u k" "length P \<le> Suc k" "P = take (length P) (hLL h u)"
      and v: "chosen n h v j" "length Q \<le> Suc j" "Q = take (length Q) (hLL h v)"
      using assms(2-4) by (auto simp: chosen_prefix_def)
    have "take (Suc (length P - 1)) (hLL h u) = take (Suc (length P - 1)) (hLL h v)"
      by (rule chosen_agree [OF assms(1) u(1) v(1)]) (use u(2) v(2) assms(4) False in linarith)+
    moreover have "Suc (length P - 1) = length P" using False by simp
    ultimately have "P = take (length P) (hLL h v)" using trans [OF u(3)] by simp
    also have "\<dots> = take (length P) (take (length Q) (hLL h v))" using assms(4) by (simp add: min_def)
    finally show ?thesis using v(3) by simp
  qed
qed

lemma prefix_unique:
  "hist_inv n h \<Longrightarrow> chosen_prefix n h P \<Longrightarrow> chosen_prefix n h Q \<Longrightarrow> length P = length Q \<Longrightarrow> P = Q"
  using prefix_agree [of n h P Q] by simp

lemma prefix_safe:
  assumes "hist_inv n h" "p < n" "safe n h p i"
  shows "chosen_prefix n h (take (Suc i) (hLog h p))"
proof (cases "i = 0")
  case True
  have "built h (hLog h p)" using hist_invD(1) [OF assms(1,2)] by (simp add: log_fact_def)
  then show ?thesis using True by (cases "hLog h p") (auto simp: built_def chosen_prefix_def)
next
  case False
  then obtain u k where u: "i \<le> k" "chosen n h u k" "has h (hLog h p) u i" using assms(3) by (auto simp: safe_def)
  then have "length (take (Suc i) (hLog h p)) = Suc i" "take (Suc i) (hLog h p) = take (Suc i) (hLL h u)" by (auto simp: has_def)
  then show ?thesis unfolding chosen_prefix_def using u(1,2) by (intro disjI2 exI [of _ u] exI [of _ k]) simp
qed

lemma prefix_butlast:
  assumes "chosen_prefix n h P" "1 < length P"
  shows "chosen_prefix n h (butlast P)"
proof -
  obtain u k where u: "chosen n h u k" "length P \<le> Suc k" "P = take (length P) (hLL h u)"
    using assms by (auto simp: chosen_prefix_def)
  have "butlast P = take (length P - 1) (take (length P) (hLL h u))" using u(3) by (simp add: butlast_conv_take)
  then have e: "butlast P = take (length P - 1) (hLL h u)" by simp
  have "butlast P = take (length (butlast P)) (hLL h u)" by (subst length_butlast) (rule e)
  moreover have "0 < length (butlast P)" "length (butlast P) \<le> Suc k" using u(2) assms(2) by simp_all
  ultimately show ?thesis unfolding chosen_prefix_def using u(1) by blast
qed

end
