(* ===== verification/Service_Inv.thy ===== *)
theory Service_Inv
  imports Raft_Service
begin

text \<open>
  The invariant of a replicated service: the state of every server, every snapshot and every message
  on its way to a server is that of a chosen prefix of the log.
\<close>

section \<open>States and messages of the log\<close>

definition requests :: "'r rsm_op elog \<Rightarrow> 'r list" where
  "requests P = map (\<lambda>e. opReq (the (eCommand e))) (tl P)"

definition state_at :: "('s, 'r, 'p) statemachine \<Rightarrow> 's \<Rightarrow> nat \<Rightarrow> 'r rsm_op hist \<Rightarrow> nat \<Rightarrow> 's \<Rightarrow> bool" where
  "state_at sm s0 n h i st \<longleftrightarrow> (\<exists>P. chosen_prefix n h P \<and> length P = Suc i \<and> replay sm s0 (requests P) = Some st)"

text \<open>A snapshot for an index; \<open>X\<close> are the indices that have been executed.\<close>

definition snap_ok :: "('s, 'r, 'p) statemachine \<Rightarrow> 's \<Rightarrow> nat \<Rightarrow> 'r rsm_op hist \<Rightarrow> nat set \<Rightarrow> int \<Rightarrow> bytes \<Rightarrow> bool" where
  "snap_ok sm s0 n h X i data \<longleftrightarrow> 0 \<le> i \<and> {1..nat i} \<subseteq> X \<and>
     (i = 0 \<and> data = [] \<or> (\<exists>st. state_at sm s0 n h (nat i) st \<and> smSnapshot sm st = Some data))"

text \<open>The command at an index is an operation that was submitted and appended at this index.\<close>

type_synonym 'r ops = "op_id \<rightharpoonup> 'r \<times> nat set \<times> int option"

definition registered :: "'r ops \<Rightarrow> int \<Rightarrow> 'r rsm_op option \<Rightarrow> bool" where
  "registered R i c \<longleftrightarrow> (\<exists>op E. c = Some op \<and> R (opID op) = Some (opReq op, E, Some i))"

definition command_ok :: "nat \<Rightarrow> 'r rsm_op hist \<Rightarrow> 'r ops \<Rightarrow> nat \<Rightarrow> 'r rsm_op option \<Rightarrow> bool" where
  "command_ok n h R i c \<longleftrightarrow> registered R (int i) c \<and> (\<exists>P. chosen_prefix n h P \<and> length P = Suc i \<and> eCommand (P ! i) = c)"

text \<open>The messages that take a server from index \<open>k\<close> of the log to index \<open>e\<close>.\<close>

fun chan_ok :: "('s, 'r, 'p) statemachine \<Rightarrow> 's \<Rightarrow> nat \<Rightarrow> 'r rsm_op hist \<Rightarrow> 'r ops \<Rightarrow> nat set \<Rightarrow> nat \<Rightarrow>
    'r rsm_op apply_msg list \<Rightarrow> int \<Rightarrow> bool" where
  "chan_ok sm s0 n h R X k [] e \<longleftrightarrow> int k = e"
| "chan_ok sm s0 n h R X k (m # ms) e \<longleftrightarrow>
     (if SnapshotValid m then int k \<le> SnapshotIndex m \<and> snap_ok sm s0 n h X (SnapshotIndex m) (mSnapshot m)
      else CommandValid m \<and> CommandIndex m = int (Suc k) \<and> command_ok n h R (Suc k) (mCommand m)) \<and>
     chan_ok sm s0 n h R X (msg_index m) ms e"

definition pending_ok :: "('s, 'r, 'p) statemachine \<Rightarrow> 's \<Rightarrow> nat \<Rightarrow> 'r rsm_op hist \<Rightarrow> nat set \<Rightarrow> 'r rsm_op raft \<Rightarrow> int \<Rightarrow> bool" where
  "pending_ok sm s0 n h X rf e \<longleftrightarrow>
     (case pendingSnapshot rf of
        None \<Rightarrow> e = lastApplied rf
      | Some m \<Rightarrow> e \<le> SnapshotIndex m \<and> SnapshotIndex m = lastApplied rf \<and> SnapshotValid m \<and>
          snap_ok sm s0 n h X (SnapshotIndex m) (mSnapshot m))"

definition server_ok :: "('s, 'r, 'p) statemachine \<Rightarrow> 's \<Rightarrow> nat \<Rightarrow> 'r rsm_op hist \<Rightarrow> 'r ops \<Rightarrow> nat set \<Rightarrow> 'r rsm_op raft \<Rightarrow>
    nat \<Rightarrow> 's \<Rightarrow> 'r rsm_op apply_msg list \<Rightarrow> bool" where
  "server_ok sm s0 n h R X rf k st ms \<longleftrightarrow> snap_ok sm s0 n h X (lastIncludedIndex rf) (snapshot rf) \<and>
     state_at sm s0 n h k st \<and> {1..k} \<subseteq> X \<and> (\<exists>e. chan_ok sm s0 n h R X k ms e \<and> pending_ok sm s0 n h X rf e)"

text \<open>What was executed at an index, and when the operation was submitted.\<close>

definition exec_ok :: "('s, 'r, 'p) statemachine \<Rightarrow> 's \<Rightarrow> nat \<Rightarrow> 'r rsm_op hist \<Rightarrow> 'r ops \<Rightarrow> nat \<Rightarrow> 'r rsm_op \<Rightarrow> 'p \<Rightarrow> bool" where
  "exec_ok sm s0 n h R j op rep \<longleftrightarrow> 0 < j \<and>
     (\<exists>P st st'. chosen_prefix n h P \<and> length P = Suc j \<and> eCommand (P ! j) = Some op \<and>
        replay sm s0 (requests (butlast P)) = Some st \<and> smDoOp sm st (opReq op) = Some (st', rep)) \<and>
     (\<exists>E. R (opID op) = Some (opReq op, E, Some (int j)) \<and> (\<forall>i \<in> E. i < j))"

definition ops_ok :: "(nat \<times> 'r rsm_op \<times> 'p) set \<Rightarrow> 'r ops \<Rightarrow> bool" where
  "ops_ok D R \<longleftrightarrow> (\<forall>x r E i. R x = Some (r, E, i) \<longrightarrow>
     (\<forall>i \<in> E. {1..i} \<subseteq> E) \<and> (\<forall>i \<in> E. \<exists>op rep. (i, op, rep) \<in> D \<and> opID op \<noteq> x))"

definition ids_ok :: "nat \<Rightarrow> ('s, 'r, 'p) service \<Rightarrow> bool" where
  "ids_ok n s \<longleftrightarrow> (\<forall>p<n. rsMe (svRsm s p) = int p \<and>
       (\<forall>x \<in> dom (svOps s). fst x = int p \<longrightarrow> fst (snd x) = rsEpoch (svRsm s p) \<longrightarrow> snd (snd x) \<le> rsNextSequence (svRsm s p))) \<and>
     (\<forall>(p, op) \<in> svTodo s. p < n \<and> opServer op = int p \<and> (\<exists>E. svOps s (opID op) = Some (opReq op, E, None)))"

definition waiters_ok :: "nat \<Rightarrow> ('s, 'r, 'p) service \<Rightarrow> bool" where
  "waiters_ok n s \<longleftrightarrow> (\<forall>p<n. \<forall>x rep. rsWaiters (svRsm s p) x = Some (Some rep) \<longrightarrow> (\<exists>j op. opID op = x \<and> (j, op, rep) \<in> svExec s))"

definition service_inv :: "('s, 'r, 'p) statemachine \<Rightarrow> 'r rsm_op codec \<Rightarrow> 's \<Rightarrow> nat \<Rightarrow> 'r rsm_op hist \<Rightarrow> ('s, 'r, 'p) service \<Rightarrow> bool" where
  "service_inv sm cd s0 n h s \<longleftrightarrow> follows cd n h (svCl s) \<and>
     (\<forall>p<n. server_ok sm s0 n h (svOps s) (fst ` svExec s) (clNode (svCl s) p) (svAt s p) (rsSm (svRsm s p)) (svChan s p)) \<and>
     (\<forall>(q, a) \<in> clInstall (svCl s). snap_ok sm s0 n h (fst ` svExec s) (isLastIncludedIndex a) (isData a)) \<and>
     (\<forall>(i, e) \<in> cluster_entries n (svCl s). registered (svOps s) i (eCommand e)) \<and>
     (\<forall>(j, op, rep) \<in> svExec s. exec_ok sm s0 n h (svOps s) j op rep \<and> {1..j} \<subseteq> fst ` svExec s) \<and>
     finite (svExec s) \<and> ops_ok (svExec s) (svOps s) \<and> ids_ok n s \<and> waiters_ok n s"

lemma service_invD:
  assumes "service_inv sm cd s0 n h s"
  shows "follows cd n h (svCl s)"
    "p < n \<Longrightarrow> server_ok sm s0 n h (svOps s) (fst ` svExec s) (clNode (svCl s) p) (svAt s p) (rsSm (svRsm s p)) (svChan s p)"
    "(q, a) \<in> clInstall (svCl s) \<Longrightarrow> snap_ok sm s0 n h (fst ` svExec s) (isLastIncludedIndex a) (isData a)"
    "(i, e) \<in> cluster_entries n (svCl s) \<Longrightarrow> registered (svOps s) i (eCommand e)"
    "(j, op, rep) \<in> svExec s \<Longrightarrow> exec_ok sm s0 n h (svOps s) j op rep" "(j, op, rep) \<in> svExec s \<Longrightarrow> {1..j} \<subseteq> fst ` svExec s"
    "finite (svExec s)" "ops_ok (svExec s) (svOps s)" "ids_ok n s" "waiters_ok n s"
proof -
  show "follows cd n h (svCl s)" "finite (svExec s)" "ops_ok (svExec s) (svOps s)" "ids_ok n s" "waiters_ok n s"
    using assms by (simp_all add: service_inv_def)
  show "p < n \<Longrightarrow> server_ok sm s0 n h (svOps s) (fst ` svExec s) (clNode (svCl s) p) (svAt s p) (rsSm (svRsm s p)) (svChan s p)"
    "(q, a) \<in> clInstall (svCl s) \<Longrightarrow> snap_ok sm s0 n h (fst ` svExec s) (isLastIncludedIndex a) (isData a)"
    "(i, e) \<in> cluster_entries n (svCl s) \<Longrightarrow> registered (svOps s) i (eCommand e)"
    using assms unfolding service_inv_def by blast+
  have "\<forall>(j, op, rep) \<in> svExec s. exec_ok sm s0 n h (svOps s) j op rep \<and> {1..j} \<subseteq> fst ` svExec s"
    using assms unfolding service_inv_def by blast
  then show "(j, op, rep) \<in> svExec s \<Longrightarrow> exec_ok sm s0 n h (svOps s) j op rep" "(j, op, rep) \<in> svExec s \<Longrightarrow> {1..j} \<subseteq> fst ` svExec s"
    by blast+
qed

section \<open>Time\<close>

text \<open>Histories grow, indices are appended to operations, and more is executed.\<close>

definition ops_le :: "'r ops \<Rightarrow> 'r ops \<Rightarrow> bool" where
  "ops_le R R' \<longleftrightarrow> (\<forall>x r E i. R x = Some (r, E, Some i) \<longrightarrow> R' x = Some (r, E, Some i))"

lemma state_later: "hist_le h h' \<Longrightarrow> state_at sm s0 n h i st \<Longrightarrow> state_at sm s0 n h' i st"
  unfolding state_at_def using prefix_later by blast

lemma snap_later:
  assumes "hist_le h h'" "X \<subseteq> X'" "snap_ok sm s0 n h X i data"
  shows "snap_ok sm s0 n h' X' i data"
  using assms(2,3) unfolding snap_ok_def by (auto intro: state_later [OF assms(1)])

lemma registered_later: "ops_le R R' \<Longrightarrow> registered R i c \<Longrightarrow> registered R' i c"
  unfolding registered_def ops_le_def by blast

lemma command_later: "hist_le h h' \<Longrightarrow> ops_le R R' \<Longrightarrow> command_ok n h R i c \<Longrightarrow> command_ok n h' R' i c"
  unfolding command_ok_def using registered_later prefix_later by blast

lemma chan_later:
  assumes "hist_le h h'" "ops_le R R'" "X \<subseteq> X'"
  shows "chan_ok sm s0 n h R X k ms e \<Longrightarrow> chan_ok sm s0 n h' R' X' k ms e"
  by (induction ms arbitrary: k) (auto intro: snap_later [OF assms(1,3)] command_later [OF assms(1,2)])

lemma pending_later:
  "hist_le h h' \<Longrightarrow> X \<subseteq> X' \<Longrightarrow> pending_ok sm s0 n h X rf e \<Longrightarrow> pending_ok sm s0 n h' X' rf e"
  unfolding pending_ok_def by (auto intro: snap_later split: option.splits)

lemma server_later:
  assumes "hist_le h h'" "ops_le R R'" "X \<subseteq> X'" "server_ok sm s0 n h R X rf k st ms"
  shows "server_ok sm s0 n h' R' X' rf k st ms"
  using assms(3,4) unfolding server_ok_def
  by (auto intro: snap_later [OF assms(1,3)] state_later [OF assms(1)] chan_later [OF assms(1-3)] pending_later [OF assms(1,3)])

lemma exec_later:
  assumes "hist_le h h'" "ops_le R R'" "exec_ok sm s0 n h R j op rep"
  shows "exec_ok sm s0 n h' R' j op rep"
proof -
  obtain P st st' E where P: "chosen_prefix n h P" "length P = Suc j" "eCommand (P ! j) = Some op"
    "replay sm s0 (requests (butlast P)) = Some st" "smDoOp sm st (opReq op) = Some (st', rep)"
    and E: "R (opID op) = Some (opReq op, E, Some (int j))" "\<forall>i \<in> E. i < j" and j: "0 < j"
    using assms(3) unfolding exec_ok_def by blast
  have "R' (opID op) = Some (opReq op, E, Some (int j))" using assms(2) E(1) unfolding ops_le_def by blast
  then show ?thesis unfolding exec_ok_def using prefix_later [OF assms(1) P(1)] P(2-5) E(2) j by blast
qed

lemma ops_le_refl [simp]: "ops_le R R"
  by (simp add: ops_le_def)

text \<open>What is left to show of a step that executes \<open>D\<close>.\<close>

lemma service_invI:
  assumes "service_inv sm cd s0 n h s" "hist_le h h'" "follows cd n h' (svCl s')" "ops_le (svOps s) (svOps s')"
    "svExec s' = svExec s \<union> D" "finite D"
    "\<And>j op rep. (j, op, rep) \<in> D \<Longrightarrow> exec_ok sm s0 n h' (svOps s') j op rep \<and> {1..j} \<subseteq> fst ` svExec s'"
    "\<And>p. p < n \<Longrightarrow> server_ok sm s0 n h' (svOps s') (fst ` svExec s') (clNode (svCl s') p) (svAt s' p) (rsSm (svRsm s' p)) (svChan s' p)"
    "\<And>q a. (q, a) \<in> clInstall (svCl s') \<Longrightarrow> snap_ok sm s0 n h' (fst ` svExec s') (isLastIncludedIndex a) (isData a)"
    "\<And>i e. (i, e) \<in> cluster_entries n (svCl s') \<Longrightarrow> registered (svOps s') i (eCommand e)"
    "ops_ok (svExec s') (svOps s')" "ids_ok n s'" "waiters_ok n s'"
  shows "service_inv sm cd s0 n h' s'"
proof -
  note i = service_invD [OF assms(1)]
  have "exec_ok sm s0 n h' (svOps s') j op rep \<and> {1..j} \<subseteq> fst ` svExec s'" if "(j, op, rep) \<in> svExec s'" for j op rep
  proof (cases "(j, op, rep) \<in> svExec s")
    case True
    then show ?thesis using exec_later [OF assms(2,4) i(5) [OF True]] i(6) [OF True] assms(5) by auto
  next
    case False
    then show ?thesis using that assms(5,7) by blast
  qed
  then have "\<forall>(j, op, rep) \<in> svExec s'. exec_ok sm s0 n h' (svOps s') j op rep \<and> {1..j} \<subseteq> fst ` svExec s'" by blast
  moreover have "finite (svExec s')" using i(7) assms(5,6) by simp
  moreover have "\<forall>(q, a) \<in> clInstall (svCl s'). snap_ok sm s0 n h' (fst ` svExec s') (isLastIncludedIndex a) (isData a)"
    "\<forall>(i, e) \<in> cluster_entries n (svCl s'). registered (svOps s') i (eCommand e)" using assms(9,10) by blast+
  ultimately show ?thesis using assms(3,8,11-13) unfolding service_inv_def by (intro conjI) simp_all
qed

text \<open>A step in which one server changes.\<close>

lemma server_change:
  assumes "service_inv sm cd s0 n h s" "hist_le h h'" "follows cd n h' (svCl s')"
    "clNode (svCl s') = (clNode (svCl s))(p := rf)" "clInstall (svCl s') = clInstall (svCl s)" "clAppend (svCl s') = clAppend (svCl s)"
    "entries rf \<subseteq> entries (clNode (svCl s) p)" "p < n" "svOps s' = svOps s" "svExec s' = svExec s \<union> D" "finite D"
    "\<And>j op rep. (j, op, rep) \<in> D \<Longrightarrow> exec_ok sm s0 n h' (svOps s) j op rep \<and> {1..j} \<subseteq> fst ` svExec s'"
    "\<And>q. q \<noteq> p \<Longrightarrow> svAt s' q = svAt s q \<and> rsSm (svRsm s' q) = rsSm (svRsm s q) \<and> svChan s' q = svChan s q"
    "server_ok sm s0 n h' (svOps s) (fst ` svExec s') rf (svAt s' p) (rsSm (svRsm s' p)) (svChan s' p)"
    "ids_ok n s'" "waiters_ok n s'"
  shows "service_inv sm cd s0 n h' s'"
proof -
  note i = service_invD [OF assms(1)]
  have X: "fst ` svExec s \<subseteq> fst ` svExec s'" using assms(10) by auto
  have R: "ops_le (svOps s) (svOps s')" using assms(9) by simp
  show ?thesis
  proof (rule service_invI [OF assms(1-3) R assms(10,11)])
    show "exec_ok sm s0 n h' (svOps s') j op rep \<and> {1..j} \<subseteq> fst ` svExec s'" if "(j, op, rep) \<in> D" for j op rep
      using assms(9,12) that by simp
    show "server_ok sm s0 n h' (svOps s') (fst ` svExec s') (clNode (svCl s') q) (svAt s' q) (rsSm (svRsm s' q)) (svChan s' q)" if "q < n" for q
      using assms(4,9,13,14) server_later [OF assms(2) R X i(2) [OF that]] by (cases "q = p") simp_all
    show "snap_ok sm s0 n h' (fst ` svExec s') (isLastIncludedIndex a) (isData a)" if "(q, a) \<in> clInstall (svCl s')" for q a
      using that assms(5) by (auto intro: snap_later [OF assms(2) X] i(3))
    have "cluster_entries n (svCl s') \<subseteq> cluster_entries n (svCl s)"
      using assms(4,6-8) by (intro cluster_entries_le) (auto intro: cluster_entriesI(1))
    then show "registered (svOps s') j (eCommand e)" if "(j, e) \<in> cluster_entries n (svCl s')" for j e
      using that i(4) assms(9) by auto
    show "ops_ok (svExec s') (svOps s')" using i(8) assms(9,10) unfolding ops_ok_def by fastforce
  qed (rule assms)+
qed

end
