(* ===== verification/Service_Steps.thy ===== *)
theory Service_Steps
  imports Service_Inv
begin

text \<open>Every step of a replicated service keeps its invariant.\<close>

section \<open>Steps of the network and of the nodes\<close>

lemma server_new:
  assumes "server_ok sm s0 n h R X rf k st ms" "lastApplied rf \<le> commitIndex rf"
    "same_upcalls rf rf' \<or> (\<exists>a. installs a rf rf' \<and> snap_ok sm s0 n h X (isLastIncludedIndex a) (isData a))"
  shows "server_ok sm s0 n h R X rf' k st ms"
proof (cases "same_upcalls rf rf'")
  case True
  then show ?thesis using assms(1) unfolding server_ok_def pending_ok_def same_upcalls_def by (simp cong: option.case_cong)
next
  case False
  then obtain a where a: "installs a rf rf'" "snap_ok sm s0 n h X (isLastIncludedIndex a) (isData a)" using assms(3) by blast
  obtain e where e: "chan_ok sm s0 n h R X k ms e" "pending_ok sm s0 n h X rf e" using assms(1) by (auto simp: server_ok_def)
  have "e \<le> lastApplied rf" using e(2) by (auto simp: pending_ok_def split: option.splits)
  then have "e < isLastIncludedIndex a" using a(1) assms(2) by (simp add: installs_def)
  then have "pending_ok sm s0 n h X rf' e" using a by (auto simp: pending_ok_def installs_def)
  then show ?thesis using assms(1) a e(1) unfolding server_ok_def installs_def by auto
qed

lemma nothing_new_inv:
  assumes "service_inv sm cd s0 n h s" "hist_le h h'" "follows cd n h' c" "nothing_new n (svCl s) c"
  shows "service_inv sm cd s0 n h' (s\<lparr>svCl := c\<rparr>)"
proof (rule service_invI [OF assms(1,2), where D = "{}"])
  note i = service_invD [OF assms(1)] and l = snap_later [OF assms(2) subset_refl]
  show "follows cd n h' (svCl (s\<lparr>svCl := c\<rparr>))" using assms(3) by simp
  show "server_ok sm s0 n h' (svOps (s\<lparr>svCl := c\<rparr>)) (fst ` svExec (s\<lparr>svCl := c\<rparr>)) (clNode (svCl (s\<lparr>svCl := c\<rparr>)) p) (svAt (s\<lparr>svCl := c\<rparr>) p)
      (rsSm (svRsm (s\<lparr>svCl := c\<rparr>) p)) (svChan (s\<lparr>svCl := c\<rparr>) p)" if p: "p < n" for p
  proof -
    have "lastApplied (clNode (svCl s) p) \<le> commitIndex (clNode (svCl s) p)"
      using node_relD(1) [OF followsD(2) [OF i(1) p]] by (simp add: raft_inv_def node_ok_def)
    moreover have "same_upcalls (clNode (svCl s) p) (clNode c p) \<or> (\<exists>a. (p, a) \<in> clInstall (svCl s) \<and> installs a (clNode (svCl s) p) (clNode c p))"
      using assms(4) p by (simp add: nothing_new_def)
    then have "same_upcalls (clNode (svCl s) p) (clNode c p) \<or>
        (\<exists>a. installs a (clNode (svCl s) p) (clNode c p) \<and> snap_ok sm s0 n h' (fst ` svExec s) (isLastIncludedIndex a) (isData a))"
      by (elim disjE exE conjE) (auto intro: l i(3))
    ultimately have "server_ok sm s0 n h' (svOps s) (fst ` svExec s) (clNode c p) (svAt s p) (rsSm (svRsm s p)) (svChan s p)"
      by (rule server_new [OF server_later [OF assms(2) ops_le_refl subset_refl i(2) [OF p]]])
    then show ?thesis by simp
  qed
  show "snap_ok sm s0 n h' (fst ` svExec (s\<lparr>svCl := c\<rparr>)) (isLastIncludedIndex a) (isData a)" if m: "(q, a) \<in> clInstall (svCl (s\<lparr>svCl := c\<rparr>))" for q a
  proof (cases "(q, a) \<in> clInstall (svCl s)")
    case False
    then obtain p where "p < n" "isLastIncludedIndex a = lastIncludedIndex (clNode (svCl s) p)" "isData a = snapshot (clNode (svCl s) p)"
      using m assms(4) unfolding nothing_new_def by auto
    then show ?thesis using i(2) [of p] by (auto simp: server_ok_def intro: l)
  qed (auto intro: l i(3))
  show "registered (svOps (s\<lparr>svCl := c\<rparr>)) j (eCommand e)" if "(j, e) \<in> cluster_entries n (svCl (s\<lparr>svCl := c\<rparr>))" for j e
    using that assms(4) i(4) unfolding nothing_new_def by auto
qed (use service_invD(8-10) [OF assms(1)] in \<open>simp_all add: ids_ok_def waiters_ok_def\<close>)

lemma net_inv:
  assumes "codec_ok cd" "service_inv sm cd s0 n h s" "cluster_net cd n (svCl s) c"
  shows "\<exists>h'. hist_le h h' \<and> service_inv sm cd s0 n h' (s\<lparr>svCl := c\<rparr>)"
proof -
  note f = service_invD(1) [OF assms(2)]
  obtain h' where "hist_le h h'" "follows cd n h' c" using net_follows [OF assms(3,1) f] by blast
  then show ?thesis using nothing_new_inv [OF assms(2) _ _ net_new [OF assms(3,1) f]] by blast
qed

lemma local_follows:
  assumes "codec_ok cd" "service_inv sm cd s0 n h s" "p < n" "local_event (clNode (svCl s) p) e"
    "raft_step cd ev (clNode (svCl s) p) e = Some rf"
  shows "\<exists>h'. hist_le h h' \<and> follows cd n h' (set_node (svCl s) p rf)"
  using cluster_follows [OF cluster_step.local [OF assms(3-5)] assms(1) service_invD(1) [OF assms(2)]] by (simp add: set_node_def)

lemma plain_seen:
  assumes "plain_event e" "raft_step cd ev rf e = Some rf'"
  shows "seen rf' = seen rf"
  using assms by (cases e) (auto simp: raft_step_def replicationWorker_begin_def replicationWorker_end_def Kill_def Kill_wait_def
      launch_done_def bind_eq_Some_conv Let_def split: if_splits)

lemma set_node_simps [simp]:
  "clNode (set_node c p rf) = (clNode c)(p := rf)" "clInstall (set_node c p rf) = clInstall c" "clAppend (set_node c p rf) = clAppend c"
  by (simp_all add: set_node_def)

lemma node_inv:
  assumes "codec_ok cd" "service_inv sm cd s0 n h s" "p < n" "plain_event e" "local_event (clNode (svCl s) p) e"
    "raft_step cd ev (clNode (svCl s) p) e = Some rf"
  shows "\<exists>h'. hist_le h h' \<and> service_inv sm cd s0 n h' (s\<lparr>svCl := set_node (svCl s) p rf\<rparr>)"
proof -
  obtain h' where h': "hist_le h h'" "follows cd n h' (set_node (svCl s) p rf)" using local_follows [OF assms(1-3,5,6)] by blast
  have "nothing_new n (svCl s) (set_node (svCl s) p rf)"
    by (rule nothing_new_seen [OF _ plain_seen [OF assms(4,6)]]) simp_all
  then show ?thesis using nothing_new_inv [OF assms(2) h'] h'(1) by blast
qed

section \<open>The applier\<close>

lemma entries_frame: "entries (rf\<lparr>lastApplied := i\<rparr>) = entries rf" "entries (rf\<lparr>pendingSnapshot := m\<rparr>) = entries rf"
  by (simp_all add: entries_eq)

lemma commands_chan:
  assumes "hist_inv n h" "node_rel cd n h p rf" "p < n" "int k \<le> i" "0 \<le> lastIncludedIndex rf" "lastIncludedIndex rf \<le> int k" "i \<le> commitIndex rf"
    "\<And>j e. (j, e) \<in> entries rf \<Longrightarrow> registered R j (eCommand e)"
  shows "chan_ok sm s0 n h R X k (map (command_msg rf) [int k + 1..i]) i"
  using assms(4,6)
proof (induction "nat (i - int k)" arbitrary: k)
  case 0
  then show ?case by simp
next
  case (Suc d)
  have ik: "int k + 1 \<le> i" using Suc.hyps(2) by simp
  have up: "[int k + 1..i] = int (Suc k) # [int (Suc k) + 1..i]" using ik upto_rec1 [of "int k + 1" i] by (simp add: algebra_simps)
  have len: "Suc k < length (hLog h p)" using ik assms(7) node_rel_log(2,9) [OF assms(2)] by linarith
  have l: "logs rf ! nat (int (Suc k) - lastIncludedIndex rf) = hLog h p ! Suc k"
    using node_rel_log(6) [OF assms(2) _ len] Suc.prems(2) by simp
  have "entry_at rf (int (Suc k)) = Some (hLog h p ! Suc k)"
    using len Suc.prems(2) by (simp add: entry_at_rel [OF assms(2)] del: of_nat_Suc)
  then have "registered R (int (Suc k)) (eCommand (hLog h p ! Suc k))" by (intro assms(8)) (simp add: entries_def)
  moreover have "safe n h p (Suc k)" by (rule safe_le [OF node_relD(9) [OF assms(2)]]) (use ik assms(7) in linarith)
  then have "chosen_prefix n h (take (Suc (Suc k)) (hLog h p))" by (rule prefix_safe [OF assms(1,3)])
  ultimately have "command_ok n h R (Suc k) (eCommand (hLog h p ! Suc k))"
    unfolding command_ok_def using len by (intro conjI exI [of _ "take (Suc (Suc k)) (hLog h p)"]) simp_all
  moreover have "chan_ok sm s0 n h R X (Suc k) (map (command_msg rf) [int (Suc k) + 1..i]) i"
    using Suc.hyps(2) Suc.prems by (intro Suc.hyps(1)) simp_all
  ultimately show ?case unfolding up using l by (simp add: command_msg_def msg_index_def del: of_nat_Suc)
qed

lemma deliver_server:
  assumes "hist_inv n h" "node_rel cd n h p rf" "p < n" "server_ok sm s0 n h R X rf k st []" "applier rf = Some (rf', ApplierSend ms)"
    "\<And>j e. (j, e) \<in> entries rf \<Longrightarrow> registered R j (eCommand e)"
  shows "server_ok sm s0 n h R X rf' k st ms" "entries rf' = entries rf" "snapshot rf' = snapshot rf" "lastIncludedIndex rf' = lastIncludedIndex rf"
proof -
  have n: "node_ok cd rf" using node_relD(1) [OF assms(2)] by (simp add: raft_inv_def)
  have k: "pending_ok sm s0 n h X rf (int k)" using assms(4) by (simp add: server_ok_def)
  have "server_ok sm s0 n h R X rf' k st ms \<and> entries rf' = entries rf \<and> snapshot rf' = snapshot rf \<and> lastIncludedIndex rf' = lastIncludedIndex rf"
  proof (cases "pendingSnapshot rf")
    case None
    have s: "\<not> killed rf" "lastApplied rf < commitIndex rf"
      using assms(5) None by (auto simp: applier_def split: if_splits)
    have a: "lastApplied rf = int k" using k None by (simp add: pending_ok_def)
    have r: "rf' = rf\<lparr>lastApplied := commitIndex rf\<rparr>" "ms = map (command_msg rf) [int k + 1..commitIndex rf]"
      using applier_commands [OF n s(1) None s(2)] assms(5) a by simp_all
    have "chan_ok sm s0 n h R X k ms (commitIndex rf)"
      unfolding r(2) by (rule commands_chan [OF assms(1-3)]) (use s n a assms(6) in \<open>simp_all add: node_ok_def\<close>)
    then show ?thesis
      using assms(4) None by (auto simp: r(1) server_ok_def pending_ok_def entries_frame)
  next
    case (Some m)
    have m: "int k \<le> SnapshotIndex m" "SnapshotIndex m = lastApplied rf" "SnapshotValid m" "snap_ok sm s0 n h X (SnapshotIndex m) (mSnapshot m)"
      using k Some by (auto simp: pending_ok_def)
    have r: "rf' = rf\<lparr>pendingSnapshot := None, lastApplied := lastApplied rf\<rparr>" "ms = [m]"
      using assms(5) Some m(2) by (auto simp: applier_def split: if_splits)
    show ?thesis
      using assms(4) m by (auto simp: r server_ok_def pending_ok_def msg_index_def entries_frame)
  qed
  then show "server_ok sm s0 n h R X rf' k st ms" "entries rf' = entries rf" "snapshot rf' = snapshot rf" "lastIncludedIndex rf' = lastIncludedIndex rf"
    by blast+
qed

lemma own_entries:
  assumes "service_inv sm cd s0 n h s" "p < n" "(j, e) \<in> entries (clNode (svCl s) p)"
  shows "registered (svOps s) j (eCommand e)"
  using service_invD(4) [OF assms(1) cluster_entriesI(1) [OF assms(2,3)]] .

lemma deliver_inv:
  assumes "codec_ok cd" "service_inv sm cd s0 n h s" "p < n" "svChan s p = []" "applier (clNode (svCl s) p) = Some (rf, ApplierSend ms)"
  shows "\<exists>h'. hist_le h h' \<and> service_inv sm cd s0 n h' (s\<lparr>svCl := set_node (svCl s) p rf, svChan := (svChan s)(p := ms)\<rparr>)"
proof -
  note i = service_invD [OF assms(2)]
  have step: "raft_step cd undefined (clNode (svCl s) p) EvApply = Some rf" using assms(5) by (simp add: raft_step_def)
  obtain h' where h': "hist_le h h'" "follows cd n h' (set_node (svCl s) p rf)"
    using local_follows [OF assms(1-3) _ step] by auto
  note d = deliver_server [OF followsD(1) [OF i(1)] followsD(2) [OF i(1) assms(3)] assms(3) _ assms(5) own_entries [OF assms(2,3)],
      where k = "svAt s p" and st = "rsSm (svRsm s p)" and X = "fst ` svExec s" and sm = sm and ?s0.0 = s0]
  have so: "server_ok sm s0 n h (svOps s) (fst ` svExec s) (clNode (svCl s) p) (svAt s p) (rsSm (svRsm s p)) []"
    using i(2) [OF assms(3)] assms(4) by simp
  have "service_inv sm cd s0 n h' (s\<lparr>svCl := set_node (svCl s) p rf, svChan := (svChan s)(p := ms)\<rparr>)"
    by (rule server_change [OF assms(2) h'(1), where p = p and rf = rf and D = "{}"])
      (use h'(2) assms(3) d(2) [OF so] server_later [OF h'(1) ops_le_refl subset_refl d(1) [OF so]] i(9,10)
        in \<open>simp_all add: ids_ok_def waiters_ok_def\<close>)
  then show ?thesis using h'(1) by blast
qed

section \<open>Applying a message\<close>

lemma requests_butlast:
  assumes "1 < length P" "eCommand (P ! (length P - 1)) = Some op"
  shows "requests P = requests (butlast P) @ [opReq op]"
proof -
  have "P \<noteq> []" "butlast P \<noteq> []" using assms(1) by (cases P, auto)+
  then have "P = butlast P @ [last P]" "last P = P ! (length P - 1)" by (simp, simp add: last_conv_nth)
  then have "tl P = tl (butlast P) @ [P ! (length P - 1)]" using \<open>butlast P \<noteq> []\<close> by (metis tl_append2)
  then show ?thesis using assms(2) by (simp add: requests_def)
qed

lemma execute_ok:
  assumes "service_inv sm cd s0 n h s" "command_ok n h (svOps s) (Suc k) (Some op)" "state_at sm s0 n h k st"
    "smDoOp sm st (opReq op) = Some (st', rep)"
  shows "exec_ok sm s0 n h (svOps s) (Suc k) op rep" "state_at sm s0 n h (Suc k) st'"
proof -
  note i = service_invD [OF assms(1)]
  have hi: "hist_inv n h" using followsD(1) [OF i(1)] .
  obtain P E where P: "chosen_prefix n h P" "length P = Suc (Suc k)" "eCommand (P ! Suc k) = Some op"
    and E: "svOps s (opID op) = Some (opReq op, E, Some (int (Suc k)))"
    using assms(2) by (auto simp: command_ok_def registered_def)
  obtain Q where Q: "chosen_prefix n h Q" "length Q = Suc k" "replay sm s0 (requests Q) = Some st"
    using assms(3) by (auto simp: state_at_def)
  have "butlast P = Q" using prefix_unique [OF hi prefix_butlast [OF P(1)] Q(1)] P(2) Q(2) by simp
  then have rb: "replay sm s0 (requests (butlast P)) = Some st" using Q(3) by simp
  have "requests P = requests (butlast P) @ [opReq op]" using requests_butlast [of P op] P(2,3) by simp
  then show "state_at sm s0 n h (Suc k) st'"
    unfolding state_at_def using P(1,2) rb assms(4) by (intro exI [of _ P]) (simp add: replay_append)
  have "j < Suc k" if j: "j \<in> E" for j
  proof (rule ccontr)
    assume "\<not> j < Suc k"
    moreover have "{1..j} \<subseteq> E" using i(8) E j unfolding ops_ok_def by blast
    ultimately have "Suc k \<in> E" by auto
    then obtain op' rep' where o: "(Suc k, op', rep') \<in> svExec s" "opID op' \<noteq> opID op" using i(8) E unfolding ops_ok_def by blast
    obtain P' where P': "chosen_prefix n h P'" "length P' = Suc (Suc k)" "eCommand (P' ! Suc k) = Some op'"
      using i(5) [OF o(1)] by (auto simp: exec_ok_def)
    have "P' = P" using prefix_unique [OF hi P'(1) P(1)] P(2) P'(2) by simp
    then show False using P(3) P'(3) o(2) by simp
  qed
  then show "exec_ok sm s0 n h (svOps s) (Suc k) op rep" unfolding exec_ok_def using P rb assms(4) E by blast
qed

text \<open>The cases of \<open>rsm_apply\<close>.\<close>

lemma rsm_apply_snapshot:
  assumes "SnapshotValid m" "rsm_apply sm cd r m = Some r'"
  shows "r' = r \<and> mSnapshot m = [] \<or> (\<exists>st. smRestore sm (rsSm r) (mSnapshot m) = Some st \<and> r' = r\<lparr>rsSm := st\<rparr> \<and> mSnapshot m \<noteq> [])"
  using assms by (auto simp: rsm_apply_def bind_eq_Some_conv split: if_splits)

lemma rsm_apply_command:
  assumes "\<not> SnapshotValid m" "CommandValid m" "mCommand m = Some op" "rsm_apply sm cd r m = Some r'" "rsRf r = Some rf"
  shows "\<exists>st' rep rf'. smDoOp sm (rsSm r) (opReq op) = Some (st', rep) \<and>
    (rf' = rf \<or> (\<exists>b. smSnapshot sm st' = Some b \<and> Snapshot cd rf (CommandIndex m) b = Some rf')) \<and>
    r' = wake (r\<lparr>rsSm := st', rsRf := Some rf'\<rparr>) (opID op) rep"
proof -
  obtain st' rep where d: "smDoOp sm (rsSm r) (opReq op) = Some (st', rep)"
    using assms by (auto simp: rsm_apply_def bind_eq_Some_conv)
  have same: "r\<lparr>rsSm := st'\<rparr> = r\<lparr>rsSm := st', rsRf := Some rf\<rparr>" using assms(5) by simp
  show ?thesis
  proof (cases "shouldSnapshot (r\<lparr>rsSm := st'\<rparr>)")
    case True
    then obtain b rf' where "smSnapshot sm st' = Some b" "Snapshot cd rf (CommandIndex m) b = Some rf'"
      "r' = wake (r\<lparr>rsSm := st', rsRf := Some rf'\<rparr>) (opID op) rep"
      using assms d by (auto simp: rsm_apply_def bind_eq_Some_conv Let_def)
    then show ?thesis using d by blast
  next
    case False
    then have "r' = wake (r\<lparr>rsSm := st'\<rparr>) (opID op) rep" using assms d by (simp add: rsm_apply_def Let_def)
    then show ?thesis using d same by metis
  qed
qed

lemma wake_fields [simp]:
  "rsMe (wake r i p) = rsMe r" "rsEpoch (wake r i p) = rsEpoch r" "rsNextSequence (wake r i p) = rsNextSequence r"
  by (auto simp: wake_def split: option.splits)

lemma wake_waiting: "rsWaiters (wake r i p) x = Some (Some rep) \<Longrightarrow> rsWaiters r x = Some (Some rep) \<or> x = i \<and> rep = p"
  by (auto simp: wake_def split: option.splits if_splits)

lemma rsm_at_fields [simp]:
  "rsSm (rsm_at s p) = rsSm (svRsm s p)" "rsRf (rsm_at s p) = Some (clNode (svCl s) p)" "rsMe (rsm_at s p) = rsMe (svRsm s p)"
  "rsEpoch (rsm_at s p) = rsEpoch (svRsm s p)" "rsNextSequence (rsm_at s p) = rsNextSequence (svRsm s p)"
  "rsWaiters (rsm_at s p) = rsWaiters (svRsm s p)"
  by (simp_all add: rsm_at_def)

text \<open>The numbers of the submitted operations and the waiting submitters, when one server's record changes.\<close>

lemma records_ok:
  assumes "service_inv sm cd s0 n h s" "svRsm s' = (svRsm s)(p := r)" "svOps s' = svOps s" "svTodo s' = svTodo s" "svExec s \<subseteq> svExec s'"
    "rsMe r = rsMe (svRsm s p)" "rsEpoch r = rsEpoch (svRsm s p)" "rsNextSequence r = rsNextSequence (svRsm s p)"
    "\<And>x rep. rsWaiters r x = Some (Some rep) \<Longrightarrow> rsWaiters (svRsm s p) x = Some (Some rep) \<or> (\<exists>j op. opID op = x \<and> (j, op, rep) \<in> svExec s')"
  shows "ids_ok n s'" "waiters_ok n s'"
proof -
  note i = service_invD(9,10) [OF assms(1)]
  have "rsMe (svRsm s' q) = rsMe (svRsm s q)" "rsEpoch (svRsm s' q) = rsEpoch (svRsm s q)"
    "rsNextSequence (svRsm s' q) = rsNextSequence (svRsm s q)" for q using assms(2,6-8) by simp_all
  then show "ids_ok n s'" using i(1) assms(3,4) by (simp add: ids_ok_def)
  show "waiters_ok n s'"
    unfolding waiters_ok_def
  proof (intro allI impI)
    fix q x rep assume q: "q < n" "rsWaiters (svRsm s' q) x = Some (Some rep)"
    then have "rsWaiters (svRsm s q) x = Some (Some rep) \<or> (\<exists>j op. opID op = x \<and> (j, op, rep) \<in> svExec s')"
      using assms(2,9) by (cases "q = p") auto
    then show "\<exists>j op. opID op = x \<and> (j, op, rep) \<in> svExec s'" using i(2) q(1) assms(5) unfolding waiters_ok_def by blast
  qed
qed

lemma set_node_same [simp]: "set_node c p (clNode c p) = c"
  by (simp add: set_node_def)

section \<open>Submitting\<close>

lemma next_sequence:
  fixes x y :: u64
  assumes "x \<noteq> - 1" "y \<le> x"
  shows "y < x + 1"
proof -
  have "1 + x \<noteq> 0" using assms(1) by (simp add: add_eq_0_iff)
  then have "unat (x + 1) = Suc (unat x)" using unatSuc [of x] by (simp add: add.commute)
  then show ?thesis using assms(2) by (simp add: word_less_nat_alt word_le_nat_alt)
qed

lemma submit_inv:
  assumes "service_inv sm cd s0 n h s" "p < n" "submit_register (rsm_at s p) req = (r, Inr op)" "rsNextSequence (svRsm s p) \<noteq> - 1"
  shows "service_inv sm cd s0 n h (s\<lparr>svRsm := (svRsm s)(p := r), svTodo := insert (p, op) (svTodo s),
         svOps := (svOps s)(opID op \<mapsto> (req, fst ` svExec s, None))\<rparr>)" (is "service_inv sm cd s0 n h ?s'")
proof -
  note i = service_invD [OF assms(1)]
  let ?seq = "rsNextSequence (svRsm s p)"
  have me: "rsMe (svRsm s p) = int p" using i(9) assms(2) by (simp add: ids_ok_def)
  have op: "op = \<lparr>opServer = int p, opEpoch = rsEpoch (svRsm s p), opSequence = ?seq + 1, opReq = req\<rparr>"
    and r: "rsSm r = rsSm (svRsm s p)" "rsMe r = int p" "rsEpoch r = rsEpoch (svRsm s p)" "rsNextSequence r = ?seq + 1"
      "rsWaiters r = (rsWaiters (svRsm s p))(opID op \<mapsto> None)"
    using assms(3) me by (auto simp: submit_register_def Let_def split: if_splits)
  have lt: "snd (snd x) < ?seq + 1" if "x \<in> dom (svOps s)" "fst x = int p" "fst (snd x) = rsEpoch (svRsm s p)" for x
    using i(9) assms(2,4) that next_sequence unfolding ids_ok_def by blast
  have fresh: "svOps s (opID op) = None"
  proof (rule ccontr)
    assume "svOps s (opID op) \<noteq> None"
    then have "snd (snd (opID op)) < ?seq + 1" by (intro lt) (auto simp: op opID_def)
    then show False by (simp add: op opID_def)
  qed
  have le: "ops_le (svOps s) (svOps ?s')" using fresh by (auto simp: ops_le_def)
  show ?thesis
  proof (rule service_invI [OF assms(1) hist_le_refl, where D = "{}"])
    show "server_ok sm s0 n h (svOps ?s') (fst ` svExec ?s') (clNode (svCl ?s') q) (svAt ?s' q) (rsSm (svRsm ?s' q)) (svChan ?s' q)" if "q < n" for q
      using server_later [OF hist_le_refl le subset_refl i(2) [OF that]] r(1) by (cases "q = p") simp_all
    show "registered (svOps ?s') j (eCommand e)" if "(j, e) \<in> cluster_entries n (svCl ?s')" for j e
      using registered_later [OF le] i(4) that by simp
    have "{1..j} \<subseteq> fst ` svExec s" if "j \<in> fst ` svExec s" for j using i(6) that by force
    moreover have "\<exists>op' rep. (j, op', rep) \<in> svExec s \<and> opID op' \<noteq> opID op" if "j \<in> fst ` svExec s" for j
      using that i(5) fresh unfolding exec_ok_def by force
    ultimately show "ops_ok (svExec ?s') (svOps ?s')" using i(8) unfolding ops_ok_def by (auto split: if_splits)
    have "snd (snd x) \<le> ?seq + 1" if "x \<in> dom (svOps s)" "fst x = int p" "fst (snd x) = rsEpoch (svRsm s p)" for x
      using lt [OF that] by simp
    then show "ids_ok n ?s'"
      using i(9) assms(2) r(2-4) fresh unfolding ids_ok_def by (auto simp: op opID_def split: if_splits)
    show "waiters_ok n ?s'" using i(10) r(5) unfolding waiters_ok_def by (auto split: if_splits)
  qed (use i(1,3) le in simp_all)
qed

lemma ops_ok_index:
  assumes "ops_ok D R" "R x = Some (r, E, i)"
  shows "ops_ok D (R(x \<mapsto> (r, E, j)))"
  unfolding ops_ok_def
proof (intro allI impI)
  fix y r' E' i' assume y: "(R(x \<mapsto> (r, E, j))) y = Some (r', E', i')"
  then have "\<exists>r i. R y = Some (r, E', i)" using assms(2) by (cases "y = x") auto
  then show "(\<forall>i \<in> E'. {1..i} \<subseteq> E') \<and> (\<forall>i \<in> E'. \<exists>op rep. (i, op, rep) \<in> D \<and> opID op \<noteq> y)"
    using assms(1) unfolding ops_ok_def by blast
qed

lemma submit_start_record:
  assumes "Start cd (clNode (svCl s) p) op = Some (rf, i, t, isLeader)" "submit_start cd (rsm_at s p) op = Some (r, res)"
  shows "rsSm r = rsSm (svRsm s p)" "rsMe r = rsMe (svRsm s p)" "rsEpoch r = rsEpoch (svRsm s p)" "rsNextSequence r = rsNextSequence (svRsm s p)"
    "rsWaiters r x = Some (Some rep) \<Longrightarrow> rsWaiters (svRsm s p) x = Some (Some rep)"
  using assms by (auto simp: submit_start_def Let_def removeWaiter_def split: if_splits)

lemma start_inv:
  assumes "codec_ok cd" "service_inv sm cd s0 n h s" "(p, op) \<in> svTodo s" "Start cd (clNode (svCl s) p) op = Some (rf, i, t, isLeader)"
    "submit_start cd (rsm_at s p) op = Some (r, res)"
  shows "\<exists>h'. hist_le h h' \<and> service_inv sm cd s0 n h' (s\<lparr>svCl := set_node (svCl s) p rf, svRsm := (svRsm s)(p := r),
         svTodo := svTodo s - {(p, op)},
         svOps := (if isLeader then (svOps s)(opID op := map_option (\<lambda>(req, E, _). (req, E, Some i)) (svOps s (opID op)))
                   else svOps s)\<rparr>)" (is "\<exists>h'. hist_le h h' \<and> service_inv sm cd s0 n h' ?s'")
proof -
  note I = service_invD [OF assms(2)]
  obtain E where p: "p < n" "opServer op = int p" and E: "svOps s (opID op) = Some (opReq op, E, None)"
    using I(9) assms(3) unfolding ids_ok_def by blast
  have step: "raft_step cd undefined (clNode (svCl s) p) (EvStart op) = Some rf" using assms(4) by (simp add: raft_step_def)
  obtain h' where h': "hist_le h h'" "follows cd n h' (set_node (svCl s) p rf)" using local_follows [OF assms(1,2) p(1) _ step] by auto
  have inv: "raft_inv cd (clNode (svCl s) p)" using node_relD(1) [OF followsD(2) [OF I(1) p(1)]] .
  note v = Start_view [OF assms(1) inv assms(4)] and r = submit_start_record [OF assms(4,5)]
  have O: "svOps ?s' = (if isLeader then (svOps s)(opID op \<mapsto> (opReq op, E, Some i)) else svOps s)" using E by simp
  have le: "ops_le (svOps s) (svOps ?s')" unfolding O ops_le_def using E by auto
  have same: "same_upcalls (clNode (svCl s) p) rf" using v by (auto simp: same_upcalls_def)
  have ent: "(j, e) \<in> entries (clNode (svCl s) p) \<or> isLeader \<and> j = i \<and> eCommand e = Some op" if "(j, e) \<in> entries rf" for j e
    using v that by auto
  have other: "op' = op \<and> p' = p" if o: "(p', op') \<in> svTodo s" "opID op' = opID op" for p' op'
  proof -
    obtain E' where "opServer op' = int p'" "svOps s (opID op') = Some (opReq op', E', None)" using I(9) o(1) unfolding ids_ok_def by blast
    then show ?thesis using o(2) E p(2) by (cases op; cases op') (auto simp: opID_def)
  qed
  have "service_inv sm cd s0 n h' ?s'"
  proof (rule service_invI [OF assms(2) h'(1) _ le, where D = "{}"])
    show "server_ok sm s0 n h' (svOps ?s') (fst ` svExec ?s') (clNode (svCl ?s') q) (svAt ?s' q) (rsSm (svRsm ?s' q)) (svChan ?s' q)" if q: "q < n" for q
    proof -
      note so = server_later [OF h'(1) le subset_refl I(2) [OF q]]
      have "lastApplied (clNode (svCl s) q) \<le> commitIndex (clNode (svCl s) q)"
        using node_relD(1) [OF followsD(2) [OF I(1) q]] by (simp add: raft_inv_def node_ok_def)
      then have "server_ok sm s0 n h' (svOps ?s') (fst ` svExec s) (clNode (set_node (svCl s) p rf) q) (svAt s q) (rsSm (svRsm s q)) (svChan s q)"
        using so same by (intro server_new [OF so]) auto
      then show ?thesis using r(1) by (cases "q = p") simp_all
    qed
    show "snap_ok sm s0 n h' (fst ` svExec ?s') (isLastIncludedIndex a) (isData a)" if "(q, a) \<in> clInstall (svCl ?s')" for q a
      using that by (auto intro: snap_later [OF h'(1) subset_refl] I(3))
    show "registered (svOps ?s') j (eCommand e)" if x: "(j, e) \<in> cluster_entries n (svCl ?s')" for j e
    proof (cases "(j, e) \<in> cluster_entries n (svCl s)")
      case True
      then show ?thesis using registered_later [OF le I(4)] by simp
    next
      case False
      then have "(j, e) \<in> entries rf" using x p(1) by (auto simp: cluster_entries_def split: if_splits)
      then have "isLeader" "j = i" "eCommand e = Some op" using ent False cluster_entriesI(1) [OF p(1)] by blast+
      then show ?thesis unfolding registered_def O by auto
    qed
    show "ops_ok (svExec ?s') (svOps ?s')" unfolding O using I(8) ops_ok_index [OF I(8) E] by simp
    have d: "dom (svOps ?s') = dom (svOps s)" unfolding O using E by auto
    have f: "rsMe (svRsm ?s' q) = rsMe (svRsm s q)" "rsEpoch (svRsm ?s' q) = rsEpoch (svRsm s q)"
      "rsNextSequence (svRsm ?s' q) = rsNextSequence (svRsm s q)" for q using r(2-4) by simp_all
    have "p' < n \<and> opServer op' = int p' \<and> (\<exists>E. svOps ?s' (opID op') = Some (opReq op', E, None))" if o: "(p', op') \<in> svTodo ?s'" for p' op'
    proof -
      have "(p', op') \<in> svTodo s" "opID op' \<noteq> opID op" using o other by auto
      then show ?thesis using I(9) unfolding ids_ok_def O by auto
    qed
    then show "ids_ok n ?s'" using I(9) unfolding ids_ok_def d f by blast
    show "waiters_ok n ?s'" using I(10) r(5) unfolding waiters_ok_def by (auto split: if_splits)
  qed (use h'(2) in simp_all)
  then show ?thesis using h'(1) by blast
qed

lemma record_inv:
  assumes "service_inv sm cd s0 n h s" "p < n" "rsSm r = rsSm (svRsm s p)" "rsMe r = rsMe (svRsm s p)" "rsEpoch r = rsEpoch (svRsm s p)"
    "rsNextSequence r = rsNextSequence (svRsm s p)" "\<And>x rep. rsWaiters r x = Some (Some rep) \<Longrightarrow> rsWaiters (svRsm s p) x = Some (Some rep)"
  shows "service_inv sm cd s0 n h (s\<lparr>svRsm := (svRsm s)(p := r)\<rparr>)"
proof -
  note I = service_invD [OF assms(1)]
  have rec: "ids_ok n (s\<lparr>svRsm := (svRsm s)(p := r)\<rparr>)" "waiters_ok n (s\<lparr>svRsm := (svRsm s)(p := r)\<rparr>)"
    by (rule records_ok [OF assms(1), where p = p and r = r]; use assms in simp)+
  show ?thesis
    by (rule server_change [OF assms(1) hist_le_refl, where p = p and rf = "clNode (svCl s) p" and D = "{}"])
      (use I(1) I(2) [OF assms(2)] assms(2,3) rec in simp_all)
qed

lemma wait_inv:
  assumes "service_inv sm cd s0 n h s" "p < n" "submit_wait (rsm_at s p) x t w = Some (r, res)"
  shows "service_inv sm cd s0 n h (s\<lparr>svRsm := (svRsm s)(p := r)\<rparr>)"
proof -
  have "r = rsm_at s p \<or> r = removeWaiter (rsm_at s p) x"
    using assms(3) by (cases w) (auto simp: submit_wait_def Let_def split: option.splits prod.splits if_splits)
  then show ?thesis by (intro record_inv [OF assms(1,2)]) (auto simp: removeWaiter_def split: if_splits)
qed

lemma closed_inv:
  assumes "service_inv sm cd s0 n h s" "p < n"
  shows "service_inv sm cd s0 n h (s\<lparr>svRsm := (svRsm s)(p := applier_exit (svRsm s p))\<rparr>)"
  by (rule record_inv [OF assms]) (simp_all add: applier_exit_def)

lemma MakeRSM_boot:
  assumes "MakeRSM sm cd ev False (Some eb) n i ps mrs s0 = Some r" "rsRf r = Some rf"
  shows "Make cd ev n i ps = Some rf"
    "(if length (ReadSnapshot ps) > 0 then smRestore sm s0 (ReadSnapshot ps) else Some s0) = Some (rsSm r)"
    "rsMe r = i" "rsEpoch r = Uint64 eb" "rsWaiters r = (\<lambda>_. None)"
  using assms by (auto simp: MakeRSM_def bind_eq_Some_conv Let_def split: if_splits)

context replicated_service
begin

lemma state_ok: "ok s0 \<Longrightarrow> state_at sm s0 n h i st \<Longrightarrow> ok st"
  unfolding state_at_def using replay_keeps by blast

lemma snapshot_inv:
  assumes "ok s0" "service_inv sm cd s0 n h s" "p < n" "svChan s p = m # ms" "SnapshotValid m"
    "rsm_apply sm cd (rsm_at s p) m = Some r" "rsRf r = Some rf"
  shows "service_inv sm cd s0 n h (s\<lparr>svCl := set_node (svCl s) p rf, svRsm := (svRsm s)(p := r), svChan := (svChan s)(p := ms),
         svAt := (svAt s)(p := msg_index m), svExec := svExec s \<union> executions sm (rsSm (svRsm s p)) m\<rparr>)"
    (is "service_inv sm cd s0 n h ?s'")
proof -
  note i = service_invD [OF assms(2)]
  have so: "server_ok sm s0 n h (svOps s) (fst ` svExec s) (clNode (svCl s) p) (svAt s p) (rsSm (svRsm s p)) (m # ms)"
    using i(2) [OF assms(3)] assms(4) by simp
  have sn: "snap_ok sm s0 n h (fst ` svExec s) (SnapshotIndex m) (mSnapshot m)" "int (svAt s p) \<le> SnapshotIndex m"
    and at: "msg_index m = nat (SnapshotIndex m)" using so assms(5) by (auto simp: server_ok_def msg_index_def)
  note ap = rsm_apply_snapshot [OF assms(5,6)]
  have rf: "rf = clNode (svCl s) p" using ap assms(7) by auto
  have st: "state_at sm s0 n h (msg_index m) (rsSm r)"
  proof (cases "SnapshotIndex m = 0 \<and> mSnapshot m = []")
    case True
    then have "rsSm r = rsSm (svRsm s p)" "svAt s p = 0" using ap sn(2) by auto
    then show ?thesis using so True at by (simp add: server_ok_def)
  next
    case False
    then obtain st where st: "state_at sm s0 n h (nat (SnapshotIndex m)) st" "smSnapshot sm st = Some (mSnapshot m)"
      using sn(1) by (auto simp: snap_ok_def)
    have "rsSm r = st" using ap Restore_snapshot_of [OF state_ok [OF assms(1) st(1)] st(2)] by auto
    then show ?thesis using st(1) at by simp
  qed
  have ex: "executions sm (rsSm (svRsm s p)) m = {}" using assms(5) by (simp add: executions_def)
  have new: "server_ok sm s0 n h (svOps s) (fst ` svExec s) rf (msg_index m) (rsSm r) ms"
    using so st sn(1) at unfolding server_ok_def rf by (auto simp: snap_ok_def)
  have rec: "ids_ok n ?s'" "waiters_ok n ?s'"
    using ap by (auto intro!: records_ok [OF assms(2), where p = p and r = r])
  show ?thesis
    by (rule server_change [OF assms(2) hist_le_refl, where p = p and rf = rf and D = "{}"])
      (use i(1) rf assms(3) ex new rec in \<open>simp_all\<close>)
qed

lemma command_inv:
  assumes "codec_ok cd" "ok s0" "service_inv sm cd s0 n h s" "p < n" "svChan s p = m # ms" "\<not> SnapshotValid m"
    "rsm_apply sm cd (rsm_at s p) m = Some r" "rsRf r = Some rf"
  shows "\<exists>h'. hist_le h h' \<and> service_inv sm cd s0 n h' (s\<lparr>svCl := set_node (svCl s) p rf, svRsm := (svRsm s)(p := r),
         svChan := (svChan s)(p := ms), svAt := (svAt s)(p := msg_index m), svExec := svExec s \<union> executions sm (rsSm (svRsm s p)) m\<rparr>)"
    (is "\<exists>h'. hist_le h h' \<and> service_inv sm cd s0 n h' ?s'")
proof -
  note i = service_invD [OF assms(3)]
  let ?k = "svAt s p"
  obtain e where so: "snap_ok sm s0 n h (fst ` svExec s) (lastIncludedIndex (clNode (svCl s) p)) (snapshot (clNode (svCl s) p))"
      "state_at sm s0 n h ?k (rsSm (svRsm s p))" "{1..?k} \<subseteq> fst ` svExec s"
      "chan_ok sm s0 n h (svOps s) (fst ` svExec s) ?k (m # ms) e" "pending_ok sm s0 n h (fst ` svExec s) (clNode (svCl s) p) e"
    using i(2) [OF assms(4)] assms(5) by (auto simp: server_ok_def)
  have m: "CommandValid m" "CommandIndex m = int (Suc ?k)" "command_ok n h (svOps s) (Suc ?k) (mCommand m)" "msg_index m = Suc ?k"
    and ms: "chan_ok sm s0 n h (svOps s) (fst ` svExec s) (Suc ?k) ms e"
    using so(4) assms(6) by (auto simp: msg_index_def nat_add_distrib)
  obtain op where op: "mCommand m = Some op" using m(3) by (auto simp: command_ok_def registered_def)
  obtain st' rep where d: "smDoOp sm (rsSm (svRsm s p)) (opReq op) = Some (st', rep)"
      and rf: "rf = clNode (svCl s) p \<or> (\<exists>b. smSnapshot sm st' = Some b \<and> Snapshot cd (clNode (svCl s) p) (CommandIndex m) b = Some rf)"
      and r: "r = wake ((rsm_at s p)\<lparr>rsSm := st', rsRf := Some rf\<rparr>) (opID op) rep"
    using rsm_apply_command [OF assms(6) m(1) op assms(7), of "clNode (svCl s) p"] assms(8) by auto
  note x = execute_ok [OF assms(3) m(3) [unfolded op] so(2) d]
  have D: "executions sm (rsSm (svRsm s p)) m = {(Suc ?k, op, rep)}" using assms(6) m(1,2) op d by (simp add: executions_def nat_add_distrib)
  let ?X = "fst ` svExec ?s'"
  have X: "fst ` svExec s \<subseteq> ?X" "{1..Suc ?k} \<subseteq> ?X" using so(3) D by (auto simp: atLeastAtMostSuc_conv)
  have rs: "rsSm r = st'" "rsMe r = rsMe (svRsm s p)" "rsEpoch r = rsEpoch (svRsm s p)" "rsNextSequence r = rsNextSequence (svRsm s p)"
    by (simp_all add: r)
  have sn: "snap_ok sm s0 n h ?X (int (Suc ?k)) b" if "smSnapshot sm st' = Some b" for b
    unfolding snap_ok_def using x(2) X(2) that by (auto simp: nat_add_distrib)
  have inv: "raft_inv cd (clNode (svCl s) p)" using node_relD(1) [OF followsD(2) [OF i(1) assms(4)]] .
  obtain h' where h': "hist_le h h'" "follows cd n h' (set_node (svCl s) p rf)"
  proof (cases "rf = clNode (svCl s) p")
    case True
    then show ?thesis using that [OF hist_le_refl] i(1) by simp
  next
    case False
    then obtain b where "raft_step cd undefined (clNode (svCl s) p) (EvSnapshot (CommandIndex m) b) = Some rf"
      using rf by (auto simp: raft_step_def)
    from local_follows [OF assms(1,3,4) _ this] show ?thesis using that by auto
  qed
  have up: "entries rf \<subseteq> entries (clNode (svCl s) p) \<and> snap_ok sm s0 n h ?X (lastIncludedIndex rf) (snapshot rf) \<and>
      lastApplied rf = lastApplied (clNode (svCl s) p) \<and> pendingSnapshot rf = pendingSnapshot (clNode (svCl s) p)"
    using rf
  proof
    assume "\<exists>b. smSnapshot sm st' = Some b \<and> Snapshot cd (clNode (svCl s) p) (CommandIndex m) b = Some rf"
    then obtain b where b: "smSnapshot sm st' = Some b" "Snapshot cd (clNode (svCl s) p) (CommandIndex m) b = Some rf" by blast
    from Snapshot_view [OF assms(1) inv b(2)] show ?thesis
    proof
      assume se: "seen rf = seen (clNode (svCl s) p)"
      then show ?thesis using seen_entries [OF se] seenD [OF se] snap_later [OF hist_le_refl X(1) so(1)] by simp
    qed (use sn [OF b(1)] m(2) in simp)
  qed (use snap_later [OF hist_le_refl X(1) so(1)] in simp)
  have "chan_ok sm s0 n h (svOps s) ?X (Suc ?k) ms e" using chan_later [OF hist_le_refl ops_le_refl X(1) ms] .
  moreover have "pending_ok sm s0 n h ?X rf e"
    using pending_later [OF hist_le_refl X(1) so(5)] up unfolding pending_ok_def by (simp cong: option.case_cong)
  ultimately have new: "server_ok sm s0 n h (svOps s) ?X rf (Suc ?k) st' ms" unfolding server_ok_def using up x(2) X(2) by blast
  have w: "rsWaiters (svRsm s p) y = Some (Some q) \<or> (\<exists>j op. opID op = y \<and> (j, op, q) \<in> svExec ?s')" if "rsWaiters r y = Some (Some q)" for y q
    using wake_waiting [OF that [unfolded r]] D by auto
  have rec: "ids_ok n ?s'" "waiters_ok n ?s'"
    by (rule records_ok [OF assms(3), where p = p and r = r]; use rs w in simp)+
  have "service_inv sm cd s0 n h' ?s'"
    by (rule server_change [OF assms(3) h'(1), where p = p and rf = rf and D = "{(Suc ?k, op, rep)}"])
      (use h'(2) up assms(4) D X rs m(4) rec exec_later [OF h'(1) ops_le_refl x(1)]
        server_later [OF h'(1) ops_le_refl subset_refl new] in \<open>simp_all\<close>)
  then show ?thesis using h'(1) by blast
qed

lemma restored:
  assumes "ok s0" "hist_inv n h" "snap_ok sm s0 n h X i data" "(if length data > 0 then smRestore sm s0 data else Some s0) = Some st"
  shows "state_at sm s0 n h (nat i) st"
proof (cases "i = 0 \<and> data = []")
  case True
  then show ?thesis using assms(4) by (auto simp: state_at_def chosen_prefix_def requests_def intro!: exI [of _ "[\<lparr>eTerm = 0, eCommand = None\<rparr>]"])
next
  case False
  then obtain st' where st': "state_at sm s0 n h (nat i) st'" "smSnapshot sm st' = Some data" using assms(3) by (auto simp: snap_ok_def)
  have "st = st'" using Restore_snapshot_of [OF state_ok [OF assms(1) st'(1)] st'(2)] assms(4) by simp
  then show ?thesis using st'(1) by simp
qed

lemma reboot_inv:
  assumes "codec_ok cd" "ok s0" "service_inv sm cd s0 n h s" "p < n" "sizes_ok (clNode (svCl s) p)"
    "MakeRSM sm cd ev False (Some eb) n (int p) (persister (clNode (svCl s) p)) mrs s0 = Some r" "rsRf r = Some rf"
    "\<forall>x \<in> dom (svOps s). fst x = int p \<longrightarrow> fst (snd x) \<noteq> Uint64 eb"
  shows "service_inv sm cd s0 n h
      (s\<lparr>svCl := (svCl s)\<lparr>clNode := (clNode (svCl s))(p := rf), clElect := (clElect (svCl s))(p := (\<lambda>_. None))\<rparr>,
         svRsm := (svRsm s)(p := r), svChan := (svChan s)(p := []), svTodo := {x \<in> svTodo s. fst x \<noteq> p},
         svAt := (svAt s)(p := nat (lastIncludedIndex rf))\<rparr>)" (is "service_inv sm cd s0 n h ?s'")
proof -
  note I = service_invD [OF assms(3)]
  let ?rf = "clNode (svCl s) p"
  note rel = followsD(2) [OF I(1) assms(4)]
  have inv: "raft_inv cd ?rf" using node_relD(1) [OF rel] .
  note r = MakeRSM_boot [OF assms(6,7)]
  obtain es where "rf = booted ev n (int p) (persister ?rf) (currentTerm ?rf) (votedFor ?rf) (logs ?rf) es (lastIncludedIndex ?rf) (lastIncludedTerm ?rf)"
    using restart_eq [OF assms(1) inv assms(5), of ev] r(1) node_relD(2,3) [OF rel] by auto
  then have f: "logs rf = logs ?rf" "lastIncludedIndex rf = lastIncludedIndex ?rf" "snapshot rf = psnapshot (persister ?rf)"
    "lastApplied rf = lastIncludedIndex ?rf" "pendingSnapshot rf = None" by simp_all
  have sn: "snap_ok sm s0 n h (fst ` svExec s) (lastIncludedIndex ?rf) (snapshot ?rf)" using I(2) [OF assms(4)] by (simp add: server_ok_def)
  have sv: "psnapshot (persister ?rf) = snapshot ?rf" using inv by (simp add: raft_inv_def saved_ok_def)
  have "state_at sm s0 n h (nat (lastIncludedIndex ?rf)) (rsSm r)"
    using restored [OF assms(2) followsD(1) [OF I(1)] sn, of "rsSm r"] r(2) unfolding ReadSnapshot_def sv by blast
  then have new: "server_ok sm s0 n h (svOps s) (fst ` svExec s) rf (nat (lastIncludedIndex rf)) (rsSm r) []"
    using sn sv f unfolding server_ok_def pending_ok_def by (simp add: snap_ok_def)
  have ids: "ids_ok n ?s'" using I(9) assms(8) r unfolding ids_ok_def by auto
  have w: "waiters_ok n ?s'" using I(10) r unfolding waiters_ok_def by auto
  have ent: "entries rf = entries ?rf" using f(1,2) by (simp add: entries_eq)
  have fol: "follows cd n h (svCl ?s')" using crash_follows [OF assms(1) I(1) assms(4,5) r(1)] by simp
  show ?thesis
    by (rule server_change [OF assms(3) hist_le_refl fol, where p = p and rf = rf and D = "{}"])
      (use assms(4) new ids w ent in simp_all)
qed

lemma service_start_inv:
  assumes "codec_ok cd" "ok s0" "service_start sm cd s0 n s"
  shows "service_inv sm cd s0 n hist0 s"
proof -
  have mk: "\<exists>ev. Make cd ev n (int p) MakePersister = Some (clNode (svCl s) p) \<and> rsSm (svRsm s p) = s0 \<and> rsMe (svRsm s p) = int p \<and>
      rsWaiters (svRsm s p) = (\<lambda>_. None)" if p: "p < n" for p
  proof -
    obtain ev eb mrs where "MakeRSM sm cd ev False (Some eb) n (int p) MakePersister mrs s0 = Some (svRsm s p)"
      "rsRf (svRsm s p) = Some (clNode (svCl s) p)" using assms(3) p unfolding service_start_def by blast
    note r = MakeRSM_boot [OF this]
    have "rsSm (svRsm s p) = s0" using r(2) by (simp add: ReadSnapshot_def MakePersister_def)
    then show ?thesis using r(1,3,5) by blast
  qed
  have cs: "cluster_start cd n (svCl s)" using mk assms(3) unfolding cluster_start_def service_start_def by simp
  have nd: "entries (clNode (svCl s) p) = {} \<and> server_ok sm s0 n hist0 (svOps s) {} (clNode (svCl s) p) (svAt s p) (rsSm (svRsm s p)) (svChan s p)"
    if p: "p < n" for p
  proof -
    obtain ev where m: "Make cd ev n (int p) MakePersister = Some (clNode (svCl s) p)" "rsSm (svRsm s p) = s0" using mk [OF p] by blast
    obtain b where "encEntry cd \<lparr>eTerm = 0, eCommand = None\<rparr> = Some b" using assms(1) by (auto simp: codec_ok_def)
    then have b: "clNode (svCl s) p = booted ev n (int p) MakePersister 0 (-1) [\<lparr>eTerm = 0, eCommand = None\<rparr>] [b] 0 0"
      using Make_fresh [of cd b MakePersister ev n "int p"] m(1) by (simp add: MakePersister_def)
    have "state_at sm s0 n hist0 0 s0"
      unfolding state_at_def by (rule exI [of _ "[\<lparr>eTerm = 0, eCommand = None\<rparr>]"]) (simp add: chosen_prefix_def requests_def)
    then show ?thesis
      using assms(3) m(2) unfolding b service_start_def server_ok_def by (simp add: entries_eq snap_ok_def pending_ok_def MakePersister_def)
  qed
  have "cluster_entries n (svCl s) = {}" using nd assms(3) by (auto simp: cluster_entries_def service_start_def)
  then show ?thesis
    using start_follows [OF assms(1) cs] nd mk assms(3)
    unfolding service_inv_def by (auto simp: service_start_def ops_ok_def ids_ok_def waiters_ok_def)
qed

lemma service_step_inv:
  assumes "service_step sm cd s0 n s s'" "codec_ok cd" "ok s0" "service_inv sm cd s0 n h s"
  shows "\<exists>h'. hist_le h h' \<and> service_inv sm cd s0 n h' s'"
  using assms(1)
proof cases
  case net
  then show ?thesis using net_inv [OF assms(2,4)] by blast
next
  case node
  then show ?thesis using node_inv [OF assms(2,4)] by blast
next
  case deliver
  then show ?thesis using deliver_inv [OF assms(2,4)] by blast
next
  case (apply_msg p m ms r rf)
  then show ?thesis using snapshot_inv [OF assms(3,4)] command_inv [OF assms(2-4)] hist_le_refl by (cases "SnapshotValid m") blast+
next
  case submit
  then show ?thesis using submit_inv [OF assms(4)] hist_le_refl by blast
next
  case start
  then show ?thesis using start_inv [OF assms(2,4)] by blast
next
  case wait
  then show ?thesis using wait_inv [OF assms(4)] hist_le_refl by blast
next
  case closed
  then show ?thesis using closed_inv [OF assms(4)] hist_le_refl by blast
next
  case restart
  then show ?thesis using reboot_inv [OF assms(2-4)] hist_le_refl by blast
qed

lemma service_run_inv:
  assumes "(service_step sm cd s0 n)\<^sup>*\<^sup>* s s'" "codec_ok cd" "ok s0" "service_inv sm cd s0 n h s"
  shows "\<exists>h'. hist_le h h' \<and> service_inv sm cd s0 n h' s'"
  using assms(1)
proof (induction rule: rtranclp_induct)
  case base
  then show ?case using assms(4) hist_le_refl by blast
next
  case (step s1 s2)
  then show ?case using service_step_inv [OF step(2) assms(2,3)] hist_le_trans by blast
qed

end

end
