(* ===== verification/Dedup.thy ===== *)
theory Dedup
  imports Rpc "HOL-Library.FSet"
begin

text \<open>
  \<^verbatim>\<open>kvraft1/dedup/dedup.go\<close>: the client side that numbers the writes and reports what is
  finished, and the replicated table of replies that makes a retried write execute once.
\<close>

section \<open>The client\<close>

record dedup_client =
  dcId :: u64
  dcNext :: u64
  dcAck :: u64
  dcCompleted :: "u64 fset"

definition Client_zero :: dedup_client where
  "Client_zero = \<lparr>dcId = 0, dcNext = 0, dcAck = 0, dcCompleted = {||}\<rparr>"

text \<open>
  The draw of a client id: \<open>rnd\<close> are the values that successive calls of \<^verbatim>\<open>rand.Read\<close> give,
  its end a call that fails.
\<close>

primrec drawId :: "u64 list \<Rightarrow> u64 option" where
  "drawId [] = None"
| "drawId (r # rnd) = (if r = 0 then drawId rnd else Some r)"

definition Client_Begin :: "u64 list \<Rightarrow> dedup_client \<Rightarrow> (dedup_client \<times> u64 \<times> u64) option" where
  "Client_Begin rnd c = do {
     cid \<leftarrow> (if dcId c = 0 then drawId rnd else Some (dcId c));
     let next = dcNext c + 1;
     if next = 0 then None
     else Some (c\<lparr>dcId := cid, dcNext := next\<rparr>, cid, next)
   }"

definition Client_Ack :: "dedup_client \<Rightarrow> u64" where
  "Client_Ack c = dcAck c"

text \<open>The loop of \<^verbatim>\<open>Complete\<close> that moves the acknowledgement over finished requests.\<close>

lemma fcard_pos: "x |\<in>| A \<Longrightarrow> 0 < fcard A"
  by (auto simp: fcard.rep_eq card_gt_0_iff)

function advanceAck :: "u64 \<Rightarrow> u64 fset \<Rightarrow> u64 \<times> u64 fset" where
  "advanceAck ack completed =
     (if ack + 1 |\<in>| completed then advanceAck (ack + 1) (completed |-| {|ack + 1|})
      else (ack, completed))"
  by pat_completeness auto
termination
  by (relation "measure (\<lambda>(ack, completed). fcard completed)") (auto dest: fcard_pos)

declare advanceAck.simps [simp del]

definition Client_Complete :: "dedup_client \<Rightarrow> u64 \<Rightarrow> dedup_client" where
  "Client_Complete c sequence =
     (if sequence \<le> dcAck c then c
      else case advanceAck (dcAck c) (finsert sequence (dcCompleted c)) of
        (ack, completed) \<Rightarrow> c\<lparr>dcAck := ack, dcCompleted := completed\<rparr>)"

section \<open>The table\<close>

record session =
  sAck :: u64
  sReplies :: "u64 \<rightharpoonup> put_reply"

type_synonym table = "u64 \<rightharpoonup> session"

definition new_session :: session where
  "new_session = \<lparr>sAck = 0, sReplies = (\<lambda>_. None)\<rparr>"

text \<open>The session with the client's acknowledgement taken over and the replies up to it dropped.\<close>

definition session_ack :: "session \<Rightarrow> u64 \<Rightarrow> session" where
  "session_ack s ack =
     (if ack > sAck s
      then \<lparr>sAck = ack, sReplies = (\<lambda>q. if q \<le> ack then None else sReplies s q)\<rparr>
      else s)"

text \<open>
  \<^verbatim>\<open>Table.Do\<close>; the closure \<^verbatim>\<open>apply\<close> acts on the state \<open>st\<close> of the service.
\<close>

definition Table_Do ::
  "table \<Rightarrow> put_args \<Rightarrow> ('s \<Rightarrow> 's \<times> put_reply) \<Rightarrow> 's \<Rightarrow> table \<times> 's \<times> put_reply" where
  "Table_Do t args apply st =
     (if pClientID args = 0 then (case apply st of (st', reply) \<Rightarrow> (t, st', reply))
      else if pSequence args = 0 \<or> pAck args \<ge> pSequence args
      then (t, st, \<lparr>prErr = ErrStaleRequest\<rparr>)
      else
        let session = (case t (pClientID args) of None \<Rightarrow> new_session | Some s \<Rightarrow> s);
            session = session_ack session (pAck args);
            t' = t(pClientID args \<mapsto> session)
        in if pSequence args \<le> sAck session then (t', st, \<lparr>prErr = ErrStaleRequest\<rparr>)
           else case sReplies session (pSequence args) of
             Some reply \<Rightarrow> (t', st, reply)
           | None \<Rightarrow>
               (case apply st of (st', reply) \<Rightarrow>
                  (t(pClientID args \<mapsto> session\<lparr>sReplies := (sReplies session)(pSequence args \<mapsto> reply)\<rparr>),
                   st', reply)))"

section \<open>The client's acknowledgement\<close>

text \<open>The finished requests: everything up to the acknowledgement, and what is recorded beyond.\<close>

definition finished :: "dedup_client \<Rightarrow> u64 \<Rightarrow> bool" where
  "finished c q \<longleftrightarrow> q \<le> dcAck c \<or> q |\<in>| dcCompleted c"

definition client_ok :: "dedup_client \<Rightarrow> bool" where
  "client_ok c \<longleftrightarrow>
     dcAck c \<le> dcNext c \<and> (\<forall>q. q |\<in>| dcCompleted c \<longrightarrow> dcAck c < q \<and> q \<le> dcNext c) \<and>
     dcAck c + 1 |\<notin>| dcCompleted c"

lemma u64_le_Suc: "(q :: u64) \<le> a + 1 \<Longrightarrow> a < a + 1 \<Longrightarrow> q \<le> a \<or> q = a + 1"
  by unat_arith

lemma u64_inc_bound: "(a :: u64) < b \<Longrightarrow> a < a + 1 \<and> a + 1 \<le> b"
  by unat_arith

lemma advanceAck_spec:
  assumes "advanceAck a C = (a', C')" "\<And>q. q |\<in>| C \<Longrightarrow> a < q \<and> q \<le> n" "a \<le> n"
  shows "(\<forall>q. q \<le> a' \<or> q |\<in>| C' \<longleftrightarrow> q \<le> a \<or> q |\<in>| C) \<and> a \<le> a' \<and> a' \<le> n \<and>
    (\<forall>q. q |\<in>| C' \<longrightarrow> a' < q \<and> q \<le> n) \<and> a' + 1 |\<notin>| C'"
  using assms
proof (induction a C rule: advanceAck.induct)
  case (1 a C)
  show ?case
  proof (cases "a + 1 |\<in>| C")
    case True
    have b: "a < a + 1" "a + 1 \<le> n" using "1.prems"(2) True by auto
    have step: "advanceAck (a + 1) (C |-| {|a + 1|}) = (a', C')"
      using "1.prems"(1) True by (subst (asm) advanceAck.simps) simp
    have gt: "a + 1 < q" if "q |\<in>| C" "q \<noteq> a + 1" for q
      using "1.prems"(2) [OF that(1)] that(2) u64_inc_bound [of a q] by auto
    have IH: "(\<forall>q. q \<le> a' \<or> q |\<in>| C' \<longleftrightarrow> q \<le> a + 1 \<or> q |\<in>| C |-| {|a + 1|}) \<and> a + 1 \<le> a' \<and> a' \<le> n \<and>
        (\<forall>q. q |\<in>| C' \<longrightarrow> a' < q \<and> q \<le> n) \<and> a' + 1 |\<notin>| C'"
      using True gt "1.prems"(2) b by (intro "1.IH" [OF True step]) auto
    moreover have "q \<le> a + 1 \<or> q |\<in>| C |-| {|a + 1|} \<longleftrightarrow> q \<le> a \<or> q |\<in>| C" for q
      using True b u64_le_Suc [of q a] by auto
    ultimately show ?thesis using b by auto
  next
    case False
    then have "a' = a" "C' = C" using "1.prems"(1) by (subst (asm) advanceAck.simps; simp)+
    with False "1.prems"(2,3) show ?thesis by auto
  qed
qed

lemma Client_Complete_ok:
  assumes "client_ok c" "q \<le> dcNext c"
  shows "client_ok (Client_Complete c q)"
    and "finished (Client_Complete c q) p \<longleftrightarrow> finished c p \<or> p = q"
    and "dcAck c \<le> dcAck (Client_Complete c q)"
    and "dcId (Client_Complete c q) = dcId c" "dcNext (Client_Complete c q) = dcNext c"
proof -
  have "client_ok (Client_Complete c q) \<and> (finished (Client_Complete c q) p \<longleftrightarrow> finished c p \<or> p = q) \<and>
    dcAck c \<le> dcAck (Client_Complete c q) \<and> dcId (Client_Complete c q) = dcId c \<and>
    dcNext (Client_Complete c q) = dcNext c"
  proof (cases "q \<le> dcAck c")
    case True
    then show ?thesis using assms(1) by (auto simp: Client_Complete_def finished_def)
  next
    case False
    obtain a' C' where a: "advanceAck (dcAck c) (finsert q (dcCompleted c)) = (a', C')" by fastforce
    have "(\<forall>p. p \<le> a' \<or> p |\<in>| C' \<longleftrightarrow> p \<le> dcAck c \<or> p |\<in>| finsert q (dcCompleted c)) \<and> dcAck c \<le> a' \<and>
        a' \<le> dcNext c \<and> (\<forall>p. p |\<in>| C' \<longrightarrow> a' < p \<and> p \<le> dcNext c) \<and> a' + 1 |\<notin>| C'"
      using assms False by (intro advanceAck_spec [OF a]) (auto simp: client_ok_def)
    then show ?thesis
      using False by (auto simp: Client_Complete_def a client_ok_def finished_def)
  qed
  then show "client_ok (Client_Complete c q)"
    and "finished (Client_Complete c q) p \<longleftrightarrow> finished c p \<or> p = q"
    and "dcAck c \<le> dcAck (Client_Complete c q)"
    and "dcId (Client_Complete c q) = dcId c" "dcNext (Client_Complete c q) = dcNext c"
    by blast+
qed

lemma drawId_nonzero: "drawId rnd = Some r \<Longrightarrow> r \<noteq> 0"
  by (induction rnd) (auto split: if_splits)

lemma Client_Begin_ok:
  assumes "Client_Begin rnd c = Some (c', cid, q)" "client_ok c"
  shows "client_ok c'" "q = dcNext c + 1" "dcNext c < q" "dcNext c' = q" "dcAck c' = dcAck c"
    "dcCompleted c' = dcCompleted c" "dcId c' = cid" "cid \<noteq> 0" "dcId c \<noteq> 0 \<Longrightarrow> cid = dcId c"
proof -
  have eq: "q = dcNext c + 1" "q \<noteq> 0" "c' = c\<lparr>dcId := cid, dcNext := q\<rparr>" "cid \<noteq> 0" "dcId c \<noteq> 0 \<longrightarrow> cid = dcId c"
    using assms(1) by (auto simp: Client_Begin_def bind_eq_Some_conv Let_def split: if_splits dest: drawId_nonzero)
  have lt: "dcNext c < q" using eq(1,2) by unat_arith
  then show "client_ok c'" using assms(2) eq by (auto simp: client_ok_def)
  show "q = dcNext c + 1" "dcNext c < q" "dcNext c' = q" "dcAck c' = dcAck c"
    "dcCompleted c' = dcCompleted c" "dcId c' = cid" "cid \<noteq> 0" "dcId c \<noteq> 0 \<Longrightarrow> cid = dcId c"
    using eq lt by auto
qed

section \<open>The table executes a request once\<close>

definition session_of :: "table \<Rightarrow> put_args \<Rightarrow> session" where
  "session_of t args =
     session_ack (case t (pClientID args) of None \<Rightarrow> new_session | Some s \<Rightarrow> s) (pAck args)"

text \<open>Whether \<^verbatim>\<open>Do\<close> calls \<^verbatim>\<open>apply\<close>, and whether it refuses the request as stale.\<close>

definition executes :: "table \<Rightarrow> put_args \<Rightarrow> bool" where
  "executes t args \<longleftrightarrow>
     pClientID args = 0 \<or>
     pSequence args \<noteq> 0 \<and> pAck args < pSequence args \<and> sAck (session_of t args) < pSequence args \<and>
     sReplies (session_of t args) (pSequence args) = None"

definition stale :: "table \<Rightarrow> put_args \<Rightarrow> bool" where
  "stale t args \<longleftrightarrow>
     pClientID args \<noteq> 0 \<and>
     (pSequence args = 0 \<or> pSequence args \<le> pAck args \<or> pSequence args \<le> sAck (session_of t args))"

lemma Table_Do_cases:
  shows "executes t args \<Longrightarrow> snd (Table_Do t args apply st) = apply st"
    and "stale t args \<Longrightarrow> snd (Table_Do t args apply st) = (st, \<lparr>prErr = ErrStaleRequest\<rparr>)"
    and "\<not> executes t args \<Longrightarrow> \<not> stale t args \<Longrightarrow>
      \<exists>reply. sReplies (session_of t args) (pSequence args) = Some reply \<and>
        snd (Table_Do t args apply st) = (st, reply)"
  by (auto simp: executes_def stale_def Table_Do_def session_of_def Let_def not_le not_less
      split: prod.splits option.splits)

lemma Table_Do_table:
  "fst (Table_Do t args apply st) =
     (if pClientID args = 0 \<or> pSequence args = 0 \<or> pAck args \<ge> pSequence args then t
      else t(pClientID args \<mapsto>
        if executes t args
        then (session_of t args)\<lparr>sReplies := (sReplies (session_of t args))(pSequence args \<mapsto> snd (apply st))\<rparr>
        else session_of t args))"
  by (auto simp: executes_def Table_Do_def session_of_def Let_def not_le not_less
      split: prod.splits option.splits)

text \<open>
  What the table knows of a request: the reply that is recorded, or that the client has
  acknowledged it.
\<close>

definition known :: "table \<Rightarrow> u64 \<Rightarrow> u64 \<Rightarrow> put_reply \<Rightarrow> bool" where
  "known t cid q r \<longleftrightarrow> (\<exists>s. t cid = Some s \<and> (q \<le> sAck s \<or> sReplies s q = Some r))"

lemma session_ack_mono:
  "sAck s \<le> sAck (session_ack s a)" "a \<le> sAck (session_ack s a)"
  "sAck (session_ack s a) < q \<Longrightarrow> sReplies (session_ack s a) q = sReplies s q"
  by (auto simp: session_ack_def not_less split: if_splits)

lemma known_persists:
  assumes "known t cid q r"
  shows "known (fst (Table_Do t args apply st)) cid q r"
proof (cases "pClientID args = cid \<and> \<not> (pClientID args = 0 \<or> pSequence args = 0 \<or> pAck args \<ge> pSequence args)")
  case True
  obtain s where s: "t cid = Some s" "q \<le> sAck s \<or> sReplies s q = Some r"
    using assms by (auto simp: known_def)
  have so: "session_of t args = session_ack s (pAck args)" using True s(1) by (simp add: session_of_def)
  have n: "q \<le> sAck (session_of t args) \<or> sReplies (session_of t args) q = Some r"
    using s(2) session_ack_mono [where s = s and a = "pAck args"] unfolding so by (metis linorder_not_le order_trans)
  moreover have "executes t args \<Longrightarrow> pSequence args = q \<Longrightarrow> q \<le> sAck (session_of t args)"
    using n True by (auto simp: executes_def)
  ultimately show ?thesis
    using True by (auto simp: known_def Table_Do_table)
next
  case False
  then show ?thesis using assms by (auto simp: known_def Table_Do_table)
qed

lemma known_after_execution:
  assumes "executes t args" "pClientID args \<noteq> 0"
  shows "known (fst (Table_Do t args apply st)) (pClientID args) (pSequence args) (snd (apply st))"
  using assms by (auto simp: known_def Table_Do_table executes_def)

lemma known_blocks:
  assumes "known t (pClientID args) (pSequence args) r" "pClientID args \<noteq> 0"
  shows "\<not> executes t args"
    and "\<not> stale t args \<Longrightarrow> snd (Table_Do t args apply st) = (st, r)"
proof -
  obtain s where s: "t (pClientID args) = Some s" "pSequence args \<le> sAck s \<or> sReplies s (pSequence args) = Some r"
    using assms by (auto simp: known_def)
  have so: "session_of t args = session_ack s (pAck args)" using s(1) by (simp add: session_of_def)
  have n: "pSequence args \<le> sAck (session_of t args) \<or> sReplies (session_of t args) (pSequence args) = Some r"
    using s(2) session_ack_mono [where s = s and a = "pAck args"] unfolding so by (metis linorder_not_le order_trans)
  then show ne: "\<not> executes t args" using assms(2) by (auto simp: executes_def)
  show "snd (Table_Do t args apply st) = (st, r)" if "\<not> stale t args"
    using Table_Do_cases(3) [OF ne that, of "apply" st] n that assms(2) by (auto simp: stale_def)
qed

section \<open>Sequences of requests\<close>

text \<open>
  The requests in the order in which they are committed: for each whether it was executed and
  what was replied.
\<close>

primrec table_run ::
  "table \<Rightarrow> (put_args \<Rightarrow> 's \<Rightarrow> 's \<times> put_reply) \<Rightarrow> 's \<Rightarrow> put_args list \<Rightarrow> (bool \<times> put_reply) list" where
  "table_run t ap st [] = []"
| "table_run t ap st (args # reqs) =
     (case Table_Do t args (ap args) st of
        (t', st', reply) \<Rightarrow> (executes t args, reply) # table_run t' ap st' reqs)"

lemma table_run_length [simp]: "length (table_run t ap st reqs) = length reqs"
  by (induction reqs arbitrary: t st) (auto split: prod.splits)

lemma table_run_known:
  assumes "known t cid q r" "cid \<noteq> 0" "j < length reqs" "pClientID (reqs ! j) = cid" "pSequence (reqs ! j) = q"
  shows "\<not> fst (table_run t ap st reqs ! j) \<and>
    (snd (table_run t ap st reqs ! j) = r \<or> prErr (snd (table_run t ap st reqs ! j)) = ErrStaleRequest)"
  using assms
proof (induction reqs arbitrary: t st j)
  case (Cons args reqs)
  obtain t' st' reply where d: "Table_Do t args (ap args) st = (t', st', reply)" by (cases "Table_Do t args (ap args) st")
  have k: "known t' cid q r" using known_persists [OF Cons.prems(1), of args "ap args" st] d by simp
  show ?case
  proof (cases j)
    case 0
    with Cons.prems have a: "known t (pClientID args) (pSequence args) r" "pClientID args \<noteq> 0" by auto
    from known_blocks(1) [OF this] known_blocks(2) [OF this, of "ap args" st]
      Table_Do_cases(2) [of t args "ap args" st] d 0 show ?thesis
      by (cases "stale t args") auto
  next
    case (Suc i)
    with Cons.IH [OF k Cons.prems(2), of i st'] Cons.prems d show ?thesis by simp
  qed
qed simp

section \<open>Client and table together\<close>

text \<open>
  One client against the replicated table. \<open>inflight\<close> are the writes the client has begun and
  not completed, \<open>sent\<close> every request it ever sent. Any of them can be committed at any time,
  any number of times and in any order, and so can requests of other clients.
\<close>

record 's dsys =
  dClient :: dedup_client
  dInflight :: "u64 set"
  dSent :: "put_args set"
  dTable :: table
  dState :: 's

definition retry_args :: "dedup_client \<Rightarrow> u64 \<Rightarrow> put_args \<Rightarrow> put_args" where
  "retry_args c q a = a\<lparr>pClientID := dcId c, pSequence := q, pAck := Client_Ack c\<rparr>"

inductive dsys_step :: "(put_args \<Rightarrow> 's \<Rightarrow> 's \<times> put_reply) \<Rightarrow> 's dsys \<Rightarrow> 's dsys \<Rightarrow> bool" for ap where
  start: "Client_Begin rnd (dClient s) = Some (c, cid, q) \<Longrightarrow>
    dsys_step ap s (s\<lparr>dClient := c, dInflight := insert q (dInflight s)\<rparr>)"
| send: "q \<in> dInflight s \<Longrightarrow>
    dsys_step ap s (s\<lparr>dSent := insert (retry_args (dClient s) q a) (dSent s)\<rparr>)"
| commit: "a \<in> dSent s \<or> dcId (dClient s) \<noteq> 0 \<and> pClientID a \<noteq> dcId (dClient s) \<Longrightarrow>
    Table_Do (dTable s) a (ap a) (dState s) = (t, st, reply) \<Longrightarrow>
    dsys_step ap s (s\<lparr>dTable := t, dState := st\<rparr>)"
| complete: "q \<in> dInflight s \<Longrightarrow>
    dsys_step ap s (s\<lparr>dClient := Client_Complete (dClient s) q, dInflight := dInflight s - {q}\<rparr>)"

definition dsys_init :: "'s \<Rightarrow> 's dsys" where
  "dsys_init st = \<lparr>dClient = Client_zero, dInflight = {}, dSent = {}, dTable = (\<lambda>_. None), dState = st\<rparr>"

definition dsys_inv :: "'s dsys \<Rightarrow> bool" where
  "dsys_inv s \<longleftrightarrow>
     client_ok (dClient s) \<and>
     dInflight s \<subseteq> {q. q \<noteq> 0 \<and> q \<le> dcNext (dClient s) \<and> \<not> finished (dClient s) q} \<and>
     (dcId (dClient s) = 0 \<longrightarrow> dInflight s = {} \<and> dSent s = {} \<and> dTable s = (\<lambda>_. None)) \<and>
     (\<forall>a \<in> dSent s. pClientID a = dcId (dClient s) \<and> pAck a \<le> dcAck (dClient s)) \<and>
     (\<forall>ses. dTable s (dcId (dClient s)) = Some ses \<longrightarrow> sAck ses \<le> dcAck (dClient s))"

lemma sAck_session_of:
  assumes "\<And>ses. t (pClientID a) = Some ses \<Longrightarrow> sAck ses \<le> n" "pAck a \<le> n"
  shows "sAck (session_of t a) \<le> n"
  using assms by (auto simp: session_of_def session_ack_def new_session_def split: option.splits)

lemma dsys_init_inv: "dsys_inv (dsys_init st)"
  by (auto simp: dsys_inv_def dsys_init_def Client_zero_def client_ok_def finished_def)

lemma dsys_step_inv:
  assumes "dsys_step ap s s'" "dsys_inv s"
  shows "dsys_inv s'"
  using assms(1)
proof cases
  case (start rnd c cid q)
  have ok: "client_ok (dClient s)" using assms(2) by (simp add: dsys_inv_def)
  note b = Client_Begin_ok [OF start(2) ok]
  have nf: "\<not> finished c q"
    using b ok by (auto simp: finished_def client_ok_def)
  have "dcId (dClient s) = 0 \<or> cid = dcId (dClient s)" using b(9) by blast
  then show ?thesis
    using assms(2) b nf
    by (auto simp: start(1) dsys_inv_def finished_def dest: order_less_imp_le intro: order_trans)
next
  case (send q a)
  then show ?thesis using assms(2) by (auto simp: dsys_inv_def retry_args_def Client_Ack_def)
next
  case (commit a t st reply)
  have t: "t = fst (Table_Do (dTable s) a (ap a) (dState s))" using commit(3) by simp
  have nz: "dcId (dClient s) \<noteq> 0" using commit(2) assms(2) by (auto simp: dsys_inv_def)
  have "sAck ses \<le> dcAck (dClient s)" if "t (dcId (dClient s)) = Some ses" for ses
  proof (cases "pClientID a = dcId (dClient s)")
    case True
    then have a: "a \<in> dSent s" using commit(2) by blast
    have "sAck (session_of (dTable s) a) \<le> dcAck (dClient s)"
      using assms(2) a True by (intro sAck_session_of) (auto simp: dsys_inv_def)
    with that assms(2) True show ?thesis
      by (auto simp: t Table_Do_table dsys_inv_def split: if_splits)
  next
    case False
    with that assms(2) show ?thesis by (auto simp: t Table_Do_table dsys_inv_def split: if_splits)
  qed
  then show ?thesis using assms(2) nz by (auto simp: commit(1) dsys_inv_def)
next
  case (complete q)
  have ok: "client_ok (dClient s)" "q \<le> dcNext (dClient s)" using assms(2) complete(2) by (auto simp: dsys_inv_def)
  note c = Client_Complete_ok [OF ok]
  show ?thesis
    using assms(2) c by (auto simp: complete(1) dsys_inv_def intro: order_trans)
qed

text \<open>While a write is in flight none of its copies is refused as stale.\<close>

lemma inflight_not_stale:
  assumes "dsys_inv s" "q \<in> dInflight s" "a \<in> dSent s" "pSequence a = q"
  shows "\<not> stale (dTable s) a"
proof -
  have i: "pClientID a = dcId (dClient s)" "pAck a \<le> dcAck (dClient s)" "dcAck (dClient s) < q" "q \<noteq> 0"
    using assms by (auto simp: dsys_inv_def finished_def)
  have "sAck (session_of (dTable s) a) \<le> dcAck (dClient s)"
    using assms(1) i by (intro sAck_session_of) (auto simp: dsys_inv_def)
  with i assms(4) show ?thesis by (auto simp: stale_def)
qed

definition replies_definite :: "table \<Rightarrow> bool" where
  "replies_definite t \<longleftrightarrow>
     (\<forall>cid ses q r. t cid = Some ses \<longrightarrow> sReplies ses q = Some r \<longrightarrow> prErr r \<noteq> ErrStaleRequest)"

lemma sReplies_session_of:
  "sReplies (session_of t a) q = Some r \<Longrightarrow> \<exists>ses. t (pClientID a) = Some ses \<and> sReplies ses q = Some r"
  by (auto simp: session_of_def session_ack_def new_session_def split: option.splits if_splits)

lemma replies_definite_Do:
  assumes "replies_definite t" "prErr (snd (apply st)) \<noteq> ErrStaleRequest"
  shows "replies_definite (fst (Table_Do t a apply st))"
  using assms sReplies_session_of [of t a]
  unfolding replies_definite_def Table_Do_table
  by (auto split: if_splits) (metis+)

lemma dsys_reach:
  assumes "(dsys_step ap)\<^sup>*\<^sup>* (dsys_init st) s" "\<And>a st. prErr (snd (ap a st)) \<noteq> ErrStaleRequest"
  shows "dsys_inv s \<and> replies_definite (dTable s)"
  using assms(1)
proof (induction rule: rtranclp_induct)
  case base
  show ?case using dsys_init_inv by (auto simp: replies_definite_def dsys_init_def)
next
  case (step s s')
  have "replies_definite (dTable s')"
    using step(2)
  proof cases
    case (commit a t st' reply)
    then show ?thesis
      using replies_definite_Do [of "dTable s" "ap a" "dState s" a] step(3) assms(2) by simp
  qed (use step(3) in auto)
  with step dsys_step_inv show ?case by blast
qed

section \<open>Properties\<close>


definition sample_put :: "u64 \<Rightarrow> u64 \<Rightarrow> u64 \<Rightarrow> put_args" where
  "sample_put cid q ack =
     \<lparr>pKey = ''k'', pValue = ''v'', pVersion = 0, pClientID = cid, pSequence = q, pAck = ack\<rparr>"

definition sample_apply :: "put_args \<Rightarrow> nat \<Rightarrow> nat \<times> put_reply" where
  "sample_apply a n = (n + 1, \<lparr>prErr = (if n = 0 then OK else ErrVersion)\<rparr>)"


text \<open>
  The client's acknowledgement never overtakes a write in flight: whenever a copy of a request
  that is still in flight is committed, it is executed or answered with the recorded reply of its
  execution, never refused as stale. So a clerk that waits for the reply does not reach its panic.
\<close>

theorem inflight_gets_its_reply:
  assumes "(dsys_step ap)\<^sup>*\<^sup>* (dsys_init st0) s" "\<forall>a st. prErr (snd (ap a st)) \<noteq> ErrStaleRequest"
    and "q \<in> dInflight s" "a \<in> dSent s" "pSequence a = q"
    and "Table_Do (dTable s) a (ap a) (dState s) = (t, st, reply)"
  shows "prErr reply \<noteq> ErrStaleRequest \<and>
    (executes (dTable s) a \<and> (st, reply) = ap a (dState s) \<or>
     \<not> executes (dTable s) a \<and> st = dState s \<and> sReplies (session_of (dTable s) a) q = Some reply)"
proof -
  have r: "dsys_inv s" "replies_definite (dTable s)" using dsys_reach [OF assms(1)] assms(2) by auto
  have ns: "\<not> stale (dTable s) a" using inflight_not_stale [OF r(1) assms(3-5)] .
  show ?thesis
  proof (cases "executes (dTable s) a")
    case True
    then have "(st, reply) = ap a (dState s)"
      using Table_Do_cases(1) [OF True, of "ap a" "dState s"] assms(6) by simp
    moreover have "prErr (snd (ap a (dState s))) \<noteq> ErrStaleRequest" using assms(2) by blast
    ultimately show ?thesis using True by (metis snd_conv)
  next
    case False
    then obtain r' where e: "sReplies (session_of (dTable s) a) q = Some r'" "st = dState s" "reply = r'"
      using Table_Do_cases(3) [OF False ns, of "ap a" "dState s"] assms(5,6) by auto
    from sReplies_session_of [OF e(1)] r(2) e False show ?thesis unfolding replies_definite_def by blast
  qed
qed

theorem inflight_gets_its_reply_witness:
  "\<exists>s a t st reply. (dsys_step sample_apply)\<^sup>*\<^sup>* (dsys_init 0) s \<and> a \<in> dSent s \<and>
     Table_Do (dTable s) a (sample_apply a) (dState s) = (t, st, reply) \<and> prErr reply \<noteq> ErrStaleRequest"
proof -
  define c where "c = \<lparr>dcId = 5, dcNext = 1, dcAck = 0, dcCompleted = {||}\<rparr>"
  define s1 :: "nat dsys" where "s1 = (dsys_init 0)\<lparr>dClient := c, dInflight := insert 1 (dInflight (dsys_init 0 :: nat dsys))\<rparr>"
  define a where "a = retry_args (dClient s1) 1 (sample_put 0 0 0)"
  define s2 where "s2 = s1\<lparr>dSent := insert a (dSent s1)\<rparr>"
  have "Client_Begin [0, 5] (dClient (dsys_init 0 :: nat dsys)) = Some (c, 5, 1)"
    by (simp add: Client_Begin_def dsys_init_def Client_zero_def Let_def c_def)
  then have 1: "dsys_step sample_apply (dsys_init 0) s1" unfolding s1_def by (rule dsys_step.start)
  have in1: "1 \<in> dInflight s1" by (simp add: s1_def)
  have 2: "dsys_step sample_apply s1 s2" unfolding s2_def a_def using in1 by (rule dsys_step.send)
  have reach: "(dsys_step sample_apply)\<^sup>*\<^sup>* (dsys_init 0) s2"
    using converse_rtranclp_into_rtranclp [of "dsys_step sample_apply", OF 1 r_into_rtranclp [of "dsys_step sample_apply", OF 2]] .
  obtain t st reply where d: "Table_Do (dTable s2) a (sample_apply a) (dState s2) = (t, st, reply)"
    by (rule prod_cases3)
  have nz: "\<forall>a st. prErr (snd (sample_apply a st)) \<noteq> ErrStaleRequest" by (simp add: sample_apply_def)
  have m: "1 \<in> dInflight s2" "a \<in> dSent s2" "pSequence a = 1"
    using in1 by (simp_all add: s2_def a_def retry_args_def)
  from inflight_gets_its_reply [OF reach nz m d] d reach m(2) show ?thesis by blast
qed

end
