(* ===== verification/Kvraft.thy ===== *)
theory Kvraft
  imports Dedup Rsm "HOL-Library.Finite_Map"
begin

text \<open>
  The replicated key/value service: the state machine and the handlers of \<^verbatim>\<open>kvraft1/server.go\<close>
  and the clerk of \<^verbatim>\<open>kvraft1/client.go\<close>.
\<close>

section \<open>The server\<close>

record value_entry =
  veValue :: string
  veVersion :: Tversion

record kvserver =
  kvValues :: "string \<rightharpoonup> value_entry"
  kvRequests :: table

text \<open>The requests and results that travel as \<^verbatim>\<open>any\<close> through the log.\<close>

datatype kv_req = ReqGet get_args | ReqPut put_args | ReqOther

datatype kv_res = ResGet get_reply | ResPut put_reply

definition putLocked :: "(string \<rightharpoonup> value_entry) \<Rightarrow> put_args \<Rightarrow> (string \<rightharpoonup> value_entry) \<times> put_reply" where
  "putLocked vs args =
     (case vs (pKey args) of
        None \<Rightarrow>
          if pVersion args \<noteq> 0 then (vs, \<lparr>prErr = ErrNoKey\<rparr>)
          else (vs(pKey args \<mapsto> \<lparr>veValue = pValue args, veVersion = 1\<rparr>), \<lparr>prErr = OK\<rparr>)
      | Some entry \<Rightarrow>
          if veVersion entry \<noteq> pVersion args then (vs, \<lparr>prErr = ErrVersion\<rparr>)
          else (vs(pKey args \<mapsto> entry\<lparr>veValue := pValue args, veVersion := veVersion entry + 1\<rparr>),
                \<lparr>prErr = OK\<rparr>))"

definition getReply :: "(string \<rightharpoonup> value_entry) \<Rightarrow> get_args \<Rightarrow> get_reply" where
  "getReply vs args =
     (case vs (gKey args) of
        None \<Rightarrow> get_error ErrNoKey
      | Some entry \<Rightarrow> \<lparr>grValue = veValue entry, grVersion = veVersion entry, grErr = OK\<rparr>)"

definition KVServer_DoOp :: "kvserver \<Rightarrow> kv_req \<Rightarrow> (kvserver \<times> kv_res) option" where
  "KVServer_DoOp kv req =
     (case req of
        ReqGet args \<Rightarrow> Some (kv, ResGet (getReply (kvValues kv) args))
      | ReqPut args \<Rightarrow>
          (case Table_Do (kvRequests kv) args (\<lambda>vs. putLocked vs args) (kvValues kv) of
             (t, vs, reply) \<Rightarrow> Some (\<lparr>kvValues = vs, kvRequests = t\<rparr>, ResPut reply))
      | ReqOther \<Rightarrow> None)"

text \<open>
  The encoding of the two maps in a snapshot is a parameter: an encoder, and a decoder for each of
  the two values that \<^verbatim>\<open>Restore\<close> reads in turn, the second of which can meet the end of the data.
\<close>

datatype 'a decoded = DecOk 'a | DecEOF | DecError

record kv_codec =
  kvEncode :: "(string \<rightharpoonup> value_entry) \<Rightarrow> table \<Rightarrow> bytes option"
  kvDecodeValues :: "bytes \<Rightarrow> (string \<rightharpoonup> value_entry) option"
  kvDecodeRequests :: "bytes \<Rightarrow> table decoded"

text \<open>A Go map is finite: the maps that are encoded have a finite domain.\<close>

definition table_finite :: "table \<Rightarrow> bool" where
  "table_finite t \<longleftrightarrow> finite (dom t) \<and> (\<forall>cid s. t cid = Some s \<longrightarrow> finite (dom (sReplies s)))"

definition kv_codec_ok :: "kv_codec \<Rightarrow> bool" where
  "kv_codec_ok kc \<longleftrightarrow>
     (\<forall>vs t. finite (dom vs) \<and> table_finite t \<longrightarrow> (\<exists>b. kvEncode kc vs t = Some b \<and> b \<noteq> [] \<and> kvDecodeValues kc b = Some vs \<and>
        kvDecodeRequests kc b = DecOk t))"

definition KVServer_Snapshot :: "kv_codec \<Rightarrow> kvserver \<Rightarrow> bytes option" where
  "KVServer_Snapshot kc kv = kvEncode kc (kvValues kv) (kvRequests kv)"

definition KVServer_Restore :: "kv_codec \<Rightarrow> kvserver \<Rightarrow> bytes \<Rightarrow> kvserver option" where
  "KVServer_Restore kc kv data =
     (if data = [] then Some kv
      else do {
        vs \<leftarrow> kvDecodeValues kc data;
        t \<leftarrow> (case kvDecodeRequests kc data of
                DecOk t \<Rightarrow> Some t | DecEOF \<Rightarrow> Some (\<lambda>_. None) | DecError \<Rightarrow> None);
        Some \<lparr>kvValues = vs, kvRequests = t\<rparr>
      })"

definition StartKVServer :: kvserver where
  "StartKVServer = \<lparr>kvValues = (\<lambda>_. None), kvRequests = (\<lambda>_. None)\<rparr>"

text \<open>The RPC handlers, given what \<^verbatim>\<open>SubmitWithTimeout\<close> returned.\<close>

definition KVServer_Get :: "Err \<times> kv_res option \<Rightarrow> get_reply option" where
  "KVServer_Get submitted =
     (case submitted of (err, result) \<Rightarrow>
        if err \<noteq> OK then Some (get_error err)
        else case result of Some (ResGet r) \<Rightarrow> Some r | _ \<Rightarrow> None)"

definition KVServer_Put :: "Err \<times> kv_res option \<Rightarrow> put_reply option" where
  "KVServer_Put submitted =
     (case submitted of (err, result) \<Rightarrow>
        if err \<noteq> OK then Some \<lparr>prErr = err\<rparr>
        else case result of Some (ResPut r) \<Rightarrow> Some r | _ \<Rightarrow> None)"

section \<open>The clerk\<close>

record kv_clerk =
  ckServers :: nat
  ckLeader :: nat
  ckRequests :: dedup_client

definition MakeClerk :: "nat \<Rightarrow> kv_clerk option" where
  "MakeClerk n =
     (if n = 0 then None else Some \<lparr>ckServers = n, ckLeader = 0, ckRequests = Client_zero\<rparr>)"

definition rememberLeader :: "kv_clerk \<Rightarrow> nat \<Rightarrow> kv_clerk" where
  "rememberLeader ck server = ck\<lparr>ckLeader := server\<rparr>"

definition advanceLeader :: "kv_clerk \<Rightarrow> nat \<Rightarrow> kv_clerk" where
  "advanceLeader ck failed =
     (if ckLeader ck = failed then ck\<lparr>ckLeader := (failed + 1) mod ckServers ck\<rparr> else ck)"

text \<open>The new state and count of failures; whether it sleeps has no effect on either.\<close>

definition retryAfterFailure :: "kv_clerk \<Rightarrow> nat \<Rightarrow> nat \<Rightarrow> kv_clerk \<times> nat" where
  "retryAfterFailure ck server failedAttempts =
     (let ck = advanceLeader ck server; failedAttempts = failedAttempts + 1
      in (ck, if failedAttempts \<ge> ckServers ck then 0 else failedAttempts))"

text \<open>
  The loops of \<^verbatim>\<open>Get\<close> and \<^verbatim>\<open>Put\<close> over the results of the calls (\<open>None\<close>: the call
  failed), for a clerk that is used by one goroutine at a time.
\<close>

primrec Clerk_Get :: "kv_clerk \<Rightarrow> nat \<Rightarrow> get_reply option list \<Rightarrow>
    kv_clerk \<times> (string \<times> Tversion \<times> Err) loop" where
  "Clerk_Get ck failedAttempts [] = (ck, Running)"
| "Clerk_Get ck failedAttempts (call # calls) =
     (let server = ckLeader ck;
          retry = (case retryAfterFailure ck server failedAttempts of (ck, fa) \<Rightarrow> Clerk_Get ck fa calls)
      in if server \<ge> ckServers ck then (ck, Panicked)
         else case call of
           Some reply \<Rightarrow>
             if grErr reply = OK \<or> grErr reply = ErrNoKey
             then (rememberLeader ck server, Returned (grValue reply, grVersion reply, grErr reply))
             else retry
         | None \<Rightarrow> retry)"

text \<open>
  \<^verbatim>\<open>Put\<close>: every attempt carries the identity that \<^verbatim>\<open>Begin\<close> gave and the acknowledgement of
  the moment. The result has the requests sent, with the servers they were sent to.
\<close>

primrec Clerk_Put_loop :: "kv_clerk \<Rightarrow> put_args \<Rightarrow> nat \<Rightarrow> put_reply option list \<Rightarrow>
    kv_clerk \<times> (nat \<times> put_args) list \<times> Err loop" where
  "Clerk_Put_loop ck args failedAttempts [] = (ck, [], Running)"
| "Clerk_Put_loop ck args failedAttempts (call # calls) =
     (let args = args\<lparr>pAck := Client_Ack (ckRequests ck)\<rparr>;
          server = ckLeader ck;
          retry = (case retryAfterFailure ck server failedAttempts of (ck, fa) \<Rightarrow>
            (case Clerk_Put_loop ck args fa calls of (ck, sent, r) \<Rightarrow> (ck, (server, args) # sent, r)))
      in if server \<ge> ckServers ck then (ck, [], Panicked)
         else case call of
           Some reply \<Rightarrow>
             if prErr reply = OK \<or> prErr reply = ErrNoKey \<or> prErr reply = ErrVersion
             then (rememberLeader ck server, [(server, args)], Returned (prErr reply))
             else if prErr reply = ErrStaleRequest then (ck, [(server, args)], Panicked)
             else retry
         | None \<Rightarrow> retry)"

definition Clerk_Put :: "u64 list \<Rightarrow> kv_clerk \<Rightarrow> string \<Rightarrow> string \<Rightarrow> Tversion \<Rightarrow>
    put_reply option list \<Rightarrow> (kv_clerk \<times> (nat \<times> put_args) list \<times> Err loop) option" where
  "Clerk_Put rnd ck key val version calls = do {
     (c, cid, q) \<leftarrow> Client_Begin rnd (ckRequests ck);
     let args = \<lparr>pKey = key, pValue = val, pVersion = version, pClientID = cid, pSequence = q, pAck = 0\<rparr>;
     let (ck, sent, r) = Clerk_Put_loop (ck\<lparr>ckRequests := c\<rparr>) args 0 calls;
     Some (if r = Running then (ck, sent, r)
           else (ck\<lparr>ckRequests := Client_Complete (ckRequests ck) q\<rparr>, sent, r))
   }"

section \<open>The state machine against its specification\<close>

text \<open>What the specification's state of a key is in the server.\<close>

definition kv_abs :: "(string \<rightharpoonup> value_entry) \<Rightarrow> string \<Rightarrow> kv_state" where
  "kv_abs vs k =
     (case vs k of
        None \<Rightarrow> KvModel_Init
      | Some e \<Rightarrow> \<lparr>ksValue = veValue e, ksVersion = veVersion e\<rparr>)"

text \<open>A key that exists has been written: its version is not the initial one.\<close>

definition versions_ok :: "(string \<rightharpoonup> value_entry) \<Rightarrow> bool" where
  "versions_ok vs \<longleftrightarrow> (\<forall>k e. vs k = Some e \<longrightarrow> veVersion e \<noteq> 0)"

lemma putLocked_cases:
  "putLocked vs args =
     (if ksVersion (kv_abs vs (pKey args)) = pVersion args
      then (vs(pKey args \<mapsto> \<lparr>veValue = pValue args, veVersion = pVersion args + 1\<rparr>), \<lparr>prErr = OK\<rparr>)
      else (vs, \<lparr>prErr = (if vs (pKey args) = None then ErrNoKey else ErrVersion)\<rparr>))"
  by (auto simp: putLocked_def kv_abs_def KvModel_Init_def split: option.splits)

lemma putLocked_versions:
  "versions_ok vs \<Longrightarrow> pVersion args + 1 \<noteq> 0 \<Longrightarrow> versions_ok (fst (putLocked vs args))"
  by (auto simp: putLocked_cases versions_ok_def)

lemma DoOp_put_executes:
  assumes "executes (kvRequests kv) args"
  shows "\<exists>t. KVServer_DoOp kv (ReqPut args) =
    Some (\<lparr>kvValues = fst (putLocked (kvValues kv) args), kvRequests = t\<rparr>, ResPut (snd (putLocked (kvValues kv) args)))"
  using Table_Do_cases(1) [OF assms, of "\<lambda>vs. putLocked vs args" "kvValues kv"]
  by (simp add: KVServer_DoOp_def split_beta)

lemma DoOp_put_skips:
  assumes "\<not> executes (kvRequests kv) args"
  shows "\<exists>t r. KVServer_DoOp kv (ReqPut args) = Some (\<lparr>kvValues = kvValues kv, kvRequests = t\<rparr>, ResPut r)"
  using Table_Do_cases(2,3) [of "kvRequests kv" args "\<lambda>vs. putLocked vs args" "kvValues kv"] assms
  by (cases "stale (kvRequests kv) args") (auto simp: KVServer_DoOp_def split: prod.splits)

definition kv_finite :: "kvserver \<Rightarrow> bool" where
  "kv_finite kv \<longleftrightarrow> finite (dom (kvValues kv)) \<and> table_finite (kvRequests kv)"

lemma table_finite_Do: "table_finite t \<Longrightarrow> table_finite (fst (Table_Do t args apply st))"
proof -
  assume t: "table_finite t"
  have s: "finite (dom (sReplies (session_of t args)))"
    using t unfolding session_of_def session_ack_def new_session_def table_finite_def
    by (auto split: option.splits intro: finite_subset [of _ "dom (sReplies _)"] simp: dom_def)
  show ?thesis
    using t s by (auto simp: Table_Do_table table_finite_def split: if_splits)
qed

lemma kv_finite_DoOp:
  assumes "KVServer_DoOp kv req = Some (kv', r)" "kv_finite kv"
  shows "kv_finite kv'"
proof (cases req)
  case (ReqPut args)
  have f: "finite (dom (fst (putLocked (kvValues kv) args)))"
    using assms(2) by (simp add: kv_finite_def putLocked_cases)
  have t: "table_finite (fst (Table_Do (kvRequests kv) args (\<lambda>vs. putLocked vs args) (kvValues kv)))"
    using assms(2) by (intro table_finite_Do) (simp add: kv_finite_def)
  have "kvValues kv' = fst (putLocked (kvValues kv) args) \<or> kvValues kv' = kvValues kv"
    using DoOp_put_executes [of kv args] DoOp_put_skips [of kv args] assms(1) ReqPut
    by (cases "executes (kvRequests kv) args") auto
  moreover have "kvRequests kv' = fst (Table_Do (kvRequests kv) args (\<lambda>vs. putLocked vs args) (kvValues kv))"
    using assms(1) ReqPut by (auto simp: KVServer_DoOp_def split: prod.splits)
  ultimately show ?thesis using assms(2) f t by (auto simp: kv_finite_def)
qed (use assms in \<open>auto simp: KVServer_DoOp_def\<close>)

lemma Restore_Snapshot:
  assumes "kv_codec_ok kc" "kv_finite kv"
  shows "\<exists>b. KVServer_Snapshot kc kv = Some b \<and> b \<noteq> [] \<and> KVServer_Restore kc kv' b = Some kv"
proof -
  obtain b where "kvEncode kc (kvValues kv) (kvRequests kv) = Some b" "b \<noteq> []"
      "kvDecodeValues kc b = Some (kvValues kv)" "kvDecodeRequests kc b = DecOk (kvRequests kv)"
    using assms unfolding kv_codec_ok_def kv_finite_def by blast
  then show ?thesis by (simp add: KVServer_Snapshot_def KVServer_Restore_def)
qed

section \<open>The clerk\<close>

definition clerk_ok :: "kv_clerk \<Rightarrow> bool" where
  "clerk_ok ck \<longleftrightarrow> ckLeader ck < ckServers ck"

lemma retryAfterFailure_ok:
  assumes "clerk_ok ck" "retryAfterFailure ck server fa = (ck', fa')"
  shows "clerk_ok ck'" "ckRequests ck' = ckRequests ck" "ckServers ck' = ckServers ck"
  using assms by (auto simp: clerk_ok_def retryAfterFailure_def advanceLeader_def Let_def split: if_splits)

definition definite_put :: "put_reply option \<Rightarrow> bool" where
  "definite_put r \<longleftrightarrow> (\<exists>p. r = Some p \<and> prErr p \<in> {OK, ErrNoKey, ErrVersion})"

definition definite_get :: "get_reply option \<Rightarrow> bool" where
  "definite_get r \<longleftrightarrow> (\<exists>p. r = Some p \<and> grErr p \<in> {OK, ErrNoKey})"

lemma Clerk_Get_result:
  assumes "clerk_ok ck"
  shows "clerk_ok (fst (Clerk_Get ck fa calls)) \<and>
    snd (Clerk_Get ck fa calls) =
      (case find definite_get calls of
         Some (Some p) \<Rightarrow> Returned (grValue p, grVersion p, grErr p)
       | _ \<Rightarrow> Running)"
  using assms
proof (induction calls arbitrary: ck fa)
  case (Cons call calls)
  obtain ck' fa' where r: "retryAfterFailure ck (ckLeader ck) fa = (ck', fa')"
    by (cases "retryAfterFailure ck (ckLeader ck) fa")
  note IH = Cons.IH [OF retryAfterFailure_ok(1) [OF Cons.prems r], of fa']
  show ?case
    using Cons.prems IH r
    by (auto simp: Let_def clerk_ok_def rememberLeader_def definite_get_def split: option.splits)
qed simp

lemma Clerk_Put_loop_result:
  assumes "clerk_ok ck" "\<forall>r \<in> set calls. \<forall>p. r = Some p \<longrightarrow> prErr p \<noteq> ErrStaleRequest"
    and "Clerk_Put_loop ck args fa calls = (ck', sent, r)"
  shows "clerk_ok ck' \<and> ckRequests ck' = ckRequests ck \<and>
    r = (case find definite_put calls of Some (Some p) \<Rightarrow> Returned (prErr p) | _ \<Rightarrow> Running) \<and>
    (\<forall>(srv, a) \<in> set sent. srv < ckServers ck \<and> a = args\<lparr>pAck := Client_Ack (ckRequests ck)\<rparr>)"
  using assms
proof (induction calls arbitrary: ck args fa ck' sent r)
  case (Cons call calls)
  obtain ck1 fa1 where r1: "retryAfterFailure ck (ckLeader ck) fa = (ck1, fa1)"
    by (cases "retryAfterFailure ck (ckLeader ck) fa")
  note ok1 = retryAfterFailure_ok [OF Cons.prems(1) r1]
  let ?args = "args\<lparr>pAck := Client_Ack (ckRequests ck)\<rparr>"
  obtain ck2 sent2 r2 where l: "Clerk_Put_loop ck1 ?args fa1 calls = (ck2, sent2, r2)"
    by (cases "Clerk_Put_loop ck1 ?args fa1 calls")
  have IH: "clerk_ok ck2 \<and> ckRequests ck2 = ckRequests ck \<and>
      r2 = (case find definite_put calls of Some (Some p) \<Rightarrow> Returned (prErr p) | _ \<Rightarrow> Running) \<and>
      (\<forall>(srv, a) \<in> set sent2. srv < ckServers ck \<and> a = args\<lparr>pAck := Client_Ack (ckRequests ck)\<rparr>)"
    using Cons.IH [OF ok1(1) _ l] Cons.prems(2) ok1 by simp
  show ?case
  proof (cases "definite_put call")
    case True
    then show ?thesis
      using Cons.prems by (auto simp: Let_def clerk_ok_def rememberLeader_def definite_put_def)
  next
    case False
    then have "Clerk_Put_loop ck args fa (call # calls) = (ck2, (ckLeader ck, ?args) # sent2, r2)"
      using Cons.prems(1,2) r1 l
      by (auto simp: Let_def clerk_ok_def definite_put_def split: option.splits)
    then show ?thesis using Cons.prems(1,3) IH False by (auto simp: clerk_ok_def)
  qed
qed simp

lemma Clerk_Put_Some:
  assumes "Client_Begin rnd (ckRequests ck) = Some (c, cid, q)"
  shows "\<exists>ck' sent r. Clerk_Put rnd ck key val version calls = Some (ck', sent, r)"
  using assms
  by (cases "Clerk_Put_loop (ck\<lparr>ckRequests := c\<rparr>) \<lparr>pKey = key, pValue = val, pVersion = version,
      pClientID = cid, pSequence = q, pAck = 0\<rparr> 0 calls") (simp add: Clerk_Put_def)

section \<open>Properties\<close>



text \<open>
  The specification as written has no \<^verbatim>\<open>ErrNoKey\<close> for a \<^verbatim>\<open>Put\<close>, the only answer the server
  gives to a conditional write to a missing key.
\<close>

lemma KvModel_rejects_ErrNoKey:
  "KVServer_DoOp StartKVServer (ReqPut ((sample_put 3 1 0)\<lparr>pVersion := 5\<rparr>)) = Some (kv', ResPut r) \<Longrightarrow>
     prErr r = ErrNoKey \<and>
     \<not> fst (KvModel_Step KvModel_Init \<lparr>kiOp = 1, kiKey = ''k'', kiValue = ''v'', kiVersion = 5\<rparr>
             \<lparr>koValue = [], koVersion = 0, koErr = prErr r\<rparr>)"
  by (auto simp: KVServer_DoOp_def Table_Do_def StartKVServer_def sample_put_def session_ack_def new_session_def
      putLocked_def KvModel_Step_def KvModel_Init_def Let_def)


instance Err :: countable
  by countable_datatype

definition sample_nat :: "nat \<Rightarrow> bytes" where
  "sample_nat n = replicate (n + 1) 0"

definition entries_code :: "(string \<rightharpoonup> value_entry) \<Rightarrow> (string, string \<times> u64) fmap" where
  "entries_code vs = Abs_fmap (\<lambda>k. map_option (\<lambda>e. (veValue e, veVersion e)) (vs k))"

definition entries_decode :: "(string, string \<times> u64) fmap \<Rightarrow> string \<rightharpoonup> value_entry" where
  "entries_decode m k = map_option (\<lambda>(v, n). \<lparr>veValue = v, veVersion = n\<rparr>) (fmlookup m k)"

definition table_code :: "table \<Rightarrow> (u64, u64 \<times> (u64, Err) fmap) fmap" where
  "table_code t = Abs_fmap (\<lambda>c. map_option
     (\<lambda>s. (sAck s, Abs_fmap (\<lambda>q. map_option prErr (sReplies s q)))) (t c))"

definition table_decode :: "(u64, u64 \<times> (u64, Err) fmap) fmap \<Rightarrow> table" where
  "table_decode m c = map_option
     (\<lambda>(a, rs). \<lparr>sAck = a, sReplies = (\<lambda>q. map_option (\<lambda>e. \<lparr>prErr = e\<rparr>) (fmlookup rs q))\<rparr>) (fmlookup m c)"

lemma entries_decode_code: "finite (dom vs) \<Longrightarrow> entries_decode (entries_code vs) = vs"
proof
  fix k
  assume "finite (dom vs)"
  moreover have "dom (\<lambda>k. map_option (\<lambda>e. (veValue e, veVersion e)) (vs k)) = dom vs" by (auto simp: dom_def)
  ultimately show "entries_decode (entries_code vs) k = vs k"
    by (cases "vs k") (simp_all add: entries_decode_def entries_code_def Abs_fmap_inverse)
qed

lemma table_decode_code: "table_finite t \<Longrightarrow> table_decode (table_code t) = t"
proof
  fix c
  assume t: "table_finite t"
  have "dom (\<lambda>c. map_option (\<lambda>s. (sAck s, Abs_fmap (\<lambda>q. map_option prErr (sReplies s q)))) (t c)) = dom t"
    by (auto simp: dom_def)
  then have "fmlookup (table_code t) c =
      map_option (\<lambda>s. (sAck s, Abs_fmap (\<lambda>q. map_option prErr (sReplies s q)))) (t c)"
    using t by (simp add: table_code_def Abs_fmap_inverse table_finite_def)
  moreover have "fmlookup (Abs_fmap (\<lambda>q. map_option prErr (sReplies s q))) = (\<lambda>q. map_option prErr (sReplies s q))"
    if "t c = Some s" for s
  proof -
    have "dom (\<lambda>q. map_option prErr (sReplies s q)) = dom (sReplies s)" by (auto simp: dom_def)
    then show ?thesis using t that by (simp add: Abs_fmap_inverse table_finite_def)
  qed
  ultimately show "table_decode (table_code t) c = t c"
    by (cases "t c") (auto simp: table_decode_def option.map_comp o_def intro!: session.equality ext option.map_ident_strong)
qed

definition sample_kv_codec :: kv_codec where
  "sample_kv_codec =
     \<lparr>kvEncode = (\<lambda>vs t. Some (sample_nat (to_nat (entries_code vs, table_code t)))),
      kvDecodeValues = (\<lambda>b. Some (entries_decode
        (fst (from_nat (length b - 1) :: (string, string \<times> u64) fmap \<times> (u64, u64 \<times> (u64, Err) fmap) fmap)))),
      kvDecodeRequests = (\<lambda>b. DecOk (table_decode
        (snd (from_nat (length b - 1) :: (string, string \<times> u64) fmap \<times> (u64, u64 \<times> (u64, Err) fmap) fmap))))\<rparr>"

lemma sample_kv_codec_ok: "kv_codec_ok sample_kv_codec"
  by (simp add: kv_codec_ok_def sample_kv_codec_def sample_nat_def entries_decode_code table_decode_code)


text \<open>
  C33. The clerk's \<^verbatim>\<open>Put\<close>: it returns the first definite answer among its calls, as long as there
  is none it keeps trying, every attempt goes to a server that exists and carries the same request
  identity, and it does not panic unless a call reports a stale request.
\<close>

theorem Clerk_Put_correct:
  assumes "clerk_ok ck" "\<forall>r \<in> set calls. \<forall>p. r = Some p \<longrightarrow> prErr p \<noteq> ErrStaleRequest"
    and "Clerk_Put rnd ck key val version calls = Some (ck', sent, r)"
  shows "clerk_ok ck' \<and>
    r = (case find definite_put calls of Some (Some p) \<Rightarrow> Returned (prErr p) | _ \<Rightarrow> Running) \<and>
    (\<exists>cid. \<forall>(srv, a) \<in> set sent. srv < ckServers ck \<and> pClientID a = cid \<and> cid \<noteq> 0 \<and>
       pSequence a = dcNext (ckRequests ck) + 1 \<and> pKey a = key \<and> pValue a = val \<and> pVersion a = version)"
proof -
  obtain c cid q where b: "Client_Begin rnd (ckRequests ck) = Some (c, cid, q)"
    using assms(3) by (auto simp: Clerk_Put_def bind_eq_Some_conv)
  have q: "q = dcNext (ckRequests ck) + 1" "cid \<noteq> 0"
    using b by (auto simp: Client_Begin_def bind_eq_Some_conv Let_def split: if_splits dest: drawId_nonzero)
  let ?args = "\<lparr>pKey = key, pValue = val, pVersion = version, pClientID = cid, pSequence = q, pAck = 0\<rparr>"
  obtain ck1 s1 r1 where l: "Clerk_Put_loop (ck\<lparr>ckRequests := c\<rparr>) ?args 0 calls = (ck1, s1, r1)"
    by (cases "Clerk_Put_loop (ck\<lparr>ckRequests := c\<rparr>) ?args 0 calls")
  have ok: "clerk_ok (ck\<lparr>ckRequests := c\<rparr>)" using assms(1) by (simp add: clerk_ok_def)
  note res = Clerk_Put_loop_result [OF ok assms(2) l]
  have "sent = s1" "r = r1" "ckLeader ck' = ckLeader ck1 \<and> ckServers ck' = ckServers ck1"
    using assms(3) b l by (auto simp: Clerk_Put_def Let_def split: if_splits)
  then show ?thesis using res q by (fastforce simp: clerk_ok_def)
qed

theorem Clerk_Put_correct_witness:
  "\<exists>ck' sent. Clerk_Put [9] \<lparr>ckServers = 3, ckLeader = 0, ckRequests = Client_zero\<rparr> ''k'' ''v'' 0
     [None, Some \<lparr>prErr = ErrWrongLeader\<rparr>, Some \<lparr>prErr = OK\<rparr>] = Some (ck', sent, Returned OK)"
proof -
  let ?ck = "\<lparr>ckServers = 3, ckLeader = 0, ckRequests = Client_zero\<rparr>"
  let ?calls = "[None, Some \<lparr>prErr = ErrWrongLeader\<rparr>, Some \<lparr>prErr = OK\<rparr>]"
  have "Client_Begin [9] Client_zero = Some (Client_zero\<lparr>dcId := 9, dcNext := 1\<rparr>, 9, 1)"
    by (simp add: Client_Begin_def Client_zero_def Let_def)
  then obtain ck' sent r where c: "Clerk_Put [9] ?ck ''k'' ''v'' 0 ?calls = Some (ck', sent, r)"
    using Clerk_Put_Some [of "[9]" ?ck] by fastforce
  have "r = (case find definite_put ?calls of Some (Some p) \<Rightarrow> Returned (prErr p) | _ \<Rightarrow> Running)"
    using Clerk_Put_correct [OF _ _ c] by (simp add: clerk_ok_def)
  then show ?thesis using c by (simp add: definite_put_def)
qed

section \<open>The replicated service\<close>

definition kv_sm :: "kv_codec \<Rightarrow> (kvserver, kv_req, kv_res) statemachine" where
  "kv_sm kc = \<lparr>smDoOp = KVServer_DoOp, smSnapshot = KVServer_Snapshot kc, smRestore = KVServer_Restore kc\<rparr>"

definition kv_service_ok :: "kv_codec \<Rightarrow> kvserver \<Rightarrow> bool" where
  "kv_service_ok kc kv \<longleftrightarrow> kv_codec_ok kc \<and> kv_finite kv"

interpretation kvrep: replicated_service "kv_sm kc" "kv_service_ok kc" for kc
proof
  fix s req s' p
  assume "kv_service_ok kc s" "smDoOp (kv_sm kc) s req = Some (s', p)"
  then show "kv_service_ok kc s'" by (auto simp: kv_service_ok_def kv_sm_def kv_finite_DoOp)
next
  fix s
  assume "kv_service_ok kc s"
  then have ok: "kv_codec_ok kc" "kv_finite s" by (auto simp: kv_service_ok_def)
  obtain b where "KVServer_Snapshot kc s = Some b" "b \<noteq> []" using Restore_Snapshot [OF ok] by blast
  moreover from this have "\<forall>s'. KVServer_Restore kc s' b = Some s" using Restore_Snapshot [OF ok] by auto
  ultimately show "\<exists>b. smSnapshot (kv_sm kc) s = Some b \<and> b \<noteq> [] \<and> (\<forall>s'. smRestore (kv_sm kc) s' b = Some s)"
    by (simp add: kv_sm_def)
qed

text \<open>
  The executed operations of a log with what they returned, as inputs and outputs of the
  specification. A retry that the table answers is not executed.
\<close>

definition put_io :: "put_args \<Rightarrow> put_reply \<Rightarrow> kv_input \<times> kv_output" where
  "put_io a r = (\<lparr>kiOp = 1, kiKey = pKey a, kiValue = pValue a, kiVersion = pVersion a\<rparr>,
                 \<lparr>koValue = [], koVersion = 0, koErr = model_err (prErr r)\<rparr>)"

definition get_io :: "get_args \<Rightarrow> get_reply \<Rightarrow> kv_input \<times> kv_output" where
  "get_io a r = (\<lparr>kiOp = 0, kiKey = gKey a, kiValue = [], kiVersion = 0\<rparr>,
                 \<lparr>koValue = grValue r, koVersion = grVersion r, koErr = grErr r\<rparr>)"

primrec kv_history :: "kvserver \<Rightarrow> kv_req list \<Rightarrow> (kv_input \<times> kv_output) list" where
  "kv_history kv [] = []"
| "kv_history kv (req # reqs) =
     (case KVServer_DoOp kv req of
        None \<Rightarrow> []
      | Some (kv', res) \<Rightarrow>
          (case (req, res) of
             (ReqGet a, ResGet r) \<Rightarrow> [get_io a r]
           | (ReqPut a, ResPut r) \<Rightarrow> if executes (kvRequests kv) a then [put_io a r] else []
           | _ \<Rightarrow> []) @ kv_history kv' reqs)"

lemma kv_step_put:
  "fst (putLocked vs a) = vs' \<Longrightarrow> snd (putLocked vs a) = r \<Longrightarrow>
     KvModel_Step (kv_abs vs (pKey a)) (fst (put_io a r)) (snd (put_io a r)) = (True, Some (kv_abs vs' (pKey a)))"
  by (auto simp: putLocked_cases put_io_def KvModel_Step_def kv_abs_def model_err_def split: if_splits)

lemma kv_step_get:
  "KvModel_Step (kv_abs vs (gKey a)) (fst (get_io a (getReply vs a))) (snd (get_io a (getReply vs a))) =
     (True, Some (kv_abs vs (gKey a)))"
  by (auto simp: get_io_def getReply_def KvModel_Step_def kv_abs_def KvModel_Init_def get_error_def
      split: option.splits)

lemma putLocked_other: "k \<noteq> pKey a \<Longrightarrow> kv_abs (fst (putLocked vs a)) k = kv_abs vs k"
  by (simp add: putLocked_cases kv_abs_def)

lemma kv_history_accepted:
  "KvModel_accepts (kv_abs (kvValues kv) k) (filter (\<lambda>h. kiKey (fst h) = k) (kv_history kv reqs))"
proof (induction reqs arbitrary: kv)
  case (Cons req reqs)
  show ?case
  proof (cases req)
    case (ReqGet a)
    have d: "KVServer_DoOp kv (ReqGet a) = Some (kv, ResGet (getReply (kvValues kv) a))"
      by (simp add: KVServer_DoOp_def)
    obtain i u where io: "get_io a (getReply (kvValues kv) a) = (i, u)" by (cases "get_io a (getReply (kvValues kv) a)")
    have "kiKey i = gKey a" using io by (auto simp: get_io_def)
    with Cons.IH [of kv] kv_step_get [of "kvValues kv" a] ReqGet d io show ?thesis by auto
  next
    case (ReqPut a)
    show ?thesis
    proof (cases "executes (kvRequests kv) a")
      case True
      define r where "r = snd (putLocked (kvValues kv) a)"
      obtain t where d: "KVServer_DoOp kv (ReqPut a) =
          Some (\<lparr>kvValues = fst (putLocked (kvValues kv) a), kvRequests = t\<rparr>, ResPut r)"
        using DoOp_put_executes [OF True] by (auto simp: r_def)
      let ?kv' = "\<lparr>kvValues = fst (putLocked (kvValues kv) a), kvRequests = t\<rparr>"
      obtain i u where io: "put_io a r = (i, u)" by (cases "put_io a r")
      have "kiKey i = pKey a" using io by (auto simp: put_io_def)
      with Cons.IH [of ?kv'] kv_step_put [of "kvValues kv" a _ r] putLocked_other [of k a "kvValues kv"]
        ReqPut d io True show ?thesis by (auto simp: r_def)
    next
      case False
      then obtain t r where d: "KVServer_DoOp kv (ReqPut a) = Some (\<lparr>kvValues = kvValues kv, kvRequests = t\<rparr>, ResPut r)"
        using DoOp_put_skips by blast
      with Cons.IH [of "\<lparr>kvValues = kvValues kv, kvRequests = t\<rparr>"] ReqPut False show ?thesis by simp
    qed
  next
    case ReqOther
    then show ?thesis by (simp add: KVServer_DoOp_def)
  qed
qed simp

text \<open>
  The log order is a legal sequential history: for every log of requests, what the operations
  on a key returned, in log order, is a run of the specification from its initial state.
\<close>

theorem kv_log_is_sequential_history:
  "KvModel_accepts KvModel_Init (filter (\<lambda>h. kiKey (fst h) = k) (kv_history StartKVServer reqs))"
  using kv_history_accepted [of StartKVServer k reqs] by (simp add: StartKVServer_def kv_abs_def)

text \<open>
  Replicas agree: two replicas of the service that have been fed, through any mixture of
  committed operations and installed snapshots, the same number of operations of the log are in the
  same state, the one obtained by executing these operations in order from the empty store.
\<close>

theorem kvraft_replicas_agree:
  assumes "kv_codec_ok kc" "rsSm r1 = StartKVServer" "rsSm r2 = StartKVServer"
    and "(feed (kv_sm kc) cd StartKVServer L)\<^sup>*\<^sup>* (r1, 0) (r1', k)"
    and "(feed (kv_sm kc) cd StartKVServer L)\<^sup>*\<^sup>* (r2, 0) (r2', k)"
  shows "rsSm r1' = rsSm r2' \<and> replay (kv_sm kc) StartKVServer (map opReq (take k L)) = Some (rsSm r1')"
proof -
  have ok: "kv_service_ok kc StartKVServer"
    using assms(1) by (simp add: kv_service_ok_def kv_finite_def StartKVServer_def table_finite_def)
  have "replay (kv_sm kc) StartKVServer (map opReq (take k L)) = Some (rsSm r1')"
    "replay (kv_sm kc) StartKVServer (map opReq (take k L)) = Some (rsSm r2')"
    using kvrep.feed_replays [OF ok assms(4)] kvrep.feed_replays [OF ok assms(5)] assms(2,3) by simp_all
  then show ?thesis by simp
qed

definition sample_kv_rsm :: "(kvserver, kv_req, kv_res) rsm" where
  "sample_kv_rsm = \<lparr>rsMe = 0, rsRf = None, rsMaxraftstate = -1, rsSm = StartKVServer, rsEpoch = 9,
     rsNextSequence = 0, rsWaiters = (\<lambda>_. None), rsDone = False\<rparr>"

definition sample_kv_op_codec :: "kv_req rsm_op codec" where
  "sample_kv_op_codec = \<lparr>encEntry = (\<lambda>_. None), decEntry = (\<lambda>_. None), decLegacy = (\<lambda>_. None)\<rparr>"

theorem kvraft_replicas_agree_witness:
  "\<exists>r'. (feed (kv_sm sample_kv_codec) sample_kv_op_codec StartKVServer
       [\<lparr>opServer = 0, opEpoch = 9, opSequence = 1, opReq = ReqPut (sample_put 3 1 0)\<rparr>])\<^sup>*\<^sup>*
       (sample_kv_rsm, 0) (r', 1) \<and>
     replay (kv_sm sample_kv_codec) StartKVServer [ReqPut (sample_put 3 1 0)] = Some (rsSm r')"
proof -
  define op where "op = \<lparr>opServer = 0, opEpoch = 9, opSequence = 1, opReq = ReqPut (sample_put 3 1 0)\<rparr>"
  let ?L = "[op]"
  let ?m = "\<lparr>CommandValid = True, mCommand = Some op, CommandIndex = 1, SnapshotValid = False,
    mSnapshot = [], SnapshotTerm = 0, SnapshotIndex = 0\<rparr>"
  obtain kv' res where d: "KVServer_DoOp StartKVServer (ReqPut (sample_put 3 1 0)) = Some (kv', res)"
    using DoOp_put_executes [of StartKVServer "sample_put 3 1 0"] DoOp_put_skips [of StartKVServer "sample_put 3 1 0"]
    by blast
  have m: "msg_from (kv_sm sample_kv_codec) StartKVServer ?L 0 ?m 1" by (simp add: msg_from_def)
  have a: "rsm_apply (kv_sm sample_kv_codec) sample_kv_op_codec sample_kv_rsm ?m =
      Some (wake (sample_kv_rsm\<lparr>rsSm := kv'\<rparr>) (opID op) res)" (is "_ = Some ?r'")
    using d by (simp add: rsm_apply_def kv_sm_def sample_kv_rsm_def op_def)
  have f: "(feed (kv_sm sample_kv_codec) sample_kv_op_codec StartKVServer ?L)\<^sup>*\<^sup>* (sample_kv_rsm, 0) (?r', 1)"
    using feed.msg [OF m a] by (rule r_into_rtranclp)
  have "replay (kv_sm sample_kv_codec) StartKVServer (map opReq (take 1 ?L)) = Some (rsSm ?r')"
    using kvraft_replicas_agree [OF sample_kv_codec_ok _ _ f f] by (simp add: sample_kv_rsm_def)
  with f show ?thesis by (intro exI [of _ ?r']) (simp add: op_def)
qed

end
