(* ===== verification/Prog.thy ===== *)
theory Prog
  imports Prelude
begin

text \<open>
  Client code that talks to servers by remote calls is a program: a tree that is either a result or
  a call and what the program does with each outcome of the call. This theory has such programs,
  the network that runs several of them against a server, and a logic for proving that every
  program only ever sends requests it is entitled to send.
\<close>

section \<open>Programs\<close>

text \<open>
  \<open>'q\<close> are the requests, \<open>'r\<close> the replies; the outcome \<^term>\<open>None\<close> is a call that returned
  \<^verbatim>\<open>false\<close>. \<open>Exhausted\<close> is a loop that was cut off after the number of turns it was given: a
  statement for every such number covers every finite part of an execution.
\<close>

datatype ('q, 'r, 'a) prog =
  Ret 'a | Panics | Exhausted | Call 'q "'r option \<Rightarrow> ('q, 'r, 'a) prog"

primrec pbind :: "('q, 'r, 'a) prog \<Rightarrow> ('a \<Rightarrow> ('q, 'r, 'b) prog) \<Rightarrow> ('q, 'r, 'b) prog" where
  "pbind (Ret a) f = f a"
| "pbind Panics f = Panics"
| "pbind Exhausted f = Exhausted"
| "pbind (Call q k) f = Call q (\<lambda>r. pbind (k r) f)"

text \<open>The requests a program sends and what becomes of it when its calls have the given outcomes.\<close>

primrec run :: "('q, 'r, 'a) prog \<Rightarrow> 'r option list \<Rightarrow> 'q list \<times> 'a loop" where
  "run (Ret a) rs = ([], Returned a)"
| "run Panics rs = ([], Panicked)"
| "run Exhausted rs = ([], Running)"
| "run (Call q k) rs =
     (case rs of [] \<Rightarrow> ([q], Running) | r # rs \<Rightarrow> (case run (k r) rs of (qs, res) \<Rightarrow> (q # qs, res)))"

section \<open>The network\<close>

text \<open>
  Programs run against a server. A request that has been sent can be executed at any later time, any
  number of times, also after its sender has given up; a call returns one of the answers to its
  own request, or fails. \<open>nProcs\<close> has for each process its program and, while a call is under
  way, its number.
\<close>

record ('s, 'q, 'r, 'p, 'a) net =
  nServer :: 's
  nSent :: "(nat \<times> 'p \<times> 'q) set"
  nAnswered :: "(nat \<times> 'r) set"
  nProcs :: "'p \<Rightarrow> ('q, 'r, 'a) prog \<times> nat option"
  nFresh :: nat

inductive net_step ::
  "('s \<Rightarrow> 'q \<Rightarrow> 's \<Rightarrow> 'r \<Rightarrow> bool) \<Rightarrow> ('s \<Rightarrow> 's \<Rightarrow> bool) \<Rightarrow> ('p \<Rightarrow> 'a \<Rightarrow> ('q, 'r, 'a) prog \<Rightarrow> bool) \<Rightarrow>
   ('s, 'q, 'r, 'p, 'a) net \<Rightarrow> ('s, 'q, 'r, 'p, 'a) net \<Rightarrow> bool"
  for exec env ops where
  send: "nProcs w p = (Call q k, None) \<Longrightarrow>
    net_step exec env ops w (w\<lparr>nSent := insert (nFresh w, p, q) (nSent w),
      nProcs := (nProcs w)(p := (Call q k, Some (nFresh w))), nFresh := nFresh w + 1\<rparr>)"
| execute: "(n, p, q) \<in> nSent w \<Longrightarrow> exec (nServer w) q s r \<Longrightarrow>
    net_step exec env ops w (w\<lparr>nServer := s, nAnswered := insert (n, r) (nAnswered w)\<rparr>)"
| receive: "nProcs w p = (Call q k, Some n) \<Longrightarrow> (n, r) \<in> nAnswered w \<Longrightarrow>
    net_step exec env ops w (w\<lparr>nProcs := (nProcs w)(p := (k (Some r), None))\<rparr>)"
| fail: "nProcs w p = (Call q k, Some n) \<Longrightarrow>
    net_step exec env ops w (w\<lparr>nProcs := (nProcs w)(p := (k None, None))\<rparr>)"
| other: "env (nServer w) s \<Longrightarrow> net_step exec env ops w (w\<lparr>nServer := s\<rparr>)"
| start: "nProcs w p = (Ret a, None) \<Longrightarrow> ops p a pr \<Longrightarrow>
    net_step exec env ops w (w\<lparr>nProcs := (nProcs w)(p := (pr, None))\<rparr>)"

definition net_init :: "'s \<Rightarrow> ('p \<Rightarrow> 'a) \<Rightarrow> ('s, 'q, 'r, 'p, 'a) net" where
  "net_init s a = \<lparr>nServer = s, nSent = {}, nAnswered = {}, nProcs = (\<lambda>p. (Ret (a p), None)), nFresh = 0\<rparr>"

text \<open>A call that is sent, executed and answered.\<close>

lemma net_round_trip:
  assumes "nProcs w p = (Call q k, None)" "exec (nServer w) q s r"
  shows "\<exists>w'. (net_step exec env ops)\<^sup>*\<^sup>* w w' \<and> nServer w' = s \<and> nProcs w' = (nProcs w)(p := (k (Some r), None))"
proof -
  let ?R = "net_step exec env ops"
  define w1 where "w1 = w\<lparr>nSent := insert (nFresh w, p, q) (nSent w),
      nProcs := (nProcs w)(p := (Call q k, Some (nFresh w))), nFresh := nFresh w + 1\<rparr>"
  define w2 where "w2 = w1\<lparr>nServer := s, nAnswered := insert (nFresh w, r) (nAnswered w1)\<rparr>"
  define w3 where "w3 = w2\<lparr>nProcs := (nProcs w2)(p := (k (Some r), None))\<rparr>"
  have 1: "?R w w1" unfolding w1_def using assms(1) by (rule net_step.send)
  have 2: "?R w1 w2"
    unfolding w2_def by (rule net_step.execute [of _ p q]) (simp_all add: w1_def assms(2))
  have 3: "?R w2 w3"
    unfolding w3_def by (rule net_step.receive [of _ _ q _ "nFresh w"]) (simp_all add: w1_def w2_def)
  have "?R\<^sup>*\<^sup>* w w3"
    by (rule converse_rtranclp_into_rtranclp [of ?R, OF 1 converse_rtranclp_into_rtranclp [of ?R, OF 2
          r_into_rtranclp [of ?R, OF 3]]])
  then show ?thesis by (intro exI [of _ w3]) (simp add: w1_def w2_def w3_def)
qed

text \<open>A process that runs while nothing else happens, and whose calls are all answered.\<close>

inductive solo ::
  "('s \<Rightarrow> 'q \<Rightarrow> 's \<Rightarrow> 'r \<Rightarrow> bool) \<Rightarrow> 's \<Rightarrow> ('q, 'r, 'a) prog \<Rightarrow> 's \<Rightarrow> ('q, 'r, 'a) prog \<Rightarrow> bool" for exec where
  stop: "solo exec s pr s pr"
| call: "exec s q s1 r \<Longrightarrow> solo exec s1 (k (Some r)) s' pr \<Longrightarrow> solo exec s (Call q k) s' pr"

lemma solo_trans: "solo exec s pr s1 pr1 \<Longrightarrow> solo exec s1 pr1 s2 pr2 \<Longrightarrow> solo exec s pr s2 pr2"
  by (induction rule: solo.induct) (auto intro: solo.call)

lemma solo_pbind:
  assumes "solo exec s m s1 (Ret a)" "solo exec s1 (f a) s2 pr"
  shows "solo exec s (pbind m f) s2 pr"
  using assms by (induction s m s1 "Ret a :: ('b, 'c, 'd) prog" rule: solo.induct) (auto intro: solo.call)

lemma net_solo:
  assumes "solo exec s pr s' pr'" "nServer w = s" "nProcs w p = (pr, None)"
  shows "\<exists>w'. (net_step exec env ops)\<^sup>*\<^sup>* w w' \<and> nServer w' = s' \<and> nProcs w' = (nProcs w)(p := (pr', None))"
  using assms
proof (induction arbitrary: w rule: solo.induct)
  case (stop s pr)
  then show ?case by (intro exI [of _ w]) auto
next
  case (call s q s1 r k s' pr)
  from net_round_trip [of w p q k exec s1 r env ops] call.prems call.hyps(1)
  obtain w1 where w1: "(net_step exec env ops)\<^sup>*\<^sup>* w w1" "nServer w1 = s1" "nProcs w1 = (nProcs w)(p := (k (Some r), None))"
    by auto
  have "nProcs w1 p = (k (Some r), None)" using w1(3) by simp
  from call.IH [OF w1(2) this]
  obtain w' where w': "(net_step exec env ops)\<^sup>*\<^sup>* w1 w'" "nServer w' = s'" "nProcs w' = (nProcs w1)(p := (pr, None))" by blast
  have "(net_step exec env ops)\<^sup>*\<^sup>* w w'" by (rule rtranclp_trans [OF w1(1) w'(1)])
  then show ?case using w'(2,3) w1(3) by (intro exI [of _ w']) simp
qed

section \<open>A logic of what processes know\<close>

text \<open>
  A program is correct from the knowledge \<open>K\<close> when it does not panic, every request is allowed by
  what is known when it is sent, and its result satisfies \<open>Q\<close>. \<open>po\<close> says which replies a
  request can get, \<open>ke\<close> is the knowledge that survives sending it, \<open>le\<close> what its reply adds.
\<close>

primrec wp ::
  "('q \<Rightarrow> 'r \<Rightarrow> bool) \<Rightarrow> ('k set \<Rightarrow> 'q \<Rightarrow> bool) \<Rightarrow> ('k set \<Rightarrow> 'q \<Rightarrow> 'k set) \<Rightarrow> ('k set \<Rightarrow> 'q \<Rightarrow> 'r \<Rightarrow> 'k set) \<Rightarrow>
   ('q, 'r, 'a) prog \<Rightarrow> 'k set \<Rightarrow> ('a \<Rightarrow> 'k set \<Rightarrow> bool) \<Rightarrow> bool" where
  "wp po al ke le (Ret a) K Q \<longleftrightarrow> Q a K"
| "wp po al ke le Panics K Q \<longleftrightarrow> False"
| "wp po al ke le Exhausted K Q \<longleftrightarrow> True"
| "wp po al ke le (Call q k) K Q \<longleftrightarrow>
     al K q \<and> wp po al ke le (k None) (ke K q) Q \<and>
     (\<forall>r. po q r \<longrightarrow> wp po al ke le (k (Some r)) (ke K q \<union> le (ke K q) q r) Q)"

lemma wp_pbind [simp]:
  "wp po al ke le (pbind m f) K Q \<longleftrightarrow> wp po al ke le m K (\<lambda>a K'. wp po al ke le (f a) K' Q)"
  by (induction m arbitrary: K) auto

lemma wp_conseq:
  "wp po al ke le m K Q \<Longrightarrow> (\<And>a K'. Q a K' \<Longrightarrow> Q' a K') \<Longrightarrow> wp po al ke le m K Q'"
  by (induction m arbitrary: K) auto

text \<open>
  For a program alone, knowledge can be the calls that were answered: what is shown in the logic then
  holds for all outcomes of the calls that satisfy \<open>po\<close>.
\<close>

definition answered :: "'q list \<Rightarrow> 'r option list \<Rightarrow> ('q \<times> 'r) set" where
  "answered qs rs = {(q, r). (q, Some r) \<in> set (zip qs rs)}"

lemma answered_simps [simp]:
  "answered [] rs = {}" "answered qs [] = {}" "answered (q # qs) (None # rs) = answered qs rs"
  "answered (q # qs) (Some r # rs) = insert (q, r) (answered qs rs)"
  by (auto simp: answered_def)

lemma wp_run:
  assumes "wp po al (\<lambda>K q. K) le m K Q" "\<And>K q r. le K q r \<subseteq> {(q, r)}"
    and "run m rs = (qs, res)" "\<And>q r. (q, r) \<in> answered qs rs \<Longrightarrow> po q r"
  shows "res \<noteq> Panicked \<and> (\<forall>j < length qs. \<exists>K' \<subseteq> K \<union> answered (take j qs) rs. al K' (qs ! j)) \<and>
    (\<forall>a. res = Returned a \<longrightarrow> (\<exists>K' \<subseteq> K \<union> answered qs rs. Q a K'))"
  using assms(1,3,4)
proof (induction m arbitrary: K rs qs)
  case (Call q k)
  show ?case
  proof (cases rs)
    case Nil
    then show ?thesis using Call.prems by auto
  next
    case (Cons r rs')
    obtain qs' where qs': "run (k r) rs' = (qs', res)" "qs = q # qs'"
      using Call.prems(2) Cons by (auto split: prod.splits)
    define K1 where "K1 = (case r of None \<Rightarrow> K | Some x \<Rightarrow> K \<union> le K q x)"
    have K1: "K1 \<union> A \<subseteq> K \<union> (case r of None \<Rightarrow> A | Some x \<Rightarrow> insert (q, x) A)" for A
      using assms(2) by (auto simp: K1_def split: option.splits)
    have po: "po q' x" if "(q', x) \<in> answered qs' rs'" for q' x
      using Call.prems(3) that Cons qs'(2) by (cases r) auto
    have "wp po al (\<lambda>K q. K) le (k r) K1 Q"
      using Call.prems(1,3) Cons qs'(2) by (cases r) (auto simp: K1_def)
    from Call.IH [OF _ this qs'(1) po] have IH: "res \<noteq> Panicked"
        "\<And>j. j < length qs' \<Longrightarrow> \<exists>K' \<subseteq> K1 \<union> answered (take j qs') rs'. al K' (qs' ! j)"
        "\<And>a. res = Returned a \<Longrightarrow> \<exists>K' \<subseteq> K1 \<union> answered qs' rs'. Q a K'"
      by auto
    have ans: "answered (q # xs) rs = (case r of None \<Rightarrow> answered xs rs' | Some x \<Rightarrow> insert (q, x) (answered xs rs'))" for xs
      using Cons by (cases r) simp_all
    have "\<exists>K' \<subseteq> K \<union> answered (take j qs) rs. al K' (qs ! j)" if "j < length qs" for j
    proof (cases j)
      case 0
      then show ?thesis using Call.prems(1) qs'(2) by (intro exI [of _ K]) simp
    next
      case (Suc j')
      then have "j' < length qs'" using that qs'(2) by simp
      from IH(2) [OF this] obtain K' where K': "K' \<subseteq> K1 \<union> answered (take j' qs') rs'" "al K' (qs' ! j')" by blast
      have "K' \<subseteq> K \<union> answered (take j qs) rs"
        unfolding qs'(2) Suc take_Suc_Cons ans by (rule order_trans [OF K'(1) K1])
      then show ?thesis using K'(2) qs'(2) Suc by (intro exI [of _ K']) simp
    qed
    moreover have "\<exists>K' \<subseteq> K \<union> answered qs rs. Q a K'" if a: "res = Returned a" for a
    proof -
      obtain K' where K': "K' \<subseteq> K1 \<union> answered qs' rs'" "Q a K'" using IH(3) [OF a] by blast
      have "K' \<subseteq> K \<union> answered qs rs" unfolding qs'(2) ans by (rule order_trans [OF K'(1) K1])
      then show ?thesis using K'(2) by blast
    qed
    ultimately show ?thesis using IH(1) by blast
  qed
qed auto

text \<open>
  What makes the logic sound for a server: \<open>I\<close> is the server's invariant, \<open>okm s p q\<close> that the
  request \<open>q\<close> of process \<open>p\<close> may be executed, now and later, and \<open>holds s S p f\<close> that the fact
  \<open>f\<close> that \<open>p\<close> knows is true in the state \<open>s\<close> when \<open>S\<close> are the requests sent.
\<close>

locale net_logic =
  fixes exec :: "'s \<Rightarrow> 'q \<Rightarrow> 's \<Rightarrow> 'r \<Rightarrow> bool"
    and env :: "'s \<Rightarrow> 's \<Rightarrow> bool"
    and ops :: "'p \<Rightarrow> 'a \<Rightarrow> ('q, 'r, 'a) prog \<Rightarrow> bool"
    and I :: "'s \<Rightarrow> bool"
    and okm :: "'s \<Rightarrow> 'p \<Rightarrow> 'q \<Rightarrow> bool"
    and po :: "'q \<Rightarrow> 'r \<Rightarrow> bool"
    and holds :: "'s \<Rightarrow> ('p \<times> 'q) set \<Rightarrow> 'p \<Rightarrow> 'k \<Rightarrow> bool"
    and al :: "'p \<Rightarrow> 'k set \<Rightarrow> 'q \<Rightarrow> bool"
    and ke :: "'p \<Rightarrow> 'k set \<Rightarrow> 'q \<Rightarrow> 'k set"
    and le :: "'p \<Rightarrow> 'k set \<Rightarrow> 'q \<Rightarrow> 'r \<Rightarrow> 'k set"
    and Q :: "'p \<Rightarrow> 'a \<Rightarrow> 'k set \<Rightarrow> bool"
  assumes send_okm: "I s \<Longrightarrow> \<forall>f \<in> K. holds s S p f \<Longrightarrow> al p K q \<Longrightarrow> okm s p q"
    and send_keep: "I s \<Longrightarrow> \<forall>f \<in> K. holds s S p f \<Longrightarrow> al p K q \<Longrightarrow> f \<in> ke p K q \<Longrightarrow> holds s (insert (p, q) S) p f"
    and send_other: "holds s S p' f \<Longrightarrow> p' \<noteq> p \<Longrightarrow> holds s (insert (p, q) S) p' f"
    and exec_I: "I s \<Longrightarrow> okm s p q \<Longrightarrow> exec s q s' r \<Longrightarrow> I s'"
    and exec_po: "I s \<Longrightarrow> okm s p q \<Longrightarrow> exec s q s' r \<Longrightarrow> po q r"
    and exec_okm: "I s \<Longrightarrow> okm s p q \<Longrightarrow> exec s q s' r \<Longrightarrow> okm s p' q' \<Longrightarrow> okm s' p' q'"
    and exec_holds: "I s \<Longrightarrow> okm s p q \<Longrightarrow> (p, q) \<in> S \<Longrightarrow> exec s q s' r \<Longrightarrow> holds s S p' f \<Longrightarrow> holds s' S p' f"
    and exec_learn: "I s \<Longrightarrow> okm s p q \<Longrightarrow> (p, q) \<in> S \<Longrightarrow> exec s q s' r \<Longrightarrow>
      \<forall>f \<in> K. holds s S p f \<Longrightarrow> f \<in> le p K q r \<Longrightarrow> holds s' S p f"
    and env_I: "I s \<Longrightarrow> env s s' \<Longrightarrow> I s'"
    and env_okm: "I s \<Longrightarrow> env s s' \<Longrightarrow> okm s p q \<Longrightarrow> okm s' p q"
    and env_holds: "I s \<Longrightarrow> env s s' \<Longrightarrow> holds s S p f \<Longrightarrow> holds s' S p f"
    and ops_wp: "Q p a K \<Longrightarrow> ops p a pr \<Longrightarrow> wp po (al p) (ke p) (le p) pr K (Q p)"
begin

definition sent_by :: "(nat \<times> 'p \<times> 'q) set \<Rightarrow> ('p \<times> 'q) set" where
  "sent_by M = snd ` M"

text \<open>The continuations of a call are correct, for every outcome it can have.\<close>

definition conts_ok :: "'p \<Rightarrow> 'k set \<Rightarrow> 'q \<Rightarrow> ('r option \<Rightarrow> ('q, 'r, 'a) prog) \<Rightarrow> bool" where
  "conts_ok p K q k \<longleftrightarrow>
     wp po (al p) (ke p) (le p) (k None) K (Q p) \<and>
     (\<forall>r. po q r \<longrightarrow> wp po (al p) (ke p) (le p) (k (Some r)) (K \<union> le p K q r) (Q p))"

text \<open>What a process knows, when it has made no call or has made the call number \<open>n\<close>.\<close>

definition proc_ok :: "('s, 'q, 'r, 'p, 'a) net \<Rightarrow> 'p \<Rightarrow> 'k set \<Rightarrow> bool" where
  "proc_ok w p K \<longleftrightarrow>
     (\<forall>f \<in> K. holds (nServer w) (sent_by (nSent w)) p f) \<and>
     (case nProcs w p of
        (pr, None) \<Rightarrow> wp po (al p) (ke p) (le p) pr K (Q p)
      | (pr, Some n) \<Rightarrow>
          \<exists>q k. pr = Call q k \<and> (n, p, q) \<in> nSent w \<and>
            conts_ok p K q k \<and>
            (\<forall>r. (n, r) \<in> nAnswered w \<longrightarrow>
               po q r \<and> (\<forall>f \<in> le p K q r. holds (nServer w) (sent_by (nSent w)) p f)))"

definition net_inv :: "('s, 'q, 'r, 'p, 'a) net \<Rightarrow> bool" where
  "net_inv w \<longleftrightarrow>
     I (nServer w) \<and> (\<forall>(n, p, q) \<in> nSent w. okm (nServer w) p q) \<and>
     (\<forall>(n, p, q) \<in> nSent w. n < nFresh w) \<and> (\<forall>(n, r) \<in> nAnswered w. n < nFresh w) \<and>
     (\<forall>n p q p' q'. (n, p, q) \<in> nSent w \<longrightarrow> (n, p', q') \<in> nSent w \<longrightarrow> p' = p \<and> q' = q) \<and>
     (\<forall>p. \<exists>K. proc_ok w p K)"

lemma net_invD:
  assumes "net_inv w"
  shows "I (nServer w)" "(n, p, q) \<in> nSent w \<Longrightarrow> okm (nServer w) p q"
    "(n, p, q) \<in> nSent w \<Longrightarrow> n < nFresh w" "(n, r) \<in> nAnswered w \<Longrightarrow> n < nFresh w"
    "(n, p, q) \<in> nSent w \<Longrightarrow> (n, p', q') \<in> nSent w \<Longrightarrow> p' = p \<and> q' = q"
    "\<exists>K. proc_ok w p K"
  using assms unfolding net_inv_def by blast+

lemma sent_byI: "(n, p, q) \<in> M \<Longrightarrow> (p, q) \<in> sent_by M"
  by (force simp: sent_by_def)

lemma sent_by_insert [simp]: "sent_by (insert (n, p, q) M) = insert (p, q) (sent_by M)"
  by (simp add: sent_by_def)

lemma net_invI:
  assumes "I (nServer w)" "\<And>n p q. (n, p, q) \<in> nSent w \<Longrightarrow> okm (nServer w) p q"
    "\<And>n p q. (n, p, q) \<in> nSent w \<Longrightarrow> n < nFresh w" "\<And>n r. (n, r) \<in> nAnswered w \<Longrightarrow> n < nFresh w"
    "\<And>n p q p' q'. (n, p, q) \<in> nSent w \<Longrightarrow> (n, p', q') \<in> nSent w \<Longrightarrow> p' = p \<and> q' = q"
    "\<And>p. \<exists>K. proc_ok w p K"
  shows "net_inv w"
  using assms unfolding net_inv_def by blast

text \<open>A process that does not move keeps its knowledge when nothing that it knows is lost.\<close>

lemma proc_ok_other:
  assumes "proc_ok w p K" "nProcs w' p = nProcs w p" "nSent w \<subseteq> nSent w'"
    "\<And>f. holds (nServer w) (sent_by (nSent w)) p f \<Longrightarrow> holds (nServer w') (sent_by (nSent w')) p f"
    "\<And>q k n r. nProcs w p = (Call q k, Some n) \<Longrightarrow> (n, p, q) \<in> nSent w \<Longrightarrow> (n, r) \<in> nAnswered w' \<Longrightarrow>
       (n, r) \<notin> nAnswered w \<Longrightarrow> po q r \<and> (\<forall>f \<in> le p K q r. holds (nServer w') (sent_by (nSent w')) p f)"
  shows "proc_ok w' p K"
proof (cases "nProcs w p")
  case (Pair pr o')
  show ?thesis
  proof (cases o')
    case None
    with assms(1,2,4) Pair show ?thesis by (auto simp: proc_ok_def)
  next
    case (Some n)
    with assms(1) Pair obtain q k where c: "pr = Call q k" "(n, p, q) \<in> nSent w"
      "conts_ok p K q k"
      "\<forall>r. (n, r) \<in> nAnswered w \<longrightarrow> po q r \<and> (\<forall>f \<in> le p K q r. holds (nServer w) (sent_by (nSent w)) p f)"
      by (auto simp: proc_ok_def)
    have "po q r \<and> (\<forall>f \<in> le p K q r. holds (nServer w') (sent_by (nSent w')) p f)" if "(n, r) \<in> nAnswered w'" for r
      using that c(1,2,4) assms(4,5) Pair Some by blast
    moreover have "\<forall>f \<in> K. holds (nServer w') (sent_by (nSent w')) p f"
      using assms(1,4) by (auto simp: proc_ok_def)
    ultimately show ?thesis
      using Pair Some c(1-3) assms(2,3) unfolding proc_ok_def by auto
  qed
qed

lemma send_inv:
  assumes "net_inv w" "nProcs w p = (Call q k, None)"
  shows "net_inv (w\<lparr>nSent := insert (nFresh w, p, q) (nSent w),
    nProcs := (nProcs w)(p := (Call q k, Some (nFresh w))), nFresh := nFresh w + 1\<rparr>)" (is "net_inv ?w")
proof -
  note inv = net_invD [OF assms(1)]
  obtain K where K: "proc_ok w p K" using inv(6) by blast
  have kn: "\<forall>f \<in> K. holds (nServer w) (sent_by (nSent w)) p f" and wpc: "al p K q"
    "conts_ok p (ke p K q) q k"
    using K assms(2) by (auto simp: proc_ok_def conts_ok_def)
  have fresh: "(nFresh w, x) \<notin> nSent w" for x using inv(3) by (cases x) blast
  have "\<exists>K. proc_ok ?w p' K" for p'
  proof (cases "p' = p")
    case True
    have "holds (nServer w) (insert (p, q) (sent_by (nSent w))) p f" if "f \<in> ke p K q" for f
      using send_keep [OF inv(1) kn wpc(1) that] .
    moreover have "(nFresh w, r) \<notin> nAnswered w" for r using inv(4) by blast
    ultimately have "proc_ok ?w p (ke p K q)" using wpc(2) by (auto simp: proc_ok_def)
    with True show ?thesis by blast
  next
    case False
    obtain K' where "proc_ok w p' K'" using inv(6) by blast
    then have "proc_ok ?w p' K'"
      using False by (intro proc_ok_other [of w p' K' ?w]) (auto intro: send_other)
    then show ?thesis by blast
  qed
  then show ?thesis
    using inv send_okm [OF inv(1) kn wpc(1)] fresh by (intro net_invI) (auto intro: less_SucI)
qed

lemma execute_inv:
  assumes "net_inv w" "(n, p, q) \<in> nSent w" "exec (nServer w) q s r"
  shows "net_inv (w\<lparr>nServer := s, nAnswered := insert (n, r) (nAnswered w)\<rparr>)" (is "net_inv ?w")
proof -
  note inv = net_invD [OF assms(1)]
  note o = inv(2) [OF assms(2)]
  have "\<exists>K. proc_ok ?w p' K" for p'
  proof -
    obtain K where K: "proc_ok w p' K" using inv(6) by blast
    have "proc_ok ?w p' K"
    proof (rule proc_ok_other [OF K])
      fix q' k' n' r'
      assume a: "nProcs w p' = (Call q' k', Some n')" "(n', p', q') \<in> nSent w" "(n', r') \<in> nAnswered ?w"
        "(n', r') \<notin> nAnswered w"
      then have e: "n' = n" "r' = r" by auto
      have pq: "p' = p" "q' = q" using inv(5) [OF assms(2)] a(2) e(1) by blast+
      have "\<forall>f \<in> K. holds (nServer w) (sent_by (nSent w)) p f" using K pq by (simp add: proc_ok_def)
      from exec_learn [OF inv(1) o sent_byI [OF assms(2)] assms(3) this] exec_po [OF inv(1) o assms(3)] e pq
      show "po q' r' \<and> (\<forall>f \<in> le p' K q' r'. holds (nServer ?w) (sent_by (nSent ?w)) p' f)" by simp
    next
      fix f
      assume "holds (nServer w) (sent_by (nSent w)) p' f"
      then show "holds (nServer ?w) (sent_by (nSent ?w)) p' f"
        using exec_holds [OF inv(1) o sent_byI [OF assms(2)] assms(3)] by simp
    qed simp_all
    then show ?thesis by blast
  qed
  then show ?thesis
    using inv exec_I [OF inv(1) o assms(3)] exec_okm [OF inv(1) o assms(3)] assms(2)
    by (intro net_invI) auto
qed

text \<open>A step that only moves one process.\<close>

lemma move_inv:
  assumes "net_inv w" "proc_ok (w\<lparr>nProcs := (nProcs w)(p := c)\<rparr>) p K"
  shows "net_inv (w\<lparr>nProcs := (nProcs w)(p := c)\<rparr>)" (is "net_inv ?w")
proof -
  note inv = net_invD [OF assms(1)]
  have "\<exists>K. proc_ok ?w p' K" for p'
  proof (cases "p' = p")
    case False
    obtain K' where "proc_ok w p' K'" using inv(6) by blast
    then have "proc_ok ?w p' K'" using False by (intro proc_ok_other [of w p' K' ?w]) auto
    then show ?thesis by blast
  qed (use assms(2) in blast)
  then show ?thesis using inv by (intro net_invI) auto
qed

lemma env_inv:
  assumes "net_inv w" "env (nServer w) s"
  shows "net_inv (w\<lparr>nServer := s\<rparr>)" (is "net_inv ?w")
proof -
  note inv = net_invD [OF assms(1)]
  have "\<exists>K. proc_ok ?w p' K" for p'
  proof -
    obtain K where "proc_ok w p' K" using inv(6) by blast
    then have "proc_ok ?w p' K"
      using env_holds [OF inv(1) assms(2)] by (intro proc_ok_other [of w p' K ?w]) auto
    then show ?thesis by blast
  qed
  then show ?thesis
    using inv env_I [OF inv(1) assms(2)] env_okm [OF inv(1) assms(2)] by (intro net_invI) auto
qed

lemma net_step_inv:
  assumes "net_step exec env ops w w'" "net_inv w"
  shows "net_inv w'"
  using assms(1)
proof cases
  case (send p q k)
  then show ?thesis using send_inv [OF assms(2)] by blast
next
  case (execute n p q s r)
  then show ?thesis using execute_inv [OF assms(2)] by blast
next
  case (receive p q k n r)
  obtain K where K: "proc_ok w p K" using net_invD(6) [OF assms(2)] by blast
  then have "conts_ok p K q k" "po q r"
    "\<forall>f \<in> le p K q r. holds (nServer w) (sent_by (nSent w)) p f" "\<forall>f \<in> K. holds (nServer w) (sent_by (nSent w)) p f"
    using receive(2,3) by (auto simp: proc_ok_def)
  then have "proc_ok (w\<lparr>nProcs := (nProcs w)(p := (k (Some r), None))\<rparr>) p (K \<union> le p K q r)"
    by (auto simp: proc_ok_def conts_ok_def)
  then show ?thesis unfolding receive(1) by (rule move_inv [OF assms(2)])
next
  case (fail p q k n)
  obtain K where K: "proc_ok w p K" using net_invD(6) [OF assms(2)] by blast
  then have "conts_ok p K q k" "\<forall>f \<in> K. holds (nServer w) (sent_by (nSent w)) p f"
    using fail(2) by (auto simp: proc_ok_def)
  then have "proc_ok (w\<lparr>nProcs := (nProcs w)(p := (k None, None))\<rparr>) p K" by (auto simp: proc_ok_def conts_ok_def)
  then show ?thesis unfolding fail(1) by (rule move_inv [OF assms(2)])
next
  case (other s)
  then show ?thesis using env_inv [OF assms(2)] by blast
next
  case (start p a pr)
  obtain K where K: "proc_ok w p K" using net_invD(6) [OF assms(2)] by blast
  then have "Q p a K" "\<forall>f \<in> K. holds (nServer w) (sent_by (nSent w)) p f"
    using start(2) by (auto simp: proc_ok_def)
  then have "proc_ok (w\<lparr>nProcs := (nProcs w)(p := (pr, None))\<rparr>) p K"
    using ops_wp [OF _ start(3)] by (auto simp: proc_ok_def)
  then show ?thesis unfolding start(1) by (rule move_inv [OF assms(2)])
qed

lemma net_init_inv:
  assumes "I s" "\<And>p. Q p (a p) (K0 p)" "\<And>p f. f \<in> K0 p \<Longrightarrow> holds s {} p f"
  shows "net_inv (net_init s a)"
proof -
  have "proc_ok (net_init s a) p (K0 p)" for p
    using assms(2,3) by (simp add: net_init_def proc_ok_def sent_by_def)
  then show ?thesis using assms(1) by (intro net_invI) (auto simp: net_init_def)
qed

text \<open>Every state the network reaches has the server's invariant, and no program in it panics.\<close>

lemma net_reachable:
  assumes "(net_step exec env ops)\<^sup>*\<^sup>* (net_init s a) w" "I s" "\<And>p. Q p (a p) (K0 p)"
    "\<And>p f. f \<in> K0 p \<Longrightarrow> holds s {} p f"
  shows "net_inv w"
  using assms(1)
  by (induction rule: rtranclp_induct) (use net_init_inv [of s a K0, OF assms(2-4)] net_step_inv in auto)

text \<open>What a process that is at rest knows is true.\<close>

lemma net_at_rest:
  assumes "net_inv w" "nProcs w p = (Ret a, None)"
  shows "\<exists>K. Q p a K \<and> (\<forall>f \<in> K. holds (nServer w) (sent_by (nSent w)) p f)"
  using net_invD(6) [OF assms(1), of p] assms(2) by (auto simp: proc_ok_def)

lemma net_no_panic: "net_inv w \<Longrightarrow> nProcs w p \<noteq> (Panics, n)"
  using net_invD(6) [of w p] by (cases n) (auto simp: proc_ok_def)

end

end
