(* ===== verification/Shardcfg.thy ===== *)
theory Shardcfg
  imports Bytes
begin

text \<open>
  Shard configurations, \<^verbatim>\<open>shardkv1/shardcfg/shardcfg.go\<close>: the shard of a key, and the assignment of
  shards to groups with its rebalancing.
\<close>

type_synonym tgid = int
type_synonym tshid = int
type_synonym tnum = int

definition NShards :: nat where
  "NShards = 12"

definition NumFirst :: tnum where
  "NumFirst = 1"

definition Gid1 :: tgid where
  "Gid1 = 1"

definition Key2Shard :: "string \<Rightarrow> tshid" where
  "Key2Shard key = uint (fnv32a key) mod int NShards"

text \<open>
  \<^verbatim>\<open>Groups\<close> is a Go map; as the code iterates over it, it is an association list with distinct
  keys, in the order of the iteration.
\<close>

record shard_config =
  Num :: tnum
  Shards :: "tgid list"
  Groups :: "(tgid \<times> string list) list"

definition MakeShardConfig :: shard_config where
  "MakeShardConfig = \<lparr>Num = 0, Shards = replicate NShards 0, Groups = []\<rparr>"

definition Copy :: "shard_config \<Rightarrow> shard_config" where
  "Copy cfg = MakeShardConfig\<lparr>Num := Num cfg, Shards := Shards cfg,
     Groups := map (\<lambda>(k, srvs). (k, srvs)) (Groups cfg)\<rparr>"

section \<open>Balancing\<close>

text \<open>The accumulator of the loop in \<^verbatim>\<open>analyze\<close>: most loaded group and its load, least loaded group and its load.\<close>

definition analyze_step :: "tgid list \<Rightarrow> tgid \<Rightarrow> tgid \<times> int \<times> tgid \<times> int \<Rightarrow> tgid \<times> int \<times> tgid \<times> int" where
  "analyze_step shards g acc =
     (case acc of (mg, mn, lg, ln) \<Rightarrow>
        let n = int (count_list shards g);
            (lg, ln) = (if n < ln then (g, n) else (lg, ln));
            (mg, mn) = (if n > mn then (g, n) else (mg, mn))
        in (mg, mn, lg, ln))"

definition analyze :: "shard_config \<Rightarrow> tgid \<times> int \<times> tgid \<times> int" where
  "analyze c = fold (analyze_step (Shards c)) (sort (map fst (Groups c))) (-1, -1, -1, 257)"

definition least :: "shard_config \<Rightarrow> tgid" where
  "least c = (case analyze c of (_, _, lg, _) \<Rightarrow> lg)"

text \<open>The second loop of \<^verbatim>\<open>Rebalance\<close>, at the shards from \<open>s\<close> on, \<open>n\<close> of them.\<close>

primrec assignUnassigned :: "shard_config \<Rightarrow> nat \<Rightarrow> nat \<Rightarrow> shard_config" where
  "assignUnassigned c s 0 = c"
| "assignUnassigned c s (Suc n) =
     assignUnassigned
       (if map_of (Groups c) (Shards c ! s) = None
        then c\<lparr>Shards := (Shards c)[s := least c]\<rparr> else c)
       (Suc s) n"

text \<open>The inner loop of the last loop: the first shard of \<open>mg\<close> is given to \<open>lg\<close>.\<close>

fun moveFirst :: "tgid \<Rightarrow> tgid \<Rightarrow> tgid list \<Rightarrow> tgid list" where
  "moveFirst mg lg [] = []"
| "moveFirst mg lg (g # gs) = (if g = mg then lg # gs else g # moveFirst mg lg gs)"

text \<open>
  The last loop of \<^verbatim>\<open>Rebalance\<close>; \<^term>\<open>None\<close> would be a loop that does not end.
\<close>

partial_function (option) balanceLoop :: "shard_config \<Rightarrow> shard_config option" where
  "balanceLoop c =
     (case analyze c of (mg, mn, lg, ln) \<Rightarrow>
        if mn < ln + 2 then Some c
        else balanceLoop (c\<lparr>Shards := moveFirst mg lg (Shards c)\<rparr>))"

definition Rebalance :: "shard_config \<Rightarrow> shard_config option" where
  "Rebalance c =
     (if length (Groups c) < 1 then Some (c\<lparr>Shards := map (\<lambda>_. 0) (Shards c)\<rparr>)
      else balanceLoop (assignUnassigned c 0 (length (Shards c))))"

section \<open>Joining and leaving\<close>

text \<open>
  \<^verbatim>\<open>log.Fatalf\<close> ends the process: it is \<^term>\<open>None\<close>. \<open>servers\<close> is the argument map in the
  order of its iteration.
\<close>

fun joinLoop :: "shard_config \<Rightarrow> bool \<Rightarrow> (tgid \<times> string list) list \<Rightarrow> (shard_config \<times> bool \<times> bool) option" where
  "joinLoop cfg changed [] = Some (cfg, changed, True)"
| "joinLoop cfg changed ((gid, servers) # rest) =
     (if map_of (Groups cfg) gid \<noteq> None then Some (cfg, changed, False)
      else if \<exists>(xgid, xservers) \<in> set (Groups cfg). \<exists>s1 \<in> set xservers. s1 \<in> set servers then None
      else joinLoop (cfg\<lparr>Groups := Groups cfg @ [(gid, servers)]\<rparr>) True rest)"

definition Join :: "shard_config \<Rightarrow> (tgid \<times> string list) list \<Rightarrow> (shard_config \<times> bool) option" where
  "Join cfg servers = do {
     (cfg, changed, ok) \<leftarrow> joinLoop cfg False servers;
     if \<not> ok then Some (cfg, False)
     else if \<not> changed then None
     else Some (cfg\<lparr>Num := Num cfg + 1\<rparr>, True)
   }"

fun leaveLoop :: "shard_config \<Rightarrow> bool \<Rightarrow> tgid list \<Rightarrow> shard_config \<times> bool \<times> bool" where
  "leaveLoop cfg changed [] = (cfg, changed, True)"
| "leaveLoop cfg changed (gid # gids) =
     (if map_of (Groups cfg) gid = None then (cfg, changed, False)
      else leaveLoop (cfg\<lparr>Groups := filter (\<lambda>(g, _). g \<noteq> gid) (Groups cfg)\<rparr>) True gids)"

definition Leave :: "shard_config \<Rightarrow> tgid list \<Rightarrow> (shard_config \<times> bool) option" where
  "Leave cfg gids =
     (case leaveLoop cfg False gids of (cfg, changed, ok) \<Rightarrow>
        if \<not> ok then Some (cfg, False)
        else if \<not> changed then None
        else Some (cfg\<lparr>Num := Num cfg + 1\<rparr>, True))"

definition JoinBalance :: "shard_config \<Rightarrow> (tgid \<times> string list) list \<Rightarrow> (shard_config \<times> bool) option" where
  "JoinBalance cfg servers = do {
     (cfg, ok) \<leftarrow> Join cfg servers;
     if \<not> ok then Some (cfg, False)
     else do { cfg \<leftarrow> Rebalance cfg; Some (cfg, True) }
   }"

definition LeaveBalance :: "shard_config \<Rightarrow> tgid list \<Rightarrow> (shard_config \<times> bool) option" where
  "LeaveBalance cfg gids = do {
     (cfg, ok) \<leftarrow> Leave cfg gids;
     if \<not> ok then Some (cfg, False)
     else do { cfg \<leftarrow> Rebalance cfg; Some (cfg, True) }
   }"

section \<open>Queries\<close>

definition GidServers :: "shard_config \<Rightarrow> tshid \<Rightarrow> (tgid \<times> string list \<times> bool) option" where
  "GidServers cfg sh = do {
     gid \<leftarrow> go_index (Shards cfg) sh;
     Some (case map_of (Groups cfg) gid of
             None \<Rightarrow> (gid, [], False)
           | Some srvs \<Rightarrow> (gid, srvs, True))
   }"

definition IsMember :: "shard_config \<Rightarrow> tgid \<Rightarrow> bool" where
  "IsMember cfg gid = list_ex (\<lambda>g. g = gid) (Shards cfg)"

text \<open>\<^verbatim>\<open>CheckConfig\<close>: whether it returns without calling \<^verbatim>\<open>fatalf\<close>.\<close>

definition CheckConfig :: "shard_config \<Rightarrow> tgid list \<Rightarrow> bool" where
  "CheckConfig cfg groups \<longleftrightarrow>
     length (Groups cfg) = length groups \<and>
     list_all (\<lambda>g. map_of (Groups cfg) g \<noteq> None) groups \<and>
     (length groups > 0 \<longrightarrow> list_all (\<lambda>g. map_of (Groups cfg) g \<noteq> None) (Shards cfg)) \<and>
     (let counts = (\<lambda>g. int (count_list (Shards cfg) g));
          maxc = fold (\<lambda>(g, _) m. if counts g > m then counts g else m) (Groups cfg) 0;
          minc = fold (\<lambda>(g, _) m. if counts g < m then counts g else m) (Groups cfg) 257
      in \<not> maxc > minc + 1)"

section \<open>Termination and balance\<close>

text \<open>The potential that shows termination: the sum of the squares of the loads.\<close>

definition load2 :: "tgid list \<Rightarrow> nat" where
  "load2 xs = (\<Sum>g \<in> set xs. count_list xs g * count_list xs g)"

lemma load2_superset: "finite A \<Longrightarrow> set xs \<subseteq> A \<Longrightarrow> load2 xs = (\<Sum>g \<in> A. count_list xs g * count_list xs g)"
  unfolding load2_def by (rule sum.mono_neutral_left) (auto simp: count_list_0_iff)

lemma moveFirst_count:
  assumes "a \<in> set xs" "a \<noteq> b"
  shows "count_list (moveFirst a b xs) g =
    (if g = a then count_list xs a - 1 else if g = b then count_list xs b + 1 else count_list xs g)"
  using assms by (induction xs) (auto simp: count_list_0_iff Suc_diff_le)

lemma moveFirst_length [simp]: "length (moveFirst a b xs) = length xs"
  by (induction xs) auto

lemma moveFirst_set: "set (moveFirst a b xs) \<subseteq> insert b (set xs)"
  by (induction xs) auto

lemma sum_two:
  fixes f :: "'a \<Rightarrow> nat"
  assumes "finite A" "a \<in> A" "b \<in> A" "a \<noteq> b"
  shows "sum f A = f a + (f b + sum f (A - {a, b}))"
  using assms sum.remove [of A a f] sum.remove [of "A - {a}" b f] by (simp add: Diff_insert2 [symmetric])

lemma load2_decreases:
  assumes "a \<noteq> b" "count_list xs b + 2 \<le> count_list xs a"
  shows "load2 (moveFirst a b xs) < load2 xs"
proof -
  define A where "A = insert a (insert b (set xs))"
  let ?c = "count_list xs" and ?c' = "count_list (moveFirst a b xs)"
  have a: "a \<in> set xs" using assms(2) count_list_0_iff [of xs a] by force
  note mc = moveFirst_count [OF a assms(1)]
  have A: "finite A" "a \<in> A" "b \<in> A" "set xs \<subseteq> A" "set (moveFirst a b xs) \<subseteq> A"
    using moveFirst_set [of a b xs] by (auto simp: A_def)
  have "load2 (moveFirst a b xs) = ?c' a * ?c' a + (?c' b * ?c' b + (\<Sum>g \<in> A - {a, b}. ?c' g * ?c' g))"
    by (simp only: load2_superset [OF A(1,5)] sum_two [OF A(1-3) assms(1)])
  also have "(\<Sum>g \<in> A - {a, b}. ?c' g * ?c' g) = (\<Sum>g \<in> A - {a, b}. ?c g * ?c g)"
    by (rule sum.cong) (auto simp: mc)
  also have "?c' a * ?c' a + (?c' b * ?c' b + \<dots>) =
      (?c a - 1) * (?c a - 1) + ((?c b + 1) * (?c b + 1) + (\<Sum>g \<in> A - {a, b}. ?c g * ?c g))"
    using assms(1) by (simp add: mc)
  also have "\<dots> < ?c a * ?c a + (?c b * ?c b + (\<Sum>g \<in> A - {a, b}. ?c g * ?c g))"
  proof -
    obtain m where m: "?c a = m + 2 + ?c b" using assms(2) by (metis add.commute add.assoc le_Suc_ex)
    show ?thesis by (simp add: m algebra_simps)
  qed
  also have "\<dots> = load2 xs"
    by (simp only: load2_superset [OF A(1,4)] sum_two [OF A(1-3) assms(1)])
  finally show ?thesis .
qed

text \<open>What \<^verbatim>\<open>analyze\<close> finds: over the groups, the largest and the smallest load.\<close>

definition group_load :: "shard_config \<Rightarrow> tgid \<Rightarrow> int" where
  "group_load c g = int (count_list (Shards c) g)"

lemma analyze_fold:
  assumes "fold (analyze_step xs) gs (mg, mn, lg, ln) = (mg', mn', lg', ln')"
  shows "(\<forall>g \<in> set gs. ln' \<le> int (count_list xs g) \<and> int (count_list xs g) \<le> mn') \<and> ln' \<le> ln \<and> mn \<le> mn' \<and>
    ((lg', ln') = (lg, ln) \<or> lg' \<in> set gs \<and> ln' = int (count_list xs lg')) \<and>
    ((mg', mn') = (mg, mn) \<or> mg' \<in> set gs \<and> mn' = int (count_list xs mg'))"
  using assms
proof (induction gs arbitrary: mg mn lg ln)
  case (Cons g gs)
  let ?n = "int (count_list xs g)"
  let ?lg = "if ?n < ln then g else lg" and ?ln = "if ?n < ln then ?n else ln"
  let ?mg = "if ?n > mn then g else mg" and ?mn = "if ?n > mn then ?n else mn"
  have "analyze_step xs g (mg, mn, lg, ln) = (?mg, ?mn, ?lg, ?ln)"
    by (simp add: analyze_step_def Let_def)
  with Cons.prems have "fold (analyze_step xs) gs (?mg, ?mn, ?lg, ?ln) = (mg', mn', lg', ln')" by simp
  from Cons.IH [OF this] show ?case by (auto split: if_splits)
qed simp

lemma count_list_le_length: "count_list xs g \<le> length xs"
  by (induction xs) auto

lemma analyze_spec:
  assumes "analyze c = (mg, mn, lg, ln)" "Groups c \<noteq> []" "length (Shards c) < 257"
  shows "mg \<in> fst ` set (Groups c)" "lg \<in> fst ` set (Groups c)" "mn = group_load c mg" "ln = group_load c lg"
    and "\<forall>g \<in> fst ` set (Groups c). ln \<le> group_load c g \<and> group_load c g \<le> mn"
proof -
  have f: "(\<forall>g \<in> fst ` set (Groups c). ln \<le> group_load c g \<and> group_load c g \<le> mn) \<and>
    ((lg, ln) = (-1, 257) \<or> lg \<in> fst ` set (Groups c) \<and> ln = group_load c lg) \<and>
    ((mg, mn) = (-1, -1) \<or> mg \<in> fst ` set (Groups c) \<and> mn = group_load c mg)"
    using analyze_fold [OF assms(1) [unfolded analyze_def]] by (simp add: group_load_def)
  obtain g where g: "g \<in> fst ` set (Groups c)" using assms(2) by (cases "Groups c") auto
  have b: "0 \<le> group_load c g" "group_load c g < 257"
    using count_list_le_length [of "Shards c" g] assms(3) by (simp_all add: group_load_def)
  with f g have ne: "ln \<noteq> 257" "mn \<noteq> -1" by force+
  show "mg \<in> fst ` set (Groups c)" "lg \<in> fst ` set (Groups c)" "mn = group_load c mg" "ln = group_load c lg"
    using f ne by auto
  show "\<forall>g \<in> fst ` set (Groups c). ln \<le> group_load c g \<and> group_load c g \<le> mn" using f by blast
qed

definition balanced :: "shard_config \<Rightarrow> bool" where
  "balanced c \<longleftrightarrow>
     (\<forall>g \<in> fst ` set (Groups c). \<forall>h \<in> fst ` set (Groups c). group_load c g \<le> group_load c h + 1)"

definition assigned :: "shard_config \<Rightarrow> bool" where
  "assigned c \<longleftrightarrow> set (Shards c) \<subseteq> fst ` set (Groups c)"

lemma balanceLoop_returns:
  assumes "Groups c \<noteq> []" "length (Shards c) < 257" "assigned c"
  shows "\<exists>c'. balanceLoop c = Some c' \<and> balanced c' \<and> assigned c' \<and> Groups c' = Groups c \<and>
    Num c' = Num c \<and> length (Shards c') = length (Shards c)"
  using assms
proof (induction "load2 (Shards c)" arbitrary: c rule: less_induct)
  case less
  obtain mg mn lg ln where a: "analyze c = (mg, mn, lg, ln)" by (cases "analyze c")
  note sp = analyze_spec [OF a less.prems(1,2)]
  show ?case
  proof (cases "mn < ln + 2")
    case True
    then have "balanceLoop c = Some c" by (subst balanceLoop.simps) (simp add: a)
    moreover have "balanced c"
      unfolding balanced_def
    proof (intro ballI)
      fix g h
      assume "g \<in> fst ` set (Groups c)" "h \<in> fst ` set (Groups c)"
      then have "group_load c g \<le> mn" "ln \<le> group_load c h" using sp(5) by blast+
      then show "group_load c g \<le> group_load c h + 1" using True by linarith
    qed
    ultimately show ?thesis using less.prems(3) by blast
  next
    case False
    let ?c = "c\<lparr>Shards := moveFirst mg lg (Shards c)\<rparr>"
    have ge: "count_list (Shards c) lg + 2 \<le> count_list (Shards c) mg"
      using False sp(3,4) by (simp add: group_load_def)
    then have "mg \<noteq> lg" by auto
    then have lt: "load2 (Shards ?c) < load2 (Shards c)" using load2_decreases [OF _ ge] by simp
    have as: "assigned ?c"
      using less.prems(3) moveFirst_set [of mg lg "Shards c"] sp(2) by (auto simp: assigned_def)
    have "balanceLoop c = balanceLoop ?c"
      using False by (subst balanceLoop.simps) (simp add: a)
    with less.hyps [OF lt _ _ as] less.prems show ?thesis by simp
  qed
qed

lemma least_in:
  assumes "Groups c \<noteq> []" "length (Shards c) < 257"
  shows "least c \<in> fst ` set (Groups c)"
  using analyze_spec(2) [OF _ assms] by (cases "analyze c") (auto simp: least_def)

lemma assignUnassigned_spec:
  assumes "Groups c \<noteq> []" "length (Shards c) < 257" "s + n = length (Shards c)"
    and "\<forall>i < s. Shards c ! i \<in> fst ` set (Groups c)"
  shows "assigned (assignUnassigned c s n) \<and> Groups (assignUnassigned c s n) = Groups c \<and>
    Num (assignUnassigned c s n) = Num c \<and> length (Shards (assignUnassigned c s n)) = length (Shards c)"
  using assms
proof (induction n arbitrary: c s)
  case 0
  then show ?case by (auto simp: assigned_def in_set_conv_nth)
next
  case (Suc n)
  let ?c = "if map_of (Groups c) (Shards c ! s) = None then c\<lparr>Shards := (Shards c)[s := least c]\<rparr> else c"
  have g: "Groups ?c = Groups c" "Num ?c = Num c" "length (Shards ?c) = length (Shards c)" by simp_all
  have "Shards ?c ! i \<in> fst ` set (Groups ?c)" if "i < Suc s" for i
    using that Suc.prems least_in [OF Suc.prems(1,2)]
    by (cases "i = s") (auto simp: map_of_eq_None_iff nth_list_update)
  then have "assigned (assignUnassigned ?c (Suc s) n) \<and> Groups (assignUnassigned ?c (Suc s) n) = Groups ?c \<and>
    Num (assignUnassigned ?c (Suc s) n) = Num ?c \<and> length (Shards (assignUnassigned ?c (Suc s) n)) = length (Shards ?c)"
    using Suc.prems g by (intro Suc.IH) simp_all
  then show ?case using g by simp
qed

lemma Rebalance_returns:
  assumes "length (Shards c) < 257"
  shows "\<exists>c'. Rebalance c = Some c' \<and> Groups c' = Groups c \<and> Num c' = Num c \<and>
    length (Shards c') = length (Shards c) \<and>
    (if Groups c = [] then set (Shards c') \<subseteq> {0} else assigned c' \<and> balanced c')"
proof (cases "Groups c = []")
  case True
  then show ?thesis by (auto simp: Rebalance_def)
next
  case False
  let ?a = "assignUnassigned c 0 (length (Shards c))"
  have a: "assigned ?a" "Groups ?a = Groups c" "Num ?a = Num c" "length (Shards ?a) = length (Shards c)"
    using assignUnassigned_spec [OF False assms, of 0 "length (Shards c)"] by simp_all
  have "\<exists>c'. balanceLoop ?a = Some c' \<and> balanced c' \<and> assigned c' \<and> Groups c' = Groups ?a \<and>
    Num c' = Num ?a \<and> length (Shards c') = length (Shards ?a)"
    using False assms a by (intro balanceLoop_returns) simp_all
  with a False show ?thesis by (auto simp: Rebalance_def Suc_le_eq)
qed

section \<open>Joining, leaving and the checker\<close>

definition config_ok :: "shard_config \<Rightarrow> bool" where
  "config_ok c \<longleftrightarrow> length (Shards c) = NShards \<and> distinct (map fst (Groups c))"

lemma joinLoop_Some:
  assumes "joinLoop c ch servers = Some (c', ch', ok)"
  shows "\<exists>pre. Groups c' = Groups c @ pre \<and> Shards c' = Shards c \<and> Num c' = Num c \<and>
    (ok \<longrightarrow> pre = servers) \<and> (distinct (map fst (Groups c)) \<longrightarrow> distinct (map fst (Groups c'))) \<and>
    ch' = (ch \<or> pre \<noteq> [])"
  using assms
proof (induction c ch servers rule: joinLoop.induct)
  case (2 c ch gid servers rest)
  show ?case
  proof (cases "map_of (Groups c) gid \<noteq> None")
    case False
    then have fresh: "gid \<notin> fst ` set (Groups c)" by (simp add: map_of_eq_None_iff)
    have "joinLoop (c\<lparr>Groups := Groups c @ [(gid, servers)]\<rparr>) True rest = Some (c', ch', ok)"
      and "\<not> (\<exists>(xgid, xservers) \<in> set (Groups c). \<exists>s1 \<in> set xservers. s1 \<in> set servers)"
      using "2.prems" False by (auto split: if_splits)
    from "2.IH" [OF _ this(2,1)] False fresh show ?thesis by auto
  qed (use "2.prems" in auto)
qed simp

lemma leaveLoop_result:
  assumes "leaveLoop c ch gids = (c', ch', ok)"
  shows "Shards c' = Shards c \<and> Num c' = Num c \<and>
    (distinct (map fst (Groups c)) \<longrightarrow> distinct (map fst (Groups c'))) \<and>
    set (Groups c') \<subseteq> set (Groups c) \<and>
    (ok \<longrightarrow> Groups c' = filter (\<lambda>(g, _). g \<notin> set gids) (Groups c) \<and> set gids \<subseteq> fst ` set (Groups c) \<and>
       ch' = (ch \<or> gids \<noteq> []))"
  using assms
proof (induction c ch gids rule: leaveLoop.induct)
  case (2 c ch gid gids)
  show ?case
  proof (cases "map_of (Groups c) gid = None")
    case False
    then have in_c: "gid \<in> fst ` set (Groups c)" by (metis map_of_eq_None_iff)
    let ?c = "c\<lparr>Groups := filter (\<lambda>(g, _). g \<noteq> gid) (Groups c)\<rparr>"
    have step: "leaveLoop ?c True gids = (c', ch', ok)" using "2.prems" False by simp
    have d: "distinct (map fst (Groups c)) \<longrightarrow> distinct (map fst (Groups ?c))"
      by (simp add: distinct_map_filter)
    have f: "filter (\<lambda>(g, _). g \<notin> set gids) (Groups ?c) = filter (\<lambda>(g, _). g \<notin> set (gid # gids)) (Groups c)"
      by (auto simp: filter_filter split_def intro: filter_cong)
    show ?thesis using "2.IH" [OF False step] d f in_c by auto
  qed (use "2.prems" in auto)
qed auto

lemma fold_max_le:
  fixes n :: "'a \<Rightarrow> int"
  assumes "m \<le> b" "\<forall>(g, s) \<in> set gs. n g \<le> b"
  shows "fold (\<lambda>(g, _) m. if n g > m then n g else m) gs m \<le> b"
  using assms by (induction gs arbitrary: m) auto

lemma fold_min_attained:
  fixes n :: "'a \<Rightarrow> int"
  defines "r \<equiv> \<lambda>gs m. fold (\<lambda>(g, _) m. if n g < m then n g else m) gs m"
  shows "r gs m = m \<or> (\<exists>(g, s) \<in> set gs. r gs m = n g)"
  unfolding r_def by (induction gs arbitrary: m) (auto, blast+)

lemma CheckConfig_balanced:
  assumes "config_ok c" "distinct gs" "set gs = fst ` set (Groups c)" "Groups c = [] \<or> assigned c \<and> balanced c"
  shows "CheckConfig c gs"
proof -
  let ?n = "\<lambda>g. int (count_list (Shards c) g)"
  let ?min = "fold (\<lambda>(g, _) m. if ?n g < m then ?n g else m) (Groups c) 257"
  have d: "distinct (map fst (Groups c))" using assms(1) by (simp add: config_ok_def)
  have len: "length (Groups c) = length gs"
    using distinct_card [OF d] distinct_card [OF assms(2)] assms(3) by simp
  have small: "?n g \<le> 257" for g
    using count_list_le_length [of "Shards c" g] assms(1) by (simp add: config_ok_def NShards_def)
  have key: "map_of (Groups c) g \<noteq> None" if "g \<in> fst ` set (Groups c)" for g
    using that by (simp add: map_of_eq_None_iff)
  have "\<forall>(g, s) \<in> set (Groups c). ?n g \<le> ?min + 1"
  proof (intro ballI, clarify)
    fix g s
    assume gs: "(g, s) \<in> set (Groups c)"
    then have ne: "Groups c \<noteq> []" by auto
    consider "?min = 257" | h t where "(h, t) \<in> set (Groups c)" "?min = ?n h"
      using fold_min_attained [of ?n "Groups c" 257] by auto
    then show "?n g \<le> ?min + 1"
    proof cases
      case 1
      then show ?thesis using small [of g] by linarith
    next
      case (2 h t)
      have "?n g \<le> ?n h + 1"
        using assms(4) ne gs 2(1) unfolding balanced_def group_load_def by (metis fst_conv image_eqI)
      then show ?thesis using 2(2) by simp
    qed
  qed
  moreover have "0 \<le> ?min + 1"
    using fold_min_attained [of ?n "Groups c" 257] by force
  ultimately have "fold (\<lambda>(g, _) m. if ?n g > m then ?n g else m) (Groups c) 0 \<le> ?min + 1"
    by (intro fold_max_le) auto
  then have m: "\<not> fold (\<lambda>(g, _) m. if ?n g > m then ?n g else m) (Groups c) 0 > ?min + 1" by linarith
  have a: "list_all (\<lambda>g. map_of (Groups c) g \<noteq> None) gs" using key assms(3) by (auto simp: list_all_iff)
  have b: "length gs > 0 \<longrightarrow> list_all (\<lambda>g. map_of (Groups c) g \<noteq> None) (Shards c)"
  proof
    assume "length gs > 0"
    then have "set (Shards c) \<subseteq> fst ` set (Groups c)" using len assms(4) by (auto simp: assigned_def)
    then show "list_all (\<lambda>g. map_of (Groups c) g \<noteq> None) (Shards c)"
      unfolding list_all_iff using key by (metis subsetD)
  qed
  show ?thesis unfolding CheckConfig_def Let_def using len a b m by (intro conjI)
qed

lemma Key2Shard_range: "0 \<le> Key2Shard key" "Key2Shard key < int NShards"
  by (simp_all add: Key2Shard_def NShards_def)

lemma Rebalance_good:
  assumes "config_ok c1" "Rebalance c1 = Some c2"
  shows "config_ok c2 \<and> CheckConfig c2 (map fst (Groups c1)) \<and> Groups c2 = Groups c1 \<and> Num c2 = Num c1"
proof -
  have r: "config_ok c2" "Groups c2 = Groups c1" "Num c2 = Num c1" "Groups c1 = [] \<or> assigned c2 \<and> balanced c2"
    using Rebalance_returns [of c1] assms by (auto simp: config_ok_def NShards_def split: if_splits)
  have "CheckConfig c2 (map fst (Groups c1))"
    using r assms(1) by (intro CheckConfig_balanced) (auto simp: config_ok_def)
  with r show ?thesis by blast
qed

section \<open>Properties\<close>

text \<open>
  C21. \<^verbatim>\<open>Rebalance\<close> ends, for every configuration, and leaves the groups as they are. If there are
  groups, every shard is then assigned to one of them and no group has two shards more than
  another; if there are none, every shard is unassigned.
\<close>

theorem Rebalance_correct:
  assumes "config_ok c"
  shows "\<exists>c'. Rebalance c = Some c' \<and> config_ok c' \<and> Groups c' = Groups c \<and> Num c' = Num c \<and>
    (if Groups c = [] then set (Shards c') \<subseteq> {0} else assigned c' \<and> balanced c')"
proof -
  obtain c' where r: "Rebalance c = Some c'" "Groups c' = Groups c" "Num c' = Num c"
      "length (Shards c') = length (Shards c)"
      "if Groups c = [] then set (Shards c') \<subseteq> {0} else assigned c' \<and> balanced c'"
    using Rebalance_returns [of c] assms by (auto simp: config_ok_def NShards_def)
  then have "config_ok c'" using assms by (simp add: config_ok_def)
  with r show ?thesis by blast
qed

definition sample_config :: shard_config where
  "sample_config = \<lparr>Num = 3, Shards = [1, 1, 1, 1, 1, 1, 1, 1, 1, 1, 5, 0],
     Groups = [(2, [''c'']), (1, [''a'', ''b''])]\<rparr>"

lemma sample_config_ok: "config_ok sample_config"
  by (simp add: config_ok_def sample_config_def NShards_def)

theorem Rebalance_correct_witness:
  "\<exists>c'. Rebalance sample_config = Some c' \<and> balanced c' \<and> set (Shards c') \<subseteq> {1, 2}"
  using Rebalance_correct [OF sample_config_ok] by (auto simp: sample_config_def assigned_def)



text \<open>
  Every key is served: in a configuration whose shards are assigned, the shard of any key has
  a group, and the configuration knows the servers of that group.
\<close>

theorem every_key_has_a_group:
  assumes "config_ok c" "assigned c"
  shows "\<exists>gid srvs. GidServers c (Key2Shard key) = Some (gid, srvs, True) \<and> (gid, srvs) \<in> set (Groups c) \<and>
    IsMember c gid"
proof -
  define g where "g = Shards c ! nat (Key2Shard key)"
  have r: "0 \<le> Key2Shard key" "Key2Shard key < int (length (Shards c))"
    using Key2Shard_range [of key] assms(1) by (auto simp: config_ok_def)
  then have g: "go_index (Shards c) (Key2Shard key) = Some g" "g \<in> set (Shards c)"
    by (auto simp: go_index_def g_def nat_less_iff)
  then have "g \<in> fst ` set (Groups c)" using assms(2) by (auto simp: assigned_def)
  then obtain srvs where m: "map_of (Groups c) g = Some srvs"
    by (cases "map_of (Groups c) g") (auto simp: map_of_eq_None_iff)
  then have "(g, srvs) \<in> set (Groups c)" by (rule map_of_SomeD)
  with g m show ?thesis by (simp add: GidServers_def IsMember_def list_ex_iff)
qed

theorem every_key_has_a_group_witness:
  "\<exists>gid srvs. GidServers \<lparr>Num = 1, Shards = replicate 12 4, Groups = [(4, [''s''])]\<rparr> (Key2Shard ''a'') =
     Some (gid, srvs, True)"
  using every_key_has_a_group [of "\<lparr>Num = 1, Shards = replicate 12 4, Groups = [(4, [''s''])]\<rparr>" "''a''"]
  by (auto simp: config_ok_def assigned_def NShards_def)

end
