(* ===== verification/Calls.thy ===== *)
theory Calls
  imports Prog Rpc Shardcfg
begin

text \<open>
  The remote calls between the parts of the system: the argument and reply structs of
  \<^verbatim>\<open>shardkv1/shardgrp/shardrpc/shardrpc.go\<close>, and the requests and replies that travel as
  \<^verbatim>\<open>any\<close>.
\<close>

record freeze_shard_args =
  fzShard :: tshid
  fzNum :: tnum

record freeze_shard_reply =
  fzrState :: bytes
  fzrNum :: tnum
  fzrErr :: Err

record install_shard_args =
  inShard :: tshid
  inState :: bytes
  inNum :: tnum

record install_shard_reply =
  inrErr :: Err

record delete_shard_args =
  dlShard :: tshid
  dlNum :: tnum

record delete_shard_reply =
  dlrErr :: Err

text \<open>
  The constructor of a request is the Go type of the argument, and with it the method that is
  called; \<open>OtherArgs\<close> is a value of any other type.
\<close>

datatype rpc_args =
    GetArgs get_args
  | PutArgs put_args
  | FreezeArgs freeze_shard_args
  | InstallArgs install_shard_args
  | DeleteArgs delete_shard_args
  | OtherArgs

datatype rpc_reply =
    GetReply get_reply
  | PutReply put_reply
  | FreezeReply freeze_shard_reply
  | InstallReply install_shard_reply
  | DeleteReply delete_shard_reply

text \<open>A call names the server and has the arguments.\<close>

type_synonym rpc_call = "string \<times> rpc_args"
type_synonym 'a rpc_prog = "(rpc_call, rpc_reply, 'a) prog"

text \<open>
  What \<^verbatim>\<open>Call\<close> leaves in the reply variable of the method's type; \<^term>\<open>None\<close> when it returned
  \<^verbatim>\<open>false\<close>. A server's answer always has the type of the method.
\<close>

fun as_get :: "rpc_reply option \<Rightarrow> get_reply option" where
  "as_get (Some (GetReply r)) = Some r"
| "as_get _ = None"

fun as_put :: "rpc_reply option \<Rightarrow> put_reply option" where
  "as_put (Some (PutReply r)) = Some r"
| "as_put _ = None"

fun as_freeze :: "rpc_reply option \<Rightarrow> freeze_shard_reply option" where
  "as_freeze (Some (FreezeReply r)) = Some r"
| "as_freeze _ = None"

fun as_install :: "rpc_reply option \<Rightarrow> install_shard_reply option" where
  "as_install (Some (InstallReply r)) = Some r"
| "as_install _ = None"

fun as_delete :: "rpc_reply option \<Rightarrow> delete_shard_reply option" where
  "as_delete (Some (DeleteReply r)) = Some r"
| "as_delete _ = None"

lemma as_get_Some: "as_get r = Some x \<longleftrightarrow> r = Some (GetReply x)"
  by (cases r rule: as_get.cases) auto

lemma as_put_Some: "as_put r = Some x \<longleftrightarrow> r = Some (PutReply x)"
  by (cases r rule: as_put.cases) auto

lemma as_freeze_Some: "as_freeze r = Some x \<longleftrightarrow> r = Some (FreezeReply x)"
  by (cases r rule: as_freeze.cases) auto

lemma as_install_Some: "as_install r = Some x \<longleftrightarrow> r = Some (InstallReply x)"
  by (cases r rule: as_install.cases) auto

lemma as_delete_Some: "as_delete r = Some x \<longleftrightarrow> r = Some (DeleteReply x)"
  by (cases r rule: as_delete.cases) auto

lemmas as_reply_Some = as_get_Some as_put_Some as_freeze_Some as_install_Some as_delete_Some

end
