(* ===== verification/Shardgrp.thy ===== *)
theory Shardgrp
  imports Kvraft Calls
begin

text \<open>
  A replica group of the sharded service: the state machine and the handlers of
  \<^verbatim>\<open>shardkv1/shardgrp/server.go\<close>.
\<close>

section \<open>The state\<close>

datatype shard_status = ShardAbsent | ShardServing | ShardFrozen

text \<open>
  The struct \<^verbatim>\<open>shardState\<close>. In a decoded snapshot the map of values can be \<^verbatim>\<open>nil\<close>; the type of
  the first field is therefore a parameter.
\<close>

record 'm shard_state_of =
  shValues :: 'm
  shStatus :: shard_status
  shConfigNum :: tnum
  shRequests :: table

type_synonym kv_map = "string \<rightharpoonup> value_entry"
type_synonym shard_state = "kv_map shard_state_of"

text \<open>The server's \<^verbatim>\<open>shards\<close> array is a list of length \<^const>\<open>NShards\<close>.\<close>

type_synonym grp_server = "shard_state list"

record shard_transfer =
  stValues :: "kv_map option"
  stRequests :: table

text \<open>The encodings of a transfer and of the array in a snapshot are parameters.\<close>

record grp_codec =
  trEncode :: "kv_map \<Rightarrow> table \<Rightarrow> bytes option"
  trDecode :: "bytes \<Rightarrow> shard_transfer option"
  snEncode :: "grp_server \<Rightarrow> bytes option"
  snDecode :: "bytes \<Rightarrow> (kv_map option shard_state_of) list option"

definition made :: "kv_map option \<Rightarrow> kv_map" where
  "made m = (case m of None \<Rightarrow> (\<lambda>_. None) | Some vs \<Rightarrow> vs)"

definition encodeShardTransfer :: "grp_codec \<Rightarrow> kv_map \<Rightarrow> table \<Rightarrow> bytes option" where
  "encodeShardTransfer gc vs reqs = trEncode gc vs reqs"

definition decodeShardTransfer :: "grp_codec \<Rightarrow> bytes \<Rightarrow> shard_transfer option" where
  "decodeShardTransfer gc data =
     (if data = [] then Some \<lparr>stValues = Some (\<lambda>_. None), stRequests = (\<lambda>_. None)\<rparr>
      else do {
        t \<leftarrow> trDecode gc data;
        Some (t\<lparr>stValues := Some (made (stValues t))\<rparr>)
      })"

section \<open>Executing a committed operation\<close>

definition shardGet :: "shard_state \<Rightarrow> get_args \<Rightarrow> get_reply" where
  "shardGet st args =
     (if shStatus st \<noteq> ShardServing then get_error ErrWrongGroup
      else case shValues st (gKey args) of
        None \<Rightarrow> get_error ErrNoKey
      | Some entry \<Rightarrow> \<lparr>grValue = veValue entry, grVersion = veVersion entry, grErr = OK\<rparr>)"

text \<open>The closure that \<^verbatim>\<open>Requests.Do\<close> runs; reading a missing key gives the zero entry.\<close>

definition shardApply :: "put_args \<Rightarrow> kv_map \<Rightarrow> kv_map \<times> put_reply" where
  "shardApply args vs =
     (let entry = (case vs (pKey args) of None \<Rightarrow> \<lparr>veValue = [], veVersion = 0\<rparr> | Some e \<Rightarrow> e)
      in if vs (pKey args) = None \<and> pVersion args \<noteq> 0 then (vs, \<lparr>prErr = ErrNoKey\<rparr>)
         else if veVersion entry \<noteq> pVersion args then (vs, \<lparr>prErr = ErrVersion\<rparr>)
         else (vs(pKey args \<mapsto> entry\<lparr>veValue := pValue args, veVersion := veVersion entry + 1\<rparr>),
               \<lparr>prErr = OK\<rparr>))"

definition shardPut :: "shard_state \<Rightarrow> put_args \<Rightarrow> shard_state \<times> put_reply" where
  "shardPut st args =
     (if shStatus st \<noteq> ShardServing then (st, \<lparr>prErr = ErrWrongGroup\<rparr>)
      else case Table_Do (shRequests st) args (shardApply args) (shValues st) of
        (t, vs, reply) \<Rightarrow> (st\<lparr>shValues := vs, shRequests := t\<rparr>, reply))"

definition shardFreeze :: "grp_codec \<Rightarrow> shard_state \<Rightarrow> tnum \<Rightarrow> (shard_state \<times> freeze_shard_reply) option" where
  "shardFreeze gc st num =
     (if num = shConfigNum st \<and> shStatus st = ShardFrozen then do {
        data \<leftarrow> encodeShardTransfer gc (shValues st) (shRequests st);
        Some (st, \<lparr>fzrState = data, fzrNum = shConfigNum st, fzrErr = OK\<rparr>)
      }
      else if shStatus st \<noteq> ShardServing \<or> num \<le> shConfigNum st
      then Some (st, \<lparr>fzrState = [], fzrNum = shConfigNum st, fzrErr = ErrWrongGroup\<rparr>)
      else do {
        let st = st\<lparr>shStatus := ShardFrozen, shConfigNum := num\<rparr>;
        data \<leftarrow> encodeShardTransfer gc (shValues st) (shRequests st);
        Some (st, \<lparr>fzrState = data, fzrNum = shConfigNum st, fzrErr = OK\<rparr>)
      })"

definition shardInstall ::
  "grp_codec \<Rightarrow> shard_state \<Rightarrow> bytes \<Rightarrow> tnum \<Rightarrow> (shard_state \<times> install_shard_reply) option" where
  "shardInstall gc st data num =
     (if num = shConfigNum st \<and> shStatus st = ShardServing then Some (st, \<lparr>inrErr = OK\<rparr>)
      else if shStatus st \<noteq> ShardAbsent \<or> num \<le> shConfigNum st then Some (st, \<lparr>inrErr = ErrWrongGroup\<rparr>)
      else do {
        t \<leftarrow> decodeShardTransfer gc data;
        Some (st\<lparr>shValues := made (stValues t), shRequests := stRequests t, shStatus := ShardServing,
                 shConfigNum := num\<rparr>, \<lparr>inrErr = OK\<rparr>)
      })"

definition shardDelete :: "shard_state \<Rightarrow> tnum \<Rightarrow> shard_state \<times> delete_shard_reply" where
  "shardDelete st num =
     (if num < shConfigNum st \<or> num = shConfigNum st \<and> shStatus st = ShardAbsent then (st, \<lparr>dlrErr = OK\<rparr>)
      else if num \<noteq> shConfigNum st \<or> shStatus st \<noteq> ShardFrozen then (st, \<lparr>dlrErr = ErrWrongGroup\<rparr>)
      else (st\<lparr>shValues := (\<lambda>_. None), shRequests := (\<lambda>_. None), shStatus := ShardAbsent\<rparr>, \<lparr>dlrErr = OK\<rparr>))"

text \<open>\<^verbatim>\<open>DoOp\<close>: the operation acts on one element of the array; a shard number out of range panics.\<close>

definition ShardGrp_DoOp :: "grp_codec \<Rightarrow> grp_server \<Rightarrow> rpc_args \<Rightarrow> (grp_server \<times> rpc_reply) option" where
  "ShardGrp_DoOp gc kv req =
     (case req of
        GetArgs args \<Rightarrow> do {
          st \<leftarrow> go_index kv (Key2Shard (gKey args));
          Some (kv, GetReply (shardGet st args))
        }
      | PutArgs args \<Rightarrow> do {
          st \<leftarrow> go_index kv (Key2Shard (pKey args));
          let (st, reply) = shardPut st args;
          kv \<leftarrow> go_store kv (Key2Shard (pKey args)) st;
          Some (kv, PutReply reply)
        }
      | FreezeArgs args \<Rightarrow> do {
          st \<leftarrow> go_index kv (fzShard args);
          (st, reply) \<leftarrow> shardFreeze gc st (fzNum args);
          kv \<leftarrow> go_store kv (fzShard args) st;
          Some (kv, FreezeReply reply)
        }
      | InstallArgs args \<Rightarrow> do {
          st \<leftarrow> go_index kv (inShard args);
          (st, reply) \<leftarrow> shardInstall gc st (inState args) (inNum args);
          kv \<leftarrow> go_store kv (inShard args) st;
          Some (kv, InstallReply reply)
        }
      | DeleteArgs args \<Rightarrow> do {
          st \<leftarrow> go_index kv (dlShard args);
          let (st, reply) = shardDelete st (dlNum args);
          kv \<leftarrow> go_store kv (dlShard args) st;
          Some (kv, DeleteReply reply)
        }
      | OtherArgs \<Rightarrow> None)"

section \<open>Snapshots, handlers, start\<close>

definition ShardGrp_Snapshot :: "grp_codec \<Rightarrow> grp_server \<Rightarrow> bytes option" where
  "ShardGrp_Snapshot gc kv = snEncode gc kv"

definition with_made :: "kv_map option shard_state_of \<Rightarrow> shard_state" where
  "with_made st = \<lparr>shValues = made (shValues st), shStatus = shStatus st, shConfigNum = shConfigNum st,
     shRequests = shRequests st\<rparr>"

definition ShardGrp_Restore :: "grp_codec \<Rightarrow> grp_server \<Rightarrow> bytes \<Rightarrow> grp_server option" where
  "ShardGrp_Restore gc kv data =
     (if data = [] then Some kv
      else do { shards \<leftarrow> snDecode gc data; Some (map with_made shards) })"

text \<open>The RPC handlers, given what \<^verbatim>\<open>SubmitWithTimeout\<close> returned.\<close>

definition ShardGrp_Get :: "Err \<times> rpc_reply option \<Rightarrow> get_reply option" where
  "ShardGrp_Get submitted =
     (case submitted of (err, result) \<Rightarrow> if err \<noteq> OK then Some (get_error err) else as_get result)"

definition ShardGrp_Put :: "Err \<times> rpc_reply option \<Rightarrow> put_reply option" where
  "ShardGrp_Put submitted =
     (case submitted of (err, result) \<Rightarrow> if err \<noteq> OK then Some \<lparr>prErr = err\<rparr> else as_put result)"

definition ShardGrp_FreezeShard :: "Err \<times> rpc_reply option \<Rightarrow> freeze_shard_reply option" where
  "ShardGrp_FreezeShard submitted =
     (case submitted of (err, result) \<Rightarrow>
        if err \<noteq> OK then Some \<lparr>fzrState = [], fzrNum = 0, fzrErr = err\<rparr> else as_freeze result)"

definition ShardGrp_InstallShard :: "Err \<times> rpc_reply option \<Rightarrow> install_shard_reply option" where
  "ShardGrp_InstallShard submitted =
     (case submitted of (err, result) \<Rightarrow> if err \<noteq> OK then Some \<lparr>inrErr = err\<rparr> else as_install result)"

definition ShardGrp_DeleteShard :: "Err \<times> rpc_reply option \<Rightarrow> delete_shard_reply option" where
  "ShardGrp_DeleteShard submitted =
     (case submitted of (err, result) \<Rightarrow> if err \<noteq> OK then Some \<lparr>dlrErr = err\<rparr> else as_delete result)"

text \<open>The state with which \<^verbatim>\<open>StartServerShardGrp\<close> creates its state machine.\<close>

definition StartServerShardGrp :: "tgid \<Rightarrow> grp_server" where
  "StartServerShardGrp gid =
     map (\<lambda>_. let st = \<lparr>shValues = (\<lambda>_. None), shStatus = ShardAbsent, shConfigNum = 0, shRequests = (\<lambda>_. None)\<rparr>
              in if gid = Gid1 then st\<lparr>shStatus := ShardServing, shConfigNum := NumFirst\<rparr> else st)
       [0..<NShards]"

section \<open>One shard behaves like the unsharded service\<close>

lemma shardApply_eq: "shardApply args vs = putLocked vs args"
  by (auto simp: shardApply_def putLocked_def Let_def split: option.splits)

text \<open>The unsharded server that holds the data of a shard.\<close>

definition shard_kv :: "shard_state \<Rightarrow> kvserver" where
  "shard_kv st = \<lparr>kvValues = shValues st, kvRequests = shRequests st\<rparr>"

lemma shardPut_serving:
  assumes "shStatus st = ShardServing"
  shows "\<exists>kv' r. KVServer_DoOp (shard_kv st) (ReqPut args) = Some (kv', ResPut r) \<and>
    shardPut st args = (st\<lparr>shValues := kvValues kv', shRequests := kvRequests kv'\<rparr>, r)"
proof -
  obtain t vs r where d: "Table_Do (shRequests st) args (\<lambda>vs. putLocked vs args) (shValues st) = (t, vs, r)"
    by (metis prod_cases3)
  have "shardApply args = (\<lambda>vs. putLocked vs args)" by (rule ext) (rule shardApply_eq)
  with d assms show ?thesis by (simp add: shardPut_def KVServer_DoOp_def shard_kv_def)
qed

lemma shardGet_serving:
  "shStatus st = ShardServing \<Longrightarrow> shardGet st args = getReply (shValues st) args"
  by (simp add: shardGet_def getReply_def)

lemma shard_not_serving:
  assumes "shStatus st \<noteq> ShardServing"
  shows "shardGet st gargs = get_error ErrWrongGroup" "shardPut st pargs = (st, \<lparr>prErr = ErrWrongGroup\<rparr>)"
  using assms by (simp_all add: shardGet_def shardPut_def)

section \<open>The moves of a shard\<close>

text \<open>What one committed operation can do to a shard, apart from a write while it is served.\<close>

inductive shard_move :: "shard_state \<Rightarrow> shard_state \<Rightarrow> bool" where
  stay: "shard_move st st"
| put: "shStatus st = ShardServing \<Longrightarrow> shard_move st (st\<lparr>shValues := vs, shRequests := t\<rparr>)"
| freeze: "shStatus st = ShardServing \<Longrightarrow> shConfigNum st < n \<Longrightarrow>
    shard_move st (st\<lparr>shStatus := ShardFrozen, shConfigNum := n\<rparr>)"
| install: "shStatus st = ShardAbsent \<Longrightarrow> shConfigNum st < n \<Longrightarrow>
    shard_move st \<lparr>shValues = vs, shStatus = ShardServing, shConfigNum = n, shRequests = t\<rparr>"
| delete: "shStatus st = ShardFrozen \<Longrightarrow>
    shard_move st \<lparr>shValues = (\<lambda>_. None), shStatus = ShardAbsent, shConfigNum = shConfigNum st, shRequests = (\<lambda>_. None)\<rparr>"

inductive_cases shard_moveE: "shard_move st st'"

lemma shardPut_move: "shard_move st (fst (shardPut st args))"
proof (cases "shStatus st = ShardServing")
  case True
  obtain kv' :: kvserver and r
    where "shardPut st args = (st\<lparr>shValues := kvValues kv', shRequests := kvRequests kv'\<rparr>, r)"
    using shardPut_serving [OF True] by blast
  with True show ?thesis by (simp add: shard_move.put)
qed (simp add: shard_not_serving shard_move.stay)

lemma shardFreeze_cases:
  assumes "shardFreeze gc st num = Some (st', r)"
  shows "(st' = st \<and> shStatus st = ShardFrozen \<and> num = shConfigNum st \<and> fzrErr r = OK \<and> fzrNum r = num \<and>
      trEncode gc (shValues st) (shRequests st) = Some (fzrState r)) \<or>
    (st' = st \<and> (shStatus st \<noteq> ShardServing \<or> num \<le> shConfigNum st) \<and> fzrErr r = ErrWrongGroup) \<or>
    (st' = st\<lparr>shStatus := ShardFrozen, shConfigNum := num\<rparr> \<and> shStatus st = ShardServing \<and> shConfigNum st < num \<and>
      fzrErr r = OK \<and> fzrNum r = num \<and> trEncode gc (shValues st) (shRequests st) = Some (fzrState r))"
  using assms by (auto simp: shardFreeze_def encodeShardTransfer_def bind_eq_Some_conv split: if_splits)

lemma shardInstall_cases:
  assumes "shardInstall gc st data num = Some (st', r)"
  shows "(st' = st \<and> shStatus st = ShardServing \<and> num = shConfigNum st \<and> inrErr r = OK) \<or>
    (st' = st \<and> (shStatus st \<noteq> ShardAbsent \<or> num \<le> shConfigNum st) \<and> inrErr r = ErrWrongGroup) \<or>
    (\<exists>t. decodeShardTransfer gc data = Some t \<and> shStatus st = ShardAbsent \<and> shConfigNum st < num \<and> inrErr r = OK \<and>
      st' = \<lparr>shValues = made (stValues t), shStatus = ShardServing, shConfigNum = num, shRequests = stRequests t\<rparr>)"
  using assms by (auto simp: shardInstall_def bind_eq_Some_conv split: if_splits)

lemma shardDelete_cases:
  assumes "shardDelete st num = (st', r)"
  shows "(st' = st \<and> (num < shConfigNum st \<or> num = shConfigNum st \<and> shStatus st = ShardAbsent) \<and> dlrErr r = OK) \<or>
    (st' = st \<and> dlrErr r = ErrWrongGroup) \<or>
    (num = shConfigNum st \<and> shStatus st = ShardFrozen \<and> dlrErr r = OK \<and>
      st' = \<lparr>shValues = (\<lambda>_. None), shStatus = ShardAbsent, shConfigNum = shConfigNum st, shRequests = (\<lambda>_. None)\<rparr>)"
  using assms by (auto simp: shardDelete_def split: if_splits)

lemma shardFreeze_move: "shardFreeze gc st num = Some (st', r) \<Longrightarrow> shard_move st st'"
  by (drule shardFreeze_cases) (auto intro: shard_move.intros)

lemma shardInstall_move: "shardInstall gc st data num = Some (st', r) \<Longrightarrow> shard_move st st'"
  by (drule shardInstall_cases) (auto intro: shard_move.intros)

lemma shardDelete_move: "shardDelete st num = (st', r) \<Longrightarrow> shard_move st st'"
  by (drule shardDelete_cases) (auto intro: shard_move.intros)

text \<open>The shard an operation acts on.\<close>

definition target_shard :: "rpc_args \<Rightarrow> tshid" where
  "target_shard req =
     (case req of GetArgs a \<Rightarrow> Key2Shard (gKey a) | PutArgs a \<Rightarrow> Key2Shard (pKey a)
      | FreezeArgs a \<Rightarrow> fzShard a | InstallArgs a \<Rightarrow> inShard a | DeleteArgs a \<Rightarrow> dlShard a | OtherArgs \<Rightarrow> 0)"

lemma go_store_Some: "go_store xs i v = Some ys \<longleftrightarrow> 0 \<le> i \<and> i < int (length xs) \<and> ys = xs[nat i := v]"
  by (auto simp: go_store_def)

lemma DoOp_shard:
  assumes "ShardGrp_DoOp gc kv req = Some (kv', rep)"
  shows "\<exists>i st'. target_shard req = int i \<and> i < length kv \<and> kv' = kv[i := st'] \<and> shard_move (kv ! i) st'"
proof (cases req)
  case (GetArgs a)
  then have r: "0 \<le> target_shard req" "target_shard req < int (length kv)" "kv' = kv"
    using assms by (auto simp: ShardGrp_DoOp_def target_shard_def bind_eq_Some_conv go_index_Some_iff)
  then show ?thesis
    by (intro exI [of _ "nat (target_shard req)"] exI [of _ "kv ! nat (target_shard req)"]) (simp add: shard_move.stay)
next
  case (PutArgs a)
  then have r: "0 \<le> target_shard req" "target_shard req < int (length kv)"
      "kv' = kv[nat (target_shard req) := fst (shardPut (kv ! nat (target_shard req)) a)]"
    using assms by (auto simp: ShardGrp_DoOp_def target_shard_def bind_eq_Some_conv go_index_Some_iff go_store_Some
        split: prod.splits)
  then show ?thesis
    by (intro exI [of _ "nat (target_shard req)"] exI [of _ "fst (shardPut (kv ! nat (target_shard req)) a)"])
      (simp add: shardPut_move)
next
  case (FreezeArgs a)
  then obtain st' r where r: "0 \<le> target_shard req" "target_shard req < int (length kv)"
      "shardFreeze gc (kv ! nat (target_shard req)) (fzNum a) = Some (st', r)" "kv' = kv[nat (target_shard req) := st']"
    using assms by (auto simp: ShardGrp_DoOp_def target_shard_def bind_eq_Some_conv go_index_Some_iff go_store_Some)
  then show ?thesis
    by (intro exI [of _ "nat (target_shard req)"] exI [of _ st']) (simp add: shardFreeze_move)
next
  case (InstallArgs a)
  then obtain st' r where r: "0 \<le> target_shard req" "target_shard req < int (length kv)"
      "shardInstall gc (kv ! nat (target_shard req)) (inState a) (inNum a) = Some (st', r)"
      "kv' = kv[nat (target_shard req) := st']"
    using assms by (auto simp: ShardGrp_DoOp_def target_shard_def bind_eq_Some_conv go_index_Some_iff go_store_Some)
  then show ?thesis
    by (intro exI [of _ "nat (target_shard req)"] exI [of _ st']) (simp add: shardInstall_move)
next
  case (DeleteArgs a)
  then obtain st' r where r: "0 \<le> target_shard req" "target_shard req < int (length kv)"
      "shardDelete (kv ! nat (target_shard req)) (dlNum a) = (st', r)" "kv' = kv[nat (target_shard req) := st']"
    using assms by (auto simp: ShardGrp_DoOp_def target_shard_def bind_eq_Some_conv go_index_Some_iff go_store_Some
        split: prod.splits)
  then show ?thesis
    by (intro exI [of _ "nat (target_shard req)"] exI [of _ st']) (simp add: shardDelete_move)
next
  case OtherArgs
  then show ?thesis using assms by (simp add: ShardGrp_DoOp_def)
qed

lemma shard_move_num:
  assumes "shard_move st st'"
  shows "shConfigNum st \<le> shConfigNum st'"
    and "shStatus st = ShardFrozen \<Longrightarrow> st' = st \<or> shStatus st' = ShardAbsent \<and> shConfigNum st' = shConfigNum st"
    and "shStatus st = ShardAbsent \<Longrightarrow> st' = st \<or> shStatus st' = ShardServing \<and> shConfigNum st < shConfigNum st'"
    and "shStatus st = ShardServing \<Longrightarrow> shStatus st' \<noteq> ShardAbsent"
    and "shStatus st = ShardServing \<Longrightarrow> shStatus st' = ShardFrozen \<Longrightarrow>
      shValues st' = shValues st \<and> shRequests st' = shRequests st"
  using assms by (auto elim!: shard_moveE)

section \<open>Finite states, and the encodings\<close>

definition shard_finite :: "shard_state \<Rightarrow> bool" where
  "shard_finite st \<longleftrightarrow> finite (dom (shValues st)) \<and> table_finite (shRequests st)"

definition grp_ok :: "grp_server \<Rightarrow> bool" where
  "grp_ok kv \<longleftrightarrow> length kv = NShards \<and> (\<forall>st \<in> set kv. shard_finite st)"

text \<open>
  What the code relies on of the encoder: it encodes finite maps, and decoding gives back what was
  encoded, an empty map possibly as \<^verbatim>\<open>nil\<close>; whatever is decoded is finite.
\<close>

definition grp_codec_ok :: "grp_codec \<Rightarrow> bool" where
  "grp_codec_ok gc \<longleftrightarrow>
     (\<forall>vs t. finite (dom vs) \<and> table_finite t \<longrightarrow>
        (\<exists>b tr. trEncode gc vs t = Some b \<and> b \<noteq> [] \<and> trDecode gc b = Some tr \<and>
           made (stValues tr) = vs \<and> stRequests tr = t)) \<and>
     (\<forall>b tr. trDecode gc b = Some tr \<longrightarrow> finite (dom (made (stValues tr))) \<and> table_finite (stRequests tr)) \<and>
     (\<forall>kv. grp_ok kv \<longrightarrow>
        (\<exists>b sh. snEncode gc kv = Some b \<and> b \<noteq> [] \<and> snDecode gc b = Some sh \<and> map with_made sh = kv))"

lemma made_Some [simp]: "made (Some m) = m"
  by (simp add: made_def)

lemma transfer_roundtrip:
  assumes "grp_codec_ok gc" "finite (dom vs)" "table_finite t"
  shows "\<exists>b. encodeShardTransfer gc vs t = Some b \<and> b \<noteq> [] \<and>
    decodeShardTransfer gc b = Some \<lparr>stValues = Some vs, stRequests = t\<rparr>"
proof -
  obtain b tr where "trEncode gc vs t = Some b" "b \<noteq> []" "trDecode gc b = Some tr"
      "made (stValues tr) = vs" "stRequests tr = t"
    using assms unfolding grp_codec_ok_def by metis
  then show ?thesis by (auto simp: encodeShardTransfer_def decodeShardTransfer_def)
qed

lemma decode_finite:
  assumes "grp_codec_ok gc" "decodeShardTransfer gc b = Some tr"
  shows "finite (dom (made (stValues tr)))" "table_finite (stRequests tr)"
  using assms unfolding grp_codec_ok_def
  by (auto simp: decodeShardTransfer_def bind_eq_Some_conv table_finite_def split: if_splits)

lemma shardPut_finite:
  assumes "shard_finite st"
  shows "shard_finite (fst (shardPut st args))"
proof (cases "shStatus st = ShardServing")
  case True
  obtain kv' r where d: "KVServer_DoOp (shard_kv st) (ReqPut args) = Some (kv', ResPut r)"
      "shardPut st args = (st\<lparr>shValues := kvValues kv', shRequests := kvRequests kv'\<rparr>, r)"
    using shardPut_serving [OF True] by blast
  have "kv_finite (shard_kv st)" using assms by (simp add: kv_finite_def shard_kv_def shard_finite_def)
  with kv_finite_DoOp [OF d(1)] d(2) show ?thesis by (simp add: kv_finite_def shard_finite_def)
qed (simp add: assms shard_not_serving)

lemma grp_ok_update: "grp_ok kv \<Longrightarrow> shard_finite st \<Longrightarrow> grp_ok (kv[i := st])"
  by (auto simp: grp_ok_def dest!: subsetD [OF set_update_subset_insert])

lemma grp_okD: "grp_ok kv \<Longrightarrow> i < NShards \<Longrightarrow> shard_finite (kv ! i)" "grp_ok kv \<Longrightarrow> length kv = NShards"
  by (simp_all add: grp_ok_def)

lemma DoOp_ok:
  assumes "grp_codec_ok gc" "grp_ok kv" "ShardGrp_DoOp gc kv req = Some (kv', rep)"
  shows "grp_ok kv'"
proof -
  have el: "shard_finite (kv ! nat j)" if "0 \<le> j" "j < int (length kv)" for j
    using assms(2) that by (simp add: grp_ok_def)
  show ?thesis
  proof (cases req)
    case (PutArgs a)
    then show ?thesis using assms(2,3) el
      by (auto simp: ShardGrp_DoOp_def bind_eq_Some_conv go_index_Some_iff go_store_Some split: prod.splits
          intro!: grp_ok_update) (metis fst_conv shardPut_finite)
  next
    case (FreezeArgs a)
    then obtain st' r where r: "0 \<le> fzShard a" "fzShard a < int (length kv)"
        "shardFreeze gc (kv ! nat (fzShard a)) (fzNum a) = Some (st', r)" "kv' = kv[nat (fzShard a) := st']"
      using assms(3) by (auto simp: ShardGrp_DoOp_def bind_eq_Some_conv go_index_Some_iff go_store_Some)
    have "shard_finite st'" using shardFreeze_cases [OF r(3)] el [OF r(1,2)] by (auto simp: shard_finite_def)
    then show ?thesis unfolding r(4) by (rule grp_ok_update [OF assms(2)])
  next
    case (InstallArgs a)
    then obtain st' r where r: "0 \<le> inShard a" "inShard a < int (length kv)"
        "shardInstall gc (kv ! nat (inShard a)) (inState a) (inNum a) = Some (st', r)" "kv' = kv[nat (inShard a) := st']"
      using assms(3) by (auto simp: ShardGrp_DoOp_def bind_eq_Some_conv go_index_Some_iff go_store_Some)
    have "shard_finite st'"
      using shardInstall_cases [OF r(3)] el [OF r(1,2)] decode_finite [OF assms(1)] by (auto simp: shard_finite_def)
    then show ?thesis unfolding r(4) by (rule grp_ok_update [OF assms(2)])
  next
    case (DeleteArgs a)
    then obtain st' r where r: "0 \<le> dlShard a" "dlShard a < int (length kv)"
        "shardDelete (kv ! nat (dlShard a)) (dlNum a) = (st', r)" "kv' = kv[nat (dlShard a) := st']"
      using assms(3) by (auto simp: ShardGrp_DoOp_def bind_eq_Some_conv go_index_Some_iff go_store_Some split: prod.splits)
    have "shard_finite st'"
      using shardDelete_cases [OF r(3)] el [OF r(1,2)] by (auto simp: shard_finite_def table_finite_def)
    then show ?thesis unfolding r(4) by (rule grp_ok_update [OF assms(2)])
  qed (use assms in \<open>auto simp: ShardGrp_DoOp_def bind_eq_Some_conv\<close>)
qed

text \<open>In a well-formed group an operation on an existing shard panics only when its data cannot be decoded.\<close>

lemma DoOp_total:
  assumes "grp_codec_ok gc" "grp_ok kv" "0 \<le> target_shard req" "target_shard req < int NShards" "req \<noteq> OtherArgs"
    and "\<And>a. req = InstallArgs a \<Longrightarrow> decodeShardTransfer gc (inState a) \<noteq> None"
  shows "\<exists>kv' rep. ShardGrp_DoOp gc kv req = Some (kv', rep)"
proof -
  have len: "length kv = NShards" using assms(2) by (rule grp_okD)
  have fz: "\<exists>x. shardFreeze gc st n = Some x" if "shard_finite st" for st n
    using that transfer_roundtrip [OF assms(1), of "shValues st" "shRequests st"]
    by (auto simp: shardFreeze_def shard_finite_def)
  have ins: "\<exists>x. shardInstall gc st d n = Some x" if "decodeShardTransfer gc d \<noteq> None" for st d n
    using that by (auto simp: shardInstall_def)
  show ?thesis
  proof (cases req)
    case (FreezeArgs a)
    with assms(3,4) have i: "nat (fzShard a) < NShards" by (simp add: target_shard_def)
    obtain st r where "shardFreeze gc (kv ! nat (fzShard a)) (fzNum a) = Some (st, r)"
      using fz [OF grp_okD(1) [OF assms(2) i]] by fastforce
    with FreezeArgs assms(3,4) len show ?thesis
      by (simp add: ShardGrp_DoOp_def target_shard_def go_index_def go_store_def)
  next
    case (InstallArgs a)
    obtain st r where "shardInstall gc (kv ! nat (inShard a)) (inState a) (inNum a) = Some (st, r)"
      using ins [OF assms(6) [OF InstallArgs]] by fastforce
    with InstallArgs assms(3,4) len show ?thesis
      by (simp add: ShardGrp_DoOp_def target_shard_def go_index_def go_store_def)
  qed (use assms(3-5) len in
      \<open>auto simp: ShardGrp_DoOp_def target_shard_def go_index_def go_store_def split: prod.splits\<close>)
qed

section \<open>The replicated group\<close>

definition grp_sm :: "grp_codec \<Rightarrow> (grp_server, rpc_args, rpc_reply) statemachine" where
  "grp_sm gc = \<lparr>smDoOp = ShardGrp_DoOp gc, smSnapshot = ShardGrp_Snapshot gc, smRestore = ShardGrp_Restore gc\<rparr>"

definition grp_service_ok :: "grp_codec \<Rightarrow> grp_server \<Rightarrow> bool" where
  "grp_service_ok gc kv \<longleftrightarrow> grp_codec_ok gc \<and> grp_ok kv"

lemma Restore_Snapshot_grp:
  assumes "grp_codec_ok gc" "grp_ok kv"
  shows "\<exists>b. ShardGrp_Snapshot gc kv = Some b \<and> b \<noteq> [] \<and> (\<forall>kv'. ShardGrp_Restore gc kv' b = Some kv)"
proof -
  obtain b sh where "snEncode gc kv = Some b" "b \<noteq> []" "snDecode gc b = Some sh" "map with_made sh = kv"
    using assms unfolding grp_codec_ok_def by metis
  then show ?thesis by (auto simp: ShardGrp_Snapshot_def ShardGrp_Restore_def)
qed

interpretation grprep: replicated_service "grp_sm gc" "grp_service_ok gc" for gc
  by unfold_locales
    (use Restore_Snapshot_grp in \<open>auto simp: grp_service_ok_def grp_sm_def dest: DoOp_ok\<close>)

lemma StartServerShardGrp_ok: "grp_ok (StartServerShardGrp gid)"
  by (auto simp: grp_ok_def StartServerShardGrp_def shard_finite_def table_finite_def Let_def)

section \<open>A sample encoding\<close>

instance shard_status :: countable
  by countable_datatype

type_synonym shard_code =
  "(string, string \<times> u64) fmap \<times> shard_status \<times> int \<times> (u64, u64 \<times> (u64, Err) fmap) fmap"

definition shard_code :: "shard_state \<Rightarrow> shard_code" where
  "shard_code st = (entries_code (shValues st), shStatus st, shConfigNum st, table_code (shRequests st))"

definition shard_decode :: "shard_code \<Rightarrow> kv_map option shard_state_of" where
  "shard_decode c = (case c of (vs, status, n, t) \<Rightarrow>
     \<lparr>shValues = Some (entries_decode vs), shStatus = status, shConfigNum = n, shRequests = table_decode t\<rparr>)"

definition sample_grp_codec :: grp_codec where
  "sample_grp_codec =
     \<lparr>trEncode = (\<lambda>vs t. Some (sample_nat (to_nat (entries_code vs, table_code t)))),
      trDecode = (\<lambda>b. case from_nat (length b - 1) :: (string, string \<times> u64) fmap \<times> (u64, u64 \<times> (u64, Err) fmap) fmap of
         (vs, t) \<Rightarrow> Some \<lparr>stValues = Some (entries_decode vs), stRequests = table_decode t\<rparr>),
      snEncode = (\<lambda>kv. Some (sample_nat (to_nat (map shard_code kv)))),
      snDecode = (\<lambda>b. Some (map shard_decode (from_nat (length b - 1))))\<rparr>"

lemma shard_decode_code: "shard_finite st \<Longrightarrow> with_made (shard_decode (shard_code st)) = st"
  by (simp add: shard_decode_def shard_code_def with_made_def shard_finite_def entries_decode_code table_decode_code)

lemma entries_decode_finite: "finite (dom (entries_decode m))"
proof -
  have "dom (entries_decode m) = dom (fmlookup m)" by (auto simp: entries_decode_def dom_def)
  then show ?thesis by simp
qed

lemma table_decode_finite: "table_finite (table_decode m)"
proof -
  have "dom (table_decode m) = dom (fmlookup m)" by (auto simp: table_decode_def dom_def)
  moreover have "finite (dom (sReplies s))" if s: "table_decode m c = Some s" for c s
  proof -
    obtain e where "s = (case e of (a, rs) \<Rightarrow> \<lparr>sAck = a, sReplies = (\<lambda>q. map_option (\<lambda>e. \<lparr>prErr = e\<rparr>) (fmlookup rs q))\<rparr>)"
      using s by (auto simp: table_decode_def)
    then have "dom (sReplies s) = dom (fmlookup (snd e))" by (auto simp: dom_def split: prod.splits)
    then show ?thesis by simp
  qed
  ultimately show ?thesis by (simp add: table_finite_def)
qed

lemma sample_grp_codec_ok: "grp_codec_ok sample_grp_codec"
proof -
  have "map (with_made \<circ> shard_decode \<circ> shard_code) kv = kv" if "grp_ok kv" for kv
    using that shard_decode_code by (auto simp: grp_ok_def intro!: map_idI)
  then show ?thesis
    unfolding grp_codec_ok_def sample_grp_codec_def sample_nat_def
    by (auto simp: entries_decode_code table_decode_code entries_decode_finite table_decode_finite split: prod.splits)
qed

section \<open>Properties\<close>

text \<open>
  C19. A shard that is served behaves like the unsharded service on its own data: a committed
  \<^verbatim>\<open>Put\<close> or \<^verbatim>\<open>Get\<close> of one of its keys has the reply that service gives, leaves the shard with
  that service's next state, still served under the same configuration, and touches no other shard.
  A shard that is absent or frozen answers \<^verbatim>\<open>ErrWrongGroup\<close> and does not change.
\<close>

theorem ShardGrp_refines_KVServer:
  assumes "length kv = NShards" "Key2Shard (pKey pargs) = int i" "Key2Shard (gKey gargs) = int i" "st = kv ! i"
  shows "(shStatus st = ShardServing \<longrightarrow>
      (\<exists>kv1 r. KVServer_DoOp (shard_kv st) (ReqPut pargs) = Some (kv1, ResPut r) \<and>
         ShardGrp_DoOp gc kv (PutArgs pargs) =
           Some (kv[i := st\<lparr>shValues := kvValues kv1, shRequests := kvRequests kv1\<rparr>], PutReply r)) \<and>
      (\<exists>g. KVServer_DoOp (shard_kv st) (ReqGet gargs) = Some (shard_kv st, ResGet g) \<and>
         ShardGrp_DoOp gc kv (GetArgs gargs) = Some (kv, GetReply g))) \<and>
    (shStatus st \<noteq> ShardServing \<longrightarrow>
      ShardGrp_DoOp gc kv (PutArgs pargs) = Some (kv, PutReply \<lparr>prErr = ErrWrongGroup\<rparr>) \<and>
      ShardGrp_DoOp gc kv (GetArgs gargs) = Some (kv, GetReply (get_error ErrWrongGroup)))"
proof -
  have i: "i < length kv" using Key2Shard_range(2) [of "pKey pargs"] assms(1,2) by simp
  have put: "ShardGrp_DoOp gc kv (PutArgs pargs) = Some (kv[i := fst (shardPut st pargs)], PutReply (snd (shardPut st pargs)))"
    using i assms(2,4) by (simp add: ShardGrp_DoOp_def go_index_def go_store_def split_beta)
  have get: "ShardGrp_DoOp gc kv (GetArgs gargs) = Some (kv, GetReply (shardGet st gargs))"
    using i assms(3,4) by (simp add: ShardGrp_DoOp_def go_index_def)
  show ?thesis
  proof (cases "shStatus st = ShardServing")
    case True
    obtain kv1 r where "KVServer_DoOp (shard_kv st) (ReqPut pargs) = Some (kv1, ResPut r)"
        "shardPut st pargs = (st\<lparr>shValues := kvValues kv1, shRequests := kvRequests kv1\<rparr>, r)"
      using shardPut_serving [OF True] by blast
    moreover have "KVServer_DoOp (shard_kv st) (ReqGet gargs) = Some (shard_kv st, ResGet (shardGet st gargs))"
      using True by (simp add: KVServer_DoOp_def shardGet_serving shard_kv_def)
    ultimately show ?thesis using True put get by simp
  next
    case False
    then show ?thesis using put get assms(4) by (simp add: shard_not_serving)
  qed
qed

theorem ShardGrp_refines_KVServer_witness:
  "\<exists>i kv1 r. KVServer_DoOp StartKVServer (ReqPut (sample_put 3 1 0)) = Some (kv1, ResPut r) \<and>
     ShardGrp_DoOp sample_grp_codec (StartServerShardGrp Gid1) (PutArgs (sample_put 3 1 0)) =
       Some ((StartServerShardGrp Gid1)[i := (StartServerShardGrp Gid1 ! i)\<lparr>shValues := kvValues kv1,
         shRequests := kvRequests kv1\<rparr>], PutReply r)"
proof -
  let ?kv = "StartServerShardGrp Gid1"
  obtain i where i: "Key2Shard ''k'' = int i" using Key2Shard_range(1) [of "''k''"] nonneg_int_cases by blast
  then have "i < NShards" using Key2Shard_range(2) [of "''k''"] by simp
  then have st: "shStatus (?kv ! i) = ShardServing" "shard_kv (?kv ! i) = StartKVServer"
    by (simp_all add: StartServerShardGrp_def shard_kv_def StartKVServer_def)
  have "length ?kv = NShards" by (simp add: StartServerShardGrp_def)
  from ShardGrp_refines_KVServer [OF this, of "sample_put 3 1 0" i "\<lparr>gKey = ''k''\<rparr>" "?kv ! i" sample_grp_codec] i st
  show ?thesis by (intro exI [of _ i]) (simp add: sample_put_def)
qed



text \<open>
  The migration requests are idempotent: repeating a \<^verbatim>\<open>FreezeShard\<close>, \<^verbatim>\<open>InstallShard\<close> or
  \<^verbatim>\<open>DeleteShard\<close> that was answered \<^verbatim>\<open>OK\<close> gives the same answer, for \<^verbatim>\<open>FreezeShard\<close> with the
  same data, and changes nothing; for \<^verbatim>\<open>InstallShard\<close> whatever data the repetition carries.
\<close>

theorem migration_idempotent:
  "(\<forall>a kv' r. ShardGrp_DoOp gc kv (FreezeArgs a) = Some (kv', FreezeReply r) \<and> fzrErr r = OK \<longrightarrow>
      ShardGrp_DoOp gc kv' (FreezeArgs a) = Some (kv', FreezeReply r)) \<and>
   (\<forall>a kv' r data. ShardGrp_DoOp gc kv (InstallArgs a) = Some (kv', InstallReply r) \<and> inrErr r = OK \<longrightarrow>
      ShardGrp_DoOp gc kv' (InstallArgs (a\<lparr>inState := data\<rparr>)) = Some (kv', InstallReply r)) \<and>
   (\<forall>a kv' r. ShardGrp_DoOp gc kv (DeleteArgs a) = Some (kv', DeleteReply r) \<and> dlrErr r = OK \<longrightarrow>
      ShardGrp_DoOp gc kv' (DeleteArgs a) = Some (kv', DeleteReply r))"
proof (intro conjI allI impI)
  fix a kv' r
  assume a: "ShardGrp_DoOp gc kv (FreezeArgs a) = Some (kv', FreezeReply r) \<and> fzrErr r = OK"
  then obtain st' where st: "0 \<le> fzShard a" "fzShard a < int (length kv)"
      "shardFreeze gc (kv ! nat (fzShard a)) (fzNum a) = Some (st', r)" "kv' = kv[nat (fzShard a) := st']"
    by (auto simp: ShardGrp_DoOp_def bind_eq_Some_conv go_index_Some_iff go_store_Some)
  then have "shardFreeze gc st' (fzNum a) = Some (st', r)"
    using shardFreeze_cases [OF st(3)] a
    by (auto simp: shardFreeze_def encodeShardTransfer_def)
  with st show "ShardGrp_DoOp gc kv' (FreezeArgs a) = Some (kv', FreezeReply r)"
    by (simp add: ShardGrp_DoOp_def go_index_def go_store_def)
next
  fix a kv' r data
  assume a: "ShardGrp_DoOp gc kv (InstallArgs a) = Some (kv', InstallReply r) \<and> inrErr r = OK"
  then obtain st' where st: "0 \<le> inShard a" "inShard a < int (length kv)"
      "shardInstall gc (kv ! nat (inShard a)) (inState a) (inNum a) = Some (st', r)" "kv' = kv[nat (inShard a) := st']"
    by (auto simp: ShardGrp_DoOp_def bind_eq_Some_conv go_index_Some_iff go_store_Some)
  then have "shardInstall gc st' data (inNum a) = Some (st', r)"
    using shardInstall_cases [OF st(3)] a by (auto simp: shardInstall_def)
  with st show "ShardGrp_DoOp gc kv' (InstallArgs (a\<lparr>inState := data\<rparr>)) = Some (kv', InstallReply r)"
    by (simp add: ShardGrp_DoOp_def go_index_def go_store_def)
next
  fix a kv' r
  assume a: "ShardGrp_DoOp gc kv (DeleteArgs a) = Some (kv', DeleteReply r) \<and> dlrErr r = OK"
  then obtain st' where st: "0 \<le> dlShard a" "dlShard a < int (length kv)"
      "shardDelete (kv ! nat (dlShard a)) (dlNum a) = (st', r)" "kv' = kv[nat (dlShard a) := st']"
    by (auto simp: ShardGrp_DoOp_def bind_eq_Some_conv go_index_Some_iff go_store_Some split: prod.splits)
  then have "shardDelete st' (dlNum a) = (st', r)"
    using shardDelete_cases [OF st(3)] a by (auto simp: shardDelete_def)
  with st show "ShardGrp_DoOp gc kv' (DeleteArgs a) = Some (kv', DeleteReply r)"
    by (simp add: ShardGrp_DoOp_def go_index_def go_store_def)
qed

lemma freeze_serving:
  assumes "grp_codec_ok gc" "grp_ok kv" "i < NShards" "shStatus (kv ! i) = ShardServing" "shConfigNum (kv ! i) < n"
  shows "\<exists>data. ShardGrp_DoOp gc kv (FreezeArgs \<lparr>fzShard = int i, fzNum = n\<rparr>) =
      Some (kv[i := (kv ! i)\<lparr>shStatus := ShardFrozen, shConfigNum := n\<rparr>],
        FreezeReply \<lparr>fzrState = data, fzrNum = n, fzrErr = OK\<rparr>) \<and>
    decodeShardTransfer gc data = Some \<lparr>stValues = Some (shValues (kv ! i)), stRequests = shRequests (kv ! i)\<rparr>"
proof -
  have "finite (dom (shValues (kv ! i)))" "table_finite (shRequests (kv ! i))"
    using grp_okD(1) [OF assms(2,3)] by (simp_all add: shard_finite_def)
  from transfer_roundtrip [OF assms(1) this] obtain data
    where "encodeShardTransfer gc (shValues (kv ! i)) (shRequests (kv ! i)) = Some data"
      "decodeShardTransfer gc data = Some \<lparr>stValues = Some (shValues (kv ! i)), stRequests = shRequests (kv ! i)\<rparr>"
    by blast
  with assms(3-5) grp_okD(2) [OF assms(2)] show ?thesis
    by (intro exI [of _ data]) (simp add: ShardGrp_DoOp_def go_index_def go_store_def shardFreeze_def)
qed

theorem migration_idempotent_witness:
  "\<exists>kv' r. ShardGrp_DoOp sample_grp_codec (StartServerShardGrp Gid1) (FreezeArgs \<lparr>fzShard = 3, fzNum = 2\<rparr>) =
       Some (kv', FreezeReply r) \<and> fzrErr r = OK \<and>
     ShardGrp_DoOp sample_grp_codec kv' (FreezeArgs \<lparr>fzShard = 3, fzNum = 2\<rparr>) = Some (kv', FreezeReply r)"
proof -
  let ?kv = "StartServerShardGrp Gid1"
  obtain kv' r where d: "ShardGrp_DoOp sample_grp_codec ?kv (FreezeArgs \<lparr>fzShard = 3, fzNum = 2\<rparr>) =
      Some (kv', FreezeReply r)" "fzrErr r = OK"
    using freeze_serving [OF sample_grp_codec_ok StartServerShardGrp_ok, of 3 Gid1 2]
    by (auto simp: StartServerShardGrp_def NShards_def NumFirst_def)
  with migration_idempotent [of sample_grp_codec ?kv] show ?thesis by blast
qed

text \<open>
  C35. A migration moves the whole shard: freezing a served shard for a newer configuration and
  installing the returned data in a group where it is absent leaves that group serving the shard
  with exactly the values, versions and recorded replies the first group had, under the new number.
\<close>

theorem freeze_install_moves_shard:
  assumes "grp_codec_ok gc" "grp_ok kvA" "grp_ok kvB" "i < NShards"
    and "shStatus (kvA ! i) = ShardServing" "shConfigNum (kvA ! i) < n"
    and "shStatus (kvB ! i) = ShardAbsent" "shConfigNum (kvB ! i) < n"
  shows "\<exists>kvA' r kvB'. ShardGrp_DoOp gc kvA (FreezeArgs \<lparr>fzShard = int i, fzNum = n\<rparr>) = Some (kvA', FreezeReply r) \<and>
      fzrErr r = OK \<and> fzrNum r = n \<and> shStatus (kvA' ! i) = ShardFrozen \<and>
    ShardGrp_DoOp gc kvB (InstallArgs \<lparr>inShard = int i, inState = fzrState r, inNum = n\<rparr>) =
      Some (kvB', InstallReply \<lparr>inrErr = OK\<rparr>) \<and>
    shStatus (kvB' ! i) = ShardServing \<and> shConfigNum (kvB' ! i) = n \<and> shard_kv (kvB' ! i) = shard_kv (kvA ! i)"
proof -
  obtain data where f: "ShardGrp_DoOp gc kvA (FreezeArgs \<lparr>fzShard = int i, fzNum = n\<rparr>) =
      Some (kvA[i := (kvA ! i)\<lparr>shStatus := ShardFrozen, shConfigNum := n\<rparr>],
        FreezeReply \<lparr>fzrState = data, fzrNum = n, fzrErr = OK\<rparr>)"
    "decodeShardTransfer gc data = Some \<lparr>stValues = Some (shValues (kvA ! i)), stRequests = shRequests (kvA ! i)\<rparr>"
    using freeze_serving [OF assms(1,2,4,5,6)] by blast
  have "ShardGrp_DoOp gc kvB (InstallArgs \<lparr>inShard = int i, inState = data, inNum = n\<rparr>) =
      Some (kvB[i := (kvB ! i)\<lparr>shValues := shValues (kvA ! i), shRequests := shRequests (kvA ! i),
        shStatus := ShardServing, shConfigNum := n\<rparr>], InstallReply \<lparr>inrErr = OK\<rparr>)"
    using assms(4,7,8) grp_okD(2) [OF assms(3)] f(2)
    by (simp add: ShardGrp_DoOp_def go_index_def go_store_def shardInstall_def)
  with f(1) show ?thesis
    using assms(4) grp_okD(2) [OF assms(2)] grp_okD(2) [OF assms(3)] by (simp add: shard_kv_def)
qed

theorem freeze_install_moves_shard_witness:
  "\<exists>kvA' r kvB'. ShardGrp_DoOp sample_grp_codec (StartServerShardGrp Gid1) (FreezeArgs \<lparr>fzShard = int 4, fzNum = 2\<rparr>) =
      Some (kvA', FreezeReply r) \<and>
    ShardGrp_DoOp sample_grp_codec (StartServerShardGrp 7) (InstallArgs \<lparr>inShard = int 4, inState = fzrState r, inNum = 2\<rparr>) =
      Some (kvB', InstallReply \<lparr>inrErr = OK\<rparr>) \<and> shStatus (kvB' ! 4) = ShardServing"
proof -
  have "shStatus (StartServerShardGrp Gid1 ! 4) = ShardServing" "shConfigNum (StartServerShardGrp Gid1 ! 4) < 2"
    "shStatus (StartServerShardGrp 7 ! 4) = ShardAbsent" "shConfigNum (StartServerShardGrp 7 ! 4) < 2" "4 < NShards"
    by (simp_all add: StartServerShardGrp_def NShards_def NumFirst_def Gid1_def)
  with freeze_install_moves_shard [OF sample_grp_codec_ok StartServerShardGrp_ok StartServerShardGrp_ok, of 4 Gid1 2 7]
  show ?thesis by blast
qed



text \<open>
  Replicas of a group agree: two replicas that have been fed, through any mixture of committed
  operations and installed snapshots, the same number of operations of the log have the same array
  of shards, the one obtained by executing these operations in order from the initial state.
\<close>

theorem shardgrp_replicas_agree:
  assumes "grp_codec_ok gc" "rsSm r1 = StartServerShardGrp gid" "rsSm r2 = StartServerShardGrp gid"
    and "(feed (grp_sm gc) cd (StartServerShardGrp gid) L)\<^sup>*\<^sup>* (r1, 0) (r1', k)"
    and "(feed (grp_sm gc) cd (StartServerShardGrp gid) L)\<^sup>*\<^sup>* (r2, 0) (r2', k)"
  shows "rsSm r1' = rsSm r2' \<and>
    replay (grp_sm gc) (StartServerShardGrp gid) (map opReq (take k L)) = Some (rsSm r1')"
proof -
  have ok: "grp_service_ok gc (StartServerShardGrp gid)"
    using assms(1) StartServerShardGrp_ok by (simp add: grp_service_ok_def)
  have "replay (grp_sm gc) (StartServerShardGrp gid) (map opReq (take k L)) = Some (rsSm r1')"
    "replay (grp_sm gc) (StartServerShardGrp gid) (map opReq (take k L)) = Some (rsSm r2')"
    using grprep.feed_replays [OF ok assms(4)] grprep.feed_replays [OF ok assms(5)] assms(2,3) by simp_all
  then show ?thesis by simp
qed

definition sample_grp_rsm :: "(grp_server, rpc_args, rpc_reply) rsm" where
  "sample_grp_rsm = \<lparr>rsMe = 0, rsRf = None, rsMaxraftstate = -1, rsSm = StartServerShardGrp Gid1, rsEpoch = 9,
     rsNextSequence = 0, rsWaiters = (\<lambda>_. None), rsDone = False\<rparr>"

definition sample_grp_op_codec :: "rpc_args rsm_op codec" where
  "sample_grp_op_codec = \<lparr>encEntry = (\<lambda>_. None), decEntry = (\<lambda>_. None), decLegacy = (\<lambda>_. None)\<rparr>"

theorem shardgrp_replicas_agree_witness:
  "\<exists>r'. (feed (grp_sm sample_grp_codec) sample_grp_op_codec (StartServerShardGrp Gid1)
       [\<lparr>opServer = 0, opEpoch = 9, opSequence = 1, opReq = DeleteArgs \<lparr>dlShard = 2, dlNum = 1\<rparr>\<rparr>])\<^sup>*\<^sup>*
       (sample_grp_rsm, 0) (r', 1) \<and>
     replay (grp_sm sample_grp_codec) (StartServerShardGrp Gid1) [DeleteArgs \<lparr>dlShard = 2, dlNum = 1\<rparr>] = Some (rsSm r')"
proof -
  let ?s = "StartServerShardGrp Gid1" and ?req = "DeleteArgs \<lparr>dlShard = 2, dlNum = 1\<rparr>"
  define op where "op = \<lparr>opServer = 0, opEpoch = 9, opSequence = 1, opReq = ?req\<rparr>"
  define m where "m = \<lparr>CommandValid = True, mCommand = Some op, CommandIndex = 1, SnapshotValid = False,
    mSnapshot = [], SnapshotTerm = 0, SnapshotIndex = 0\<rparr>"
  obtain kv' rep where d: "ShardGrp_DoOp sample_grp_codec ?s ?req = Some (kv', rep)"
    using DoOp_total [OF sample_grp_codec_ok StartServerShardGrp_ok, of ?req Gid1]
    by (auto simp: target_shard_def NShards_def)
  have mf: "msg_from (grp_sm sample_grp_codec) ?s [op] 0 m 1" by (simp add: msg_from_def m_def)
  have a: "rsm_apply (grp_sm sample_grp_codec) sample_grp_op_codec sample_grp_rsm m =
      Some (wake (sample_grp_rsm\<lparr>rsSm := kv'\<rparr>) (opID op) rep)" (is "_ = Some ?r'")
    using d by (simp add: rsm_apply_def grp_sm_def sample_grp_rsm_def op_def m_def)
  have f: "(feed (grp_sm sample_grp_codec) sample_grp_op_codec ?s [op])\<^sup>*\<^sup>* (sample_grp_rsm, 0) (?r', 1)"
    using feed.msg [OF mf a] by (rule r_into_rtranclp)
  have "replay (grp_sm sample_grp_codec) ?s (map opReq (take 1 [op])) = Some (rsSm ?r')"
    using shardgrp_replicas_agree [OF sample_grp_codec_ok _ _ f f] by (simp add: sample_grp_rsm_def)
  with f show ?thesis by (intro exI [of _ ?r']) (simp add: op_def)
qed

end
