(* ===== verification/Service_Sample.thy ===== *)
theory Service_Sample
  imports Raft_Service Shardgrp
begin

text \<open>
  A run of the replicated service that can be computed: its steps as a function, an encoding of
  operations, and one Put that three servers elect a leader for, replicate, execute and answer.
\<close>

section \<open>Steps as a function\<close>

datatype 'r service_event =
    SNet "'r rsm_op cluster_event"
  | SDeliver nat
  | SApply nat
  | SSubmit nat 'r
  | SStart nat "'r rsm_op"

fun service_exec :: "('s, 'r, 'p) statemachine \<Rightarrow> 'r rsm_op codec \<Rightarrow> go_env \<Rightarrow> nat \<Rightarrow> ('s, 'r, 'p) service \<Rightarrow> 'r service_event \<Rightarrow>
    ('s, 'r, 'p) service option" where
  "service_exec sm cd ev n s (SNet e) =
     (case e of
        CLocal _ _ \<Rightarrow> None
      | _ \<Rightarrow> (case cluster_exec cd ev n (svCl s) e of Some c \<Rightarrow> Some (s\<lparr>svCl := c\<rparr>) | None \<Rightarrow> None))"
| "service_exec sm cd ev n s (SDeliver p) =
     (case applier (clNode (svCl s) p) of
        Some (rf, ApplierSend ms) \<Rightarrow>
          if p < n \<and> svChan s p = [] then Some (s\<lparr>svCl := set_node (svCl s) p rf, svChan := (svChan s)(p := ms)\<rparr>) else None
      | _ \<Rightarrow> None)"
| "service_exec sm cd ev n s (SApply p) =
     (case svChan s p of
        m # ms \<Rightarrow>
          (case rsm_apply sm cd (rsm_at s p) m of
             Some r \<Rightarrow>
               (case rsRf r of
                  Some rf \<Rightarrow>
                    if p < n then Some (s\<lparr>svCl := set_node (svCl s) p rf, svRsm := (svRsm s)(p := r), svChan := (svChan s)(p := ms),
                        svAt := (svAt s)(p := msg_index m), svExec := svExec s \<union> executions sm (rsSm (svRsm s p)) m\<rparr>)
                    else None
                | None \<Rightarrow> None)
           | None \<Rightarrow> None)
      | [] \<Rightarrow> None)"
| "service_exec sm cd ev n s (SSubmit p req) =
     (case submit_register (rsm_at s p) req of
        (r, Inr op) \<Rightarrow>
          if p < n \<and> rsNextSequence (svRsm s p) \<noteq> - 1 then Some (s\<lparr>svRsm := (svRsm s)(p := r), svTodo := insert (p, op) (svTodo s),
             svOps := (svOps s)(opID op \<mapsto> (req, fst ` svExec s, None))\<rparr>)
          else None
      | _ \<Rightarrow> None)"
| "service_exec sm cd ev n s (SStart p op) =
     (case (Start cd (clNode (svCl s) p) op, submit_start cd (rsm_at s p) op) of
        (Some (rf, i, t, isLeader), Some (r, res)) \<Rightarrow>
          if (p, op) \<in> svTodo s then Some (s\<lparr>svCl := set_node (svCl s) p rf, svRsm := (svRsm s)(p := r), svTodo := svTodo s - {(p, op)},
             svOps := (if isLeader then (svOps s)(opID op := map_option (\<lambda>(req, E, _). (req, E, Some i)) (svOps s (opID op)))
                       else svOps s)\<rparr>)
          else None
      | _ \<Rightarrow> None)"

fun service_runs :: "('s, 'r, 'p) statemachine \<Rightarrow> 'r rsm_op codec \<Rightarrow> go_env \<Rightarrow> nat \<Rightarrow> ('s, 'r, 'p) service \<Rightarrow> 'r service_event list \<Rightarrow>
    ('s, 'r, 'p) service option" where
  "service_runs sm cd ev n s [] = Some s"
| "service_runs sm cd ev n s (e # es) =
     (case service_exec sm cd ev n s e of Some s' \<Rightarrow> service_runs sm cd ev n s' es | None \<Rightarrow> None)"

lemma service_exec_step:
  assumes "service_exec sm cd ev n s e = Some s'"
  shows "service_step sm cd s0 n s s'"
proof (cases e)
  case (SNet x)
  obtain c where c: "cluster_exec cd ev n (svCl s) x = Some c" "\<nexists>p y. x = CLocal p y" "s' = s\<lparr>svCl := c\<rparr>"
    using assms SNet by (auto split: cluster_event.splits option.splits)
  then show ?thesis using service_step.net [OF cluster_exec_net [OF c(1,2)]] by simp
next
  case (SSubmit p req)
  then show ?thesis
    using assms by (auto split: prod.splits sum.splits if_splits simp del: fun_upd_apply intro: service_step.submit)
next
  case (SStart p op)
  then obtain rf i t isLeader r res where o: "Start cd (clNode (svCl s) p) op = Some (rf, i, t, isLeader)"
    "submit_start cd (rsm_at s p) op = Some (r, res)" "(p, op) \<in> svTodo s"
    using assms by (auto split: option.splits if_splits)
  from service_step.start [OF o(3,1,2)] show ?thesis using o SStart assms by simp
next
  case (SApply p)
  then show ?thesis
    using assms by (auto split: list.splits option.splits if_splits simp del: fun_upd_apply intro: service_step.apply_msg)
next
  case (SDeliver p)
  then show ?thesis
    using assms by (auto split: option.splits prod.splits applier_step.splits if_splits simp del: fun_upd_apply intro: service_step.deliver)
qed

lemma service_runs_steps:
  "service_runs sm cd ev n s es = Some s' \<Longrightarrow> (service_step sm cd s0 n)\<^sup>*\<^sup>* s s'"
  by (induction es arbitrary: s) (auto split: option.splits intro: converse_rtranclp_into_rtranclp service_exec_step)

text \<open>The requests of a run are those that its events submit.\<close>

lemma exec_submitted:
  assumes "service_exec sm cd ev n s e = Some s'"
  shows "submitted s' \<subseteq> submitted s \<union> {req. \<exists>p. e = SSubmit p req}"
proof (cases e)
  case (SSubmit p req)
  then obtain r op where "s' = s\<lparr>svRsm := (svRsm s)(p := r), svTodo := insert (p, op) (svTodo s), svOps := (svOps s)(opID op \<mapsto> (req, fst ` svExec s, None))\<rparr>"
    using assms by (auto split: prod.splits sum.splits if_splits)
  then show ?thesis using SSubmit by (simp add: submitted_def) blast
next
  case (SStart p op)
  then have c: "svOps s' x = svOps s x \<or> (\<exists>i. svOps s' x = map_option (\<lambda>(req, E, _). (req, E, Some i)) (svOps s x))" for x
    using assms by (auto split: option.splits if_splits) blast
  have "\<exists>E i. svOps s x = Some (req, E, i)" if "svOps s' x = Some (req, E', i')" for x req E' i'
    using that c [of x] by (cases "svOps s x") auto
  then show ?thesis unfolding submitted_def by blast
next
  case (SNet x)
  then have "svOps s' = svOps s" using assms by (cases x) (auto split: option.splits simp del: cluster_exec.simps)
  then show ?thesis by (auto simp: submitted_def)
next
  case (SDeliver p)
  then have "svOps s' = svOps s" using assms by (auto split: option.splits prod.splits applier_step.splits if_splits)
  then show ?thesis by (auto simp: submitted_def)
next
  case (SApply p)
  then have "svOps s' = svOps s" using assms by (auto split: list.splits option.splits if_splits)
  then show ?thesis by (auto simp: submitted_def)
qed

lemma runs_submitted:
  "service_runs sm cd ev n s es = Some s' \<Longrightarrow> submitted s' \<subseteq> submitted s \<union> {req. \<exists>p. SSubmit p req \<in> set es}"
proof (induction es arbitrary: s)
  case (Cons e es)
  then obtain s1 where s1: "service_exec sm cd ev n s e = Some s1" "service_runs sm cd ev n s1 es = Some s'"
    by (auto split: option.splits)
  from Cons.IH [OF s1(2)] exec_submitted [OF s1(1)] show ?case by auto
qed simp

section \<open>An encoding of operations\<close>

text \<open>Numbers in unary; an operation is the list of its fields, the request encoded by \<open>enc\<close>.\<close>

primrec enc_nats :: "nat list \<Rightarrow> bytes" where
  "enc_nats [] = []"
| "enc_nats (k # ks) = replicate k 1 @ 0 # enc_nats ks"

primrec dec_nats :: "nat \<Rightarrow> bytes \<Rightarrow> nat list" where
  "dec_nats k [] = []"
| "dec_nats k (b # bs) = (if b = 0 then k # dec_nats 0 bs else dec_nats (Suc k) bs)"

definition int_nats :: "int \<Rightarrow> nat list" where
  "int_nats i = [if i < 0 then 1 else 0, nat \<bar>i\<bar>]"

definition nats_int :: "nat \<Rightarrow> nat \<Rightarrow> int" where
  "nats_int s k = (if s = 0 then int k else - int k)"

definition string_nats :: "string \<Rightarrow> nat list" where
  "string_nats w = length w # map of_char w"

fun nats_string :: "nat list \<Rightarrow> string \<times> nat list" where
  "nats_string [] = ([], [])"
| "nats_string (k # r) = (map char_of (take k r), drop k r)"

definition op_codec :: "('r \<Rightarrow> nat list) \<Rightarrow> (nat list \<Rightarrow> 'r) \<Rightarrow> 'r rsm_op codec" where
  "op_codec enc dec =
     \<lparr>encEntry = (\<lambda>e. Some (enc_nats (int_nats (eTerm e) @
          (case eCommand e of
             None \<Rightarrow> []
           | Some op \<Rightarrow> int_nats (opServer op) @ unat (opEpoch op) # unat (opSequence op) # enc (opReq op))))),
      decEntry = (\<lambda>b. case dec_nats 0 b of
          s # k # r \<Rightarrow> Some \<lparr>eTerm = nats_int s k,
            eCommand = (case r of
                s # k # e # q # r \<Rightarrow> Some \<lparr>opServer = nats_int s k, opEpoch = of_nat e, opSequence = of_nat q, opReq = dec r\<rparr>
              | _ \<Rightarrow> None)\<rparr>
        | _ \<Rightarrow> None),
      decLegacy = (\<lambda>_. None)\<rparr>"

lemma dec_enc_nats [simp]: "dec_nats 0 (enc_nats ks) = ks"
proof (induction ks)
  case (Cons k ks)
  have "dec_nats j (replicate k 1 @ 0 # enc_nats ks) = (j + k) # dec_nats 0 (enc_nats ks)" for j by (induction k arbitrary: j) simp_all
  then show ?case using Cons by simp
qed simp

lemma nats_string_nats [simp]: "nats_string (string_nats w @ r) = (w, r)"
  by (simp add: string_nats_def comp_def)

lemma op_codec_ok:
  assumes "\<And>r. dec (enc r) = r"
  shows "codec_ok (op_codec enc dec)"
  unfolding codec_ok_def
proof
  fix e
  show "\<exists>b. encEntry (op_codec enc dec) e = Some b \<and> decEntry (op_codec enc dec) b = Some e"
    by (cases e; cases "eCommand e") (auto simp: op_codec_def int_nats_def nats_int_def assms simp del: enc_nats.simps)
qed

fun kv_req_nats :: "kv_req \<Rightarrow> nat list" where
  "kv_req_nats (ReqGet a) = 0 # string_nats (gKey a)"
| "kv_req_nats (ReqPut a) = 1 # string_nats (pKey a) @ string_nats (pValue a) @
     [unat (pVersion a), unat (pClientID a), unat (pSequence a), unat (pAck a)]"
| "kv_req_nats ReqOther = [2]"

definition nats_kv_req :: "nat list \<Rightarrow> kv_req" where
  "nats_kv_req ks =
     (case ks of
        [] \<Rightarrow> ReqOther
      | t # r \<Rightarrow>
          if t = 0 then ReqGet \<lparr>gKey = fst (nats_string r)\<rparr>
          else if t = 1 then
            (case nats_string r of (k, r) \<Rightarrow> case nats_string r of (v, r) \<Rightarrow>
               ReqPut \<lparr>pKey = k, pValue = v, pVersion = of_nat (r ! 0), pClientID = of_nat (r ! 1), pSequence = of_nat (r ! 2),
                 pAck = of_nat (r ! 3)\<rparr>)
          else ReqOther)"

lemma nats_kv_req_nats: "nats_kv_req (kv_req_nats r) = r"
  using nats_string_nats [of _ "[]"] by (cases r) (auto simp: nats_kv_req_def)

definition sample_op_code :: "kv_req rsm_op codec" where
  "sample_op_code = op_codec kv_req_nats nats_kv_req"

lemma sample_op_code_ok: "codec_ok sample_op_code"
  unfolding sample_op_code_def by (rule op_codec_ok) (rule nats_kv_req_nats)

section \<open>A Put\<close>

text \<open>Server 0 is elected by server 1, a Put is submitted to it, replicated to server 1, and executed on both.\<close>

definition boot :: "('s, 'r, 'p) statemachine \<Rightarrow> 'r rsm_op codec \<Rightarrow> 's \<Rightarrow> nat \<Rightarrow> ('s, 'r, 'p) service option" where
  "boot sm cd s0 n = do {
     rs \<leftarrow> those (map (\<lambda>p. MakeRSM sm cd sample_env False (Some [9, 0, 0, 0, 0, 0, 0, 0]) n (int p) MakePersister (-1) s0) [0..<n]);
     rfs \<leftarrow> those (map rsRf rs);
     Some \<lparr>svCl = \<lparr>clNode = (\<lambda>p. rfs ! p), clElect = (\<lambda>_ _. None), clVoteReq = {}, clVoteRep = {}, clAppend = {},
        clAppendRep = {}, clInstall = {}, clInstallRep = {}\<rparr>,
      svRsm = (\<lambda>p. rs ! p), svChan = (\<lambda>_. []), svTodo = {}, svAt = (\<lambda>_. 0), svOps = (\<lambda>_. None), svExec = {}\<rparr>
   }"

definition write_events :: "'r \<Rightarrow> 'r service_event list" where
  "write_events req =
     (let op = \<lparr>opServer = 0, opEpoch = 9, opSequence = 1, opReq = req\<rparr>;
          va = \<lparr>rvTerm = 1, rvCandidateId = 0, rvLastLogIndex = 0, rvLastLogTerm = 0\<rparr>;
          e = \<lparr>eTerm = 1, eCommand = Some op\<rparr>;
          aa = \<lparr>aeTerm = 1, aeLeaderId = 0, aePrevLogIndex = 0, aePrevLogTerm = 0, aeEntries = [e], aeLeaderCommit = 0\<rparr>;
          ar = \<lparr>aerTerm = 1, aerSuccess = True, aerStopped = False, aerConflictTerm = -1, aerConflictIndex = 0\<rparr>;
          ab = \<lparr>aeTerm = 1, aeLeaderId = 0, aePrevLogIndex = 1, aePrevLogTerm = 1, aeEntries = [], aeLeaderCommit = 1\<rparr>
      in [SNet (CElection 0), SNet (CVote 1 va), SNet (CVoteReply 0 1 va \<lparr>rvrTerm = 1, rvrVoteGranted = True\<rparr>),
          SSubmit 0 req, SStart 0 op, SNet (CSend 0 1), SNet (CAppend 1 aa), SNet (CAppendReply 0 1 aa ar),
          SDeliver 0, SApply 0, SNet (CSend 0 1), SNet (CAppend 1 ab), SDeliver 1, SApply 1])"

lemma thoseD: "those xs = Some ys \<Longrightarrow> length ys = length xs \<and> (\<forall>i<length xs. xs ! i = Some (ys ! i))"
proof (induction xs arbitrary: ys)
  case (Cons x xs)
  then show ?case by (cases x) (auto simp: nth_Cons split: nat.splits)
qed simp

lemma boot_start:
  assumes "boot sm cd s0 n = Some s"
  shows "service_start sm cd s0 n s"
proof -
  obtain rs rfs where r: "those (map (\<lambda>p. MakeRSM sm cd sample_env False (Some [9, 0, 0, 0, 0, 0, 0, 0]) n (int p) MakePersister (-1) s0) [0..<n]) = Some rs"
      "those (map rsRf rs) = Some rfs"
    and s: "s = \<lparr>svCl = \<lparr>clNode = (\<lambda>p. rfs ! p), clElect = (\<lambda>_ _. None), clVoteReq = {}, clVoteRep = {}, clAppend = {},
        clAppendRep = {}, clInstall = {}, clInstallRep = {}\<rparr>,
      svRsm = (\<lambda>p. rs ! p), svChan = (\<lambda>_. []), svTodo = {}, svAt = (\<lambda>_. 0), svOps = (\<lambda>_. None), svExec = {}\<rparr>"
    using assms by (auto simp: boot_def bind_eq_Some_conv)
  have "MakeRSM sm cd sample_env False (Some [9, 0, 0, 0, 0, 0, 0, 0]) n (int p) MakePersister (-1) s0 = Some (rs ! p) \<and> rsRf (rs ! p) = Some (rfs ! p)"
    if "p < n" for p
    using thoseD [OF r(1)] thoseD [OF r(2)] that by simp
  then show ?thesis unfolding service_start_def s by auto
qed

definition kv_start :: "(kvserver, kv_req, kv_res) service" where
  "kv_start = the (boot (kv_sm sample_kv_codec) sample_op_code StartKVServer 3)"

definition kv_written :: "(kvserver, kv_req, kv_res) service" where
  "kv_written = the (service_runs (kv_sm sample_kv_codec) sample_op_code (run_env 1) 3 kv_start (write_events (ReqPut (sample_put 3 1 0))))"

lemma kv_start_start: "service_start (kv_sm sample_kv_codec) sample_op_code StartKVServer 3 kv_start"
proof -
  have "boot (kv_sm sample_kv_codec) sample_op_code StartKVServer 3 \<noteq> None" by code_simp
  then show ?thesis using boot_start unfolding kv_start_def by fastforce
qed

lemma kv_written_some:
  "service_runs (kv_sm sample_kv_codec) sample_op_code (run_env 1) 3 kv_start (write_events (ReqPut (sample_put 3 1 0))) \<noteq> None"
  by code_simp

lemma kv_start_written: "(service_step (kv_sm sample_kv_codec) sample_op_code StartKVServer 3)\<^sup>*\<^sup>* kv_start kv_written"
  using kv_written_some service_runs_steps unfolding kv_written_def by fastforce

lemma kv_written_submitted: "submitted kv_written \<subseteq> {ReqPut (sample_put 3 1 0)}"
proof -
  have "service_runs (kv_sm sample_kv_codec) sample_op_code (run_env 1) 3 kv_start (write_events (ReqPut (sample_put 3 1 0))) = Some kv_written"
    using kv_written_some unfolding kv_written_def by simp
  from runs_submitted [OF this] show ?thesis
    using kv_start_start by (auto simp: submitted_def service_start_def write_events_def Let_def)
qed

lemma kv_written_answer:
  "map_option snd (submit_wait (rsm_at kv_written 0) (0, 9, 1) 1 WaitResult) = Some (Inl (OK, Some (ResPut \<lparr>prErr = OK\<rparr>)))"
  by code_simp

section \<open>A Put to a group of the sharded service\<close>

fun rpc_nats :: "rpc_args \<Rightarrow> nat list" where
  "rpc_nats (GetArgs a) = 0 # string_nats (gKey a)"
| "rpc_nats (PutArgs a) = 1 # string_nats (pKey a) @ string_nats (pValue a) @
     [unat (pVersion a), unat (pClientID a), unat (pSequence a), unat (pAck a)]"
| "rpc_nats (FreezeArgs a) = 2 # int_nats (fzShard a) @ int_nats (fzNum a)"
| "rpc_nats (InstallArgs a) = 3 # int_nats (inShard a) @ int_nats (inNum a) @ map unat (inState a)"
| "rpc_nats (DeleteArgs a) = 4 # int_nats (dlShard a) @ int_nats (dlNum a)"
| "rpc_nats OtherArgs = [5]"

definition nats_rpc :: "nat list \<Rightarrow> rpc_args" where
  "nats_rpc ks =
     (case ks of
        [] \<Rightarrow> OtherArgs
      | t # r \<Rightarrow>
          if t = 0 then GetArgs \<lparr>gKey = fst (nats_string r)\<rparr>
          else if t = 1 then
            (case nats_string r of (k, r) \<Rightarrow> case nats_string r of (v, r) \<Rightarrow>
               PutArgs \<lparr>pKey = k, pValue = v, pVersion = of_nat (r ! 0), pClientID = of_nat (r ! 1), pSequence = of_nat (r ! 2),
                 pAck = of_nat (r ! 3)\<rparr>)
          else if t = 2 then FreezeArgs \<lparr>fzShard = nats_int (r ! 0) (r ! 1), fzNum = nats_int (r ! 2) (r ! 3)\<rparr>
          else if t = 3 then InstallArgs \<lparr>inShard = nats_int (r ! 0) (r ! 1), inState = map of_nat (drop 4 r), inNum = nats_int (r ! 2) (r ! 3)\<rparr>
          else if t = 4 then DeleteArgs \<lparr>dlShard = nats_int (r ! 0) (r ! 1), dlNum = nats_int (r ! 2) (r ! 3)\<rparr>
          else OtherArgs)"

lemma nats_rpc_nats: "nats_rpc (rpc_nats r) = r"
  using nats_string_nats [of _ "[]"] by (cases r) (auto simp: nats_rpc_def int_nats_def nats_int_def comp_def)

definition sample_rpc_code :: "rpc_args rsm_op codec" where
  "sample_rpc_code = op_codec rpc_nats nats_rpc"

lemma sample_rpc_code_ok: "codec_ok sample_rpc_code"
  unfolding sample_rpc_code_def by (rule op_codec_ok) (rule nats_rpc_nats)

definition grp_start :: "(grp_server, rpc_args, rpc_reply) service" where
  "grp_start = the (boot (grp_sm sample_grp_codec) sample_rpc_code (StartServerShardGrp Gid1) 3)"

definition grp_written :: "(grp_server, rpc_args, rpc_reply) service" where
  "grp_written = the (service_runs (grp_sm sample_grp_codec) sample_rpc_code (run_env 1) 3 grp_start (write_events (PutArgs (sample_put 3 1 0))))"

lemma grp_start_start: "service_start (grp_sm sample_grp_codec) sample_rpc_code (StartServerShardGrp Gid1) 3 grp_start"
proof -
  have "boot (grp_sm sample_grp_codec) sample_rpc_code (StartServerShardGrp Gid1) 3 \<noteq> None" by code_simp
  then show ?thesis using boot_start unfolding grp_start_def by fastforce
qed

lemma grp_written_some:
  "service_runs (grp_sm sample_grp_codec) sample_rpc_code (run_env 1) 3 grp_start (write_events (PutArgs (sample_put 3 1 0))) \<noteq> None"
  by code_simp

lemma grp_start_written:
  "(service_step (grp_sm sample_grp_codec) sample_rpc_code (StartServerShardGrp Gid1) 3)\<^sup>*\<^sup>* grp_start grp_written"
  using grp_written_some service_runs_steps unfolding grp_written_def by fastforce

lemma grp_written_submitted: "submitted grp_written \<subseteq> {PutArgs (sample_put 3 1 0)}"
proof -
  have "service_runs (grp_sm sample_grp_codec) sample_rpc_code (run_env 1) 3 grp_start (write_events (PutArgs (sample_put 3 1 0))) = Some grp_written"
    using grp_written_some unfolding grp_written_def by simp
  from runs_submitted [OF this] show ?thesis
    using grp_start_start by (auto simp: submitted_def service_start_def write_events_def Let_def)
qed

lemma grp_written_answer:
  "map_option snd (submit_wait (rsm_at grp_written 0) (0, 9, 1) 1 WaitResult) = Some (Inl (OK, Some (PutReply \<lparr>prErr = OK\<rparr>)))"
  by code_simp

end
