(* ===== verification/Service_Linear.thy ===== *)
theory Service_Linear
  imports Service_Steps Service_Sample
begin

text \<open>
  A replicated service behaves like one copy of its state machine: the executed operations form one
  sequence, which only grows at its end, in which each submitted operation is at most once, and from
  which the state of every server and the reply to every submitter follow.
\<close>

section \<open>One sequence of operations\<close>

primrec replies :: "('s, 'r, 'p) statemachine \<Rightarrow> 's \<Rightarrow> 'r list \<Rightarrow> 'p list option" where
  "replies sm st [] = Some []"
| "replies sm st (req # reqs) = do { (st', p) \<leftarrow> smDoOp sm st req; ps \<leftarrow> replies sm st' reqs; Some (p # ps) }"

definition reqs_of :: "('r rsm_op \<times> 'p) list \<Rightarrow> 'r list" where
  "reqs_of L = map (\<lambda>(op, _). opReq op) L"

definition linearizes :: "('s, 'r, 'p) statemachine \<Rightarrow> 's \<Rightarrow> nat \<Rightarrow> ('s, 'r, 'p) service \<Rightarrow> ('r rsm_op \<times> 'p) list \<Rightarrow> bool" where
  "linearizes sm s0 n s L \<longleftrightarrow>
     svExec s = {(Suc i, L ! i) | i. i < length L} \<and>
     replies sm s0 (reqs_of L) = Some (map snd L) \<and>
     distinct (map (\<lambda>(op, _). opID op) L) \<and>
     (\<forall>(op, _) \<in> set L. \<exists>E i. svOps s (opID op) = Some (opReq op, E, i)) \<and>
     (\<forall>p<n. svAt s p \<le> length L \<and> replay sm s0 (reqs_of (take (svAt s p) L)) = Some (rsSm (svRsm s p))) \<and>
     (\<forall>p<n. \<forall>x t w r rep. submit_wait (rsm_at s p) x t w = Some (r, Inl (OK, Some rep)) \<longrightarrow>
        (\<exists>op. opID op = x \<and> (op, rep) \<in> set L))"

lemma linearizes_answer:
  assumes "linearizes sm s0 n s L" "p < n" "map_option snd (submit_wait (rsm_at s p) x t w) = Some (Inl (OK, Some rep))"
  shows "\<exists>op. opID op = x \<and> (op, rep) \<in> set L"
proof -
  obtain r where "submit_wait (rsm_at s p) x t w = Some (r, Inl (OK, Some rep))" using assms(3) by auto
  with assms(1,2) show ?thesis unfolding linearizes_def by blast
qed

lemma replies_snoc:
  "replay sm s0 xs = Some st \<Longrightarrow> replies sm s0 xs = Some ps \<Longrightarrow> smDoOp sm st y = Some (st', p) \<Longrightarrow>
     replies sm s0 (xs @ [y]) = Some (ps @ [p])"
  by (induction xs arbitrary: s0 ps) (auto simp: bind_eq_Some_conv)

text \<open>The executions are those of one list.\<close>

lemma exec_unique:
  assumes "service_inv sm cd s0 n h s" "(j, op, rep) \<in> svExec s" "(j, op', rep') \<in> svExec s"
  shows "op' = op \<and> rep' = rep"
proof -
  note I = service_invD [OF assms(1)]
  obtain P st st' where P: "chosen_prefix n h P" "length P = Suc j" "eCommand (P ! j) = Some op"
    "replay sm s0 (requests (butlast P)) = Some st" "smDoOp sm st (opReq op) = Some (st', rep)"
    using I(5) [OF assms(2)] unfolding exec_ok_def by blast
  obtain Q su su' where Q: "chosen_prefix n h Q" "length Q = Suc j" "eCommand (Q ! j) = Some op'"
    "replay sm s0 (requests (butlast Q)) = Some su" "smDoOp sm su (opReq op') = Some (su', rep')"
    using I(5) [OF assms(3)] unfolding exec_ok_def by blast
  have "P = Q" using prefix_unique [OF followsD(1) [OF I(1)] P(1) Q(1)] P(2) Q(2) by simp
  then show ?thesis using P Q by auto
qed

lemma exec_list:
  assumes "service_inv sm cd s0 n h s"
  shows "\<exists>L. svExec s = {(Suc i, L ! i) | i. i < length L}"
proof -
  note I = service_invD [OF assms]
  let ?X = "fst ` svExec s"
  define N where "N = card ?X"
  have "finite ?X" using I(7) by simp
  have down: "{1..j} \<subseteq> ?X" if "j \<in> ?X" for j using that I(6) by fastforce
  have pos: "0 < j" if "j \<in> ?X" for j using that I(5) by (fastforce simp: exec_ok_def)
  have le: "j \<le> N" if "j \<in> ?X" for j using card_mono [OF \<open>finite ?X\<close> down [OF that]] by (simp add: N_def)
  then have "?X \<subseteq> {1..N}" using pos by fastforce
  then have X: "?X = {1..N}" by (rule card_subset_eq [OF finite_atLeastAtMost]) (simp add: N_def)
  define L where "L = map (\<lambda>i. SOME y. (Suc i, y) \<in> svExec s) [0..<N]"
  have in_L: "(Suc i, L ! i) \<in> svExec s" if "i < N" for i
  proof -
    have "Suc i \<in> ?X" using X that by simp
    then obtain y where "(Suc i, y) \<in> svExec s" by force
    then show ?thesis using someI [of "\<lambda>y. (Suc i, y) \<in> svExec s" y] that by (simp add: L_def)
  qed
  have "svExec s \<subseteq> {(Suc i, L ! i) | i. i < length L}"
  proof
    fix x
    assume x: "x \<in> svExec s"
    obtain j op rep where e: "x = (j, op, rep)" by (cases x)
    have "j \<in> ?X" using x e by force
    then obtain i where i: "j = Suc i" "i < N" using X by (cases j) auto
    have "L ! i = (op, rep)" using exec_unique [OF assms, of j op rep "fst (L ! i)" "snd (L ! i)"] x e in_L [OF i(2)] i(1) by (simp add: prod_eq_iff)
    then show "x \<in> {(Suc i, L ! i) | i. i < length L}" using e i by (auto simp: L_def)
  qed
  moreover have "length L = N" by (simp add: L_def)
  ultimately show ?thesis using in_L by (intro exI [of _ L]) auto
qed

lemma prefix_requests:
  assumes "service_inv sm cd s0 n h s" "svExec s = {(Suc i, L ! i) | i. i < length L}"
    "chosen_prefix n h Q" "length Q = Suc k" "k \<le> length L"
  shows "requests Q = reqs_of (take k L)"
proof (rule nth_equalityI)
  note I = service_invD [OF assms(1)]
  show "length (requests Q) = length (reqs_of (take k L))" using assms(4,5) by (simp add: requests_def reqs_of_def)
  fix i
  assume "i < length (requests Q)"
  then have i: "i < k" using assms(4) by (simp add: requests_def)
  obtain op rep where o: "L ! i = (op, rep)" by (cases "L ! i")
  have "(Suc i, op, rep) \<in> svExec s" using assms(2,5) i o by auto
  then obtain P where P: "chosen_prefix n h P" "length P = Suc (Suc i)" "eCommand (P ! Suc i) = Some op"
    using I(5) unfolding exec_ok_def by blast
  have "P = take (Suc (Suc i)) Q" using prefix_agree [OF followsD(1) [OF I(1)] P(1) assms(3)] P(2) assms(4) i by simp
  then have "Q ! Suc i = P ! Suc i" by simp
  then show "requests Q ! i = reqs_of (take k L) ! i"
    using P(3) o i assms(4,5) by (simp add: requests_def reqs_of_def nth_tl)
qed

lemma exec_replies:
  assumes "service_inv sm cd s0 n h s" "svExec s = {(Suc i, L ! i) | i. i < length L}" "k \<le> length L"
  shows "replies sm s0 (reqs_of (take k L)) = Some (map snd (take k L))"
  using assms(3)
proof (induction k)
  case (Suc k)
  obtain op rep where o: "L ! k = (op, rep)" by (cases "L ! k")
  have "(Suc k, op, rep) \<in> svExec s" using assms(2) Suc.prems o by auto
  then obtain P st st' where P: "chosen_prefix n h P" "length P = Suc (Suc k)"
    "replay sm s0 (requests (butlast P)) = Some st" "smDoOp sm st (opReq op) = Some (st', rep)"
    using service_invD(5) [OF assms(1)] unfolding exec_ok_def by blast
  have "requests (butlast P) = reqs_of (take k L)"
    using prefix_requests [OF assms(1,2) prefix_butlast [OF P(1)], of k] P(2) Suc.prems by simp
  then have "replies sm s0 (reqs_of (take k L) @ [opReq op]) = Some (map snd (take k L) @ [rep])"
    using replies_snoc P(3,4) Suc by fastforce
  then show ?case using Suc.prems o by (simp add: take_Suc_conv_app_nth reqs_of_def)
qed (simp add: reqs_of_def)

lemma service_linear:
  assumes "service_inv sm cd s0 n h s"
  shows "\<exists>L. linearizes sm s0 n s L"
proof -
  note I = service_invD [OF assms]
  obtain L where L: "svExec s = {(Suc i, L ! i) | i. i < length L}" using exec_list [OF assms] by blast
  have reg: "\<exists>E. svOps s (opID (fst (L ! i))) = Some (opReq (fst (L ! i)), E, Some (int (Suc i)))" if "i < length L" for i
  proof -
    have "(Suc i, fst (L ! i), snd (L ! i)) \<in> svExec s" using L that by auto
    then show ?thesis using I(5) unfolding exec_ok_def by blast
  qed
  have "distinct (map (\<lambda>(op, _). opID op) L)"
    unfolding distinct_conv_nth
  proof (intro allI impI)
    fix i j
    assume a: "i < length (map (\<lambda>(op, _). opID op) L)" "j < length (map (\<lambda>(op, _). opID op) L)" "i \<noteq> j"
    show "map (\<lambda>(op, _). opID op) L ! i \<noteq> map (\<lambda>(op, _). opID op) L ! j"
      using reg [of i] reg [of j] a by (auto simp: case_prod_beta)
  qed
  moreover have "\<forall>(op, _) \<in> set L. \<exists>E i. svOps s (opID op) = Some (opReq op, E, i)"
    using reg by (fastforce simp: in_set_conv_nth)
  moreover have "svAt s p \<le> length L \<and> replay sm s0 (reqs_of (take (svAt s p) L)) = Some (rsSm (svRsm s p))" if p: "p < n" for p
  proof -
    obtain P where P: "chosen_prefix n h P" "length P = Suc (svAt s p)" "replay sm s0 (requests P) = Some (rsSm (svRsm s p))"
      and sub: "{1..svAt s p} \<subseteq> fst ` svExec s" using I(2) [OF p] unfolding server_ok_def state_at_def by blast
    have "svAt s p \<le> length L" using sub L by (cases "svAt s p") force+
    then show ?thesis using prefix_requests [OF assms L P(1,2)] P(3) by simp
  qed
  moreover have "\<exists>op. opID op = x \<and> (op, rep) \<in> set L"
    if w: "p < n" "submit_wait (rsm_at s p) x t w = Some (r, Inl (OK, Some rep))" for p x t w r rep
  proof -
    have "rsWaiters (svRsm s p) x = Some (Some rep)" using submit_wait_OK(1) [OF w(2)] by (simp add: rsm_at_def)
    then obtain j op where "opID op = x" "(j, op, rep) \<in> svExec s" using I(10) w(1) unfolding waiters_ok_def by blast
    moreover from this have "(op, rep) \<in> set L" using L by auto
    ultimately show ?thesis by blast
  qed
  ultimately show ?thesis
    unfolding linearizes_def using L exec_replies [OF assms L, of "length L"] by (intro exI [of _ L]) (simp; blast)
qed

text \<open>What was executed stays, so the sequence grows at its end.\<close>

lemma exec_grows: "(service_step sm cd s0 n)\<^sup>*\<^sup>* s s' \<Longrightarrow> svExec s \<subseteq> svExec s'"
  by (induction rule: rtranclp_induct) (auto elim!: service_step.cases)

lemma linearizes_grows:
  assumes "linearizes sm s0 n s L" "linearizes sm s0 n s' L'" "svExec s \<subseteq> svExec s'"
  shows "\<exists>M. L' = L @ M"
proof -
  have e: "{(Suc i, L ! i) | i. i < length L} \<subseteq> {(Suc i, L' ! i) | i. i < length L'}" using assms unfolding linearizes_def by simp
  have n: "i < length L' \<and> L ! i = L' ! i" if "i < length L" for i using e that by blast
  have "length L \<le> length L'" using n by (metis le_less_linear less_irrefl)
  then have "take (length L) L' = L" using n by (intro nth_equalityI) simp_all
  then show ?thesis by (metis append_take_drop_id)
qed

section \<open>No panics\<close>

text \<open>
  The sections of the replicated state machine that can panic: the applier on the next message of its
  channel, the call of \<^verbatim>\<open>Start\<close>, and the restart of a server from its disk.
\<close>

definition service_ready :: "('s, 'r, 'p) statemachine \<Rightarrow> 'r rsm_op codec \<Rightarrow> 's \<Rightarrow> nat \<Rightarrow> ('s, 'r, 'p) service \<Rightarrow> bool" where
  "service_ready sm cd s0 n s \<longleftrightarrow> (\<forall>p<n.
     (\<forall>m ms. svChan s p = m # ms \<longrightarrow> rsm_apply sm cd (rsm_at s p) m \<noteq> None) \<and>
     (\<forall>op. submit_start cd (rsm_at s p) op \<noteq> None) \<and>
     (\<forall>ev eb mrs. sizes_ok (clNode (svCl s) p) \<longrightarrow>
        MakeRSM sm cd ev False (Some eb) n (int p) (persister (clNode (svCl s) p)) mrs s0 \<noteq> None))"

context replicated_service
begin

lemma snapshot_restores:
  assumes "ok s0" "snap_ok sm s0 n h X i data"
  shows "(if length data > 0 then smRestore sm st data else Some st) \<noteq> None"
  using assms(2) Restore_snapshot_of(2) [OF state_ok [OF assms(1)]] unfolding snap_ok_def by auto

lemma applier_ready:
  assumes "codec_ok cd" "ok s0" "service_inv sm cd s0 n h s" "p < n" "svChan s p = m # ms"
    and total: "\<And>req st. req \<in> submitted s \<Longrightarrow> ok st \<Longrightarrow> smDoOp sm st req \<noteq> None"
  shows "rsm_apply sm cd (rsm_at s p) m \<noteq> None"
proof -
  note I = service_invD [OF assms(3)]
  have sv: "state_at sm s0 n h (svAt s p) (rsSm (svRsm s p))"
    and ch: "\<exists>e. chan_ok sm s0 n h (svOps s) (fst ` svExec s) (svAt s p) (m # ms) e"
    using I(2) [OF assms(4)] assms(5) unfolding server_ok_def by auto
  show ?thesis
  proof (cases "SnapshotValid m")
    case True
    then have "snap_ok sm s0 n h (fst ` svExec s) (SnapshotIndex m) (mSnapshot m)" using ch by auto
    from snapshot_restores [OF assms(2) this, of "rsSm (rsm_at s p)"] show ?thesis
      using True by (auto simp: rsm_apply_def bind_eq_Some_conv split: if_splits)
  next
    case False
    then have m: "CommandValid m" "command_ok n h (svOps s) (Suc (svAt s p)) (mCommand m)" using ch by auto
    then obtain op E where op: "mCommand m = Some op" "svOps s (opID op) = Some (opReq op, E, Some (int (Suc (svAt s p))))"
      unfolding command_ok_def registered_def by blast
    have k: "ok (rsSm (rsm_at s p))" using state_ok [OF assms(2) sv] by (simp add: rsm_at_def)
    have "opReq op \<in> submitted s" using op(2) unfolding submitted_def by blast
    then have "smDoOp sm (rsSm (rsm_at s p)) (opReq op) \<noteq> None" using k by (rule total)
    moreover have "raft_inv cd rf" if "rsRf (rsm_at s p) = Some rf" for rf
      using node_relD(1) [OF followsD(2) [OF I(1) assms(4)]] that by (simp add: rsm_at_def)
    ultimately show ?thesis using command_total [OF k False m(1) op(1) _ assms(1)] by blast
  qed
qed

lemma inv_ready:
  assumes "codec_ok cd" "ok s0" "service_inv sm cd s0 n h s"
    and total: "\<And>req st. req \<in> submitted s \<Longrightarrow> ok st \<Longrightarrow> smDoOp sm st req \<noteq> None"
  shows "service_ready sm cd s0 n s"
proof -
  note I = service_invD [OF assms(3)]
  have "submit_start cd (rsm_at s p) op \<noteq> None" if p: "p < n" for p op
    using Start_inv [OF assms(1) node_relD(1) [OF followsD(2) [OF I(1) p]], of op] by (auto simp: submit_start_def rsm_at_def Let_def)
  moreover have "MakeRSM sm cd ev False (Some eb) n (int p) (persister (clNode (svCl s) p)) mrs s0 \<noteq> None"
    if p: "p < n" and sz: "sizes_ok (clNode (svCl s) p)" for p ev eb mrs
  proof -
    note rel = followsD(2) [OF I(1) p]
    have inv: "raft_inv cd (clNode (svCl s) p)" using node_relD(1) [OF rel] .
    have mk: "Make cd ev n (int p) (persister (clNode (svCl s) p)) \<noteq> None"
      using restart_eq [OF assms(1) inv sz, of ev] node_relD(2,3) [OF rel] by auto
    have sn: "snap_ok sm s0 n h (fst ` svExec s) (lastIncludedIndex (clNode (svCl s) p)) (ReadSnapshot (persister (clNode (svCl s) p)))"
      using I(2) [OF p] inv by (simp add: server_ok_def raft_inv_def saved_ok_def ReadSnapshot_def)
    show ?thesis using snapshot_restores [OF assms(2) sn, of s0] mk by (auto simp: MakeRSM_def Let_def)
  qed
  moreover have "rsm_apply sm cd (rsm_at s p) m \<noteq> None" if "p < n" "svChan s p = m # ms" for p m ms
    by (rule applier_ready [OF assms(1-3) that total])
  ultimately show ?thesis unfolding service_ready_def by blast
qed

text \<open>Both for every run from the start.\<close>

lemma run_ready:
  assumes "codec_ok cd" "ok s0" "service_start sm cd s0 n s" "(service_step sm cd s0 n)\<^sup>*\<^sup>* s s'"
    and total: "\<And>req st. req \<in> submitted s' \<Longrightarrow> ok st \<Longrightarrow> smDoOp sm st req \<noteq> None"
  shows "service_ready sm cd s0 n s'"
proof -
  obtain h where "service_inv sm cd s0 n h s'"
    using service_run_inv [OF assms(4,1,2) service_start_inv [OF assms(1-3)]] by blast
  from inv_ready [OF assms(1,2) this total] show ?thesis .
qed

lemma run_linear:
  assumes "codec_ok cd" "ok s0" "service_start sm cd s0 n s" "(service_step sm cd s0 n)\<^sup>*\<^sup>* s s1" "(service_step sm cd s0 n)\<^sup>*\<^sup>* s1 s2"
  shows "\<exists>L M. linearizes sm s0 n s1 L \<and> linearizes sm s0 n s2 (L @ M)"
proof -
  obtain h where h: "service_inv sm cd s0 n h s1"
    using service_run_inv [OF assms(4,1,2) service_start_inv [OF assms(1-3)]] by blast
  obtain h' where h': "service_inv sm cd s0 n h' s2" using service_run_inv [OF assms(5,1,2) h] by blast
  obtain L L' where L: "linearizes sm s0 n s1 L" "linearizes sm s0 n s2 L'" using service_linear [OF h] service_linear [OF h'] by blast
  then show ?thesis using linearizes_grows [OF L exec_grows [OF assms(5)]] by blast
qed

end

section \<open>The replicated key/value service\<close>

lemma kv_start_ok: "kv_codec_ok kc \<Longrightarrow> kv_service_ok kc StartKVServer"
  by (simp add: kv_service_ok_def kv_finite_def StartKVServer_def table_finite_def)


text \<open>
  C11. The replicated key/value service never panics: in every run in which only Gets and Puts were
  submitted, the applier can handle the next message of its channel, a submitter can call \<^verbatim>\<open>Start\<close>,
  and a server that crashes can be restarted from its disk.
\<close>

theorem kvraft_never_panics:
  assumes "codec_ok cd" "kv_codec_ok kc" "service_start (kv_sm kc) cd StartKVServer n s0"
    and "(service_step (kv_sm kc) cd StartKVServer n)\<^sup>*\<^sup>* s0 s" "ReqOther \<notin> submitted s"
  shows "service_ready (kv_sm kc) cd StartKVServer n s"
proof (rule kvrep.run_ready [OF assms(1) kv_start_ok [OF assms(2)] assms(3,4)])
  fix req st
  assume "req \<in> submitted s"
  then have "req \<noteq> ReqOther" using assms(5) by blast
  then show "smDoOp (kv_sm kc) st req \<noteq> None" by (cases req) (auto simp: kv_sm_def KVServer_DoOp_def split: prod.splits)
qed

lemmas kv_sample = sample_op_code_ok sample_kv_codec_ok kv_start_start kv_start_written


theorem kvraft_never_panics_witness: "service_ready (kv_sm sample_kv_codec) sample_op_code StartKVServer 3 kv_written"
  using kvraft_never_panics [OF kv_sample] kv_written_submitted by blast

section \<open>A replica group of the sharded service\<close>

lemma grp_start_ok: "grp_codec_ok gc \<Longrightarrow> grp_service_ok gc (StartServerShardGrp gid)"
  using StartServerShardGrp_ok by (simp add: grp_service_ok_def)

definition valid_request :: "grp_codec \<Rightarrow> rpc_args \<Rightarrow> bool" where
  "valid_request gc req \<longleftrightarrow> 0 \<le> target_shard req \<and> target_shard req < int NShards \<and> req \<noteq> OtherArgs \<and>
     (case req of InstallArgs a \<Rightarrow> decodeShardTransfer gc (inState a) \<noteq> None | _ \<Rightarrow> True)"

text \<open>
  C9. A replica group of the sharded service is linearizable, its Freeze, Install and Delete
  operations included: in every run of its servers there is one sequence of executed operations, which
  only grows at its end, from which the shards of every server and the reply to every submitter follow.
\<close>

theorem shardgrp_linearizable:
  assumes "codec_ok cd" "grp_codec_ok gc" "service_start (grp_sm gc) cd (StartServerShardGrp gid) n s0"
    and "(service_step (grp_sm gc) cd (StartServerShardGrp gid) n)\<^sup>*\<^sup>* s0 s"
    and "(service_step (grp_sm gc) cd (StartServerShardGrp gid) n)\<^sup>*\<^sup>* s s'"
  shows "\<exists>L M. linearizes (grp_sm gc) (StartServerShardGrp gid) n s L \<and> linearizes (grp_sm gc) (StartServerShardGrp gid) n s' (L @ M)"
  by (rule grprep.run_linear [OF assms(1) grp_start_ok [OF assms(2)] assms(3-5)])

text \<open>
  C27. The servers of a group never panic, in any run in which the submitted operations are for
  existing shards and the data to install is what some group has frozen.
\<close>

theorem shardgrp_never_panics:
  assumes "codec_ok cd" "grp_codec_ok gc" "service_start (grp_sm gc) cd (StartServerShardGrp gid) n s0"
    and "(service_step (grp_sm gc) cd (StartServerShardGrp gid) n)\<^sup>*\<^sup>* s0 s" "submitted s \<subseteq> Collect (valid_request gc)"
  shows "service_ready (grp_sm gc) cd (StartServerShardGrp gid) n s"
proof (rule grprep.run_ready [OF assms(1) grp_start_ok [OF assms(2)] assms(3,4)])
  fix req st
  assume a: "req \<in> submitted s" "grp_service_ok gc st"
  then have v: "valid_request gc req" using assms(5) by blast
  have "\<exists>kv' rep. ShardGrp_DoOp gc st req = Some (kv', rep)"
    by (rule DoOp_total) (use v a(2) assms(2) in \<open>auto simp: valid_request_def grp_service_ok_def\<close>)
  then show "smDoOp (grp_sm gc) st req \<noteq> None" by (auto simp: grp_sm_def)
qed

lemmas grp_sample = sample_rpc_code_ok sample_grp_codec_ok grp_start_start grp_start_written

theorem shardgrp_linearizable_witness:
  "\<exists>L op. linearizes (grp_sm sample_grp_codec) (StartServerShardGrp Gid1) 3 grp_written L \<and> opID op = (0, 9, 1) \<and>
     (op, PutReply \<lparr>prErr = OK\<rparr>) \<in> set L"
proof -
  obtain L where L: "linearizes (grp_sm sample_grp_codec) (StartServerShardGrp Gid1) 3 grp_written L"
    using shardgrp_linearizable [OF grp_sample rtranclp.rtrancl_refl] by blast
  then show ?thesis using linearizes_answer [OF L _ grp_written_answer] by auto
qed

theorem shardgrp_never_panics_witness: "service_ready (grp_sm sample_grp_codec) sample_rpc_code (StartServerShardGrp Gid1) 3 grp_written"
proof (rule shardgrp_never_panics [OF grp_sample])
  have "valid_request sample_grp_codec (PutArgs (sample_put 3 1 0))" by code_simp
  then show "submitted grp_written \<subseteq> Collect (valid_request sample_grp_codec)" using grp_written_submitted by blast
qed

end
