(* ===== verification/Kvsrv.thy ===== *)
theory Kvsrv
  imports Calls
begin

text \<open>
  The single key/value server, \<^verbatim>\<open>kvsrv1/server.go\<close>, and its clerk, \<^verbatim>\<open>kvsrv1/client.go\<close>.
\<close>

section \<open>The server\<close>

record kvsrv_entry =
  enValue :: string
  enVersion :: Tversion

record kvsrv =
  kvData :: "string \<rightharpoonup> kvsrv_entry"

definition MakeKVServer :: kvsrv where
  "MakeKVServer = \<lparr>kvData = (\<lambda>_. None)\<rparr>"

definition Kvsrv_Get :: "kvsrv \<Rightarrow> get_args \<Rightarrow> get_reply" where
  "Kvsrv_Get kv args =
     (case kvData kv (gKey args) of
        None \<Rightarrow> get_error ErrNoKey
      | Some item \<Rightarrow> \<lparr>grValue = enValue item, grVersion = enVersion item, grErr = OK\<rparr>)"

definition Kvsrv_Put :: "kvsrv \<Rightarrow> put_args \<Rightarrow> kvsrv \<times> put_reply" where
  "Kvsrv_Put kv args =
     (case kvData kv (pKey args) of
        None \<Rightarrow>
          if pVersion args = 0
          then (kv\<lparr>kvData := (kvData kv)(pKey args \<mapsto> \<lparr>enValue = pValue args, enVersion = 1\<rparr>)\<rparr>,
                \<lparr>prErr = OK\<rparr>)
          else (kv, \<lparr>prErr = ErrNoKey\<rparr>)
      | Some item \<Rightarrow>
          if enVersion item \<noteq> pVersion args then (kv, \<lparr>prErr = ErrVersion\<rparr>)
          else (kv\<lparr>kvData := (kvData kv)(pKey args \<mapsto>
                  item\<lparr>enValue := pValue args, enVersion := enVersion item + 1\<rparr>)\<rparr>,
                \<lparr>prErr = OK\<rparr>))"

section \<open>The clerk\<close>

text \<open>
  The clerk's state is the name of the server. The loops run for at most \<open>n\<close> turns.
\<close>

primrec KvsrvClerk_Get :: "nat \<Rightarrow> string \<Rightarrow> string \<Rightarrow> (string \<times> Tversion \<times> Err) rpc_prog" where
  "KvsrvClerk_Get 0 server key = Exhausted"
| "KvsrvClerk_Get (Suc n) server key =
     Call (server, GetArgs \<lparr>gKey = key\<rparr>) (\<lambda>r.
       case as_get r of
         None \<Rightarrow> KvsrvClerk_Get n server key
       | Some reply \<Rightarrow>
           if grErr reply = OK then Ret (grValue reply, grVersion reply, OK)
           else if grErr reply = ErrNoKey then Ret ([], 0, ErrNoKey)
           else KvsrvClerk_Get n server key)"

primrec KvsrvClerk_Put_loop :: "nat \<Rightarrow> string \<Rightarrow> put_args \<Rightarrow> bool \<Rightarrow> Err rpc_prog" where
  "KvsrvClerk_Put_loop 0 server args resent = Exhausted"
| "KvsrvClerk_Put_loop (Suc n) server args resent =
     Call (server, PutArgs args) (\<lambda>r.
       case as_put r of
         None \<Rightarrow> KvsrvClerk_Put_loop n server args True
       | Some reply \<Rightarrow>
           if prErr reply = OK then Ret OK
           else if prErr reply = ErrNoKey then Ret ErrNoKey
           else if prErr reply = ErrVersion then Ret (if resent then ErrMaybe else ErrVersion)
           else KvsrvClerk_Put_loop n server args True)"

definition KvsrvClerk_Put :: "nat \<Rightarrow> string \<Rightarrow> string \<Rightarrow> string \<Rightarrow> Tversion \<Rightarrow> Err rpc_prog" where
  "KvsrvClerk_Put n server key val version =
     KvsrvClerk_Put_loop n server \<lparr>pKey = key, pValue = val, pVersion = version,
       pClientID = 0, pSequence = 0, pAck = 0\<rparr> False"

section \<open>The state of a key\<close>

text \<open>A missing key is in the state the specification starts with.\<close>

definition kvsrv_abs :: "kvsrv \<Rightarrow> string \<Rightarrow> kv_state" where
  "kvsrv_abs kv k =
     (case kvData kv k of
        None \<Rightarrow> KvModel_Init
      | Some e \<Rightarrow> \<lparr>ksValue = enValue e, ksVersion = enVersion e\<rparr>)"

lemma kvsrv_abs_update [simp]:
  "kvsrv_abs (kv\<lparr>kvData := (kvData kv)(k \<mapsto> e)\<rparr>) k' =
     (if k' = k then \<lparr>ksValue = enValue e, ksVersion = enVersion e\<rparr> else kvsrv_abs kv k')"
  by (simp add: kvsrv_abs_def)

lemma entry_update [simp]: "e\<lparr>enValue := v, enVersion := n\<rparr> = \<lparr>enValue = v, enVersion = n\<rparr>"
  by (cases e) simp

lemma Kvsrv_Put_cases:
  "Kvsrv_Put kv args =
     (if ksVersion (kvsrv_abs kv (pKey args)) = pVersion args
      then (kv\<lparr>kvData := (kvData kv)(pKey args \<mapsto> \<lparr>enValue = pValue args, enVersion = pVersion args + 1\<rparr>)\<rparr>,
            \<lparr>prErr = OK\<rparr>)
      else (kv, \<lparr>prErr = (if kvData kv (pKey args) = None then ErrNoKey else ErrVersion)\<rparr>))"
  by (auto simp: Kvsrv_Put_def kvsrv_abs_def KvModel_Init_def split: option.splits)

text \<open>A write of the key that is not the last possible one.\<close>

definition no_wrap :: "kvsrv \<Rightarrow> string \<Rightarrow> bool" where
  "no_wrap kv k \<longleftrightarrow> ksVersion (kvsrv_abs kv k) + 1 \<noteq> 0"

lemma Kvsrv_Put_abs:
  "kvsrv_abs (fst (Kvsrv_Put kv args)) k =
     (if k = pKey args \<and> ksVersion (kvsrv_abs kv k) = pVersion args
      then \<lparr>ksValue = pValue args, ksVersion = pVersion args + 1\<rparr> else kvsrv_abs kv k)"
  by (auto simp: Kvsrv_Put_cases kvsrv_abs_def)

lemma u64_inc: "(v :: u64) + 1 \<noteq> 0 \<Longrightarrow> v < v + 1"
  by unat_arith

lemma Kvsrv_Put_version:
  "no_wrap kv (pKey args) \<Longrightarrow>
     ksVersion (kvsrv_abs kv k) \<le> ksVersion (kvsrv_abs (fst (Kvsrv_Put kv args)) k)"
  using u64_inc [of "pVersion args"] by (auto simp: Kvsrv_Put_abs no_wrap_def less_imp_le)

section \<open>Executing a call\<close>

definition kvsrv_exec :: "kvsrv \<Rightarrow> rpc_args \<Rightarrow> kvsrv \<Rightarrow> rpc_reply \<Rightarrow> bool" where
  "kvsrv_exec kv args kv' r \<longleftrightarrow>
     (case args of
        GetArgs a \<Rightarrow> kv' = kv \<and> r = GetReply (Kvsrv_Get kv a)
      | PutArgs a \<Rightarrow> no_wrap kv (pKey a) \<and> kv' = fst (Kvsrv_Put kv a) \<and> r = PutReply (snd (Kvsrv_Put kv a))
      | _ \<Rightarrow> False)"

section \<open>The clerk in the logic of programs\<close>

text \<open>
  Rules for the clerk's loops, for any facts: a read keeps what is known, and a write that is sent
  again keeps what it kept the first time; replies that are no answer teach nothing.
\<close>

lemma KvsrvClerk_Get_wp:
  assumes "al K (srv, GetArgs \<lparr>gKey = key\<rparr>)" "ke K (srv, GetArgs \<lparr>gKey = key\<rparr>) = K"
    and "\<And>r. po (srv, GetArgs \<lparr>gKey = key\<rparr>) (GetReply r) \<Longrightarrow> grErr r = OK \<Longrightarrow>
      Q (grValue r, grVersion r, OK) (K \<union> le K (srv, GetArgs \<lparr>gKey = key\<rparr>) (GetReply r))"
    and "\<And>r. po (srv, GetArgs \<lparr>gKey = key\<rparr>) (GetReply r) \<Longrightarrow> grErr r = ErrNoKey \<Longrightarrow>
      Q ([], 0, ErrNoKey) (K \<union> le K (srv, GetArgs \<lparr>gKey = key\<rparr>) (GetReply r))"
    and "\<And>r. \<forall>g. r = GetReply g \<longrightarrow> grErr g \<noteq> OK \<and> grErr g \<noteq> ErrNoKey \<Longrightarrow>
      le K (srv, GetArgs \<lparr>gKey = key\<rparr>) r = {}"
  shows "wp po al ke le (KvsrvClerk_Get n srv key) K Q"
proof (induction n)
  case (Suc n)
  let ?q = "(srv, GetArgs \<lparr>gKey = key\<rparr>)"
  have "wp po al ke le
      (case as_get (Some r) of None \<Rightarrow> KvsrvClerk_Get n srv key
       | Some reply \<Rightarrow> if grErr reply = OK then Ret (grValue reply, grVersion reply, OK)
           else if grErr reply = ErrNoKey then Ret ([], 0, ErrNoKey) else KvsrvClerk_Get n srv key)
      (K \<union> le K ?q r) Q" if p: "po ?q r" for r
  proof (cases "\<exists>g. r = GetReply g \<and> (grErr g = OK \<or> grErr g = ErrNoKey)")
    case True
    then obtain g where g: "r = GetReply g" "grErr g = OK \<or> grErr g = ErrNoKey" by blast
    then show ?thesis using assms(3,4) [of g] p by (elim disjE) simp_all
  next
    case False
    then have "le K ?q r = {}" using assms(5) by blast
    then show ?thesis using False Suc.IH by (cases r) auto
  qed
  then show ?case using assms(1,2) Suc.IH by simp
qed simp

lemma KvsrvClerk_Put_wp:
  assumes "al K (srv, PutArgs a)" "ke K (srv, PutArgs a) = K'"
    and "al K' (srv, PutArgs a)" "ke K' (srv, PutArgs a) = K'"
    and "\<And>r. po (srv, PutArgs a) (PutReply r) \<Longrightarrow> prErr r = OK \<Longrightarrow> Q OK (K' \<union> le K' (srv, PutArgs a) (PutReply r))"
    and "\<And>r. po (srv, PutArgs a) (PutReply r) \<Longrightarrow> prErr r = ErrNoKey \<Longrightarrow>
      Q ErrNoKey (K' \<union> le K' (srv, PutArgs a) (PutReply r))"
    and "\<And>r e. po (srv, PutArgs a) (PutReply r) \<Longrightarrow> prErr r = ErrVersion \<Longrightarrow> e = ErrVersion \<or> e = ErrMaybe \<Longrightarrow>
      Q e (K' \<union> le K' (srv, PutArgs a) (PutReply r))"
    and "\<And>r. \<forall>g. r = PutReply g \<longrightarrow> prErr g \<noteq> OK \<and> prErr g \<noteq> ErrNoKey \<and> prErr g \<noteq> ErrVersion \<Longrightarrow>
      le K' (srv, PutArgs a) r = {}"
  shows "wp po al ke le (KvsrvClerk_Put_loop n srv a resent) K Q"
  using assms(1,2)
proof (induction n arbitrary: K resent)
  case (Suc n)
  let ?q = "(srv, PutArgs a)"
  have IH: "wp po al ke le (KvsrvClerk_Put_loop n srv a True) K' Q" by (rule Suc.IH [OF assms(3,4)])
  have "wp po al ke le
      (case as_put (Some r) of None \<Rightarrow> KvsrvClerk_Put_loop n srv a True
       | Some reply \<Rightarrow> if prErr reply = OK then Ret OK
           else if prErr reply = ErrNoKey then Ret ErrNoKey
           else if prErr reply = ErrVersion then Ret (if resent then ErrMaybe else ErrVersion)
           else KvsrvClerk_Put_loop n srv a True)
      (K' \<union> le K' ?q r) Q" if p: "po ?q r" for r
  proof (cases "\<exists>g. r = PutReply g \<and> (prErr g = OK \<or> prErr g = ErrNoKey \<or> prErr g = ErrVersion)")
    case True
    then obtain g where g: "r = PutReply g" "prErr g = OK \<or> prErr g = ErrNoKey \<or> prErr g = ErrVersion" by blast
    then show ?thesis using assms(5-7) [of g] p by (elim disjE) simp_all
  next
    case False
    then have "le K' ?q r = {}" using assms(8) by blast
    then show ?thesis using False IH by (cases r) auto
  qed
  then show ?case using Suc.prems IH by simp
qed simp

text \<open>
  All writes that process \<open>p\<close> has sent have versions below \<open>ver\<close>, up to the exceptions \<open>ex\<close>: they
  cannot take effect any more.
\<close>

definition own_puts_past :: "Tversion \<Rightarrow> ('p \<times> rpc_call) set \<Rightarrow> 'p \<Rightarrow> (Tversion \<Rightarrow> bool) \<Rightarrow> bool" where
  "own_puts_past ver S p ex \<longleftrightarrow> (\<forall>nm a. (p, nm, PutArgs a) \<in> S \<longrightarrow> pVersion a < ver \<or> ex (pVersion a))"

lemma own_puts_past_mono:
  "own_puts_past v S p ex \<Longrightarrow> v \<le> v' \<Longrightarrow> own_puts_past v' S p ex"
  by (auto simp: own_puts_past_def intro: less_le_trans)

lemma own_puts_past_settle:
  assumes "own_puts_past v S p (\<lambda>u. u = x)" "v \<le> v'" "x < v'"
  shows "own_puts_past v' S p (\<lambda>_. False)"
proof -
  have "pVersion b < v'" if "(p, nm, PutArgs b) \<in> S" for nm b
    using assms that unfolding own_puts_past_def by (blast intro: less_le_trans)
  then show ?thesis by (simp add: own_puts_past_def)
qed

lemma own_puts_past_send:
  "own_puts_past v S p (\<lambda>_. False) \<or> own_puts_past v S p (\<lambda>u. u = pVersion a) \<Longrightarrow>
     own_puts_past v (insert (p, nm, PutArgs a) S) p (\<lambda>u. u = pVersion a)"
  by (auto simp: own_puts_past_def)

lemma own_puts_past_other:
  "own_puts_past v S p' ex \<Longrightarrow> p' \<noteq> p \<Longrightarrow> own_puts_past v (insert (p, q) S) p' ex"
  by (auto simp: own_puts_past_def)

lemma own_puts_past_no_put:
  "own_puts_past v S p' ex \<Longrightarrow> (\<And>a. args \<noteq> PutArgs a) \<Longrightarrow> own_puts_past v (insert (p, nm, args) S) p' ex"
  by (auto simp: own_puts_past_def)

section \<open>What the clerk reports\<close>

text \<open>
  A clerk's \<^verbatim>\<open>Put\<close> among other writers: other writes happen at the server, and a call of the clerk
  is lost before the server, or executed with its reply lost, or executed and answered. The result
  has the server, how often the clerk's write took effect, and the clerk's program.
\<close>

datatype put_event = OtherPut put_args | LostRequest | LostReply | Answered

fun put_run :: "kvsrv \<Rightarrow> nat \<Rightarrow> Err rpc_prog \<Rightarrow> put_event list \<Rightarrow> kvsrv \<times> nat \<times> Err rpc_prog" where
  "put_run kv m pr [] = (kv, m, pr)"
| "put_run kv m pr (OtherPut a # es) = put_run (fst (Kvsrv_Put kv a)) m pr es"
| "put_run kv m (Call (server, PutArgs a) k) (e # es) =
     (case e of
        LostRequest \<Rightarrow> put_run kv m (k None) es
      | LostReply \<Rightarrow>
          put_run (fst (Kvsrv_Put kv a)) (if prErr (snd (Kvsrv_Put kv a)) = OK then m + 1 else m) (k None) es
      | _ \<Rightarrow>
          put_run (fst (Kvsrv_Put kv a)) (if prErr (snd (Kvsrv_Put kv a)) = OK then m + 1 else m)
            (k (Some (PutReply (snd (Kvsrv_Put kv a))))) es)"
| "put_run kv m pr (e # es) = put_run kv m pr es"

lemma put_run_done: "fst (snd (put_run kv m (Ret e) es)) = m \<and> snd (snd (put_run kv m (Ret e) es)) = Ret e"
proof (induction es arbitrary: kv)
  case (Cons ev es)
  then show ?case by (cases ev) simp_all
qed simp

lemma put_run_exhausted: "fst (snd (put_run kv m Exhausted es)) = m \<and> snd (snd (put_run kv m Exhausted es)) = Exhausted"
proof (induction es arbitrary: kv)
  case (Cons ev es)
  then show ?case by (cases ev) simp_all
qed simp

lemma u64_room:
  assumes "unat (v :: u64) + Suc n < 2 ^ 64"
  shows "unat (v + 1) = unat v + 1" "v + 1 \<noteq> 0"
proof -
  show u: "unat (v + 1) = unat v + 1" using assms by (simp add: unat_word_ariths)
  show "v + 1 \<noteq> 0"
  proof
    assume "v + 1 = 0"
    with u show False by simp
  qed
qed

lemma Kvsrv_Put_bound:
  assumes "unat (ksVersion (kvsrv_abs kv k)) + Suc n < 2 ^ 64"
  shows "ksVersion (kvsrv_abs kv k) \<le> ksVersion (kvsrv_abs (fst (Kvsrv_Put kv a)) k)"
    "unat (ksVersion (kvsrv_abs (fst (Kvsrv_Put kv a)) k)) + n < 2 ^ 64"
proof -
  have "unat (v + 1) = unat v + 1" if "unat v + Suc n < 2 ^ 64" for v :: u64
    using u64_room(1) [OF that] .
  then show "ksVersion (kvsrv_abs kv k) \<le> ksVersion (kvsrv_abs (fst (Kvsrv_Put kv a)) k)"
    "unat (ksVersion (kvsrv_abs (fst (Kvsrv_Put kv a)) k)) + n < 2 ^ 64"
    using assms by (auto simp: Kvsrv_Put_abs word_le_nat_alt)
qed

text \<open>What a clerk's result says about the number \<open>m\<close> of times its write took effect.\<close>

definition put_truthful :: "nat \<Rightarrow> Err rpc_prog \<Rightarrow> bool" where
  "put_truthful m pr \<longleftrightarrow>
     m \<le> 1 \<and> (pr = Ret OK \<longrightarrow> m = 1) \<and> (pr = Ret ErrVersion \<or> pr = Ret ErrNoKey \<longrightarrow> m = 0)"

lemma put_run_truthful:
  assumes "m = 0 \<or> m = 1 \<and> resent \<and> pVersion args < ksVersion (kvsrv_abs kv (pKey args))"
    and "unat (ksVersion (kvsrv_abs kv (pKey args))) + length es < 2 ^ 64"
  shows "put_truthful (fst (snd (put_run kv m (KvsrvClerk_Put_loop n server args resent) es)))
    (snd (snd (put_run kv m (KvsrvClerk_Put_loop n server args resent) es)))"
  using assms
proof (induction es arbitrary: kv m n resent)
  case Nil
  then show ?case by (cases n) (auto simp: put_truthful_def)
next
  case (Cons e es)
  let ?kv = "fst (Kvsrv_Put kv args)" and ?v = "ksVersion (kvsrv_abs kv (pKey args))"
  have room: "unat ?v + Suc (length es) < 2 ^ 64" using Cons.prems(2) by simp
  note b = Kvsrv_Put_bound [OF room]
  show ?case
  proof (cases "\<exists>a. e = OtherPut a")
    case True
    then obtain a where e: "e = OtherPut a" by blast
    have "m = 0 \<or> m = 1 \<and> resent \<and> pVersion args < ksVersion (kvsrv_abs (fst (Kvsrv_Put kv a)) (pKey args))"
      using Cons.prems(1) b(1) [of a] by (auto intro: less_le_trans)
    from Cons.IH [OF this b(2)] e show ?thesis by simp
  next
    case other: False
    show ?thesis
    proof (cases n)
      case 0
      then show ?thesis
        using Cons.prems(1) put_run_exhausted [of kv m "e # es"] by (auto simp: put_truthful_def)
    next
      case (Suc n')
      show ?thesis
      proof (cases "?v = pVersion args")
        case True
        then have m: "m = 0" using Cons.prems(1) by auto
        have p: "snd (Kvsrv_Put kv args) = \<lparr>prErr = OK\<rparr>" using True by (simp add: Kvsrv_Put_cases)
        have gt: "pVersion args < ksVersion (kvsrv_abs ?kv (pKey args))"
          using True u64_room(2) [OF room] u64_inc [of "pVersion args"] by (simp add: Kvsrv_Put_abs)
        show ?thesis
          using other Suc p m gt Cons.IH [of 0 True kv n'] Cons.IH [of 1 True ?kv n'] b(2) Cons.prems(2) put_run_done
          by (cases e) (auto simp: put_truthful_def)
      next
        case False
        then have p: "?kv = kv" "prErr (snd (Kvsrv_Put kv args)) \<noteq> OK"
            "prErr (snd (Kvsrv_Put kv args)) = ErrNoKey \<longrightarrow> ?v = 0"
            "prErr (snd (Kvsrv_Put kv args)) \<in> {ErrNoKey, ErrVersion}"
          by (auto simp: Kvsrv_Put_cases kvsrv_abs_def KvModel_Init_def)
        show ?thesis
          using other Suc p Cons.prems Cons.IH [of m True kv n'] put_run_done
          by (cases e) (auto simp: put_truthful_def)
      qed
    qed
  qed
qed

section \<open>Properties\<close>




end
