(* ===== verification/Lock.thy ===== *)
theory Lock
  imports Kvsrv
begin

text \<open>
  The lock on top of the key/value server, \<^verbatim>\<open>kvsrv1/lock/lock.go\<close>, and mutual exclusion of its
  clients.
\<close>

section \<open>The client\<close>

text \<open>The clerk \<^verbatim>\<open>ck\<close> is the name of its server.\<close>

record lock =
  lkServer :: string
  lkKey :: string
  lkId :: string

definition MakeLock :: "string \<Rightarrow> string \<Rightarrow> string \<Rightarrow> lock" where
  "MakeLock ck lockname randValue = \<lparr>lkServer = ck, lkKey = lockname, lkId = randValue\<rparr>"

lemma MakeLock_sel [simp]:
  "lkServer (MakeLock ck n v) = ck" "lkKey (MakeLock ck n v) = n" "lkId (MakeLock ck n v) = v"
  by (simp_all add: MakeLock_def)

text \<open>
  The conditional write of the own id and, when its outcome is open, the check of the holder:
  whether \<^verbatim>\<open>Acquire\<close> returns, or goes on.
\<close>

definition tryAcquire :: "nat \<Rightarrow> lock \<Rightarrow> Tversion \<Rightarrow> bool rpc_prog" where
  "tryAcquire m lk version =
     pbind (KvsrvClerk_Put m (lkServer lk) (lkKey lk) (lkId lk) version) (\<lambda>err.
       if err = OK then Ret True
       else if err = ErrMaybe then
         pbind (KvsrvClerk_Get m (lkServer lk) (lkKey lk)) (\<lambda>(current, _, getErr).
           Ret (getErr = OK \<and> current = lkId lk))
       else Ret False)"

text \<open>The loops make at most \<open>n\<close> turns, and those of the clerk \<open>m\<close>.\<close>

primrec Acquire :: "nat \<Rightarrow> nat \<Rightarrow> lock \<Rightarrow> unit rpc_prog" where
  "Acquire 0 m lk = Exhausted"
| "Acquire (Suc n) m lk =
     pbind (KvsrvClerk_Get m (lkServer lk) (lkKey lk)) (\<lambda>(val, version, err).
       if err = ErrNoKey then
         pbind (tryAcquire m lk 0) (\<lambda>got. if got then Ret () else Acquire n m lk)
       else if err \<noteq> OK then Acquire n m lk
       else if val \<noteq> [] then Acquire n m lk
       else pbind (tryAcquire m lk version) (\<lambda>got. if got then Ret () else Acquire n m lk))"

primrec Release :: "nat \<Rightarrow> nat \<Rightarrow> lock \<Rightarrow> unit rpc_prog" where
  "Release 0 m lk = Exhausted"
| "Release (Suc n) m lk =
     pbind (KvsrvClerk_Get m (lkServer lk) (lkKey lk)) (\<lambda>(val, version, err).
       if err = ErrNoKey then Ret ()
       else if err \<noteq> OK then Release n m lk
       else if val \<noteq> lkId lk then Ret ()
       else pbind (KvsrvClerk_Put m (lkServer lk) (lkKey lk) [] version) (\<lambda>err.
         if err = OK then Ret ()
         else if err = ErrVersion then Release n m lk
         else Release n m lk))"

section \<open>Clients of one lock\<close>

text \<open>
  The clients of the lock \<open>key\<close> run against the server, each with its own id. The result of a
  program is whether the client holds the lock: one that does not may acquire it, one that does may
  release it. Other clients change other keys.
\<close>

definition lock_exec :: "kvsrv \<Rightarrow> rpc_call \<Rightarrow> kvsrv \<Rightarrow> rpc_reply \<Rightarrow> bool" where
  "lock_exec kv q kv' r = kvsrv_exec kv (snd q) kv' r"

definition lock_env :: "string \<Rightarrow> kvsrv \<Rightarrow> kvsrv \<Rightarrow> bool" where
  "lock_env key kv kv' \<longleftrightarrow> kvData kv' key = kvData kv key"

definition lock_ops :: "string \<Rightarrow> string \<Rightarrow> ('p \<Rightarrow> string) \<Rightarrow> 'p \<Rightarrow> bool \<Rightarrow> bool rpc_prog \<Rightarrow> bool" where
  "lock_ops srv key ids p held pr \<longleftrightarrow>
     (\<exists>n m. pr = (if held then pbind (Release n m (MakeLock srv key (ids p))) (\<lambda>_. Ret False)
                  else pbind (Acquire n m (MakeLock srv key (ids p))) (\<lambda>_. Ret True)))"

text \<open>
  What a client can know of the lock: that it read a value at a version, that none of its writes
  (but the one under way) can still take effect, that it holds the lock.
\<close>

datatype lock_fact = Saw Tversion string | Quiet | QuietBut Tversion | Held

fun lock_holds :: "string \<Rightarrow> ('p \<Rightarrow> string) \<Rightarrow> kvsrv \<Rightarrow> ('p \<times> rpc_call) set \<Rightarrow> 'p \<Rightarrow> lock_fact \<Rightarrow> bool" where
  "lock_holds key ids kv S p (Saw v x) \<longleftrightarrow>
     v < ksVersion (kvsrv_abs kv key) \<or> v = ksVersion (kvsrv_abs kv key) \<and> x = ksValue (kvsrv_abs kv key)"
| "lock_holds key ids kv S p Quiet \<longleftrightarrow> own_puts_past (ksVersion (kvsrv_abs kv key)) S p (\<lambda>_. False)"
| "lock_holds key ids kv S p (QuietBut v) \<longleftrightarrow> own_puts_past (ksVersion (kvsrv_abs kv key)) S p (\<lambda>u. u = v)"
| "lock_holds key ids kv S p Held \<longleftrightarrow>
     ksValue (kvsrv_abs kv key) = ids p \<and> own_puts_past (ksVersion (kvsrv_abs kv key)) S p (\<lambda>_. False)"

text \<open>The clients' ids are different and not empty, and a key that exists has been written.\<close>

definition ids_ok :: "('p \<Rightarrow> string) \<Rightarrow> bool" where
  "ids_ok ids \<longleftrightarrow> inj ids \<and> (\<forall>p. ids p \<noteq> [])"

definition lock_inv :: "string \<Rightarrow> ('p \<Rightarrow> string) \<Rightarrow> kvsrv \<Rightarrow> bool" where
  "lock_inv key ids kv \<longleftrightarrow> ids_ok ids \<and> (\<forall>e. kvData kv key = Some e \<longrightarrow> enVersion e \<noteq> 0)"

fun lock_okm :: "string \<Rightarrow> ('p \<Rightarrow> string) \<Rightarrow> kvsrv \<Rightarrow> 'p \<Rightarrow> rpc_call \<Rightarrow> bool" where
  "lock_okm key ids kv p (nm, PutArgs a) \<longleftrightarrow>
     pKey a = key \<and>
     (pVersion a < ksVersion (kvsrv_abs kv key) \<or>
      pVersion a = ksVersion (kvsrv_abs kv key) \<and>
        (ksValue (kvsrv_abs kv key) = [] \<and> pValue a = ids p \<or> ksValue (kvsrv_abs kv key) = ids p \<and> pValue a = []))"
| "lock_okm key ids kv p (nm, GetArgs a) \<longleftrightarrow> gKey a = key"
| "lock_okm key ids kv p (nm, _) \<longleftrightarrow> False"

fun lock_al :: "string \<Rightarrow> ('p \<Rightarrow> string) \<Rightarrow> 'p \<Rightarrow> lock_fact set \<Rightarrow> rpc_call \<Rightarrow> bool" where
  "lock_al key ids p K (nm, PutArgs a) \<longleftrightarrow>
     pKey a = key \<and> (Quiet \<in> K \<or> QuietBut (pVersion a) \<in> K) \<and>
     (Saw (pVersion a) [] \<in> K \<and> pValue a = ids p \<or> Saw (pVersion a) (ids p) \<in> K \<and> pValue a = [])"
| "lock_al key ids p K (nm, GetArgs a) \<longleftrightarrow> gKey a = key"
| "lock_al key ids p K (nm, _) \<longleftrightarrow> False"

fun lock_ke :: "lock_fact set \<Rightarrow> rpc_call \<Rightarrow> lock_fact set" where
  "lock_ke K (nm, PutArgs a) = insert (QuietBut (pVersion a)) {f \<in> K. \<exists>v x. f = Saw v x}"
| "lock_ke K (nm, _) = K"

fun lock_le :: "('p \<Rightarrow> string) \<Rightarrow> 'p \<Rightarrow> lock_fact set \<Rightarrow> rpc_call \<Rightarrow> rpc_reply \<Rightarrow> lock_fact set" where
  "lock_le ids p K (nm, GetArgs a) (GetReply r) =
     (if grErr r = OK
      then insert (Saw (grVersion r) (grValue r)) (if grValue r = ids p \<and> Quiet \<in> K then {Held} else {})
      else if grErr r = ErrNoKey then {Saw 0 []} else {})"
| "lock_le ids p K (nm, PutArgs a) (PutReply r) =
     (if QuietBut (pVersion a) \<notin> K then {}
      else if prErr r = OK then (if pValue a = ids p then {Quiet, Held} else {Quiet})
      else if (prErr r = ErrVersion \<or> prErr r = ErrNoKey) \<and> (\<exists>x. Saw (pVersion a) x \<in> K) then {Quiet} else {})"
| "lock_le ids p K q r = {}"

definition lock_Q :: "bool \<Rightarrow> lock_fact set \<Rightarrow> bool" where
  "lock_Q held K \<longleftrightarrow> Quiet \<in> K \<and> (held \<longrightarrow> Held \<in> K)"

section \<open>The programs are entitled to what they send\<close>

lemma Get_wp:
  assumes "\<And>val ver K'. K \<subseteq> K' \<Longrightarrow> Saw ver val \<in> K' \<Longrightarrow> (val = ids p \<and> Quiet \<in> K \<Longrightarrow> Held \<in> K') \<Longrightarrow> Q (val, ver, OK) K'"
    and "\<And>K'. K \<subseteq> K' \<Longrightarrow> Saw 0 [] \<in> K' \<Longrightarrow> Q ([], 0, ErrNoKey) K'"
  shows "wp (\<lambda>_ _. True) (lock_al key ids p) lock_ke (lock_le ids p) (KvsrvClerk_Get n srv key) K Q"
proof (rule KvsrvClerk_Get_wp)
  show "lock_le ids p K (srv, GetArgs \<lparr>gKey = key\<rparr>) r = {}"
    if "\<forall>g. r = GetReply g \<longrightarrow> grErr g \<noteq> OK \<and> grErr g \<noteq> ErrNoKey" for r using that by (cases r) auto
qed (auto intro!: assms)

lemma Put_wp:
  assumes "pKey a = key" "Saw (pVersion a) [] \<in> K \<and> pValue a = ids p \<or> Saw (pVersion a) (ids p) \<in> K \<and> pValue a = []"
    and "Quiet \<in> K"
    and "\<And>err K'. Quiet \<in> K' \<Longrightarrow> err \<in> {OK, ErrNoKey, ErrVersion, ErrMaybe} \<Longrightarrow>
      (err = OK \<and> pValue a = ids p \<Longrightarrow> Held \<in> K') \<Longrightarrow> Q err K'"
  shows "wp (\<lambda>_ _. True) (lock_al key ids p) lock_ke (lock_le ids p) (KvsrvClerk_Put_loop n srv a resent) K Q"
proof -
  let ?q = "(srv, PutArgs a)"
  define K' where "K' = lock_ke K ?q"
  have K': "Saw (pVersion a) [] \<in> K' \<and> pValue a = ids p \<or> Saw (pVersion a) (ids p) \<in> K' \<and> pValue a = []"
    "QuietBut (pVersion a) \<in> K'" using assms(2) by (auto simp: K'_def)
  have le: "lock_le ids p K' ?q (PutReply r) =
      (if prErr r = OK then (if pValue a = ids p then {Quiet, Held} else {Quiet})
       else if prErr r = ErrVersion \<or> prErr r = ErrNoKey then {Quiet} else {})" for r using K' by auto
  have ans: "Q e (K' \<union> lock_le ids p K' ?q (PutReply r))"
    if "prErr r = e \<or> prErr r = ErrVersion \<and> e = ErrMaybe" "e \<in> {OK, ErrNoKey, ErrVersion, ErrMaybe}" "prErr r \<noteq> ErrMaybe" for r e
    by (rule assms(4)) (use that le in auto)
  show ?thesis
  proof (rule KvsrvClerk_Put_wp [where K' = K'])
    show "lock_al key ids p K ?q" using assms(1-3) by simp
    show "lock_ke K ?q = K'" by (simp add: K'_def)
    show "lock_al key ids p K' ?q" "lock_ke K' ?q = K'" using K' assms(1) by (auto simp: K'_def)
    show "lock_le ids p K' ?q r = {}"
      if "\<forall>g. r = PutReply g \<longrightarrow> prErr g \<noteq> OK \<and> prErr g \<noteq> ErrNoKey \<and> prErr g \<noteq> ErrVersion" for r
      using that le by (cases r) auto
  qed (rule ans; auto)+
qed

lemma tryAcquire_wp:
  assumes "Saw version [] \<in> K" "Quiet \<in> K"
    and "\<And>got K'. Quiet \<in> K' \<Longrightarrow> (got \<Longrightarrow> Held \<in> K') \<Longrightarrow> Q got K'"
  shows "wp (\<lambda>_ _. True) (lock_al key ids p) lock_ke (lock_le ids p) (tryAcquire m (MakeLock srv key (ids p)) version) K Q"
  unfolding tryAcquire_def KvsrvClerk_Put_def
  using assms(1,2) by (auto intro!: Put_wp Get_wp assms(3)) blast+

lemma Acquire_wp:
  assumes "Quiet \<in> K" "\<And>K'. Quiet \<in> K' \<Longrightarrow> Held \<in> K' \<Longrightarrow> Q () K'"
  shows "wp (\<lambda>_ _. True) (lock_al key ids p) lock_ke (lock_le ids p) (Acquire n m (MakeLock srv key (ids p))) K Q"
  using assms(1)
proof (induction n arbitrary: K)
  case (Suc n)
  have t: "wp (\<lambda>_ _. True) (lock_al key ids p) lock_ke (lock_le ids p) (tryAcquire m (MakeLock srv key (ids p)) version) K'
      (\<lambda>got K'. wp (\<lambda>_ _. True) (lock_al key ids p) lock_ke (lock_le ids p)
         (if got then Ret () else Acquire n m (MakeLock srv key (ids p))) K' Q)"
    if "Saw version [] \<in> K'" "Quiet \<in> K'" for version K'
    using that Suc.IH assms(2) by (intro tryAcquire_wp) auto
  show ?case
    unfolding Acquire.simps wp_pbind MakeLock_sel
    by (rule Get_wp) (use Suc t in \<open>auto dest: subsetD\<close>)
qed simp

lemma Release_wp:
  assumes "Quiet \<in> K" "\<And>K'. Quiet \<in> K' \<Longrightarrow> Q () K'"
  shows "wp (\<lambda>_ _. True) (lock_al key ids p) lock_ke (lock_le ids p) (Release n m (MakeLock srv key (ids p))) K Q"
  using assms(1)
proof (induction n arbitrary: K)
  case (Suc n)
  show ?case
    unfolding Release.simps wp_pbind MakeLock_sel
    by (rule Get_wp) (use Suc assms(2) in \<open>auto simp: KvsrvClerk_Put_def intro!: Put_wp dest: subsetD\<close>)
qed simp

lemma lock_ops_wp:
  assumes "lock_Q held K" "lock_ops srv key ids p held pr"
  shows "wp (\<lambda>_ _. True) (lock_al key ids p) lock_ke (lock_le ids p) pr K lock_Q"
  using assms by (auto simp: lock_ops_def lock_Q_def intro!: Acquire_wp Release_wp)

section \<open>Mutual exclusion\<close>

text \<open>The effect of executing a request on the state of the lock.\<close>

lemma lock_exec_state:
  assumes "lock_exec kv q kv' r" "lock_okm key ids kv p q"
  shows "kvsrv_abs kv' key = kvsrv_abs kv key \<or>
    (\<exists>nm a. q = (nm, PutArgs a) \<and> r = PutReply \<lparr>prErr = OK\<rparr> \<and> pVersion a = ksVersion (kvsrv_abs kv key) \<and>
       ksVersion (kvsrv_abs kv key) < pVersion a + 1 \<and>
       kvsrv_abs kv' key = \<lparr>ksValue = pValue a, ksVersion = pVersion a + 1\<rparr> \<and>
       (ksValue (kvsrv_abs kv key) = [] \<and> pValue a = ids p \<or> ksValue (kvsrv_abs kv key) = ids p \<and> pValue a = []))"
proof -
  obtain nm args where q: "q = (nm, args)" by (cases q)
  show ?thesis
  proof (cases args)
    case (PutArgs a)
    with q assms show ?thesis
      by (cases "pVersion a = ksVersion (kvsrv_abs kv key)")
        (auto simp: lock_exec_def kvsrv_exec_def no_wrap_def Kvsrv_Put_abs Kvsrv_Put_cases intro: u64_inc)
  qed (use q assms in \<open>auto simp: lock_exec_def kvsrv_exec_def\<close>)
qed

lemma lock_exec_mono:
  assumes "lock_exec kv q kv' r" "lock_okm key ids kv p q"
  shows "ksVersion (kvsrv_abs kv key) \<le> ksVersion (kvsrv_abs kv' key)"
  using lock_exec_state [OF assms] by auto

lemma lock_exec_inv:
  assumes "lock_inv key ids kv" "lock_okm key ids kv p q" "lock_exec kv q kv' r"
  shows "lock_inv key ids kv'"
proof (cases "kvData kv' key = kvData kv key")
  case True
  then show ?thesis using assms(1) by (simp add: lock_inv_def)
next
  case False
  then obtain a where a: "no_wrap kv (pKey a)" "kv' = fst (Kvsrv_Put kv a)"
    using assms(3) by (auto simp: lock_exec_def kvsrv_exec_def split: rpc_args.splits)
  then have "kvData kv' key = Some \<lparr>enValue = pValue a, enVersion = pVersion a + 1\<rparr>" "pVersion a + 1 \<noteq> 0"
    using False by (auto simp: Kvsrv_Put_cases no_wrap_def split: if_splits)
  then show ?thesis using assms(1) by (simp add: lock_inv_def)
qed

text \<open>A request that may be executed stays so, and what a client knows stays true.\<close>

lemma lock_exec_okm:
  assumes "lock_inv key ids kv" "lock_okm key ids kv p q" "lock_exec kv q kv' r" "lock_okm key ids kv p' q'"
  shows "lock_okm key ids kv' p' q'"
proof -
  obtain nm args where q': "q' = (nm, args)" by (cases q')
  show ?thesis
    using lock_exec_state [OF assms(3,2)] lock_exec_mono [OF assms(3,2)] assms(4)
    by (cases args) (auto simp: q')
qed

lemma lock_exec_holds:
  assumes "lock_inv key ids kv" "lock_okm key ids kv p q" "(p, q) \<in> S" "lock_exec kv q kv' r"
    and "lock_holds key ids kv S p' f"
  shows "lock_holds key ids kv' S p' f"
proof (cases f)
  case (Saw v x)
  then show ?thesis using lock_exec_state [OF assms(4,2)] assms(5) by auto
next
  case Held
  have "kvsrv_abs kv' key = kvsrv_abs kv key"
  proof (rule ccontr)
    assume "kvsrv_abs kv' key \<noteq> kvsrv_abs kv key"
    with lock_exec_state [OF assms(4,2)] obtain nm a where a: "q = (nm, PutArgs a)"
        "pVersion a = ksVersion (kvsrv_abs kv key)" "ksValue (kvsrv_abs kv key) = [] \<or> ksValue (kvsrv_abs kv key) = ids p"
      by blast
    have "p = p'" using a(3) assms(1,5) Held by (auto simp: lock_inv_def ids_ok_def inj_eq)
    with assms(3,5) Held a(1,2) show False by (fastforce simp: own_puts_past_def)
  qed
  with Held assms(5) show ?thesis by simp
qed (use own_puts_past_mono [OF _ lock_exec_mono [OF assms(4,2)]] assms(5) in auto)

lemma lock_exec_learn:
  assumes "lock_inv key ids kv" "lock_okm key ids kv p q" "(p, q) \<in> S" "lock_exec kv q kv' r"
    and "\<forall>f \<in> K. lock_holds key ids kv S p f" "f \<in> lock_le ids p K q r"
  shows "lock_holds key ids kv' S p f"
proof -
  obtain nm args where q: "q = (nm, args)" by (cases q)
  consider (get) a where "args = GetArgs a" | (put) a where "args = PutArgs a" "QuietBut (pVersion a) \<in> K"
    using assms(6) q by (cases args; cases r) (auto split: if_splits)
  then show ?thesis
  proof cases
    case get
    have kv: "kv' = kv" "r = GetReply (Kvsrv_Get kv a)" "gKey a = key"
      using assms(2,4) get q by (auto simp: lock_exec_def kvsrv_exec_def)
    show ?thesis
      using assms(5,6) get q kv
      by (cases "kvData kv key") (auto simp: Kvsrv_Get_def kvsrv_abs_def get_error_def KvModel_Init_def split: if_splits)
  next
    case put
    have qb: "own_puts_past (ksVersion (kvsrv_abs kv key)) S p (\<lambda>u. u = pVersion a)" using assms(5) put by fastforce
    have r: "kv' = fst (Kvsrv_Put kv a)" "r = PutReply (snd (Kvsrv_Put kv a))" "pKey a = key" "no_wrap kv key"
      using assms(2,4) put q by (auto simp: lock_exec_def kvsrv_exec_def)
    show ?thesis
    proof (cases "ksVersion (kvsrv_abs kv key) = pVersion a")
      case True
      then have st: "kvsrv_abs kv' key = \<lparr>ksValue = pValue a, ksVersion = pVersion a + 1\<rparr>"
        and ok: "r = PutReply \<lparr>prErr = OK\<rparr>" using r by (simp_all add: Kvsrv_Put_abs Kvsrv_Put_cases)
      have inc: "pVersion a < pVersion a + 1" using r(4) True u64_inc by (simp add: no_wrap_def)
      then have "own_puts_past (pVersion a + 1) S p (\<lambda>_. False)"
        by (intro own_puts_past_settle [OF qb]) (simp_all add: True)
      then show ?thesis using assms(6) q put st ok by (auto split: if_splits)
    next
      case False
      then have e: "kv' = kv" "prErr (snd (Kvsrv_Put kv a)) \<noteq> OK" using r by (simp_all add: Kvsrv_Put_cases)
      then obtain x where x: "Saw (pVersion a) x \<in> K" and f: "f = Quiet"
        using assms(6) q put r by (auto split: if_splits)
      have "pVersion a < ksVersion (kvsrv_abs kv key)" using assms(5) x False by fastforce
      then show ?thesis using own_puts_past_settle [OF qb order_refl] e(1) f by simp
    qed
  qed
qed

lemma lock_send:
  assumes "\<forall>f \<in> K. lock_holds key ids kv S p f" "lock_al key ids p K q"
  shows "lock_okm key ids kv p q" "f \<in> lock_ke K q \<Longrightarrow> lock_holds key ids kv (insert (p, q) S) p f"
proof -
  obtain nm args where q: "q = (nm, args)" by (cases q)
  show "lock_okm key ids kv p q" using assms q by (cases args) fastforce+
  show "lock_holds key ids kv (insert (p, q) S) p f" if "f \<in> lock_ke K q"
  proof (cases args)
    case (PutArgs a)
    have "own_puts_past (ksVersion (kvsrv_abs kv key)) S p (\<lambda>u. u = pVersion a)"
      using assms q PutArgs by (fastforce simp: own_puts_past_def)
    then show ?thesis using that assms(1) q PutArgs by (auto simp: own_puts_past_def)
  next
    case (GetArgs a)
    then have "lock_holds key ids kv S p f" using that assms(1) q by simp
    then show ?thesis using q GetArgs by (cases f) (auto simp: own_puts_past_def)
  qed (use assms q in auto)
qed

interpretation lk: net_logic lock_exec "lock_env key" "lock_ops srv key ids" "lock_inv key ids" "lock_okm key ids"
  "\<lambda>_ _. True" "lock_holds key ids" "lock_al key ids" "\<lambda>p. lock_ke" "lock_le ids" "\<lambda>p. lock_Q" for srv key ids
proof
  fix kv kv' S p f
  assume e: "lock_env key kv kv'"
  then have [simp]: "kvsrv_abs kv' key = kvsrv_abs kv key" by (simp add: kvsrv_abs_def lock_env_def)
  show "lock_holds key ids kv' S p f" if "lock_holds key ids kv S p f" using that by (cases f) auto
  show "lock_okm key ids kv' p q" if "lock_okm key ids kv p q" for q
    using that by (cases q; cases "snd q") auto
  show "lock_inv key ids kv'" if "lock_inv key ids kv" using that e by (simp add: lock_inv_def lock_env_def)
next
  fix kv S p p' q f
  assume "lock_holds key ids kv S p' f" "p' \<noteq> p"
  then show "lock_holds key ids kv (insert (p, q) S) p' f" by (cases f) (auto simp: own_puts_past_def)
next
  fix kv K S p q
  assume k: "\<forall>f \<in> K. lock_holds key ids kv S p f" "lock_al key ids p K q"
  show "lock_okm key ids kv p q" by (rule lock_send(1) [OF k])
  show "lock_holds key ids kv (insert (p, q) S) p f" if "f \<in> lock_ke K q" for f by (rule lock_send(2) [OF k that])
next
  fix kv kv' p q r
  assume i: "lock_inv key ids kv" "lock_okm key ids kv p q" "lock_exec kv q kv' r"
  show "lock_inv key ids kv'" by (rule lock_exec_inv [OF i])
  show "lock_okm key ids kv' p' q'" if "lock_okm key ids kv p' q'" for p' q' by (rule lock_exec_okm [OF i that])
next
  fix kv kv' S p q r
  assume i: "lock_inv key ids kv" "lock_okm key ids kv p q" "(p, q) \<in> S" "lock_exec kv q kv' r"
  show "lock_holds key ids kv' S p' f" if "lock_holds key ids kv S p' f" for p' f by (rule lock_exec_holds [OF i that])
  show "lock_holds key ids kv' S p f" if "\<forall>f \<in> K. lock_holds key ids kv S p f" "f \<in> lock_le ids p K q r" for K f
    by (rule lock_exec_learn [OF i that])
next
  fix p held K pr
  assume "lock_Q held K" "lock_ops srv key ids p held pr"
  then show "wp (\<lambda>_ _. True) (lock_al key ids p) lock_ke (lock_le ids p) pr K lock_Q" by (rule lock_ops_wp)
qed simp

text \<open>
  C13. Mutual exclusion: in every state that any number of clients of a lock, with different ids,
  can reach, with calls and replies lost, delayed and repeated and clients stopping anywhere, at most
  one client has returned from \<^verbatim>\<open>Acquire\<close> and not yet called \<^verbatim>\<open>Release\<close>, and the lock's key then
  has that client's id. The version of the key does not wrap around.
\<close>

theorem lock_mutual_exclusion:
  assumes "(net_step lock_exec (lock_env key) (lock_ops srv key ids))\<^sup>*\<^sup>* (net_init MakeKVServer (\<lambda>_. False)) w"
    and "ids_ok ids" "nProcs w p = (Ret True, None)"
  shows "ksValue (kvsrv_abs (nServer w) key) = ids p \<and> (\<forall>p'. nProcs w p' = (Ret True, None) \<longrightarrow> p' = p)"
proof -
  have "lk.net_inv key ids w"
    by (rule lk.net_reachable [OF assms(1), where ?K0.0 = "\<lambda>_. {Quiet}"])
      (use assms(2) in \<open>auto simp: lock_inv_def MakeKVServer_def lock_Q_def own_puts_past_def\<close>)
  then have h: "ksValue (kvsrv_abs (nServer w) key) = ids p'" if "nProcs w p' = (Ret True, None)" for p'
    using lk.net_at_rest [OF _ that] by (fastforce simp: lock_Q_def)
  have "p' = p" if "nProcs w p' = (Ret True, None)" for p'
    using h [OF that] h [OF assms(3)] assms(2) by (simp add: ids_ok_def inj_eq)
  with h [OF assms(3)] show ?thesis by blast
qed

definition sample_ids :: "nat \<Rightarrow> string" where
  "sample_ids p = replicate (Suc p) CHR ''a''"

theorem lock_mutual_exclusion_witness:
  "\<exists>w. (net_step lock_exec (lock_env ''l'') (lock_ops ''srv'' ''l'' sample_ids))\<^sup>*\<^sup>*
       (net_init MakeKVServer (\<lambda>_. False)) w \<and>
     nProcs w 2 = (Ret True, None) \<and> ksValue (kvsrv_abs (nServer w) ''l'') = ''aaa''"
proof -
  let ?R = "net_step lock_exec (lock_env ''l'') (lock_ops ''srv'' ''l'' sample_ids)"
  let ?w0 = "net_init MakeKVServer (\<lambda>_. False) :: (kvsrv, rpc_call, rpc_reply, nat, bool) net"
  let ?lk = "MakeLock ''srv'' ''l'' (sample_ids 2)"
  let ?put = "\<lparr>pKey = ''l'', pValue = sample_ids 2, pVersion = 0, pClientID = 0, pSequence = 0, pAck = 0\<rparr>"
  define pr where "pr = pbind (Acquire 1 1 ?lk) (\<lambda>_. Ret True)"
  define w1 where "w1 = ?w0\<lparr>nProcs := (nProcs ?w0)(2 := (pr, None))\<rparr>"
  have "lock_ops ''srv'' ''l'' sample_ids 2 False pr" unfolding lock_ops_def pr_def by (intro exI [of _ 1]) (simp only: if_False)
  then have s: "?R ?w0 w1" unfolding w1_def by (intro net_step.start [of _ 2 False]) (simp_all add: net_init_def)
  obtain k where pr: "pr = Call (''srv'', GetArgs \<lparr>gKey = ''l''\<rparr>) k" and
    k: "\<exists>k'. k (Some (GetReply (get_error ErrNoKey))) = Call (''srv'', PutArgs ?put) k' \<and>
          k' (Some (PutReply \<lparr>prErr = OK\<rparr>)) = Ret True"
    by (simp add: pr_def tryAcquire_def KvsrvClerk_Put_def get_error_def)
  have e1: "lock_exec (nServer w1) (''srv'', GetArgs \<lparr>gKey = ''l''\<rparr>) MakeKVServer (GetReply (get_error ErrNoKey))"
    by (simp add: w1_def net_init_def lock_exec_def kvsrv_exec_def Kvsrv_Get_def MakeKVServer_def)
  have "nProcs w1 2 = (Call (''srv'', GetArgs \<lparr>gKey = ''l''\<rparr>) k, None)" by (simp add: w1_def pr)
  from net_round_trip [of w1 2, where exec = lock_exec, OF this e1, of "lock_env ''l''" "lock_ops ''srv'' ''l'' sample_ids"]
  obtain w2 where w2: "?R\<^sup>*\<^sup>* w1 w2" "nServer w2 = MakeKVServer"
      "nProcs w2 2 = (k (Some (GetReply (get_error ErrNoKey))), None)" by auto
  obtain k' where k': "k (Some (GetReply (get_error ErrNoKey))) = Call (''srv'', PutArgs ?put) k'"
      "k' (Some (PutReply \<lparr>prErr = OK\<rparr>)) = Ret True" using k by blast
  have e2: "lock_exec (nServer w2) (''srv'', PutArgs ?put) (fst (Kvsrv_Put MakeKVServer ?put)) (PutReply \<lparr>prErr = OK\<rparr>)"
    by (simp add: w2(2) lock_exec_def kvsrv_exec_def no_wrap_def kvsrv_abs_def KvModel_Init_def Kvsrv_Put_def MakeKVServer_def)
  from net_round_trip [of w2 2, where exec = lock_exec, OF w2(3) [unfolded k'(1)] e2, of "lock_env ''l''" "lock_ops ''srv'' ''l'' sample_ids"]
  obtain w3 where w3: "?R\<^sup>*\<^sup>* w2 w3" "nProcs w3 2 = (Ret True, None)" using k'(2) by auto
  have reach: "?R\<^sup>*\<^sup>* ?w0 w3"
    by (rule converse_rtranclp_into_rtranclp [of ?R, OF s rtranclp_trans [of ?R, OF w2(1) w3(1)]])
  have l: "length (sample_ids p) = Suc p" for p by (simp add: sample_ids_def)
  have "inj sample_ids"
  proof (rule injI)
    fix x y
    assume "sample_ids x = sample_ids y"
    then have "length (sample_ids x) = length (sample_ids y)" by simp
    then show "x = y" unfolding l by simp
  qed
  then have "ids_ok sample_ids" by (simp add: ids_ok_def sample_ids_def)
  from lock_mutual_exclusion [OF reach this w3(2)] have "ksValue (kvsrv_abs (nServer w3) ''l'') = sample_ids 2"
    by (rule conjunct1)
  also have "sample_ids 2 = ''aaa''" by (simp add: sample_ids_def numeral_2_eq_2)
  finally show ?thesis using reach w3(2) by (intro exI conjI)
qed

end
