(* ===== verification/Shardplan.thy ===== *)
theory Shardplan
  imports Shardgrp
begin

text \<open>
  The groups of the sharded service seen at one shard: what its states in all groups are while a
  configuration is in force or a migration is under way, and how the requests of a migration and of
  clients keep it so.
\<close>

section \<open>What the groups do with client requests\<close>

text \<open>The state of the unsharded service after a sequence of requests with the results they had.\<close>

fun kv_run :: "kvserver \<Rightarrow> (kv_req \<times> kv_res) list \<Rightarrow> kvserver option" where
  "kv_run kv [] = Some kv"
| "kv_run kv ((req, res) # T) =
     (case KVServer_DoOp kv req of
        None \<Rightarrow> None
      | Some (kv', res') \<Rightarrow> if res' = res then kv_run kv' T else None)"

lemma kv_run_append:
  "kv_run kv (T @ [(req, res)]) =
     (case kv_run kv T of
        None \<Rightarrow> None
      | Some kv1 \<Rightarrow> (case KVServer_DoOp kv1 req of
                     None \<Rightarrow> None | Some (kv', res') \<Rightarrow> if res' = res then Some kv' else None))"
  by (induction kv T rule: kv_run.induct) (auto split: option.splits)

section \<open>The invariant of a shard\<close>

text \<open>
  \<open>G\<close> are the states of the shard in all groups and \<open>kv\<close> is its content. The shard goes from
  group \<open>a\<close> to group \<open>b\<close> in the configuration with number \<open>n\<close>; \<open>pub\<close> says whether that
  configuration has been published, that is whether the copying is over. Group \<open>0\<close> is none.
\<close>

definition idle :: "shard_state \<Rightarrow> tnum \<Rightarrow> bool" where
  "idle st n \<longleftrightarrow> shStatus st = ShardAbsent \<and> shConfigNum st \<le> n"

definition serves :: "shard_state \<Rightarrow> kvserver \<Rightarrow> bool" where
  "serves st kv \<longleftrightarrow> shStatus st = ShardServing \<and> shard_kv st = kv"

text \<open>The source and the target while the shard is being copied.\<close>

definition copying :: "tnum \<Rightarrow> tgid \<Rightarrow> tgid \<Rightarrow> (tgid \<Rightarrow> shard_state) \<Rightarrow> kvserver \<Rightarrow> bool" where
  "copying n a b G kv \<longleftrightarrow>
     (a \<noteq> 0 \<longrightarrow> serves (G a) kv \<and> shConfigNum (G a) < n \<or> shStatus (G a) = ShardFrozen \<and> shConfigNum (G a) = n) \<and>
     (b \<noteq> 0 \<longrightarrow>
        idle (G b) (n - 1) \<and> (a \<noteq> 0 \<longrightarrow> shard_kv (G a) = kv) \<or>
        serves (G b) kv \<and> shConfigNum (G b) = n \<and> (a \<noteq> 0 \<longrightarrow> shStatus (G a) = ShardFrozen))"

definition shard_inv :: "bool \<Rightarrow> tnum \<Rightarrow> tgid \<Rightarrow> tgid \<Rightarrow> (tgid \<Rightarrow> shard_state) \<Rightarrow> kvserver \<Rightarrow> bool" where
  "shard_inv pub n a b G kv \<longleftrightarrow>
     (\<forall>g. g = 0 \<or> g \<noteq> a \<and> g \<noteq> b \<longrightarrow> idle (G g) (if pub \<or> a = b then n else n - 1)) \<and>
     (\<forall>g. shConfigNum (G g) \<le> n) \<and>
     (if a = b then b \<noteq> 0 \<longrightarrow> serves (G b) kv
      else if \<not> pub then copying n a b G kv
      else (b \<noteq> 0 \<longrightarrow> serves (G b) kv) \<and>
           (a \<noteq> 0 \<longrightarrow> shStatus (G a) \<noteq> ShardServing \<and> shConfigNum (G a) = n))"

lemma shard_inv_num: "shard_inv pub n a b G kv \<Longrightarrow> shConfigNum (G g) \<le> n"
  by (simp add: shard_inv_def)

text \<open>Whoever serves the shard has its content, and there is at most one such group.\<close>

lemma shard_inv_serving:
  assumes "shard_inv pub n a b G kv" "shStatus (G g) = ShardServing"
  shows "g \<noteq> 0" "g = a \<or> g = b" "shard_kv (G g) = kv"
    "a \<noteq> b \<Longrightarrow> g = a \<Longrightarrow> \<not> pub \<and> shConfigNum (G a) < n \<and> (b \<noteq> 0 \<longrightarrow> idle (G b) (n - 1))"
    "a \<noteq> b \<Longrightarrow> g = b \<Longrightarrow> a \<noteq> 0 \<Longrightarrow> shStatus (G a) \<noteq> ShardServing"
proof -
  have z: "\<not> (g = 0 \<or> g \<noteq> a \<and> g \<noteq> b)" using assms by (auto simp: shard_inv_def idle_def)
  then show g: "g \<noteq> 0" "g = a \<or> g = b" by blast+
  show "shard_kv (G g) = kv"
    using assms g by (auto simp: shard_inv_def copying_def serves_def idle_def split: if_splits)
  show "\<not> pub \<and> shConfigNum (G a) < n \<and> (b \<noteq> 0 \<longrightarrow> idle (G b) (n - 1))" if "a \<noteq> b" "g = a"
    using assms g that by (auto simp: shard_inv_def copying_def serves_def split: if_splits)
  show "shStatus (G a) \<noteq> ShardServing" if "a \<noteq> b" "g = b" "a \<noteq> 0"
    using assms g that by (auto simp: shard_inv_def copying_def serves_def idle_def split: if_splits)
qed

lemma shard_inv_unique:
  assumes "shard_inv pub n a b G kv" "shStatus (G g) = ShardServing" "shStatus (G h) = ShardServing"
  shows "g = h"
  using shard_inv_serving [OF assms(1,2)] shard_inv_serving [OF assms(1,3)] assms(2,3) by (auto simp: idle_def)

section \<open>The steps of the controller\<close>

lemma shard_inv_begin: "shard_inv True n b b G kv \<Longrightarrow> shard_inv False (n + 1) b b' G kv"
  by (auto simp: shard_inv_def copying_def idle_def serves_def intro: order_trans)

lemma shard_inv_publish:
  assumes "shard_inv False n a b G kv"
    and "a \<noteq> b \<Longrightarrow> a \<noteq> 0 \<Longrightarrow> n \<le> shConfigNum (G a)" "a \<noteq> b \<Longrightarrow> b \<noteq> 0 \<Longrightarrow> n \<le> shConfigNum (G b)"
  shows "shard_inv True n a b G kv"
  using assms by (auto simp: shard_inv_def copying_def idle_def serves_def split: if_splits)

lemma shard_inv_clear:
  assumes "shard_inv True n a b G kv"
    and "a \<noteq> b \<Longrightarrow> a \<noteq> 0 \<Longrightarrow> n < shConfigNum (G a) \<or> shStatus (G a) = ShardAbsent"
  shows "shard_inv True n b b G kv"
proof (cases "a = b")
  case False
  have "shStatus (G g) = ShardAbsent" if "g = 0 \<or> g \<noteq> b" for g
    using assms shard_inv_num [OF assms(1), of a] False that
    by (cases "g = 0"; cases "g = a"; force simp: shard_inv_def idle_def split: if_splits)
  then show ?thesis using assms(1) False by (auto simp: shard_inv_def idle_def split: if_splits)
qed (use assms(1) in simp)

section \<open>The requests of a migration\<close>

lemma shard_inv_freeze:
  assumes "shard_inv False n a b G kv" "a \<noteq> 0" "a \<noteq> b" "shStatus (G a) = ShardServing"
  shows "shard_inv False n a b (G(a := (G a)\<lparr>shStatus := ShardFrozen, shConfigNum := n\<rparr>)) kv"
proof -
  have c: "copying n a b G kv" and r: "\<forall>g. g = 0 \<or> g \<noteq> a \<and> g \<noteq> b \<longrightarrow> idle (G g) (n - 1)"
    "\<forall>g. shConfigNum (G g) \<le> n" using assms(1,3) by (auto simp: shard_inv_def)
  have kv: "shard_kv ((G a)\<lparr>shStatus := ShardFrozen, shConfigNum := n\<rparr>) = shard_kv (G a)" by (simp add: shard_kv_def)
  have "copying n a b (G(a := (G a)\<lparr>shStatus := ShardFrozen, shConfigNum := n\<rparr>)) kv"
    using c assms(2-4) kv by (auto simp: copying_def serves_def)
  then show ?thesis using r assms(2,3) by (auto simp: shard_inv_def)
qed

lemma shard_inv_install:
  assumes "shard_inv False n a b G kv" "b \<noteq> 0" "a \<noteq> b" "shStatus (G b) = ShardAbsent"
    and "shStatus st = ShardServing" "shConfigNum st = n"
    and "a \<noteq> 0 \<Longrightarrow> shStatus (G a) = ShardFrozen \<and> shard_kv st = shard_kv (G a)"
  shows "shard_inv False n a b (G(b := st)) (shard_kv st)" "a \<noteq> 0 \<Longrightarrow> shard_kv st = kv"
proof -
  have c: "copying n a b G kv" and r: "\<forall>g. g = 0 \<or> g \<noteq> a \<and> g \<noteq> b \<longrightarrow> idle (G g) (n - 1)"
    "\<forall>g. shConfigNum (G g) \<le> n" using assms(1,3) by (auto simp: shard_inv_def)
  have "copying n a b (G(b := st)) (shard_kv st)"
    using c assms(2-7) by (auto simp: copying_def serves_def)
  then show "shard_inv False n a b (G(b := st)) (shard_kv st)" using r assms(2,3,6) by (auto simp: shard_inv_def)
  show "shard_kv st = kv" if "a \<noteq> 0" using that c assms(2,4,7) by (auto simp: copying_def serves_def)
qed

lemma shard_inv_delete:
  assumes "shard_inv True n a b G kv" "a \<noteq> 0" "a \<noteq> b" "shStatus st = ShardAbsent" "shConfigNum st = n"
  shows "shard_inv True n a b (G(a := st)) kv"
  using assms by (auto simp: shard_inv_def)

text \<open>A write by the group that serves the shard.\<close>

lemma shard_inv_write:
  assumes "shard_inv pub n a b G kv" "shStatus (G g) = ShardServing"
    and "shStatus st = ShardServing" "shConfigNum st = shConfigNum (G g)" "shard_kv st = kv'"
  shows "shard_inv pub n a b (G(g := st)) kv'"
proof -
  note g = shard_inv_serving [OF assms(1,2)]
  show ?thesis
  proof (cases "a = b")
    case True
    then show ?thesis using assms g(1,2) by (auto simp: shard_inv_def serves_def)
  next
    case ab: False
    show ?thesis
    proof (cases "g = a")
      case True
      then show ?thesis
        using assms g(1) g(4) [OF ab True] ab by (auto simp: shard_inv_def copying_def serves_def)
    next
      case False
      then have gb: "g = b" using g(2) by blast
      show ?thesis
      proof (cases pub)
        case True
        then show ?thesis using assms ab gb g(1) by (auto simp: shard_inv_def serves_def)
      next
        case np: False
        have c: "copying n a b G kv" using assms(1) ab np by (simp add: shard_inv_def)
        have "copying n a b (G(g := st)) kv'"
          using c assms(2-5) ab gb g(1) by (auto simp: copying_def serves_def idle_def)
        then show ?thesis using assms(1,4) ab gb g(1) np by (auto simp: shard_inv_def)
      qed
    qed
  qed
qed

end
