(* ===== verification/Grpclerk.thy ===== *)
theory Grpclerk
  imports Calls Dedup
begin

text \<open>
  The clerk of a replica group, \<^verbatim>\<open>shardkv1/shardgrp/client.go\<close>: routing within the group, the
  request identity of writes, and the migration calls of the controller.
\<close>

section \<open>The clerk\<close>

record grp_clerk =
  gcServers :: "string list"
  gcLeader :: nat
  gcRequests :: dedup_client

definition GrpClerk_Make :: "string list \<Rightarrow> grp_clerk option" where
  "GrpClerk_Make servers =
     (if length servers = 0 then None
      else Some \<lparr>gcServers = servers, gcLeader = 0, gcRequests = Client_zero\<rparr>)"

definition gcRememberLeader :: "grp_clerk \<Rightarrow> nat \<Rightarrow> grp_clerk" where
  "gcRememberLeader ck server = ck\<lparr>gcLeader := server\<rparr>"

definition gcAdvanceLeader :: "grp_clerk \<Rightarrow> nat \<Rightarrow> grp_clerk" where
  "gcAdvanceLeader ck failedServer =
     (if gcLeader ck = failedServer then ck\<lparr>gcLeader := (failedServer + 1) mod length (gcServers ck)\<rparr> else ck)"

definition gcRetryAfterFailure :: "grp_clerk \<Rightarrow> nat \<Rightarrow> nat \<Rightarrow> grp_clerk \<times> nat" where
  "gcRetryAfterFailure ck failedServer failedAttempts =
     (let ck = gcAdvanceLeader ck failedServer; failedAttempts = failedAttempts + 1
      in (ck, if failedAttempts \<ge> length (gcServers ck) then 0 else failedAttempts))"

text \<open>\<^verbatim>\<open>ck.Clnt.Call(ck.servers[server], ...)\<close>, which panics when the index is out of range.\<close>

definition gcCall :: "grp_clerk \<Rightarrow> nat \<Rightarrow> rpc_args \<Rightarrow> (rpc_reply option \<Rightarrow> 'a rpc_prog) \<Rightarrow> 'a rpc_prog" where
  "gcCall ck server args k =
     (if server < length (gcServers ck) then Call (gcServers ck ! server, args) k else Panics)"

section \<open>Reading and writing\<close>

text \<open>
  One round of \<^verbatim>\<open>Get\<close> over the servers, \<open>k\<close> attempts of which are left: the result is an answer,
  or whether any server replied.
\<close>

primrec gcGetRound ::
  "nat \<Rightarrow> grp_clerk \<Rightarrow> get_args \<Rightarrow> bool \<Rightarrow> (grp_clerk \<times> ((string \<times> Tversion \<times> Err) + bool)) rpc_prog" where
  "gcGetRound 0 ck args receivedReply = Ret (ck, Inr receivedReply)"
| "gcGetRound (Suc k) ck args receivedReply =
     (let server = gcLeader ck in
      gcCall ck server (GetArgs args) (\<lambda>r.
        case as_get r of
          Some reply \<Rightarrow>
            if grErr reply = OK \<or> grErr reply = ErrNoKey \<or> grErr reply = ErrWrongGroup
            then Ret (gcRememberLeader ck server, Inl (grValue reply, grVersion reply, grErr reply))
            else gcGetRound k (gcAdvanceLeader ck server) args True
        | None \<Rightarrow> gcGetRound k (gcAdvanceLeader ck server) args receivedReply))"

primrec GrpClerk_Get :: "nat \<Rightarrow> grp_clerk \<Rightarrow> string \<Rightarrow> (grp_clerk \<times> string \<times> Tversion \<times> Err) rpc_prog" where
  "GrpClerk_Get 0 ck key = Exhausted"
| "GrpClerk_Get (Suc n) ck key =
     pbind (gcGetRound (length (gcServers ck)) ck \<lparr>gKey = key\<rparr> False) (\<lambda>(ck, res).
       case res of
         Inl answer \<Rightarrow> Ret (ck, answer)
       | Inr receivedReply \<Rightarrow>
           if \<not> receivedReply then Ret (ck, [], 0, ErrWrongLeader) else GrpClerk_Get n ck key)"

text \<open>A round of \<^verbatim>\<open>PutRequest\<close>: an answer, or whether the outcome is uncertain and any server replied.\<close>

primrec gcPutRound ::
  "nat \<Rightarrow> grp_clerk \<Rightarrow> put_args \<Rightarrow> bool \<Rightarrow> bool \<Rightarrow> (grp_clerk \<times> (Err + bool \<times> bool)) rpc_prog" where
  "gcPutRound 0 ck args uncertain receivedReply = Ret (ck, Inr (uncertain, receivedReply))"
| "gcPutRound (Suc k) ck args uncertain receivedReply =
     (let server = gcLeader ck in
      gcCall ck server (PutArgs args) (\<lambda>r.
        case as_put r of
          None \<Rightarrow> gcPutRound k (gcAdvanceLeader ck server) args True receivedReply
        | Some reply \<Rightarrow>
            (case prErr reply of
               OK \<Rightarrow> Ret (gcRememberLeader ck server, Inl OK)
             | ErrNoKey \<Rightarrow> Ret (gcRememberLeader ck server, Inl ErrNoKey)
             | ErrVersion \<Rightarrow>
                 Ret (gcRememberLeader ck server,
                      Inl (if uncertain \<and> pClientID args = 0 then ErrMaybe else ErrVersion))
             | ErrStaleRequest \<Rightarrow> Ret (ck, Inl ErrStaleRequest)
             | ErrWrongGroup \<Rightarrow> Ret (gcRememberLeader ck server, Inl ErrWrongGroup)
             | ErrWrongLeader \<Rightarrow> gcPutRound k (gcAdvanceLeader ck server) args True True
             | ErrMaybe \<Rightarrow> gcPutRound k (gcAdvanceLeader ck server) args uncertain True)))"

primrec gcPutLoop :: "nat \<Rightarrow> grp_clerk \<Rightarrow> put_args \<Rightarrow> bool \<Rightarrow> (grp_clerk \<times> Err) rpc_prog" where
  "gcPutLoop 0 ck args uncertain = Exhausted"
| "gcPutLoop (Suc n) ck args uncertain =
     pbind (gcPutRound (length (gcServers ck)) ck args uncertain False) (\<lambda>(ck, res).
       case res of
         Inl err \<Rightarrow> Ret (ck, err)
       | Inr (uncertain, receivedReply) \<Rightarrow>
           if \<not> receivedReply then Ret (ck, ErrWrongLeader) else gcPutLoop n ck args uncertain)"

definition GrpClerk_PutRequest :: "nat \<Rightarrow> grp_clerk \<Rightarrow> put_args \<Rightarrow> (grp_clerk \<times> Err) rpc_prog" where
  "GrpClerk_PutRequest n ck args = gcPutLoop n ck args False"

definition GrpClerk_Put ::
  "nat \<Rightarrow> u64 list \<Rightarrow> grp_clerk \<Rightarrow> string \<Rightarrow> string \<Rightarrow> Tversion \<Rightarrow> (grp_clerk \<times> Err) rpc_prog" where
  "GrpClerk_Put n rnd ck key val version =
     (case Client_Begin rnd (gcRequests ck) of
        None \<Rightarrow> Panics
      | Some (c, cid, q) \<Rightarrow>
          pbind (GrpClerk_PutRequest n (ck\<lparr>gcRequests := c\<rparr>)
                  \<lparr>pKey = key, pValue = val, pVersion = version, pClientID = cid, pSequence = q,
                   pAck = Client_Ack c\<rparr>)
            (\<lambda>(ck, err). Ret (ck\<lparr>gcRequests := Client_Complete (gcRequests ck) q\<rparr>, err)))"

section \<open>Migration\<close>

text \<open>
  The function \<^verbatim>\<open>isCurrent\<close> of a migration clerk acts on its owner's state, which is passed along;
  \<^term>\<open>None\<close> is \<^verbatim>\<open>nil\<close>.
\<close>

type_synonym 'w current_check = "('w \<Rightarrow> ('w \<times> bool) rpc_prog) option"

definition gcIsCurrent :: "'w current_check \<Rightarrow> 'w \<Rightarrow> ('w \<times> bool) rpc_prog" where
  "gcIsCurrent isCurrent w = (case isCurrent of None \<Rightarrow> Ret (w, True) | Some f \<Rightarrow> f w)"

primrec GrpClerk_FreezeShard ::
  "nat \<Rightarrow> 'w current_check \<Rightarrow> 'w \<Rightarrow> grp_clerk \<Rightarrow> freeze_shard_args \<Rightarrow> nat \<Rightarrow> ('w \<times> grp_clerk \<times> bytes \<times> Err) rpc_prog"
  where
  "GrpClerk_FreezeShard 0 isCurrent w ck args failedAttempts = Exhausted"
| "GrpClerk_FreezeShard (Suc n) isCurrent w ck args failedAttempts =
     pbind (gcIsCurrent isCurrent w) (\<lambda>(w, current).
       if \<not> current then Ret (w, ck, [], ErrWrongLeader)
       else let server = gcLeader ck;
                retry = (case gcRetryAfterFailure ck server failedAttempts of (ck, fa) \<Rightarrow>
                           GrpClerk_FreezeShard n isCurrent w ck args fa)
            in gcCall ck server (FreezeArgs args) (\<lambda>r.
              case as_freeze r of
                Some reply \<Rightarrow>
                  if fzrErr reply = OK then
                    (if fzrNum reply \<noteq> fzNum args then Ret (w, gcRememberLeader ck server, [], ErrWrongGroup)
                     else Ret (w, gcRememberLeader ck server, fzrState reply, OK))
                  else if fzrErr reply = ErrWrongGroup
                  then Ret (w, gcRememberLeader ck server, [], ErrWrongGroup)
                  else retry
              | None \<Rightarrow> retry))"

primrec GrpClerk_InstallShard ::
  "nat \<Rightarrow> 'w current_check \<Rightarrow> 'w \<Rightarrow> grp_clerk \<Rightarrow> install_shard_args \<Rightarrow> nat \<Rightarrow> ('w \<times> grp_clerk \<times> Err) rpc_prog"
  where
  "GrpClerk_InstallShard 0 isCurrent w ck args failedAttempts = Exhausted"
| "GrpClerk_InstallShard (Suc n) isCurrent w ck args failedAttempts =
     pbind (gcIsCurrent isCurrent w) (\<lambda>(w, current).
       if \<not> current then Ret (w, ck, ErrWrongLeader)
       else let server = gcLeader ck;
                retry = (case gcRetryAfterFailure ck server failedAttempts of (ck, fa) \<Rightarrow>
                           GrpClerk_InstallShard n isCurrent w ck args fa)
            in gcCall ck server (InstallArgs args) (\<lambda>r.
              case as_install r of
                Some reply \<Rightarrow>
                  if inrErr reply = OK \<or> inrErr reply = ErrWrongGroup
                  then Ret (w, gcRememberLeader ck server, inrErr reply)
                  else retry
              | None \<Rightarrow> retry))"

primrec GrpClerk_DeleteShard ::
  "nat \<Rightarrow> 'w current_check \<Rightarrow> 'w \<Rightarrow> grp_clerk \<Rightarrow> delete_shard_args \<Rightarrow> nat \<Rightarrow> ('w \<times> grp_clerk \<times> Err) rpc_prog"
  where
  "GrpClerk_DeleteShard 0 isCurrent w ck args failedAttempts = Exhausted"
| "GrpClerk_DeleteShard (Suc n) isCurrent w ck args failedAttempts =
     pbind (gcIsCurrent isCurrent w) (\<lambda>(w, current).
       if \<not> current then Ret (w, ck, ErrWrongLeader)
       else let server = gcLeader ck;
                retry = (case gcRetryAfterFailure ck server failedAttempts of (ck, fa) \<Rightarrow>
                           GrpClerk_DeleteShard n isCurrent w ck args fa)
            in gcCall ck server (DeleteArgs args) (\<lambda>r.
              case as_delete r of
                Some reply \<Rightarrow>
                  if dlrErr reply = OK \<or> dlrErr reply = ErrWrongGroup
                  then Ret (w, gcRememberLeader ck server, dlrErr reply)
                  else retry
              | None \<Rightarrow> retry))"

section \<open>The leader stays a server of the group\<close>

definition gc_ok :: "grp_clerk \<Rightarrow> bool" where
  "gc_ok ck \<longleftrightarrow> gcLeader ck < length (gcServers ck)"

lemma gc_ok_simps [simp]:
  "gcServers (gcAdvanceLeader ck s) = gcServers ck" "gcServers (gcRememberLeader ck s) = gcServers ck"
  "gcRequests (gcAdvanceLeader ck s) = gcRequests ck" "gcRequests (gcRememberLeader ck s) = gcRequests ck"
  "gc_ok ck \<Longrightarrow> gc_ok (gcAdvanceLeader ck s)" "gc_ok ck \<Longrightarrow> gc_ok (gcRememberLeader ck (gcLeader ck))"
  by (auto simp: gcAdvanceLeader_def gcRememberLeader_def gc_ok_def intro: mod_less_divisor [OF le_less_trans [OF le0]])

lemma gcRetry_ok:
  "gc_ok ck \<Longrightarrow> gcRetryAfterFailure ck s fa = (ck', fa') \<Longrightarrow> gc_ok ck' \<and> gcServers ck' = gcServers ck"
  by (auto simp: gcRetryAfterFailure_def Let_def)

lemma GrpClerk_Make_ok: "GrpClerk_Make servers = Some ck \<Longrightarrow> gc_ok ck \<and> gcServers ck = servers"
  by (auto simp: GrpClerk_Make_def gc_ok_def split: if_splits)

section \<open>An unreachable group\<close>

text \<open>The servers in the order in which a round tries them, from the leader on.\<close>

definition gc_order :: "grp_clerk \<Rightarrow> nat \<Rightarrow> string list" where
  "gc_order ck k = map (\<lambda>j. gcServers ck ! ((gcLeader ck + j) mod length (gcServers ck))) [0..<k]"

lemma gc_order_Suc:
  assumes "gc_ok ck"
  shows "gc_order ck (Suc k) = gcServers ck ! gcLeader ck # gc_order (gcAdvanceLeader ck (gcLeader ck)) k"
proof -
  have "[0..<Suc k] = 0 # map Suc [0..<k]" by (simp add: map_Suc_upt upt_conv_Cons del: upt_Suc)
  moreover have "((gcLeader ck + 1) mod length (gcServers ck) + j) mod length (gcServers ck) =
      (gcLeader ck + Suc j) mod length (gcServers ck)" for j by (simp add: mod_simps)
  ultimately show ?thesis using assms by (simp add: gc_order_def gcAdvanceLeader_def gc_ok_def del: upt_Suc)
qed

lemma gc_order_all:
  assumes "gc_ok ck"
  shows "gc_order ck (length (gcServers ck)) = rotate (gcLeader ck) (gcServers ck)"
  by (rule nth_equalityI) (auto simp: gc_order_def nth_rotate add.commute)

lemma gcPutRound_unreachable:
  assumes "gc_ok ck"
  shows "\<exists>ck' u. run (gcPutRound k ck args uncertain received) (replicate k None) =
      (map (\<lambda>nm. (nm, PutArgs args)) (gc_order ck k), Returned (ck', Inr (u, received))) \<and>
    gc_ok ck' \<and> gcServers ck' = gcServers ck"
  using assms
proof (induction k arbitrary: ck uncertain)
  case 0
  then show ?case by (simp add: gc_order_def)
next
  case (Suc k)
  let ?ck = "gcAdvanceLeader ck (gcLeader ck)"
  have a: "gc_ok ?ck" "gcServers ?ck = gcServers ck" using Suc.prems by simp_all
  from Suc.IH [OF a(1), of True] a show ?case
    using Suc.prems by (auto simp: Let_def gcCall_def gc_order_Suc gc_ok_def)
qed

lemma gcGetRound_unreachable:
  assumes "gc_ok ck"
  shows "\<exists>ck'. run (gcGetRound k ck args received) (replicate k None) =
      (map (\<lambda>nm. (nm, GetArgs args)) (gc_order ck k), Returned (ck', Inr received)) \<and>
    gc_ok ck' \<and> gcServers ck' = gcServers ck"
  using assms
proof (induction k arbitrary: ck)
  case 0
  then show ?case by (simp add: gc_order_def)
next
  case (Suc k)
  let ?ck = "gcAdvanceLeader ck (gcLeader ck)"
  have a: "gc_ok ?ck" "gcServers ?ck = gcServers ck" using Suc.prems by simp_all
  from Suc.IH [OF a(1)] a show ?case
    using Suc.prems by (auto simp: Let_def gcCall_def gc_order_Suc gc_ok_def)
qed

lemma run_pbind_done:
  "run m rs = (qs, Returned a) \<Longrightarrow> length qs = length rs \<Longrightarrow>
     run (pbind m f) (rs @ rs') = (case run (f a) rs' of (qs', res) \<Rightarrow> (qs @ qs', res))"
proof (induction m arbitrary: rs qs)
  case (Call q k)
  then obtain r rs1 where rs: "rs = r # rs1" by (cases rs) (auto split: prod.splits)
  obtain qs1 where "run (k r) rs1 = (qs1, Returned a)" "qs = q # qs1"
    using Call.prems(1) rs by (auto split: prod.splits)
  with Call.IH [of "k r" rs1] Call.prems(2) rs show ?case by (auto split: prod.splits)
qed (auto split: prod.splits)



end
