(* ===== verification/Shardctrler.thy ===== *)
theory Shardctrler
  imports Kvsrv Grpclerk
begin

text \<open>
  The shard controller, \<^verbatim>\<open>shardkv1/shardctrler/shardctrler.go\<close>: it keeps the configuration and the
  migration under way in one key of the key/value server and moves shards between groups.

  Every operation is a program that takes the controller's local state and returns it updated. All
  loops, also those of the clerks, make at most \<open>n\<close> turns.
\<close>

section \<open>The state\<close>

definition currentConfigKey :: string where
  "currentConfigKey = ''shardctrler/current-config''"

record migration_record =
  mrFrom :: shard_config
  mrTo :: shard_config

text \<open>The pointers \<^verbatim>\<open>Current\<close> and \<^verbatim>\<open>Pending\<close> can be \<^verbatim>\<open>nil\<close>.\<close>

record controller_state =
  csOwner :: string
  csEpoch :: u64
  csCurrent :: "shard_config option"
  csPending :: "migration_record option"

text \<open>\<^verbatim>\<open>json.Marshal\<close> and \<^verbatim>\<open>json.Unmarshal\<close> are parameters; \<^term>\<open>None\<close> is an error.\<close>

record ctrl_codec =
  ctMarshal :: "controller_state \<Rightarrow> string option"
  ctUnmarshal :: "string \<Rightarrow> controller_state option"

record shard_ctrler =
  scServer :: string
  scId :: string
  scEpoch :: u64
  scInitialized :: bool
  scDeposed :: bool

definition MakeShardCtrler :: "string \<Rightarrow> string \<Rightarrow> shard_ctrler" where
  "MakeShardCtrler server randstring =
     \<lparr>scServer = server, scId = randstring, scEpoch = 0, scInitialized = False, scDeposed = False\<rparr>"

text \<open>\<^verbatim>\<open>reflect.DeepEqual\<close>: the order in which a map is listed does not matter.\<close>

definition cfg_equal :: "shard_config \<Rightarrow> shard_config \<Rightarrow> bool" where
  "cfg_equal c d \<longleftrightarrow>
     Num c = Num d \<and> Shards c = Shards d \<and>
     list_all (\<lambda>(g, _). map_of (Groups c) g = map_of (Groups d) g) (Groups c @ Groups d)"

definition record_equal :: "migration_record \<Rightarrow> migration_record \<Rightarrow> bool" where
  "record_equal r s \<longleftrightarrow> cfg_equal (mrFrom r) (mrFrom s) \<and> cfg_equal (mrTo r) (mrTo s)"

definition ptr_equal :: "('a \<Rightarrow> 'a \<Rightarrow> bool) \<Rightarrow> 'a option \<Rightarrow> 'a option \<Rightarrow> bool" where
  "ptr_equal eq x y = (case (x, y) of (None, None) \<Rightarrow> True | (Some a, Some b) \<Rightarrow> eq a b | _ \<Rightarrow> False)"

definition state_equal :: "controller_state \<Rightarrow> controller_state \<Rightarrow> bool" where
  "state_equal s t \<longleftrightarrow>
     csOwner s = csOwner t \<and> csEpoch s = csEpoch t \<and> ptr_equal cfg_equal (csCurrent s) (csCurrent t) \<and>
     ptr_equal record_equal (csPending s) (csPending t)"

section \<open>The stored state\<close>

definition readState ::
  "nat \<Rightarrow> ctrl_codec \<Rightarrow> shard_ctrler \<Rightarrow> (controller_state option \<times> Tversion \<times> Err) rpc_prog" where
  "readState n cc sck =
     pbind (KvsrvClerk_Get n (scServer sck) currentConfigKey) (\<lambda>(val, version, err).
       if err \<noteq> OK then Ret (None, version, err)
       else case ctUnmarshal cc val of
         None \<Rightarrow> Panics
       | Some state \<Rightarrow> if csCurrent state = None then Panics else Ret (Some state, version, OK))"

definition compareAndSwap ::
  "nat \<Rightarrow> ctrl_codec \<Rightarrow> shard_ctrler \<Rightarrow> Tversion \<Rightarrow> controller_state \<Rightarrow> bool rpc_prog" where
  "compareAndSwap n cc sck version state =
     (case ctMarshal cc state of
        None \<Rightarrow> Panics
      | Some data \<Rightarrow>
          pbind (KvsrvClerk_Put n (scServer sck) currentConfigKey data version) (\<lambda>putErr.
            if putErr = OK then Ret True
            else if putErr \<noteq> ErrMaybe then Ret False
            else pbind (readState n cc sck) (\<lambda>(stored, _, readErr).
              Ret (readErr = OK \<and> ptr_equal state_equal stored (Some state)))))"

text \<open>\<^verbatim>\<open>readOwned\<close>: the state and its version, or \<^term>\<open>None\<close> when the controller does not own it.\<close>

definition readOwned ::
  "nat \<Rightarrow> ctrl_codec \<Rightarrow> shard_ctrler \<Rightarrow> (shard_ctrler \<times> (controller_state \<times> Tversion) option) rpc_prog" where
  "readOwned n cc sck =
     (if scDeposed sck then Ret (sck, None)
      else pbind (readState n cc sck) (\<lambda>(state, version, err).
        if err \<noteq> OK then Ret (sck, None)
        else case state of
          None \<Rightarrow> Panics
        | Some state \<Rightarrow>
            if csOwner state \<noteq> scId sck \<or> csEpoch state \<noteq> scEpoch sck
            then Ret (sck\<lparr>scDeposed := True\<rparr>, None)
            else Ret (sck, Some (state, version))))"

definition isCurrent :: "nat \<Rightarrow> ctrl_codec \<Rightarrow> shard_ctrler \<Rightarrow> (shard_ctrler \<times> bool) rpc_prog" where
  "isCurrent n cc sck = pbind (readOwned n cc sck) (\<lambda>(sck, owned). Ret (sck, owned \<noteq> None))"

section \<open>Leadership\<close>

definition InitConfig :: "nat \<Rightarrow> ctrl_codec \<Rightarrow> shard_ctrler \<Rightarrow> shard_config option \<Rightarrow> shard_ctrler rpc_prog" where
  "InitConfig n cc sck cfg =
     (case cfg of
        None \<Rightarrow> Ret sck
      | Some cfg \<Rightarrow>
          let state = \<lparr>csOwner = scId sck, csEpoch = 1, csCurrent = Some (Copy cfg), csPending = None\<rparr>
          in pbind (compareAndSwap n cc sck 0 state) (\<lambda>swapped.
               Ret (if swapped then sck\<lparr>scEpoch := csEpoch state, scInitialized := True\<rparr> else sck)))"

primrec leadershipLoop :: "nat \<Rightarrow> nat \<Rightarrow> ctrl_codec \<Rightarrow> shard_ctrler \<Rightarrow> (shard_ctrler \<times> bool) rpc_prog" where
  "leadershipLoop 0 n cc sck = Exhausted"
| "leadershipLoop (Suc k) n cc sck =
     pbind (readState n cc sck) (\<lambda>(state, version, err).
       if err \<noteq> OK then Ret (sck\<lparr>scDeposed := True\<rparr>, False)
       else case state of
         None \<Rightarrow> Panics
       | Some state \<Rightarrow>
           let state = state\<lparr>csOwner := scId sck, csEpoch := csEpoch state + 1\<rparr>
           in pbind (compareAndSwap n cc sck version state) (\<lambda>swapped.
                if swapped then Ret (sck\<lparr>scEpoch := csEpoch state\<rparr>, True)
                else leadershipLoop k n cc sck))"

definition ensureLeadershipLocked :: "nat \<Rightarrow> ctrl_codec \<Rightarrow> shard_ctrler \<Rightarrow> (shard_ctrler \<times> bool) rpc_prog" where
  "ensureLeadershipLocked n cc sck =
     (if scInitialized sck then isCurrent n cc sck
      else leadershipLoop n n cc (sck\<lparr>scInitialized := True\<rparr>))"

section \<open>Migration\<close>

text \<open>
  The clerks of \<^verbatim>\<open>recoverPendingLocked\<close> are objects that the map \<^verbatim>\<open>clerks\<close> points to; a call
  changes its clerk in place, so the clerk it returns is stored back.
\<close>

type_synonym clerk_map = "tgid \<rightharpoonup> grp_clerk"

definition groupClerk :: "clerk_map \<Rightarrow> tgid \<Rightarrow> (tgid \<times> string list) list \<Rightarrow> grp_clerk option" where
  "groupClerk clerks gid groups =
     (case clerks gid of
        Some ck \<Rightarrow> Some ck
      | None \<Rightarrow>
          let servers = (case map_of groups gid of None \<Rightarrow> [] | Some srvs \<Rightarrow> srvs)
          in if length servers = 0 then None else GrpClerk_Make servers)"

definition freezeAt ::
  "nat \<Rightarrow> ctrl_codec \<Rightarrow> migration_record \<Rightarrow> shard_ctrler \<Rightarrow> clerk_map \<Rightarrow> nat \<Rightarrow> tgid \<Rightarrow>
   (shard_ctrler \<times> clerk_map \<times> bytes option) rpc_prog" where
  "freezeAt n cc rec sck clerks i source =
     (if source = 0 then Ret (sck, clerks, Some [])
      else case groupClerk clerks source (Groups (mrFrom rec)) of
        None \<Rightarrow> Panics
      | Some ck \<Rightarrow>
          pbind (GrpClerk_FreezeShard n (Some (isCurrent n cc)) sck ck
                  \<lparr>fzShard = int i, fzNum = Num (mrTo rec)\<rparr> 0) (\<lambda>(sck, ck, data, err).
            Ret (sck, clerks(source \<mapsto> ck), if err \<noteq> OK then None else Some data)))"

definition installAt ::
  "nat \<Rightarrow> ctrl_codec \<Rightarrow> migration_record \<Rightarrow> shard_ctrler \<Rightarrow> clerk_map \<Rightarrow> nat \<Rightarrow> tgid \<Rightarrow> bytes \<Rightarrow>
   (shard_ctrler \<times> clerk_map \<times> bool) rpc_prog" where
  "installAt n cc rec sck clerks i target data =
     (if target = 0 then Ret (sck, clerks, True)
      else case groupClerk clerks target (Groups (mrTo rec)) of
        None \<Rightarrow> Panics
      | Some ck \<Rightarrow>
          pbind (GrpClerk_InstallShard n (Some (isCurrent n cc)) sck ck
                  \<lparr>inShard = int i, inState = data, inNum = Num (mrTo rec)\<rparr> 0) (\<lambda>(sck, ck, err).
            Ret (sck, clerks(target \<mapsto> ck), err = OK)))"

definition deleteAt ::
  "nat \<Rightarrow> ctrl_codec \<Rightarrow> migration_record \<Rightarrow> shard_ctrler \<Rightarrow> clerk_map \<Rightarrow> nat \<Rightarrow> tgid \<Rightarrow>
   (shard_ctrler \<times> clerk_map \<times> bool) rpc_prog" where
  "deleteAt n cc rec sck clerks i source =
     (case groupClerk clerks source (Groups (mrFrom rec)) of
        None \<Rightarrow> Panics
      | Some ck \<Rightarrow>
          pbind (GrpClerk_DeleteShard n (Some (isCurrent n cc)) sck ck
                  \<lparr>dlShard = int i, dlNum = Num (mrTo rec)\<rparr> 0) (\<lambda>(sck, ck, err).
            Ret (sck, clerks(source \<mapsto> ck), err = OK)))"

text \<open>The two loops over the shards, at shard \<open>i\<close>, with the old and the new group of the rest.\<close>

fun migrateLoop ::
  "nat \<Rightarrow> ctrl_codec \<Rightarrow> migration_record \<Rightarrow> shard_ctrler \<Rightarrow> clerk_map \<Rightarrow> nat \<Rightarrow> (tgid \<times> tgid) list \<Rightarrow>
   (shard_ctrler \<times> clerk_map \<times> bool) rpc_prog" where
  "migrateLoop n cc rec sck clerks i [] = Ret (sck, clerks, True)"
| "migrateLoop n cc rec sck clerks i ((source, target) # rest) =
     (if source = target then migrateLoop n cc rec sck clerks (i + 1) rest
      else pbind (freezeAt n cc rec sck clerks i source) (\<lambda>(sck, clerks, data).
        case data of
          None \<Rightarrow> Ret (sck, clerks, False)
        | Some data \<Rightarrow>
            pbind (installAt n cc rec sck clerks i target data) (\<lambda>(sck, clerks, ok).
              if \<not> ok then Ret (sck, clerks, False)
              else migrateLoop n cc rec sck clerks (i + 1) rest)))"

fun deleteLoop ::
  "nat \<Rightarrow> ctrl_codec \<Rightarrow> migration_record \<Rightarrow> shard_ctrler \<Rightarrow> clerk_map \<Rightarrow> nat \<Rightarrow> (tgid \<times> tgid) list \<Rightarrow>
   (shard_ctrler \<times> clerk_map \<times> bool) rpc_prog" where
  "deleteLoop n cc rec sck clerks i [] = Ret (sck, clerks, True)"
| "deleteLoop n cc rec sck clerks i ((source, target) # rest) =
     (if source = 0 \<or> source = target then deleteLoop n cc rec sck clerks (i + 1) rest
      else pbind (deleteAt n cc rec sck clerks i source) (\<lambda>(sck, clerks, ok).
        if \<not> ok then Ret (sck, clerks, False)
        else deleteLoop n cc rec sck clerks (i + 1) rest))"

definition publishPending ::
  "nat \<Rightarrow> ctrl_codec \<Rightarrow> controller_state \<Rightarrow> Tversion \<Rightarrow> migration_record \<Rightarrow> shard_ctrler \<Rightarrow>
   (shard_ctrler \<times> clerk_map \<times> bool) rpc_prog" where
  "publishPending n cc state version rec sck =
     (if ptr_equal cfg_equal (csCurrent state) (Some (mrFrom rec)) then
        pbind (migrateLoop n cc rec sck (\<lambda>_. None) 0 (zip (Shards (mrFrom rec)) (Shards (mrTo rec))))
          (\<lambda>(sck, clerks, ok).
             if \<not> ok then Ret (sck, clerks, False)
             else pbind (compareAndSwap n cc sck version (state\<lparr>csCurrent := Some (Copy (mrTo rec))\<rparr>)) (\<lambda>swapped.
               Ret (sck, clerks, swapped)))
      else Ret (sck, \<lambda>_. None, True))"

definition finishPending ::
  "nat \<Rightarrow> ctrl_codec \<Rightarrow> migration_record \<Rightarrow> shard_ctrler \<Rightarrow> clerk_map \<Rightarrow> (shard_ctrler \<times> bool) rpc_prog" where
  "finishPending n cc rec sck clerks =
     pbind (readOwned n cc sck) (\<lambda>(sck, owned).
       case owned of
         None \<Rightarrow> Ret (sck, False)
       | Some (state, version) \<Rightarrow>
           if \<not> ptr_equal record_equal (csPending state) (Some rec) \<or>
              \<not> ptr_equal cfg_equal (csCurrent state) (Some (mrTo rec))
           then Ret (sck, False)
           else pbind (deleteLoop n cc rec sck clerks 0 (zip (Shards (mrFrom rec)) (Shards (mrTo rec))))
             (\<lambda>(sck, clerks, ok).
                if \<not> ok then Ret (sck, False)
                else pbind (compareAndSwap n cc sck version (state\<lparr>csPending := None\<rparr>)) (\<lambda>swapped.
                  Ret (sck, swapped))))"

definition recoverPendingLocked :: "nat \<Rightarrow> ctrl_codec \<Rightarrow> shard_ctrler \<Rightarrow> (shard_ctrler \<times> bool) rpc_prog" where
  "recoverPendingLocked n cc sck =
     pbind (readOwned n cc sck) (\<lambda>(sck, owned).
       case owned of
         None \<Rightarrow> Ret (sck, False)
       | Some (state, version) \<Rightarrow>
           (case csPending state of
              None \<Rightarrow> Ret (sck, True)
            | Some rec \<Rightarrow>
                pbind (publishPending n cc state version rec sck) (\<lambda>(sck, clerks, ok).
                  if \<not> ok then Ret (sck, False) else finishPending n cc rec sck clerks)))"

section \<open>Operations\<close>

definition InitController :: "nat \<Rightarrow> ctrl_codec \<Rightarrow> shard_ctrler \<Rightarrow> shard_ctrler rpc_prog" where
  "InitController n cc sck =
     pbind (ensureLeadershipLocked n cc sck) (\<lambda>(sck, leader).
       if leader then pbind (recoverPendingLocked n cc sck) (\<lambda>(sck, _). Ret sck) else Ret sck)"

text \<open>The last part of \<^verbatim>\<open>ChangeConfigTo\<close>: the new migration is recorded, then carried out.\<close>

definition startMigration ::
  "nat \<Rightarrow> ctrl_codec \<Rightarrow> shard_ctrler \<Rightarrow> controller_state \<Rightarrow> Tversion \<Rightarrow> shard_config \<Rightarrow> shard_config \<Rightarrow> shard_ctrler rpc_prog" where
  "startMigration n cc sck state version cur next =
     pbind (compareAndSwap n cc sck version
             (state\<lparr>csPending := Some \<lparr>mrFrom = Copy cur, mrTo = Copy next\<rparr>\<rparr>)) (\<lambda>swapped.
       if swapped then pbind (recoverPendingLocked n cc sck) (\<lambda>(sck, _). Ret sck) else Ret sck)"

definition ChangeConfigTo :: "nat \<Rightarrow> ctrl_codec \<Rightarrow> shard_ctrler \<Rightarrow> shard_config option \<Rightarrow> shard_ctrler rpc_prog" where
  "ChangeConfigTo n cc sck next =
     (case next of
        None \<Rightarrow> Ret sck
      | Some next \<Rightarrow>
          pbind (ensureLeadershipLocked n cc sck) (\<lambda>(sck, leader).
            if \<not> leader then Ret sck
            else pbind (recoverPendingLocked n cc sck) (\<lambda>(sck, recovered).
              if \<not> recovered then Ret sck
              else pbind (readOwned n cc sck) (\<lambda>(sck, owned).
                case owned of
                  None \<Rightarrow> Ret sck
                | Some (state, version) \<Rightarrow>
                    if ptr_equal cfg_equal (csCurrent state) (Some next) then Ret sck
                    else (case csCurrent state of
                            None \<Rightarrow> Panics
                          | Some cur \<Rightarrow>
                              if Num next \<noteq> Num cur + 1 then Ret sck
                              else startMigration n cc sck state version cur next)))))"

definition Query :: "nat \<Rightarrow> ctrl_codec \<Rightarrow> shard_ctrler \<Rightarrow> shard_config option rpc_prog" where
  "Query n cc sck =
     pbind (readState n cc sck) (\<lambda>(state, _, err).
       if err \<noteq> OK then Ret None
       else case state of
         None \<Rightarrow> Panics
       | Some state \<Rightarrow> (case csCurrent state of None \<Rightarrow> Panics | Some cur \<Rightarrow> Ret (Some (Copy cur))))"

end
