(* ===== verification/Ctlworld.thy ===== *)
theory Ctlworld
  imports Shardplan Shardctrler
begin

text \<open>
  The whole sharded service: the key/value server with the controllers' state, and the replica
  groups. A group is its replicated state machine, which executes one committed operation at a time;
  that the replicas of a group agree on it is shown with the group.
\<close>

section \<open>Configurations and stored states\<close>

text \<open>
  What is fixed for a service: the name of the controllers' key/value server, the group that a
  server belongs to, the id of each controller, and the encodings.
\<close>

record 'p site =
  siteCtl :: string
  siteGroup :: "string \<Rightarrow> tgid"
  siteIds :: "'p \<Rightarrow> string"
  siteGc :: grp_codec
  siteCc :: ctrl_codec

definition plain :: "string \<Rightarrow> bool" where
  "plain s \<longleftrightarrow> list_all (\<lambda>c. of_char c < (128 :: nat)) s"

text \<open>The groups of a configuration are a map, and the names in it are ASCII.\<close>

definition cfg_plain :: "shard_config \<Rightarrow> bool" where
  "cfg_plain c \<longleftrightarrow> distinct (map fst (Groups c)) \<and> (\<forall>(g, srvs) \<in> set (Groups c). list_all plain srvs)"

definition state_plain :: "controller_state \<Rightarrow> bool" where
  "state_plain st \<longleftrightarrow>
     plain (csOwner st) \<and> (\<forall>c. csCurrent st = Some c \<longrightarrow> cfg_plain c) \<and>
     (\<forall>rec. csPending st = Some rec \<longrightarrow> cfg_plain (mrFrom rec) \<and> cfg_plain (mrTo rec))"

text \<open>Every shard has no group or one with servers, and the servers listed for a group belong to it.\<close>

definition cfg_good :: "'p site \<Rightarrow> shard_config \<Rightarrow> bool" where
  "cfg_good S c \<longleftrightarrow>
     length (Shards c) = NShards \<and> cfg_plain c \<and>
     (\<forall>g \<in> set (Shards c). g \<noteq> 0 \<longrightarrow> (\<exists>srvs. map_of (Groups c) g = Some srvs \<and> srvs \<noteq> [])) \<and>
     (\<forall>g srvs. map_of (Groups c) g = Some srvs \<longrightarrow> (\<forall>nm \<in> set srvs. siteGroup S nm = g \<and> nm \<noteq> siteCtl S))"

definition state_ok :: "'p site \<Rightarrow> controller_state \<Rightarrow> bool" where
  "state_ok S st \<longleftrightarrow>
     plain (csOwner st) \<and>
     (\<exists>cur. csCurrent st = Some cur \<and> cfg_good S cur \<and>
        (\<forall>rec. csPending st = Some rec \<longrightarrow>
           cfg_good S (mrFrom rec) \<and> cfg_good S (mrTo rec) \<and> Num (mrTo rec) = Num (mrFrom rec) + 1 \<and>
           (cfg_equal cur (mrFrom rec) \<or> cfg_equal cur (mrTo rec))))"

text \<open>
  What the code relies on of JSON: a state whose strings are ASCII can be encoded, and decoding gives
  back an equal state.
\<close>

definition json_ok :: "ctrl_codec \<Rightarrow> bool" where
  "json_ok cc \<longleftrightarrow>
     (\<forall>st. state_plain st \<longrightarrow>
        (\<exists>x st'. ctMarshal cc st = Some x \<and> ctUnmarshal cc x = Some st' \<and> state_plain st' \<and> state_equal st' st))"

definition site_ok :: "'p site \<Rightarrow> bool" where
  "site_ok S \<longleftrightarrow> grp_codec_ok (siteGc S) \<and> json_ok (siteCc S) \<and> inj (siteIds S) \<and> (\<forall>p. plain (siteIds S p))"

text \<open>
  What a stored state means for the shards: whether the newest configuration is published, its
  number, the groups of the shards before and in it.
\<close>

type_synonym plan = "bool \<times> tnum \<times> tgid list \<times> tgid list"

definition plan_of :: "controller_state \<Rightarrow> plan" where
  "plan_of st =
     (let cur = the (csCurrent st) in
      case csPending st of
        None \<Rightarrow> (True, Num cur, Shards cur, Shards cur)
      | Some rec \<Rightarrow> (\<not> cfg_equal cur (mrFrom rec), Num (mrTo rec), Shards (mrFrom rec), Shards (mrTo rec)))"

definition first_plan :: plan where
  "first_plan = (True, NumFirst, replicate NShards Gid1, replicate NShards Gid1)"

lemma cfg_equal_iff:
  "cfg_equal c d \<longleftrightarrow> Num c = Num d \<and> Shards c = Shards d \<and> map_of (Groups c) = map_of (Groups d)"
proof -
  have "map_of (Groups c) = map_of (Groups d)"
    if "list_all (\<lambda>(g, _). map_of (Groups c) g = map_of (Groups d) g) (Groups c @ Groups d)"
  proof
    fix g
    show "map_of (Groups c) g = map_of (Groups d) g"
    proof (cases "g \<in> fst ` set (Groups c) \<union> fst ` set (Groups d)")
      case True
      then show ?thesis using that by (auto simp: list_all_iff)
    next
      case False
      then have "map_of (Groups c) g = None" "map_of (Groups d) g = None" by (simp_all add: map_of_eq_None_iff)
      then show ?thesis by simp
    qed
  qed
  then show ?thesis by (auto simp: cfg_equal_def list_all_iff)
qed

lemma cfg_equal_refl [simp]: "cfg_equal c c"
  by (simp add: cfg_equal_iff)

lemma cfg_good_equal: "cfg_good S c \<Longrightarrow> cfg_equal d c \<Longrightarrow> cfg_plain d \<Longrightarrow> cfg_good S d"
  by (simp add: cfg_good_def cfg_equal_iff)

lemma Copy_id [simp]: "Copy c = c"
  by (cases c) (simp add: Copy_def MakeShardConfig_def case_prod_unfold)

lemma state_ok_plain: "state_ok S st \<Longrightarrow> state_plain st"
  by (auto simp: state_ok_def state_plain_def cfg_good_def)

lemma state_equal_ok:
  assumes "state_ok S st" "state_equal st' st" "state_plain st'"
  shows "state_ok S st'" "plan_of st' = plan_of st" "csOwner st' = csOwner st"
    "csPending st' = None \<longleftrightarrow> csPending st = None"
proof -
  obtain cur cur' where c: "csCurrent st = Some cur" "csCurrent st' = Some cur'" "cfg_equal cur' cur"
    using assms(1,2) by (cases "csCurrent st'") (auto simp: state_ok_def state_equal_def ptr_equal_def)
  have g: "cfg_good S cur'" using assms(1,3) c by (auto simp: state_ok_def state_plain_def intro: cfg_good_equal)
  show "csOwner st' = csOwner st" using assms(2) by (simp add: state_equal_def)
  show "csPending st' = None \<longleftrightarrow> csPending st = None"
    using assms(2) by (auto simp: state_equal_def ptr_equal_def split: option.splits)
  show "plan_of st' = plan_of st"
    using assms(2) c by (auto simp: state_equal_def ptr_equal_def record_equal_def plan_of_def cfg_equal_iff split: option.splits)
  show "state_ok S st'"
  proof (cases "csPending st'")
    case None
    then show ?thesis using g c assms(3) by (simp add: state_ok_def state_plain_def)
  next
    case (Some rec')
    then obtain rec where r: "csPending st = Some rec" "record_equal rec' rec"
      using assms(2) by (cases "csPending st") (auto simp: state_equal_def ptr_equal_def)
    then have "cfg_good S (mrFrom rec')" "cfg_good S (mrTo rec')"
      using assms(1,3) Some by (auto simp: record_equal_def state_ok_def state_plain_def intro: cfg_good_equal)
    then show ?thesis using Some r g c assms(1,3)
      by (auto simp: state_ok_def state_plain_def record_equal_def cfg_equal_iff)
  qed
qed

text \<open>Encoding a good state.\<close>

lemma marshal_ok:
  assumes "site_ok S" "state_ok S st"
  shows "\<exists>x st'. ctMarshal (siteCc S) st = Some x \<and> ctUnmarshal (siteCc S) x = Some st' \<and> state_ok S st' \<and>
    plan_of st' = plan_of st \<and> csOwner st' = csOwner st \<and> (csPending st' = None \<longleftrightarrow> csPending st = None)"
proof -
  obtain x st' where x: "ctMarshal (siteCc S) st = Some x" "ctUnmarshal (siteCc S) x = Some st'" "state_plain st'"
      "state_equal st' st"
    using assms state_ok_plain unfolding site_ok_def json_ok_def by blast
  then show ?thesis
    using state_equal_ok [OF assms(2) x(4,3)] by (intro exI [of _ x] exI [of _ st']) simp
qed

lemma plan_of_length:
  assumes "state_ok S st" "plan_of st = (pub, n, A, B)"
  shows "length A = NShards" "length B = NShards"
  using assms by (auto simp: state_ok_def plan_of_def cfg_good_def Let_def split: option.splits)

section \<open>The world\<close>

text \<open>
  \<open>swTrace\<close> records for every shard the client operations executed on it, with their results, since
  the shard was last created empty; no operation reads it.
\<close>

record sworld =
  swKv :: kvsrv
  swGroups :: "tgid \<Rightarrow> grp_server"
  swTrace :: "nat \<Rightarrow> (kv_req \<times> kv_res) list"

abbreviation stored :: "sworld \<Rightarrow> kv_state" where
  "stored w \<equiv> kvsrv_abs (swKv w) currentConfigKey"

abbreviation shard_at :: "sworld \<Rightarrow> nat \<Rightarrow> tgid \<Rightarrow> shard_state" where
  "shard_at w i \<equiv> (\<lambda>g. swGroups w g ! i)"

definition world_plan :: "'p site \<Rightarrow> sworld \<Rightarrow> plan" where
  "world_plan S w =
     (if ksVersion (stored w) = 0 then first_plan else plan_of (the (ctUnmarshal (siteCc S) (ksValue (stored w)))))"

definition site_inv :: "'p site \<Rightarrow> sworld \<Rightarrow> bool" where
  "site_inv S w \<longleftrightarrow>
     site_ok S \<and>
     (\<forall>e. kvData (swKv w) currentConfigKey = Some e \<longrightarrow> enVersion e \<noteq> 0) \<and>
     (ksVersion (stored w) \<noteq> 0 \<longrightarrow> (\<exists>st. ctUnmarshal (siteCc S) (ksValue (stored w)) = Some st \<and> state_ok S st)) \<and>
     (\<forall>g. grp_ok (swGroups w g)) \<and>
     (case world_plan S w of (pub, n, A, B) \<Rightarrow>
        \<forall>i < NShards. \<exists>kv. kv_run StartKVServer (swTrace w i) = Some kv \<and>
          shard_inv pub n (A ! i) (B ! i) (shard_at w i) kv)"

definition first_world :: sworld where
  "first_world = \<lparr>swKv = MakeKVServer, swGroups = StartServerShardGrp, swTrace = (\<lambda>_. [])\<rparr>"

lemma StartServerShardGrp_nth:
  "i < NShards \<Longrightarrow> StartServerShardGrp g ! i =
     (if g = Gid1
      then \<lparr>shValues = (\<lambda>_. None), shStatus = ShardServing, shConfigNum = NumFirst, shRequests = (\<lambda>_. None)\<rparr>
      else \<lparr>shValues = (\<lambda>_. None), shStatus = ShardAbsent, shConfigNum = 0, shRequests = (\<lambda>_. None)\<rparr>)"
  by (simp add: StartServerShardGrp_def)

lemma first_world_inv: "site_ok S \<Longrightarrow> site_inv S first_world"
  by (auto simp: site_inv_def first_world_def MakeKVServer_def kvsrv_abs_def KvModel_Init_def world_plan_def
      first_plan_def StartServerShardGrp_ok shard_inv_def StartServerShardGrp_nth Gid1_def NumFirst_def idle_def
      serves_def shard_kv_def StartKVServer_def)

section \<open>Execution\<close>

text \<open>The reply of a group's server, given what \<^verbatim>\<open>SubmitWithTimeout\<close> returned.\<close>

definition grp_answer :: "rpc_args \<Rightarrow> Err \<times> rpc_reply option \<Rightarrow> rpc_reply option" where
  "grp_answer args submitted =
     (case args of
        GetArgs _ \<Rightarrow> map_option GetReply (ShardGrp_Get submitted)
      | PutArgs _ \<Rightarrow> map_option PutReply (ShardGrp_Put submitted)
      | FreezeArgs _ \<Rightarrow> map_option FreezeReply (ShardGrp_FreezeShard submitted)
      | InstallArgs _ \<Rightarrow> map_option InstallReply (ShardGrp_InstallShard submitted)
      | DeleteArgs _ \<Rightarrow> map_option DeleteReply (ShardGrp_DeleteShard submitted)
      | OtherArgs \<Rightarrow> None)"

text \<open>How the trace goes on when group \<open>g\<close> executes an operation.\<close>

definition client_op :: "rpc_args \<Rightarrow> rpc_reply \<Rightarrow> (kv_req \<times> kv_res) option" where
  "client_op args rep =
     (case (args, rep) of
        (GetArgs a, GetReply r) \<Rightarrow> Some (ReqGet a, ResGet r)
      | (PutArgs a, PutReply r) \<Rightarrow> Some (ReqPut a, ResPut r)
      | _ \<Rightarrow> None)"

definition trace_after ::
  "grp_server \<Rightarrow> grp_server \<Rightarrow> rpc_args \<Rightarrow> rpc_reply \<Rightarrow> (nat \<Rightarrow> (kv_req \<times> kv_res) list) \<Rightarrow> nat \<Rightarrow> (kv_req \<times> kv_res) list"
  where
  "trace_after kv kv' args rep T i =
     (if int i \<noteq> target_shard args then T i
      else case client_op args rep of
        Some h \<Rightarrow> if shStatus (kv ! i) = ShardServing then T i @ [h] else T i
      | None \<Rightarrow> (case args of
                   InstallArgs a \<Rightarrow> if inState a = [] \<and> kv' ! i \<noteq> kv ! i then [] else T i
                 | _ \<Rightarrow> T i))"

definition grp_do :: "'p site \<Rightarrow> sworld \<Rightarrow> tgid \<Rightarrow> rpc_args \<Rightarrow> sworld \<Rightarrow> rpc_reply \<Rightarrow> bool" where
  "grp_do S w g args w' rep \<longleftrightarrow>
     (\<exists>kv'. ShardGrp_DoOp (siteGc S) (swGroups w g) args = Some (kv', rep) \<and>
        w' = w\<lparr>swGroups := (swGroups w)(g := kv'),
               swTrace := trace_after (swGroups w g) kv' args rep (swTrace w)\<rparr>)"

text \<open>
  A call to the key/value server, or to a server of a group, which refuses it or has it executed by
  the group. A request that is refused or not answered can still be executed later.
\<close>

definition site_exec :: "'p site \<Rightarrow> sworld \<Rightarrow> rpc_call \<Rightarrow> sworld \<Rightarrow> rpc_reply \<Rightarrow> bool" where
  "site_exec S w q w' r \<longleftrightarrow>
     (if fst q = siteCtl S then \<exists>kv'. kvsrv_exec (swKv w) (snd q) kv' r \<and> w' = w\<lparr>swKv := kv'\<rparr>
      else (\<exists>err. err \<noteq> OK \<and> grp_answer (snd q) (err, None) = Some r \<and> w' = w) \<or>
           (\<exists>rep. grp_do S w (siteGroup S (fst q)) (snd q) w' rep \<and> grp_answer (snd q) (OK, Some rep) = Some r))"

text \<open>Meanwhile clients read and write at any group, and other keys of the key/value server change.\<close>

definition site_env :: "'p site \<Rightarrow> sworld \<Rightarrow> sworld \<Rightarrow> bool" where
  "site_env S w w' \<longleftrightarrow>
     (\<exists>g args rep. grp_do S w g args w' rep \<and> ((\<exists>a. args = GetArgs a) \<or> (\<exists>a. args = PutArgs a))) \<or>
     (\<exists>kv'. kvData kv' currentConfigKey = kvData (swKv w) currentConfigKey \<and> w' = w\<lparr>swKv := kv'\<rparr>)"

text \<open>
  What controllers are asked to do: to create the first configuration, in which the first group has
  all shards, to take over, or to change to some good configuration.
\<close>

definition site_ops :: "'p site \<Rightarrow> 'p \<Rightarrow> shard_ctrler \<Rightarrow> shard_ctrler rpc_prog \<Rightarrow> bool" where
  "site_ops S p sck pr \<longleftrightarrow>
     (\<exists>n cfg. pr = InitConfig n (siteCc S) sck cfg \<and>
        (\<forall>c. cfg = Some c \<longrightarrow> cfg_good S c \<and> Num c = NumFirst \<and> Shards c = replicate NShards Gid1)) \<or>
     (\<exists>n. pr = InitController n (siteCc S) sck) \<or>
     (\<exists>n next. pr = ChangeConfigTo n (siteCc S) sck next \<and> (\<forall>c. next = Some c \<longrightarrow> cfg_good S c))"

end
