(* ===== verification/Ctlprog.thy ===== *)
theory Ctlprog
  imports Ctlworld
begin

text \<open>
  The controller's operations in the logic of programs: every request a controller sends is one that
  what it has learned entitles it to send, and no operation panics.
\<close>

section \<open>What a controller can know\<close>

text \<open>
  \<open>SawState v x\<close>: the stored state was \<open>x\<close> at version \<open>v\<close>. \<open>Settled\<close>: none of its writes can still
  take effect; \<open>Unsettled v\<close>: none but one at version \<open>v\<close>. \<open>Clean\<close>: settled, and as long as it owns
  the stored state no migration is pending. \<open>May q\<close>: the request \<open>q\<close> is harmless. \<open>Moving g h i n\<close>:
  shard \<open>i\<close> is going from \<open>g\<close> to \<open>h\<close> under configuration \<open>n\<close>, or has arrived; \<open>Carried\<close> has in
  addition its data. \<open>AtLeast g i n\<close>: group \<open>g\<close> has reached number \<open>n\<close> at shard \<open>i\<close>. \<open>Leaving g h i n\<close>:
  shard \<open>i\<close> has gone from \<open>g\<close> to \<open>h\<close>; \<open>Gone g i n\<close>: group \<open>g\<close> does not have it any more.
\<close>

datatype ctl_fact =
  SawState Tversion string | Settled | Unsettled Tversion | Clean | May rpc_call
  | Moving tgid tgid nat tnum | Carried tgid tgid nat tnum bytes | AtLeast tgid nat tnum
  | Leaving tgid tgid nat tnum | Gone tgid nat tnum

text \<open>What a stored state tells.\<close>

definition plan_facts :: "plan \<Rightarrow> ctl_fact set" where
  "plan_facts v =
     (case v of (pub, n, A, B) \<Rightarrow>
        {(if pub then Leaving else Moving) (A ! i) (B ! i) i n | i. i < NShards \<and> A ! i \<noteq> B ! i})"

definition state_facts :: "ctl_fact set \<Rightarrow> Tversion \<Rightarrow> string \<Rightarrow> controller_state \<Rightarrow> ctl_fact set" where
  "state_facts K v x st =
     insert (SawState v x) (plan_facts (plan_of st)) \<union>
     (if Settled \<in> K \<and> csPending st = None then {Clean} else {})"

text \<open>The change of the plan from that of the state \<open>st\<close> is one that is known to be right.\<close>

definition plan_change :: "'p site \<Rightarrow> 'p \<Rightarrow> ctl_fact set \<Rightarrow> controller_state \<Rightarrow> plan \<Rightarrow> bool" where
  "plan_change S p K st v \<longleftrightarrow>
     v = plan_of st \<or>
     (Clean \<in> K \<and> csOwner st = siteIds S p \<and>
       (\<exists>cur B. csCurrent st = Some cur \<and> v = (False, Num cur + 1, Shards cur, B))) \<or>
     (\<exists>n A B. plan_of st = (False, n, A, B) \<and> v = (True, n, A, B) \<and>
       (\<forall>i < NShards. A ! i \<noteq> B ! i \<longrightarrow>
          (A ! i \<noteq> 0 \<longrightarrow> AtLeast (A ! i) i n \<in> K) \<and> (B ! i \<noteq> 0 \<longrightarrow> AtLeast (B ! i) i n \<in> K))) \<or>
     (\<exists>n A B. plan_of st = (True, n, A, B) \<and> v = (True, n, B, B) \<and>
       (\<forall>i < NShards. A ! i \<noteq> B ! i \<and> A ! i \<noteq> 0 \<longrightarrow> Gone (A ! i) i n \<in> K))"

definition swap_ok :: "'p site \<Rightarrow> 'p \<Rightarrow> ctl_fact set \<Rightarrow> Tversion \<Rightarrow> controller_state \<Rightarrow> bool" where
  "swap_ok S p K v st' \<longleftrightarrow>
     state_ok S st' \<and> csOwner st' = siteIds S p \<and>
     (if v = 0 then plan_of st' = first_plan
      else \<exists>x st. SawState v x \<in> K \<and> ctUnmarshal (siteCc S) x = Some st \<and> plan_change S p K st (plan_of st'))"

section \<open>The rules of the logic\<close>

definition ctl_po :: "'p site \<Rightarrow> rpc_call \<Rightarrow> rpc_reply \<Rightarrow> bool" where
  "ctl_po S q r \<longleftrightarrow>
     (\<forall>g. r = GetReply g \<and> grErr g = OK \<longrightarrow>
        grVersion g \<noteq> 0 \<and> (\<exists>st. ctUnmarshal (siteCc S) (grValue g) = Some st \<and> state_ok S st))"

fun ctl_al :: "'p site \<Rightarrow> 'p \<Rightarrow> ctl_fact set \<Rightarrow> rpc_call \<Rightarrow> bool" where
  "ctl_al S p K (nm, GetArgs a) \<longleftrightarrow> nm = siteCtl S \<and> gKey a = currentConfigKey"
| "ctl_al S p K (nm, PutArgs a) \<longleftrightarrow>
     nm = siteCtl S \<and> pKey a = currentConfigKey \<and>
     (Settled \<in> K \<and> (\<exists>st'. ctUnmarshal (siteCc S) (pValue a) = Some st' \<and> swap_ok S p K (pVersion a) st') \<or>
      Unsettled (pVersion a) \<in> K \<and> May (nm, PutArgs a) \<in> K)"
| "ctl_al S p K (nm, FreezeArgs a) \<longleftrightarrow>
     nm \<noteq> siteCtl S \<and> siteGroup S nm \<noteq> 0 \<and>
     (\<exists>i h. fzShard a = int i \<and> i < NShards \<and> h \<noteq> siteGroup S nm \<and> Moving (siteGroup S nm) h i (fzNum a) \<in> K)"
| "ctl_al S p K (nm, InstallArgs a) \<longleftrightarrow>
     nm \<noteq> siteCtl S \<and> siteGroup S nm \<noteq> 0 \<and>
     (\<exists>i g. inShard a = int i \<and> i < NShards \<and> g \<noteq> siteGroup S nm \<and>
        (Carried g (siteGroup S nm) i (inNum a) (inState a) \<in> K \<or>
         g = 0 \<and> inState a = [] \<and> Moving g (siteGroup S nm) i (inNum a) \<in> K))"
| "ctl_al S p K (nm, DeleteArgs a) \<longleftrightarrow>
     nm \<noteq> siteCtl S \<and> siteGroup S nm \<noteq> 0 \<and>
     (\<exists>i h. dlShard a = int i \<and> i < NShards \<and> h \<noteq> siteGroup S nm \<and> Leaving (siteGroup S nm) h i (dlNum a) \<in> K)"
| "ctl_al S p K (nm, OtherArgs) \<longleftrightarrow> False"

text \<open>The knowledge that a write does not put in question.\<close>

definition lasting :: "ctl_fact set \<Rightarrow> ctl_fact set" where
  "lasting K = {f \<in> K. f \<noteq> Settled \<and> f \<noteq> Clean \<and> (\<forall>v. f \<noteq> Unsettled v)}"

fun ctl_ke :: "ctl_fact set \<Rightarrow> rpc_call \<Rightarrow> ctl_fact set" where
  "ctl_ke K (nm, PutArgs a) = lasting K \<union> {Unsettled (pVersion a), May (nm, PutArgs a)}"
| "ctl_ke K (nm, _) = K"

fun ctl_le :: "'p site \<Rightarrow> ctl_fact set \<Rightarrow> rpc_call \<Rightarrow> rpc_reply \<Rightarrow> ctl_fact set" where
  "ctl_le S K (nm, GetArgs a) (GetReply r) =
     (if grErr r = OK
      then state_facts K (grVersion r) (grValue r) (the (ctUnmarshal (siteCc S) (grValue r))) else {})"
| "ctl_le S K (nm, PutArgs a) (PutReply r) =
     (if Unsettled (pVersion a) \<in> K \<and> (prErr r = OK \<or> prErr r = ErrVersion \<or> prErr r = ErrNoKey)
      then insert Settled
        (if prErr r = OK \<and> csPending (the (ctUnmarshal (siteCc S) (pValue a))) = None then {Clean} else {})
      else {})"
| "ctl_le S K (nm, FreezeArgs a) (FreezeReply r) =
     (if fzrErr r = OK \<and> fzrNum r = fzNum a
      then insert (AtLeast (siteGroup S nm) (nat (fzShard a)) (fzNum a))
        {Carried (siteGroup S nm) h (nat (fzShard a)) (fzNum a) (fzrState r) | h.
           h \<noteq> siteGroup S nm \<and> Moving (siteGroup S nm) h (nat (fzShard a)) (fzNum a) \<in> K}
      else {})"
| "ctl_le S K (nm, InstallArgs a) (InstallReply r) =
     (if inrErr r = OK then {AtLeast (siteGroup S nm) (nat (inShard a)) (inNum a)} else {})"
| "ctl_le S K (nm, DeleteArgs a) (DeleteReply r) =
     (if dlrErr r = OK then {Gone (siteGroup S nm) (nat (dlShard a)) (dlNum a)} else {})"
| "ctl_le S K q r = {}"

abbreviation ctl_wp :: "'p site \<Rightarrow> 'p \<Rightarrow> 'a rpc_prog \<Rightarrow> ctl_fact set \<Rightarrow> ('a \<Rightarrow> ctl_fact set \<Rightarrow> bool) \<Rightarrow> bool" where
  "ctl_wp S p \<equiv> wp (ctl_po S) (ctl_al S p) ctl_ke (ctl_le S)"

definition sck_ok :: "'p site \<Rightarrow> 'p \<Rightarrow> shard_ctrler \<Rightarrow> bool" where
  "sck_ok S p sck \<longleftrightarrow> scServer sck = siteCtl S \<and> scId sck = siteIds S p"

definition ctl_Q :: "'p site \<Rightarrow> 'p \<Rightarrow> shard_ctrler \<Rightarrow> ctl_fact set \<Rightarrow> bool" where
  "ctl_Q S p sck K \<longleftrightarrow> sck_ok S p sck \<and> Settled \<in> K"

section \<open>Reading\<close>

text \<open>A state that was read, and what is known then.\<close>

definition was_read :: "'p site \<Rightarrow> ctl_fact set \<Rightarrow> controller_state \<Rightarrow> Tversion \<Rightarrow> ctl_fact set \<Rightarrow> bool" where
  "was_read S K st v K' \<longleftrightarrow>
     (\<exists>x. ctUnmarshal (siteCc S) x = Some st \<and> state_ok S st \<and> v \<noteq> 0 \<and> K' = K \<union> state_facts K v x st)"

lemma readState_wp:
  assumes "sck_ok S p sck"
    and "\<And>st v K'. was_read S K st v K' \<Longrightarrow> Q (Some st, v, OK) K'" "Q (None, 0, ErrNoKey) K"
  shows "ctl_wp S p (readState n (siteCc S) sck) K Q"
  unfolding readState_def wp_pbind
proof (rule KvsrvClerk_Get_wp, goal_cases)
  case (3 r)
  then obtain st where st: "ctUnmarshal (siteCc S) (grValue r) = Some st" "state_ok S st" "grVersion r \<noteq> 0"
    by (auto simp: ctl_po_def)
  then have "was_read S K st (grVersion r)
      (K \<union> ctl_le S K (scServer sck, GetArgs \<lparr>gKey = currentConfigKey\<rparr>) (GetReply r))"
    using 3(2) by (auto simp: was_read_def)
  with assms(2) st show ?case by (auto simp: state_ok_def)
next
  case (5 r)
  then show ?case by (cases r) auto
qed (use assms(1,3) in \<open>auto simp: sck_ok_def\<close>)

lemma readOwned_wp:
  assumes "sck_ok S p sck"
    and "\<And>st v K'. was_read S K st v K' \<Longrightarrow> csOwner st = siteIds S p \<Longrightarrow> Q (sck, Some (st, v)) K'"
    and "\<And>sck K'. sck_ok S p sck \<Longrightarrow> K \<subseteq> K' \<Longrightarrow> Q (sck, None) K'"
  shows "ctl_wp S p (readOwned n (siteCc S) sck) K Q"
proof (cases "scDeposed sck")
  case False
  have "K \<subseteq> K'" if "was_read S K st v K'" for st v K' using that by (auto simp: was_read_def)
  then show ?thesis
    unfolding readOwned_def using assms False
    by (simp, intro readState_wp) (auto simp: sck_ok_def)
qed (use assms in \<open>simp add: readOwned_def\<close>)

lemma isCurrent_wp:
  assumes "sck_ok S p sck" "\<And>sck current K'. sck_ok S p sck \<Longrightarrow> K \<subseteq> K' \<Longrightarrow> Q (sck, current) K'"
  shows "ctl_wp S p (isCurrent n (siteCc S) sck) K Q"
  unfolding isCurrent_def wp_pbind
  by (rule readOwned_wp [OF assms(1)]) (auto simp: was_read_def intro!: assms(2) [OF assms(1)] assms(2))

section \<open>Writing\<close>

lemma swap_Put_wp:
  assumes "Settled \<in> K" "pKey a = currentConfigKey"
    and "ctUnmarshal (siteCc S) (pValue a) = Some st'" "swap_ok S p K (pVersion a) st'"
    and "\<And>err K'. lasting K \<subseteq> K' \<Longrightarrow> Settled \<in> K' \<Longrightarrow> (err = OK \<and> csPending st' = None \<Longrightarrow> Clean \<in> K') \<Longrightarrow> Q err K'"
  shows "ctl_wp S p (KvsrvClerk_Put_loop n (siteCtl S) a resent) K Q"
proof -
  let ?q = "(siteCtl S, PutArgs a)"
  define K' where "K' = ctl_ke K ?q"
  have K': "Unsettled (pVersion a) \<in> K'" "May ?q \<in> K'" "lasting K \<subseteq> K'" by (auto simp: K'_def lasting_def)
  have ans: "Q e (K' \<union> ctl_le S K' ?q (PutReply r))"
    if "prErr r = e \<or> prErr r = ErrVersion \<and> e = ErrMaybe" "prErr r = OK \<or> prErr r = ErrVersion \<or> prErr r = ErrNoKey" for r e
    by (rule assms(5)) (use that K' assms(3) in auto)
  show ?thesis
  proof (rule KvsrvClerk_Put_wp [where K' = K'])
    show "ctl_al S p K ?q" using assms(1-4) by auto
    show "ctl_ke K ?q = K'" by (simp add: K'_def)
    show "ctl_al S p K' ?q" "ctl_ke K' ?q = K'" using K' assms(2) by (auto simp: K'_def lasting_def)
    show "ctl_le S K' ?q r = {}"
      if "\<forall>g. r = PutReply g \<longrightarrow> prErr g \<noteq> OK \<and> prErr g \<noteq> ErrNoKey \<and> prErr g \<noteq> ErrVersion" for r
      using that by (cases r) auto
  qed (rule ans; auto)+
qed

lemma compareAndSwap_wp:
  assumes "sck_ok S p sck" "site_ok S" "Settled \<in> K" "swap_ok S p K v st"
    and "\<And>swapped K'. lasting K \<subseteq> K' \<Longrightarrow> Settled \<in> K' \<Longrightarrow> (swapped \<and> csPending st = None \<Longrightarrow> Clean \<in> K') \<Longrightarrow> Q swapped K'"
  shows "ctl_wp S p (compareAndSwap n (siteCc S) sck v st) K Q"
proof -
  have "state_ok S st" using assms(4) by (simp add: swap_ok_def)
  from marshal_ok [OF assms(2) this] obtain x st' where m: "ctMarshal (siteCc S) st = Some x"
      "ctUnmarshal (siteCc S) x = Some st'" "state_ok S st'" "plan_of st' = plan_of st" "csOwner st' = csOwner st"
      "csPending st' = None \<longleftrightarrow> csPending st = None" by auto
  let ?a = "\<lparr>pKey = currentConfigKey, pValue = x, pVersion = v, pClientID = 0, pSequence = 0, pAck = 0\<rparr>"
  have sw: "swap_ok S p K (pVersion ?a) st'" using assms(4) m(3-5) by (auto simp: swap_ok_def split: if_splits)
  have srv: "scServer sck = siteCtl S" using assms(1) by (simp add: sck_ok_def)
  have rd: "ctl_wp S p (readState n (siteCc S) sck) K'
      (\<lambda>(got, _, readErr) K'. Q (readErr = OK \<and> ptr_equal state_equal got (Some st)) K')"
    if k: "lasting K \<subseteq> K'" "Settled \<in> K'" for K'
  proof (rule readState_wp [OF assms(1)], goal_cases)
    case (1 st1 v1 K1)
    note r = 1
    have "Clean \<in> K1" if "state_equal st1 st" "csPending st = None"
    proof -
      have "csPending st1 = None" using that by (auto simp: state_equal_def ptr_equal_def split: option.splits)
      with r k(2) show ?thesis by (auto simp: was_read_def state_facts_def)
    qed
    then show ?case
      using r k by (auto simp: was_read_def ptr_equal_def intro!: assms(5))
  qed (use k in \<open>auto intro!: assms(5)\<close>)
  show ?thesis
    unfolding compareAndSwap_def KvsrvClerk_Put_def srv using m(1)
  proof (simp, intro swap_Put_wp [OF assms(3) _ _ sw], goal_cases)
    case (3 err K')
    then show ?case using rd m(6) by (auto simp: case_prod_unfold intro!: assms(5) elim!: wp_conseq)
  qed (use m in simp_all)
qed

section \<open>Migration requests\<close>

text \<open>A clerk for the group \<open>g\<close>.\<close>

definition gck_ok :: "'p site \<Rightarrow> tgid \<Rightarrow> grp_clerk \<Rightarrow> bool" where
  "gck_ok S g ck \<longleftrightarrow> gc_ok ck \<and> (\<forall>nm \<in> set (gcServers ck). siteGroup S nm = g \<and> nm \<noteq> siteCtl S)"

lemma gck_ok_simps [simp]:
  "gck_ok S g ck \<Longrightarrow> gck_ok S g (gcRememberLeader ck (gcLeader ck))"
  "gck_ok S g ck \<Longrightarrow> gck_ok S g (fst (gcRetryAfterFailure ck s fa))"
  by (auto simp: gck_ok_def gcRetryAfterFailure_def Let_def)

text \<open>One call of such a clerk.\<close>

lemma gcCall_wp:
  assumes "gck_ok S g ck" "\<And>nm. siteGroup S nm = g \<Longrightarrow> nm \<noteq> siteCtl S \<Longrightarrow> ctl_al S p K (nm, args)"
    and "\<And>a. args \<noteq> PutArgs a" "ctl_wp S p (k None) K Q"
    and "\<And>nm r. siteGroup S nm = g \<Longrightarrow> nm \<noteq> siteCtl S \<Longrightarrow> ctl_wp S p (k (Some r)) (K \<union> ctl_le S K (nm, args) r) Q"
  shows "ctl_wp S p (gcCall ck (gcLeader ck) args k) K Q"
proof -
  let ?nm = "gcServers ck ! gcLeader ck"
  have nm: "gcLeader ck < length (gcServers ck)" "siteGroup S ?nm = g" "?nm \<noteq> siteCtl S"
    using assms(1) by (auto simp: gck_ok_def gc_ok_def)
  moreover have "ctl_ke K (?nm, args) = K" using assms(3) by (cases args) auto
  ultimately show ?thesis using assms(2,4,5) by (simp add: gcCall_def)
qed

text \<open>
  The three migration calls are one loop: check the ownership, call the leader, answer or try the next
  server.
\<close>

primrec retry_loop ::
  "nat \<Rightarrow> 'w current_check \<Rightarrow> rpc_args \<Rightarrow> ('w \<Rightarrow> grp_clerk \<Rightarrow> 'b) \<Rightarrow> ('w \<Rightarrow> grp_clerk \<Rightarrow> rpc_reply option \<Rightarrow> 'b option) \<Rightarrow>
   'w \<Rightarrow> grp_clerk \<Rightarrow> nat \<Rightarrow> 'b rpc_prog" where
  "retry_loop 0 ic args stop answer w ck fa = Exhausted"
| "retry_loop (Suc n) ic args stop answer w ck fa =
     pbind (gcIsCurrent ic w) (\<lambda>(w, current).
       if \<not> current then Ret (stop w ck)
       else gcCall ck (gcLeader ck) args (\<lambda>r.
         case answer w (gcRememberLeader ck (gcLeader ck)) r of
           Some b \<Rightarrow> Ret b
         | None \<Rightarrow> (case gcRetryAfterFailure ck (gcLeader ck) fa of (ck, fa) \<Rightarrow>
                     retry_loop n ic args stop answer w ck fa)))"

lemma retry_loop_wp:
  assumes "sck_ok S p sck" "gck_ok S g ck" "\<And>a. args \<noteq> PutArgs a" "\<And>sck ck. answer sck ck None = None"
    and "\<And>K' nm. K \<subseteq> K' \<Longrightarrow> siteGroup S nm = g \<Longrightarrow> nm \<noteq> siteCtl S \<Longrightarrow> ctl_al S p K' (nm, args)"
    and "\<And>sck ck K'. sck_ok S p sck \<Longrightarrow> gck_ok S g ck \<Longrightarrow> K \<subseteq> K' \<Longrightarrow> Q (stop sck ck) K'"
    and "\<And>sck ck nm r b K'. sck_ok S p sck \<Longrightarrow> gck_ok S g ck \<Longrightarrow> K \<subseteq> K' \<Longrightarrow> siteGroup S nm = g \<Longrightarrow>
      answer sck ck (Some r) = Some b \<Longrightarrow> Q b (K' \<union> ctl_le S K' (nm, args) r)"
  shows "ctl_wp S p (retry_loop m (Some (isCurrent k (siteCc S))) args stop answer sck ck fa) K Q"
proof -
  have "ctl_wp S p (retry_loop m (Some (isCurrent k (siteCc S))) args stop answer sck ck fa) K1 Q"
    if "K \<subseteq> K1" for K1
    using assms(1,2) that
  proof (induction m arbitrary: sck ck fa K1)
    case (Suc m)
    have retry: "ctl_wp S p (case gcRetryAfterFailure ck (gcLeader ck) fa of (ck, fa) \<Rightarrow>
        retry_loop m (Some (isCurrent k (siteCc S))) args stop answer sck' ck fa) K2 Q"
      if "sck_ok S p sck'" "K \<subseteq> K2" for sck' K2
      using gck_ok_simps(2) [OF Suc.prems(2), of "gcLeader ck" fa] that Suc.IH
      by (cases "gcRetryAfterFailure ck (gcLeader ck) fa") auto
    have call: "ctl_wp S p (gcCall ck (gcLeader ck) args (\<lambda>r.
         case answer sck' (gcRememberLeader ck (gcLeader ck)) r of
           Some b \<Rightarrow> Ret b
         | None \<Rightarrow> (case gcRetryAfterFailure ck (gcLeader ck) fa of (ck, fa) \<Rightarrow>
                     retry_loop m (Some (isCurrent k (siteCc S))) args stop answer sck' ck fa))) K2 Q"
      if k: "sck_ok S p sck'" "K \<subseteq> K2" for sck' K2
    proof (rule gcCall_wp [OF Suc.prems(2) assms(5) [OF k(2)] assms(3)], goal_cases)
      case (4 nm r)
      show ?case
        using retry [OF k(1), of "K2 \<union> ctl_le S K2 (nm, args) r"] k assms(7) [OF k(1) gck_ok_simps(1) [OF Suc.prems(2)] k(2) 4(1)]
        by (cases "answer sck' (gcRememberLeader ck (gcLeader ck)) (Some r)") auto
    qed (use retry [OF k] assms(4) in simp_all)
    show ?case
      unfolding retry_loop.simps wp_pbind gcIsCurrent_def option.case
      by (rule isCurrent_wp [OF Suc.prems(1)]) (use call assms(6) Suc.prems(2,3) in auto)
  qed simp
  then show ?thesis by blast
qed

lemma FreezeShard_loop:
  "GrpClerk_FreezeShard m ic w ck args fa =
     retry_loop m ic (FreezeArgs args) (\<lambda>w ck. (w, ck, [], ErrWrongLeader))
       (\<lambda>w ck r. case as_freeze r of
          Some reply \<Rightarrow>
            if fzrErr reply = OK then Some (if fzrNum reply \<noteq> fzNum args then (w, ck, [], ErrWrongGroup) else (w, ck, fzrState reply, OK))
            else if fzrErr reply = ErrWrongGroup then Some (w, ck, [], ErrWrongGroup) else None
        | None \<Rightarrow> None) w ck fa"
  by (induction m arbitrary: w ck fa)
    (auto simp: Let_def intro!: ext arg_cong [where f = "pbind _"] arg_cong [where f = "gcCall _ _ _"]
      split: option.splits prod.splits)

lemma InstallShard_loop:
  "GrpClerk_InstallShard m ic w ck args fa =
     retry_loop m ic (InstallArgs args) (\<lambda>w ck. (w, ck, ErrWrongLeader))
       (\<lambda>w ck r. case as_install r of
          Some reply \<Rightarrow> if inrErr reply = OK \<or> inrErr reply = ErrWrongGroup then Some (w, ck, inrErr reply) else None
        | None \<Rightarrow> None) w ck fa"
  by (induction m arbitrary: w ck fa)
    (auto simp: Let_def intro!: ext arg_cong [where f = "pbind _"] arg_cong [where f = "gcCall _ _ _"]
      split: option.splits prod.splits)

lemma DeleteShard_loop:
  "GrpClerk_DeleteShard m ic w ck args fa =
     retry_loop m ic (DeleteArgs args) (\<lambda>w ck. (w, ck, ErrWrongLeader))
       (\<lambda>w ck r. case as_delete r of
          Some reply \<Rightarrow> if dlrErr reply = OK \<or> dlrErr reply = ErrWrongGroup then Some (w, ck, dlrErr reply) else None
        | None \<Rightarrow> None) w ck fa"
  by (induction m arbitrary: w ck fa)
    (auto simp: Let_def intro!: ext arg_cong [where f = "pbind _"] arg_cong [where f = "gcCall _ _ _"]
      split: option.splits prod.splits)

lemma FreezeShard_wp:
  assumes "sck_ok S p sck" "gck_ok S g ck" "g \<noteq> 0" "h \<noteq> g" "i < NShards" "Moving g h i n \<in> K"
    and "\<And>sck ck data err K'. sck_ok S p sck \<Longrightarrow> gck_ok S g ck \<Longrightarrow> K \<subseteq> K' \<Longrightarrow>
      (err = OK \<Longrightarrow> Carried g h i n data \<in> K' \<and> AtLeast g i n \<in> K') \<Longrightarrow> Q (sck, ck, data, err) K'"
  shows "ctl_wp S p (GrpClerk_FreezeShard m (Some (isCurrent k (siteCc S))) sck ck \<lparr>fzShard = int i, fzNum = n\<rparr> fa) K Q"
  unfolding FreezeShard_loop
proof (rule retry_loop_wp [OF assms(1,2)], goal_cases)
  case (5 sck ck nm r b K')
  then show ?case
    using assms(4,6) by (cases r) (auto split: if_splits intro!: assms(7))
qed (use assms(3-6) in \<open>auto intro!: assms(7)\<close>)

lemma InstallShard_wp:
  assumes "sck_ok S p sck" "gck_ok S h ck" "h \<noteq> 0" "h \<noteq> g" "i < NShards"
    and "Carried g h i n data \<in> K \<or> g = 0 \<and> data = [] \<and> Moving g h i n \<in> K"
    and "\<And>sck ck err K'. sck_ok S p sck \<Longrightarrow> gck_ok S h ck \<Longrightarrow> K \<subseteq> K' \<Longrightarrow>
      (err = OK \<Longrightarrow> AtLeast h i n \<in> K') \<Longrightarrow> Q (sck, ck, err) K'"
  shows "ctl_wp S p (GrpClerk_InstallShard m (Some (isCurrent k (siteCc S))) sck ck
    \<lparr>inShard = int i, inState = data, inNum = n\<rparr> fa) K Q"
  unfolding InstallShard_loop
proof (rule retry_loop_wp [OF assms(1,2)], goal_cases)
  case (3 K' nm)
  then show ?case using assms(3-6) by (auto intro!: exI [of _ g])
next
  case (5 sck ck nm r b K')
  then show ?case
    by (cases r) (auto split: if_splits intro!: assms(7))
qed (auto intro!: assms(7))

lemma DeleteShard_wp:
  assumes "sck_ok S p sck" "gck_ok S g ck" "g \<noteq> 0" "h \<noteq> g" "i < NShards" "Leaving g h i n \<in> K"
    and "\<And>sck ck err K'. sck_ok S p sck \<Longrightarrow> gck_ok S g ck \<Longrightarrow> K \<subseteq> K' \<Longrightarrow>
      (err = OK \<Longrightarrow> Gone g i n \<in> K') \<Longrightarrow> Q (sck, ck, err) K'"
  shows "ctl_wp S p (GrpClerk_DeleteShard m (Some (isCurrent k (siteCc S))) sck ck \<lparr>dlShard = int i, dlNum = n\<rparr> fa) K Q"
  unfolding DeleteShard_loop
proof (rule retry_loop_wp [OF assms(1,2)], goal_cases)
  case (5 sck ck nm r b K')
  then show ?case
    by (cases r) (auto split: if_splits intro!: assms(7))
qed (use assms(3-6) in \<open>auto intro!: assms(7)\<close>)

section \<open>The loops over the shards\<close>

definition clerks_ok :: "'p site \<Rightarrow> clerk_map \<Rightarrow> bool" where
  "clerks_ok S clerks \<longleftrightarrow> (\<forall>g ck. clerks g = Some ck \<longrightarrow> gck_ok S g ck)"

lemma clerks_ok_simps [simp]:
  "clerks_ok S (\<lambda>_. None)" "clerks_ok S clerks \<Longrightarrow> gck_ok S g ck \<Longrightarrow> clerks_ok S (clerks(g \<mapsto> ck))"
  by (auto simp: clerks_ok_def)

lemma groupClerk_Some:
  assumes "clerks_ok S clerks" "cfg_good S c" "i < NShards" "Shards c ! i \<noteq> 0"
  shows "\<exists>ck. groupClerk clerks (Shards c ! i) (Groups c) = Some ck \<and> gck_ok S (Shards c ! i) ck"
proof (cases "clerks (Shards c ! i)")
  case None
  have "Shards c ! i \<in> set (Shards c)" using assms(2,3) by (simp add: cfg_good_def)
  then obtain srvs where srvs: "map_of (Groups c) (Shards c ! i) = Some srvs" "srvs \<noteq> []"
    using assms(2,4) unfolding cfg_good_def by blast
  then obtain ck where ck: "GrpClerk_Make srvs = Some ck" by (simp add: GrpClerk_Make_def)
  have "gck_ok S (Shards c ! i) ck"
    using GrpClerk_Make_ok [OF ck] srvs(1) assms(2) unfolding gck_ok_def cfg_good_def by blast
  with None srvs ck show ?thesis by (simp add: groupClerk_def)
qed (use assms(1) in \<open>auto simp: groupClerk_def clerks_ok_def\<close>)

lemma freezeAt_wp:
  assumes "sck_ok S p sck" "clerks_ok S clerks" "cfg_good S (mrFrom rec)" "i < NShards" "g = Shards (mrFrom rec) ! i"
    and "h \<noteq> g" "Moving g h i (Num (mrTo rec)) \<in> K"
    and "\<And>sck clerks data K'. sck_ok S p sck \<Longrightarrow> clerks_ok S clerks \<Longrightarrow> K \<subseteq> K' \<Longrightarrow>
      (\<And>d. data = Some d \<Longrightarrow> (Carried g h i (Num (mrTo rec)) d \<in> K' \<or> g = 0 \<and> d = []) \<and>
        (g \<noteq> 0 \<longrightarrow> AtLeast g i (Num (mrTo rec)) \<in> K')) \<Longrightarrow> Q (sck, clerks, data) K'"
  shows "ctl_wp S p (freezeAt m (siteCc S) rec sck clerks i g) K Q"
proof (cases "g = 0")
  case False
  with groupClerk_Some [OF assms(2-4)] assms(5) obtain ck
    where ck: "groupClerk clerks g (Groups (mrFrom rec)) = Some ck" "gck_ok S g ck" by auto
  show ?thesis
    using False ck unfolding freezeAt_def
    by (simp, intro FreezeShard_wp [OF assms(1) ck(2) False assms(6,4,7)]) (auto intro!: assms(8) clerks_ok_simps(2) [OF assms(2)])
qed (use assms(1,2) in \<open>auto simp: freezeAt_def intro!: assms(8)\<close>)

lemma installAt_wp:
  assumes "sck_ok S p sck" "clerks_ok S clerks" "cfg_good S (mrTo rec)" "i < NShards" "h = Shards (mrTo rec) ! i"
    and "h \<noteq> g" "Carried g h i (Num (mrTo rec)) d \<in> K \<or> g = 0 \<and> d = [] \<and> Moving g h i (Num (mrTo rec)) \<in> K"
    and "\<And>sck clerks ok K'. sck_ok S p sck \<Longrightarrow> clerks_ok S clerks \<Longrightarrow> K \<subseteq> K' \<Longrightarrow>
      (ok \<and> h \<noteq> 0 \<Longrightarrow> AtLeast h i (Num (mrTo rec)) \<in> K') \<Longrightarrow> Q (sck, clerks, ok) K'"
  shows "ctl_wp S p (installAt m (siteCc S) rec sck clerks i h d) K Q"
proof (cases "h = 0")
  case False
  with groupClerk_Some [OF assms(2-4)] assms(5) obtain ck
    where ck: "groupClerk clerks h (Groups (mrTo rec)) = Some ck" "gck_ok S h ck" by auto
  show ?thesis
    using False ck unfolding installAt_def
    by (simp, intro InstallShard_wp [OF assms(1) ck(2) False assms(6,4,7)]) (auto intro!: assms(8) clerks_ok_simps(2) [OF assms(2)])
qed (use assms(1,2) in \<open>auto simp: installAt_def intro!: assms(8)\<close>)

lemma deleteAt_wp:
  assumes "sck_ok S p sck" "clerks_ok S clerks" "cfg_good S (mrFrom rec)" "i < NShards" "g = Shards (mrFrom rec) ! i"
    and "h \<noteq> g" "g \<noteq> 0" "Leaving g h i (Num (mrTo rec)) \<in> K"
    and "\<And>sck clerks ok K'. sck_ok S p sck \<Longrightarrow> clerks_ok S clerks \<Longrightarrow> K \<subseteq> K' \<Longrightarrow>
      (ok \<Longrightarrow> Gone g i (Num (mrTo rec)) \<in> K') \<Longrightarrow> Q (sck, clerks, ok) K'"
  shows "ctl_wp S p (deleteAt m (siteCc S) rec sck clerks i g) K Q"
proof -
  from groupClerk_Some [OF assms(2-4)] assms(5,7) obtain ck
    where ck: "groupClerk clerks g (Groups (mrFrom rec)) = Some ck" "gck_ok S g ck" by auto
  show ?thesis
    using ck unfolding deleteAt_def
    by (simp, intro DeleteShard_wp [OF assms(1) ck(2) assms(7,6,4,8)]) (auto intro!: assms(9) clerks_ok_simps(2) [OF assms(2)])
qed

text \<open>What has been reached below shard \<open>i\<close>.\<close>

definition arrived :: "migration_record \<Rightarrow> nat \<Rightarrow> ctl_fact set \<Rightarrow> bool" where
  "arrived rec i K \<longleftrightarrow>
     (\<forall>j < i. Shards (mrFrom rec) ! j \<noteq> Shards (mrTo rec) ! j \<longrightarrow>
        (Shards (mrFrom rec) ! j \<noteq> 0 \<longrightarrow> AtLeast (Shards (mrFrom rec) ! j) j (Num (mrTo rec)) \<in> K) \<and>
        (Shards (mrTo rec) ! j \<noteq> 0 \<longrightarrow> AtLeast (Shards (mrTo rec) ! j) j (Num (mrTo rec)) \<in> K))"

definition cleared :: "migration_record \<Rightarrow> nat \<Rightarrow> ctl_fact set \<Rightarrow> bool" where
  "cleared rec i K \<longleftrightarrow>
     (\<forall>j < i. Shards (mrFrom rec) ! j \<noteq> Shards (mrTo rec) ! j \<and> Shards (mrFrom rec) ! j \<noteq> 0 \<longrightarrow>
        Gone (Shards (mrFrom rec) ! j) j (Num (mrTo rec)) \<in> K)"

definition rec_ok :: "'p site \<Rightarrow> migration_record \<Rightarrow> bool" where
  "rec_ok S rec \<longleftrightarrow> cfg_good S (mrFrom rec) \<and> cfg_good S (mrTo rec)"

lemma zip_drop_Cons:
  assumes "z # zs = drop i (zip A B)" "length A = n" "length B = n"
  shows "i < n" "z = (A ! i, B ! i)" "zs = drop (i + 1) (zip A B)"
proof -
  have "i < length (zip A B)" using assms(1) by (metis drop_all linorder_not_le list.distinct(1))
  then have "drop i (zip A B) = zip A B ! i # drop (Suc i) (zip A B)" "i < n"
    using assms(2,3) by (simp_all only: Cons_nth_drop_Suc) simp_all
  with assms show "i < n" "z = (A ! i, B ! i)" "zs = drop (i + 1) (zip A B)" by simp_all
qed

lemma migrateLoop_wp:
  assumes "rec_ok S rec" "sck_ok S p sck" "clerks_ok S clerks"
    and "zs = drop i (zip (Shards (mrFrom rec)) (Shards (mrTo rec)))" "i \<le> NShards"
    and "plan_facts (False, Num (mrTo rec), Shards (mrFrom rec), Shards (mrTo rec)) \<subseteq> K" "arrived rec i K"
    and "\<And>sck clerks ok K'. sck_ok S p sck \<Longrightarrow> clerks_ok S clerks \<Longrightarrow> K \<subseteq> K' \<Longrightarrow> (ok \<Longrightarrow> arrived rec NShards K') \<Longrightarrow>
      Q (sck, clerks, ok) K'"
  shows "ctl_wp S p (migrateLoop m (siteCc S) rec sck clerks i zs) K Q"
  using assms(2-8)
proof (induction zs arbitrary: sck clerks i K)
  case Nil
  have "length (zip (Shards (mrFrom rec)) (Shards (mrTo rec))) = NShards"
    using assms(1) by (simp add: rec_ok_def cfg_good_def)
  then have "i = NShards" using Nil.prems(3,4) by simp
  then show ?case using Nil.prems(1,2,6) by (auto intro!: Nil.prems(7))
next
  case (Cons z zs)
  let ?A = "Shards (mrFrom rec)" and ?B = "Shards (mrTo rec)" and ?n = "Num (mrTo rec)"
  have len: "length ?A = NShards" "length ?B = NShards" using assms(1) by (simp_all add: rec_ok_def cfg_good_def)
  note i = zip_drop_Cons [OF Cons.prems(3) len]
  show ?case
  proof (cases "?A ! i = ?B ! i")
    case True
    have "arrived rec (i + 1) K" using Cons.prems(6) True by (auto simp: arrived_def less_Suc_eq)
    from Cons.IH [OF Cons.prems(1,2) i(3) _ Cons.prems(5) this Cons.prems(7)] i True show ?thesis by simp
  next
    case False
    have mv: "Moving (?A ! i) (?B ! i) i ?n \<in> K" using Cons.prems(5) i(1) False by (auto simp: plan_facts_def)
    have rest: "ctl_wp S p (migrateLoop m (siteCc S) rec sck' clerks' (i + 1) zs) K' Q"
      if k: "sck_ok S p sck'" "clerks_ok S clerks'" "K \<subseteq> K'" "?A ! i \<noteq> 0 \<Longrightarrow> AtLeast (?A ! i) i ?n \<in> K'"
        "?B ! i \<noteq> 0 \<Longrightarrow> AtLeast (?B ! i) i ?n \<in> K'" for sck' clerks' K'
    proof (rule Cons.IH [OF k(1,2) i(3)])
      show "arrived rec (i + 1) K'" using Cons.prems(6) k(3-5) by (auto simp: arrived_def less_Suc_eq)
    qed (use i(1) k(3) Cons.prems(5) in \<open>auto intro!: Cons.prems(7)\<close>)
    have gf: "cfg_good S (mrFrom rec)" and gt: "cfg_good S (mrTo rec)" using assms(1) by (simp_all add: rec_ok_def)
    have inst: "ctl_wp S p (pbind (installAt m (siteCc S) rec sck' clerks' i (?B ! i) d) (\<lambda>(sck, clerks, ok).
        if \<not> ok then Ret (sck, clerks, False) else migrateLoop m (siteCc S) rec sck clerks (i + 1) zs)) K' Q"
      if k: "sck_ok S p sck'" "clerks_ok S clerks'" "K \<subseteq> K'"
        "Carried (?A ! i) (?B ! i) i ?n d \<in> K' \<or> ?A ! i = 0 \<and> d = []" "?A ! i \<noteq> 0 \<longrightarrow> AtLeast (?A ! i) i ?n \<in> K'"
      for sck' clerks' K' d
      unfolding wp_pbind
    proof (rule installAt_wp [OF k(1,2) gt i(1) refl False [symmetric]], goal_cases)
      case (2 sck2 clerks2 ok K2)
      have "K \<subseteq> K2" using k(3) 2(3) by (rule order_trans)
      with 2 rest [OF 2(1,2), of K2] k(5) show ?case by (cases ok) (auto intro!: Cons.prems(7))
    qed (use k mv in auto)
    show ?thesis
      unfolding i(2) migrateLoop.simps if_not_P [OF False] wp_pbind
    proof (rule freezeAt_wp [OF Cons.prems(1,2) gf i(1) refl False [symmetric] mv], goal_cases)
      case (1 sck' clerks' data K')
      show ?case
      proof (cases data)
        case (Some d)
        with inst [OF 1(1-3)] 1(4) show ?thesis by simp
      qed (use 1 in \<open>auto intro!: Cons.prems(7)\<close>)
    qed
  qed
qed

lemma deleteLoop_wp:
  assumes "rec_ok S rec" "sck_ok S p sck" "clerks_ok S clerks"
    and "zs = drop i (zip (Shards (mrFrom rec)) (Shards (mrTo rec)))" "i \<le> NShards"
    and "plan_facts (True, Num (mrTo rec), Shards (mrFrom rec), Shards (mrTo rec)) \<subseteq> K" "cleared rec i K"
    and "\<And>sck clerks ok K'. sck_ok S p sck \<Longrightarrow> clerks_ok S clerks \<Longrightarrow> K \<subseteq> K' \<Longrightarrow> (ok \<Longrightarrow> cleared rec NShards K') \<Longrightarrow>
      Q (sck, clerks, ok) K'"
  shows "ctl_wp S p (deleteLoop m (siteCc S) rec sck clerks i zs) K Q"
  using assms(2-8)
proof (induction zs arbitrary: sck clerks i K)
  case Nil
  have "length (zip (Shards (mrFrom rec)) (Shards (mrTo rec))) = NShards"
    using assms(1) by (simp add: rec_ok_def cfg_good_def)
  then have "i = NShards" using Nil.prems(3,4) by simp
  then show ?case using Nil.prems(1,2,6) by (auto intro!: Nil.prems(7))
next
  case (Cons z zs)
  let ?A = "Shards (mrFrom rec)" and ?B = "Shards (mrTo rec)" and ?n = "Num (mrTo rec)"
  have len: "length ?A = NShards" "length ?B = NShards" and gf: "cfg_good S (mrFrom rec)"
    using assms(1) by (simp_all add: rec_ok_def cfg_good_def)
  note i = zip_drop_Cons [OF Cons.prems(3) len]
  show ?case
  proof (cases "?A ! i = 0 \<or> ?A ! i = ?B ! i")
    case True
    then have "cleared rec (i + 1) K" using Cons.prems(6) by (auto simp: cleared_def less_Suc_eq)
    from Cons.IH [OF Cons.prems(1,2) i(3) _ Cons.prems(5) this Cons.prems(7)] i True show ?thesis by auto
  next
    case False
    then have ne: "?B ! i \<noteq> ?A ! i" "?A ! i \<noteq> 0" by auto
    have lv: "Leaving (?A ! i) (?B ! i) i ?n \<in> K" using Cons.prems(5) i(1) False by (auto simp: plan_facts_def)
    show ?thesis
      unfolding i(2) deleteLoop.simps if_not_P [OF False] wp_pbind
    proof (rule deleteAt_wp [OF Cons.prems(1,2) gf i(1) refl ne lv], goal_cases)
      case (1 sck' clerks' ok K')
      have "ctl_wp S p (deleteLoop m (siteCc S) rec sck' clerks' (i + 1) zs) K' Q" if ok
      proof (rule Cons.IH [OF 1(1,2) i(3)])
        show "cleared rec (i + 1) K'" using Cons.prems(6) 1(3,4) that by (auto simp: cleared_def less_Suc_eq)
      qed (use i(1) 1(3) Cons.prems(5) in \<open>auto intro!: Cons.prems(7)\<close>)
      then show ?case using 1 by (auto intro!: Cons.prems(7))
    qed
  qed
qed

section \<open>Recovering a pending migration\<close>

text \<open>Known right changes of the stored state.\<close>

lemma was_read_known:
  assumes "was_read S K0 st v K" "K \<subseteq> K'"
  shows "state_ok S st" "v \<noteq> 0" "plan_facts (plan_of st) \<subseteq> K'"
    "\<exists>x. SawState v x \<in> K' \<and> ctUnmarshal (siteCc S) x = Some st"
  using assms by (auto simp: was_read_def state_facts_def)

lemma swap_ok_read:
  assumes "was_read S K0 st v K" "K \<subseteq> K'" "state_ok S st'" "csOwner st' = siteIds S p"
    "plan_change S p K' st (plan_of st')"
  shows "swap_ok S p K' v st'"
  using assms was_read_known [OF assms(1,2)] by (auto simp: swap_ok_def)

lemma state_ok_pending:
  assumes "state_ok S st" "csPending st = Some rec"
  shows "rec_ok S rec" "\<exists>cur. csCurrent st = Some cur \<and> cfg_good S cur \<and>
    plan_of st = (\<not> cfg_equal cur (mrFrom rec), Num (mrTo rec), Shards (mrFrom rec), Shards (mrTo rec)) \<and>
    (cfg_equal cur (mrTo rec) \<longrightarrow> \<not> cfg_equal cur (mrFrom rec))"
  using assms by (auto simp: state_ok_def rec_ok_def plan_of_def cfg_equal_iff)

lemma publish_swap_ok:
  assumes "was_read S K0 st v K" "K \<subseteq> K'" "csPending st = Some rec" "csOwner st = siteIds S p"
    and "ptr_equal cfg_equal (csCurrent st) (Some (mrFrom rec))" "arrived rec NShards K'"
  shows "swap_ok S p K' v (st\<lparr>csCurrent := Some (mrTo rec)\<rparr>)"
proof (rule swap_ok_read [OF assms(1,2)])
  have ok: "state_ok S st" using was_read_known(1) [OF assms(1) order_refl] .
  obtain cur where cur: "csCurrent st = Some cur" "cfg_equal cur (mrFrom rec)"
      "plan_of st = (False, Num (mrTo rec), Shards (mrFrom rec), Shards (mrTo rec))"
    using state_ok_pending(2) [OF ok assms(3)] assms(5) by (auto simp: ptr_equal_def)
  show "state_ok S (st\<lparr>csCurrent := Some (mrTo rec)\<rparr>)" using ok assms(3) by (auto simp: state_ok_def)
  have "\<not> cfg_equal (mrTo rec) (mrFrom rec)" using ok assms(3) by (auto simp: state_ok_def cfg_equal_iff)
  then have "plan_of (st\<lparr>csCurrent := Some (mrTo rec)\<rparr>) = (True, Num (mrTo rec), Shards (mrFrom rec), Shards (mrTo rec))"
    using assms(3) by (simp add: plan_of_def)
  then show "plan_change S p K' st (plan_of (st\<lparr>csCurrent := Some (mrTo rec)\<rparr>))"
    using cur(3) assms(6) by (simp add: plan_change_def arrived_def)
qed (use assms(4) in simp)

lemma clear_swap_ok:
  assumes "was_read S K0 st v K" "K \<subseteq> K'" "ptr_equal record_equal (csPending st) (Some rec)" "csOwner st = siteIds S p"
    and "ptr_equal cfg_equal (csCurrent st) (Some (mrTo rec))"
  shows "plan_of st = (True, Num (mrTo rec), Shards (mrFrom rec), Shards (mrTo rec))"
    and "cleared rec NShards K' \<Longrightarrow> swap_ok S p K' v (st\<lparr>csPending := None\<rparr>)"
proof -
  have ok: "state_ok S st" using was_read_known(1) [OF assms(1) order_refl] .
  obtain rec' where r: "csPending st = Some rec'" "record_equal rec' rec"
    using assms(3) by (cases "csPending st") (auto simp: ptr_equal_def)
  obtain cur where cur: "csCurrent st = Some cur" "cfg_equal cur (mrTo rec)" "cfg_good S cur"
      "plan_of st = (\<not> cfg_equal cur (mrFrom rec'), Num (mrTo rec'), Shards (mrFrom rec'), Shards (mrTo rec'))"
      "cfg_equal cur (mrTo rec') \<longrightarrow> \<not> cfg_equal cur (mrFrom rec')"
    using state_ok_pending(2) [OF ok r(1)] assms(5) by (auto simp: ptr_equal_def)
  show plan: "plan_of st = (True, Num (mrTo rec), Shards (mrFrom rec), Shards (mrTo rec))"
    using cur(2,4,5) r(2) by (auto simp: record_equal_def cfg_equal_iff)
  show "swap_ok S p K' v (st\<lparr>csPending := None\<rparr>)" if "cleared rec NShards K'"
  proof (rule swap_ok_read [OF assms(1,2)])
    have "plan_of (st\<lparr>csPending := None\<rparr>) = (True, Num (mrTo rec), Shards (mrTo rec), Shards (mrTo rec))"
      using cur(1,2) by (simp add: plan_of_def cfg_equal_iff)
    then show "plan_change S p K' st (plan_of (st\<lparr>csPending := None\<rparr>))"
      using plan that by (simp add: plan_change_def cleared_def)
    show "state_ok S (st\<lparr>csPending := None\<rparr>)" using ok cur(1,3) by (simp add: state_ok_def)
  qed (use assms(4) in simp)
qed

lemma publishPending_wp:
  assumes "site_ok S" "sck_ok S p sck" "Settled \<in> K" "was_read S K0 st v K" "csPending st = Some rec"
    and "csOwner st = siteIds S p"
    and "\<And>sck clerks ok K'. sck_ok S p sck \<Longrightarrow> clerks_ok S clerks \<Longrightarrow> Settled \<in> K' \<Longrightarrow> Q (sck, clerks, ok) K'"
  shows "ctl_wp S p (publishPending m (siteCc S) st v rec sck) K Q"
proof (cases "ptr_equal cfg_equal (csCurrent st) (Some (mrFrom rec))")
  case True
  note w = was_read_known [OF assms(4) order_refl]
  have plan: "plan_of st = (False, Num (mrTo rec), Shards (mrFrom rec), Shards (mrTo rec))"
    using state_ok_pending(2) [OF w(1) assms(5)] True by (auto simp: ptr_equal_def)
  show ?thesis
    unfolding publishPending_def if_P [OF True] wp_pbind
  proof (rule migrateLoop_wp [OF state_ok_pending(1) [OF w(1) assms(5)] assms(2)], goal_cases)
    case (6 sck' clerks' ok K')
    have "ctl_wp S p (compareAndSwap m (siteCc S) sck' v (st\<lparr>csCurrent := Some (mrTo rec)\<rparr>)) K'
        (\<lambda>swapped K'. Q (sck', clerks', swapped) K')" if ok
    proof (rule compareAndSwap_wp [OF 6(1) assms(1)])
      show "Settled \<in> K'" using 6(3) assms(3) by blast
      show "swap_ok S p K' v (st\<lparr>csCurrent := Some (mrTo rec)\<rparr>)"
        using publish_swap_ok [OF assms(4) 6(3) assms(5,6) True] 6(4) that by blast
    qed (use 6(1,2) in \<open>auto intro!: assms(7)\<close>)
    moreover have "Settled \<in> K'" using 6(3) assms(3) by blast
    ultimately show ?case using 6(1,2) by (auto intro!: assms(7))
  qed (use w(3) plan in \<open>simp_all add: arrived_def\<close>)
qed (use assms(2,3) in \<open>auto simp: publishPending_def intro!: assms(7)\<close>)

lemma finishPending_wp:
  assumes "site_ok S" "rec_ok S rec" "sck_ok S p sck" "clerks_ok S clerks" "Settled \<in> K"
    and "\<And>sck ok K'. sck_ok S p sck \<Longrightarrow> Settled \<in> K' \<Longrightarrow> (ok \<Longrightarrow> Clean \<in> K') \<Longrightarrow> Q (sck, ok) K'"
  shows "ctl_wp S p (finishPending m (siteCc S) rec sck clerks) K Q"
  unfolding finishPending_def wp_pbind
proof (rule readOwned_wp [OF assms(3)], goal_cases)
  case (1 st v K1)
  let ?same = "ptr_equal record_equal (csPending st) (Some rec)" and ?new = "ptr_equal cfg_equal (csCurrent st) (Some (mrTo rec))"
  have K1: "K \<subseteq> K1" using 1(1) by (auto simp: was_read_def)
  show ?case
  proof (cases "?same \<and> ?new")
    case True
    note c = clear_swap_ok [OF 1(1) _ _ 1(2), of _ rec]
    have "ctl_wp S p (deleteLoop m (siteCc S) rec sck clerks 0 (zip (Shards (mrFrom rec)) (Shards (mrTo rec)))) K1
        (\<lambda>x K'. ctl_wp S p (case x of (sck, clerks, ok) \<Rightarrow> if \<not> ok then Ret (sck, False)
            else pbind (compareAndSwap m (siteCc S) sck v (st\<lparr>csPending := None\<rparr>)) (\<lambda>swapped. Ret (sck, swapped))) K' Q)"
    proof (rule deleteLoop_wp [OF assms(2-4)], goal_cases)
      case (5 sck' clerks' ok K')
      have "ctl_wp S p (compareAndSwap m (siteCc S) sck' v (st\<lparr>csPending := None\<rparr>)) K'
          (\<lambda>swapped K'. Q (sck', swapped) K')" if ok
      proof (rule compareAndSwap_wp [OF 5(1) assms(1)])
        show "Settled \<in> K'" using 5(3) K1 assms(5) by blast
        show "swap_ok S p K' v (st\<lparr>csPending := None\<rparr>)" using c(2) [OF 5(3)] True 5(4) that by blast
      qed (use 5(1) in \<open>auto intro!: assms(6)\<close>)
      moreover have "Settled \<in> K'" using 5(3) K1 assms(5) by blast
      ultimately show ?case using 5(1) by (auto intro!: assms(6))
    qed (use c(1) [OF order_refl] True was_read_known(3) [OF 1(1) order_refl] in \<open>auto simp: cleared_def\<close>)
    with True show ?thesis by simp
  next
    case False
    then show ?thesis using K1 assms(3,5) by (auto intro!: assms(6))
  qed
qed (use assms(5) in \<open>auto intro!: assms(6)\<close>)

lemma recoverPendingLocked_wp:
  assumes "site_ok S" "sck_ok S p sck" "Settled \<in> K"
    and "\<And>sck ok K'. sck_ok S p sck \<Longrightarrow> Settled \<in> K' \<Longrightarrow> (ok \<Longrightarrow> Clean \<in> K') \<Longrightarrow> Q (sck, ok) K'"
  shows "ctl_wp S p (recoverPendingLocked m (siteCc S) sck) K Q"
  unfolding recoverPendingLocked_def wp_pbind
proof (rule readOwned_wp [OF assms(2)], goal_cases)
  case (1 st v K1)
  have K1: "Settled \<in> K1" using 1(1) assms(3) by (auto simp: was_read_def)
  show ?case
  proof (cases "csPending st")
    case None
    then have "Clean \<in> K1" using 1(1) assms(3) by (auto simp: was_read_def state_facts_def)
    with None K1 assms(2) show ?thesis by (auto intro!: assms(4))
  next
    case (Some rec)
    have r: "rec_ok S rec" by (rule state_ok_pending(1) [OF was_read_known(1) [OF 1(1) order_refl] Some])
    have "ctl_wp S p (publishPending m (siteCc S) st v rec sck) K1
        (\<lambda>x K'. ctl_wp S p (case x of (sck, clerks, ok) \<Rightarrow> if \<not> ok then Ret (sck, False)
           else finishPending m (siteCc S) rec sck clerks) K' Q)"
      by (rule publishPending_wp [OF assms(1,2) K1 1(1) Some 1(2)])
        (auto intro!: assms(4) finishPending_wp [OF assms(1) r])
    with Some show ?thesis by simp
  qed
qed (use assms(3) in \<open>auto intro!: assms(4)\<close>)

section \<open>The operations\<close>

lemma leadershipLoop_wp:
  assumes "site_ok S" "sck_ok S p sck" "Settled \<in> K"
    and "\<And>sck ok K'. sck_ok S p sck \<Longrightarrow> Settled \<in> K' \<Longrightarrow> Q (sck, ok) K'"
  shows "ctl_wp S p (leadershipLoop k m (siteCc S) sck) K Q"
  using assms(3)
proof (induction k arbitrary: K)
  case (Suc k)
  show ?case
    unfolding leadershipLoop.simps wp_pbind
  proof (rule readState_wp [OF assms(2)], goal_cases)
    case (1 st v K1)
    let ?st = "st\<lparr>csOwner := scId sck, csEpoch := csEpoch st + 1\<rparr>"
    note w = was_read_known [OF 1 order_refl]
    have K1: "Settled \<in> K1" using 1 Suc.prems by (auto simp: was_read_def)
    have id: "scId sck = siteIds S p" "plain (siteIds S p)" using assms(1,2) by (simp_all add: sck_ok_def site_ok_def)
    have "plan_of ?st = plan_of st" by (simp add: plan_of_def)
    moreover have "state_ok S ?st" using w(1) id by (auto simp: state_ok_def)
    ultimately have sw: "swap_ok S p K1 v ?st"
      using id(1) by (intro swap_ok_read [OF 1 order_refl]) (simp_all add: plan_change_def)
    have "ctl_wp S p (compareAndSwap m (siteCc S) sck v ?st) K1 (\<lambda>swapped K'. ctl_wp S p
        (if swapped then Ret (sck\<lparr>scEpoch := csEpoch ?st\<rparr>, True) else leadershipLoop k m (siteCc S) sck) K' Q)"
      by (rule compareAndSwap_wp [OF assms(2,1) K1 sw])
        (use Suc.IH assms(2) in \<open>auto simp: sck_ok_def intro!: assms(4)\<close>)
    then show ?case by (simp add: Let_def)
  qed (use Suc.prems assms(2) in \<open>auto simp: sck_ok_def intro!: assms(4)\<close>)
qed simp

lemma ensureLeadershipLocked_wp:
  assumes "site_ok S" "sck_ok S p sck" "Settled \<in> K"
    and "\<And>sck ok K'. sck_ok S p sck \<Longrightarrow> Settled \<in> K' \<Longrightarrow> Q (sck, ok) K'"
  shows "ctl_wp S p (ensureLeadershipLocked m (siteCc S) sck) K Q"
proof (cases "scInitialized sck")
  case True
  then show ?thesis
    unfolding ensureLeadershipLocked_def
    by simp (rule isCurrent_wp [OF assms(2)]; use assms(3) in \<open>auto intro!: assms(4)\<close>)
next
  case False
  have "sck_ok S p (sck\<lparr>scInitialized := True\<rparr>)" using assms(2) by (simp add: sck_ok_def)
  then show ?thesis
    using False assms(1,3) by (simp add: ensureLeadershipLocked_def leadershipLoop_wp assms(4))
qed

lemma InitConfig_wp:
  assumes "site_ok S" "sck_ok S p sck" "Settled \<in> K"
    and "\<And>c. cfg = Some c \<Longrightarrow> cfg_good S c \<and> Num c = NumFirst \<and> Shards c = replicate NShards Gid1"
  shows "ctl_wp S p (InitConfig m (siteCc S) sck cfg) K (ctl_Q S p)"
proof (cases cfg)
  case (Some c)
  let ?st = "\<lparr>csOwner = scId sck, csEpoch = 1, csCurrent = Some c, csPending = None\<rparr>"
  have id: "scId sck = siteIds S p" "plain (siteIds S p)" using assms(1,2) by (simp_all add: sck_ok_def site_ok_def)
  have sw: "swap_ok S p K 0 ?st"
    using assms(4) [OF Some] id by (simp add: swap_ok_def state_ok_def plan_of_def first_plan_def)
  have "ctl_wp S p (compareAndSwap m (siteCc S) sck 0 ?st) K (\<lambda>swapped K'. ctl_Q S p
      (if swapped then sck\<lparr>scEpoch := 1, scInitialized := True\<rparr> else sck) K')"
    by (rule compareAndSwap_wp [OF assms(2,1,3) sw]) (use assms(2) in \<open>simp add: ctl_Q_def sck_ok_def\<close>)
  with Some show ?thesis by (simp add: InitConfig_def Let_def cong: if_cong)
qed (use assms(2,3) in \<open>simp add: InitConfig_def ctl_Q_def\<close>)

lemma InitController_wp:
  assumes "site_ok S" "sck_ok S p sck" "Settled \<in> K"
  shows "ctl_wp S p (InitController m (siteCc S) sck) K (ctl_Q S p)"
  unfolding InitController_def wp_pbind
  by (rule ensureLeadershipLocked_wp [OF assms])
    (auto simp: ctl_Q_def intro!: recoverPendingLocked_wp [OF assms(1)])

lemma startMigration_wp:
  assumes "site_ok S" "sck_ok S p sck" "Settled \<in> K" "Clean \<in> K" "was_read S K0 st v K" "csOwner st = siteIds S p"
    and "csCurrent st = Some cur" "cfg_good S next" "Num next = Num cur + 1"
  shows "ctl_wp S p (startMigration m (siteCc S) sck st v cur next) K (ctl_Q S p)"
proof -
  let ?st = "st\<lparr>csPending := Some \<lparr>mrFrom = cur, mrTo = next\<rparr>\<rparr>"
  note w = was_read_known [OF assms(5) order_refl]
  have "state_ok S ?st" using w(1) assms(7-9) by (auto simp: state_ok_def)
  moreover have "plan_of ?st = (False, Num cur + 1, Shards cur, Shards next)" using assms(7,9) by (simp add: plan_of_def)
  ultimately have sw: "swap_ok S p K v ?st"
    using assms(4,6,7) by (intro swap_ok_read [OF assms(5) order_refl]) (auto simp: plan_change_def)
  have "ctl_wp S p (compareAndSwap m (siteCc S) sck v ?st) K (\<lambda>swapped K'. ctl_wp S p
      (if swapped then pbind (recoverPendingLocked m (siteCc S) sck) (\<lambda>(sck, _). Ret sck) else Ret sck) K' (ctl_Q S p))"
    by (rule compareAndSwap_wp [OF assms(2,1,3) sw])
      (use assms(2) in \<open>auto simp: ctl_Q_def intro!: recoverPendingLocked_wp [OF assms(1)]\<close>)
  then show ?thesis by (simp add: startMigration_def cong: if_cong)
qed

lemma ChangeConfigTo_wp:
  assumes "site_ok S" "sck_ok S p sck" "Settled \<in> K" "\<And>c. next = Some c \<Longrightarrow> cfg_good S c"
  shows "ctl_wp S p (ChangeConfigTo m (siteCc S) sck next) K (ctl_Q S p)"
proof (cases "next")
  case (Some c)
  have own: "ctl_wp S p (pbind (readOwned m (siteCc S) sck) (\<lambda>(sck, owned).
      case owned of None \<Rightarrow> Ret sck
      | Some (state, version) \<Rightarrow>
          if ptr_equal cfg_equal (csCurrent state) (Some c) then Ret sck
          else (case csCurrent state of None \<Rightarrow> Panics
                | Some cur \<Rightarrow> if Num c \<noteq> Num cur + 1 then Ret sck
                             else startMigration m (siteCc S) sck state version cur c))) K (ctl_Q S p)"
    if k: "sck_ok S p sck" "Settled \<in> K" "Clean \<in> K" for sck K
    unfolding wp_pbind
  proof (rule readOwned_wp [OF k(1)], goal_cases)
    case (1 st v K1)
    have K1: "Settled \<in> K1" "Clean \<in> K1" using 1(1) k by (auto simp: was_read_def)
    obtain cur where "csCurrent st = Some cur"
      using was_read_known(1) [OF 1(1) order_refl] by (auto simp: state_ok_def)
    then show ?case
      using startMigration_wp [OF assms(1) k(1) K1 1] assms(4) Some k(1) K1 by (auto simp: ctl_Q_def)
  qed (use k in \<open>auto simp: ctl_Q_def\<close>)
  have rec: "ctl_wp S p (pbind (recoverPendingLocked m (siteCc S) sck) (\<lambda>(sck, recovered).
      if \<not> recovered then Ret sck
      else pbind (readOwned m (siteCc S) sck) (\<lambda>(sck, owned).
        case owned of None \<Rightarrow> Ret sck
        | Some (state, version) \<Rightarrow>
            if ptr_equal cfg_equal (csCurrent state) (Some c) then Ret sck
            else (case csCurrent state of None \<Rightarrow> Panics
                  | Some cur \<Rightarrow> if Num c \<noteq> Num cur + 1 then Ret sck
                               else startMigration m (siteCc S) sck state version cur c)))) K (ctl_Q S p)"
    if k: "sck_ok S p sck" "Settled \<in> K" for sck K
    unfolding wp_pbind [of _ _ _ _ "recoverPendingLocked m (siteCc S) sck"]
    by (rule recoverPendingLocked_wp [OF assms(1) k]) (use own in \<open>auto simp: ctl_Q_def\<close>)
  show ?thesis
    unfolding ChangeConfigTo_def Some option.case wp_pbind [of _ _ _ _ "ensureLeadershipLocked m (siteCc S) sck"]
    by (rule ensureLeadershipLocked_wp [OF assms(1-3)]) (use rec in \<open>auto simp: ctl_Q_def\<close>)
qed (use assms(2,3) in \<open>simp add: ChangeConfigTo_def ctl_Q_def\<close>)

lemma site_ops_wp:
  assumes "site_ok S" "ctl_Q S p sck K" "site_ops S p sck pr"
  shows "ctl_wp S p pr K (ctl_Q S p)"
  using assms unfolding site_ops_def ctl_Q_def [of S p sck]
  by (auto intro!: InitConfig_wp InitController_wp ChangeConfigTo_wp)

end
