(* ===== verification/Migration.thy ===== *)
theory Migration
  imports Ctlprog
begin

text \<open>
  Any number of controllers, which crash, are deposed and take over from each other, and any clients:
  what the groups do in every state the service can reach.
\<close>

section \<open>What is true of a world\<close>

text \<open>The meaning of the facts on groups and shards.\<close>

definition at_least :: "sworld \<Rightarrow> tgid \<Rightarrow> nat \<Rightarrow> tnum \<Rightarrow> bool" where
  "at_least w g i n \<longleftrightarrow> n \<le> shConfigNum (shard_at w i g)"

definition gone :: "sworld \<Rightarrow> tgid \<Rightarrow> nat \<Rightarrow> tnum \<Rightarrow> bool" where
  "gone w g i n \<longleftrightarrow>
     n < shConfigNum (shard_at w i g) \<or> n = shConfigNum (shard_at w i g) \<and> shStatus (shard_at w i g) = ShardAbsent"

definition planned :: "'p site \<Rightarrow> sworld \<Rightarrow> bool \<Rightarrow> tgid \<Rightarrow> tgid \<Rightarrow> nat \<Rightarrow> tnum \<Rightarrow> bool" where
  "planned S w pub g h i n \<longleftrightarrow> (\<exists>A B. world_plan S w = (pub, n, A, B) \<and> A ! i = g \<and> B ! i = h)"

definition moving :: "'p site \<Rightarrow> sworld \<Rightarrow> tgid \<Rightarrow> tgid \<Rightarrow> nat \<Rightarrow> tnum \<Rightarrow> bool" where
  "moving S w g h i n \<longleftrightarrow>
     i < NShards \<and> g \<noteq> h \<and>
     (planned S w False g h i n \<or> (g \<noteq> 0 \<longrightarrow> at_least w g i n) \<and> (h \<noteq> 0 \<longrightarrow> at_least w h i n))"

definition has_data :: "'p site \<Rightarrow> shard_state \<Rightarrow> bytes \<Rightarrow> bool" where
  "has_data S st data \<longleftrightarrow>
     shStatus st = ShardFrozen \<and>
     decodeShardTransfer (siteGc S) data = Some \<lparr>stValues = Some (shValues st), stRequests = shRequests st\<rparr> \<and> data \<noteq> []"

definition carried :: "'p site \<Rightarrow> sworld \<Rightarrow> tgid \<Rightarrow> tgid \<Rightarrow> nat \<Rightarrow> tnum \<Rightarrow> bytes \<Rightarrow> bool" where
  "carried S w g h i n data \<longleftrightarrow>
     i < NShards \<and> g \<noteq> h \<and>
     (planned S w False g h i n \<and> (if g = 0 then data = [] else has_data S (shard_at w i g) data) \<or>
      (h \<noteq> 0 \<longrightarrow> at_least w h i n))"

definition leaving :: "'p site \<Rightarrow> sworld \<Rightarrow> tgid \<Rightarrow> tgid \<Rightarrow> nat \<Rightarrow> tnum \<Rightarrow> bool" where
  "leaving S w g h i n \<longleftrightarrow> i < NShards \<and> g \<noteq> h \<and> (planned S w True g h i n \<or> (g \<noteq> 0 \<longrightarrow> gone w g i n))"

text \<open>The changes of the plan that keep every shard in good order.\<close>

definition right_plan :: "'p site \<Rightarrow> sworld \<Rightarrow> plan \<Rightarrow> bool" where
  "right_plan S w v \<longleftrightarrow>
     v = world_plan S w \<or>
     (\<exists>n B B'. world_plan S w = (True, n, B, B) \<and> v = (False, n + 1, B, B')) \<or>
     (\<exists>n A B. world_plan S w = (False, n, A, B) \<and> v = (True, n, A, B) \<and>
       (\<forall>i < NShards. A ! i \<noteq> B ! i \<longrightarrow>
          (A ! i \<noteq> 0 \<longrightarrow> at_least w (A ! i) i n) \<and> (B ! i \<noteq> 0 \<longrightarrow> at_least w (B ! i) i n))) \<or>
     (\<exists>n A B. world_plan S w = (True, n, A, B) \<and> v = (True, n, B, B) \<and>
       (\<forall>i < NShards. A ! i \<noteq> B ! i \<and> A ! i \<noteq> 0 \<longrightarrow> gone w (A ! i) i n))"

definition right_put :: "'p site \<Rightarrow> sworld \<Rightarrow> 'p \<Rightarrow> string \<Rightarrow> bool" where
  "right_put S w p x \<longleftrightarrow>
     (\<exists>st'. ctUnmarshal (siteCc S) x = Some st' \<and> state_ok S st' \<and> csOwner st' = siteIds S p \<and>
        right_plan S w (plan_of st'))"

text \<open>A request that may be executed, now and later.\<close>

fun ctl_okm :: "'p site \<Rightarrow> sworld \<Rightarrow> 'p \<Rightarrow> rpc_call \<Rightarrow> bool" where
  "ctl_okm S w p (nm, GetArgs a) \<longleftrightarrow> nm = siteCtl S \<and> gKey a = currentConfigKey"
| "ctl_okm S w p (nm, PutArgs a) \<longleftrightarrow>
     nm = siteCtl S \<and> pKey a = currentConfigKey \<and>
     (pVersion a < ksVersion (stored w) \<or> pVersion a = ksVersion (stored w) \<and> right_put S w p (pValue a))"
| "ctl_okm S w p (nm, FreezeArgs a) \<longleftrightarrow>
     nm \<noteq> siteCtl S \<and> siteGroup S nm \<noteq> 0 \<and> (\<exists>i h. fzShard a = int i \<and> moving S w (siteGroup S nm) h i (fzNum a))"
| "ctl_okm S w p (nm, InstallArgs a) \<longleftrightarrow>
     nm \<noteq> siteCtl S \<and> siteGroup S nm \<noteq> 0 \<and>
     (\<exists>i g. inShard a = int i \<and> carried S w g (siteGroup S nm) i (inNum a) (inState a))"
| "ctl_okm S w p (nm, DeleteArgs a) \<longleftrightarrow>
     nm \<noteq> siteCtl S \<and> siteGroup S nm \<noteq> 0 \<and> (\<exists>i h. dlShard a = int i \<and> leaving S w (siteGroup S nm) h i (dlNum a))"
| "ctl_okm S w p (nm, OtherArgs) \<longleftrightarrow> False"

fun ctl_holds :: "'p site \<Rightarrow> sworld \<Rightarrow> ('p \<times> rpc_call) set \<Rightarrow> 'p \<Rightarrow> ctl_fact \<Rightarrow> bool" where
  "ctl_holds S w M p (SawState v x) \<longleftrightarrow> v < ksVersion (stored w) \<or> v = ksVersion (stored w) \<and> x = ksValue (stored w)"
| "ctl_holds S w M p Settled \<longleftrightarrow> own_puts_past (ksVersion (stored w)) M p (\<lambda>_. False)"
| "ctl_holds S w M p (Unsettled v) \<longleftrightarrow> own_puts_past (ksVersion (stored w)) M p (\<lambda>u. u = v)"
| "ctl_holds S w M p Clean \<longleftrightarrow>
     own_puts_past (ksVersion (stored w)) M p (\<lambda>_. False) \<and>
     (\<forall>st. ctUnmarshal (siteCc S) (ksValue (stored w)) = Some st \<and> ksVersion (stored w) \<noteq> 0 \<and> csOwner st = siteIds S p \<longrightarrow>
        csPending st = None)"
| "ctl_holds S w M p (May q) \<longleftrightarrow> ctl_okm S w p q"
| "ctl_holds S w M p (Moving g h i n) \<longleftrightarrow> moving S w g h i n"
| "ctl_holds S w M p (Carried g h i n data) \<longleftrightarrow> carried S w g h i n data"
| "ctl_holds S w M p (AtLeast g i n) \<longleftrightarrow> i < NShards \<and> at_least w g i n"
| "ctl_holds S w M p (Leaving g h i n) \<longleftrightarrow> leaving S w g h i n"
| "ctl_holds S w M p (Gone g i n) \<longleftrightarrow> i < NShards \<and> gone w g i n"

section \<open>Steps of the groups\<close>

lemma world_plan_cong: "stored w' = stored w \<Longrightarrow> world_plan S w' = world_plan S w"
  by (simp add: world_plan_def)

text \<open>The groups move, the stored state stays.\<close>

definition groups_move :: "sworld \<Rightarrow> sworld \<Rightarrow> bool" where
  "groups_move w w' \<longleftrightarrow>
     stored w' = stored w \<and> (\<forall>g i. i < NShards \<longrightarrow> shard_move (shard_at w i g) (shard_at w' i g))"

lemma shard_move_gone:
  "shard_move st st' \<Longrightarrow> n < shConfigNum st \<or> n = shConfigNum st \<and> shStatus st = ShardAbsent \<Longrightarrow>
     n < shConfigNum st' \<or> n = shConfigNum st' \<and> shStatus st' = ShardAbsent"
  by (auto elim!: shard_moveE)

lemma groups_moveD:
  assumes "groups_move w w'"
  shows "stored w' = stored w"
    "i < NShards \<Longrightarrow> at_least w g i n \<Longrightarrow> at_least w' g i n" "i < NShards \<Longrightarrow> gone w g i n \<Longrightarrow> gone w' g i n"
proof -
  show "stored w' = stored w" using assms by (simp add: groups_move_def)
  assume "i < NShards"
  then have m: "shard_move (shard_at w i g) (shard_at w' i g)" using assms by (simp add: groups_move_def)
  show "at_least w' g i n" if "at_least w g i n" using that shard_move_num(1) [OF m] by (simp add: at_least_def)
  show "gone w' g i n" if "gone w g i n" using that shard_move_gone [OF m] by (simp only: gone_def)
qed

lemma groups_move_plan:
  assumes "groups_move w w'"
  shows "world_plan S w' = world_plan S w" "planned S w' pub g h i n = planned S w pub g h i n"
  using world_plan_cong [OF groups_moveD(1) [OF assms], of S] by (simp_all add: planned_def)

lemma site_invI:
  assumes "site_ok S" "\<And>e. kvData (swKv w) currentConfigKey = Some e \<Longrightarrow> enVersion e \<noteq> 0"
    and "ksVersion (stored w) \<noteq> 0 \<Longrightarrow> \<exists>st. ctUnmarshal (siteCc S) (ksValue (stored w)) = Some st \<and> state_ok S st"
    and "\<And>g. grp_ok (swGroups w g)" "world_plan S w = (pub, n, A, B)"
    and "\<And>i. i < NShards \<Longrightarrow>
      \<exists>kv. kv_run StartKVServer (swTrace w i) = Some kv \<and> shard_inv pub n (A ! i) (B ! i) (shard_at w i) kv"
  shows "site_inv S w"
  using assms by (simp add: site_inv_def)

lemma site_inv_shard:
  assumes "site_inv S w" "planned S w pub g h i n" "i < NShards"
  shows "\<exists>kv. kv_run StartKVServer (swTrace w i) = Some kv \<and> shard_inv pub n g h (shard_at w i) kv"
  using assms by (auto simp: site_inv_def planned_def)

text \<open>A frozen source stays so for as long as the migration is planned.\<close>

lemma has_data_move:
  assumes "site_inv S w" "site_inv S w'" "groups_move w w'" "planned S w False g h i n" "g \<noteq> h" "g \<noteq> 0" "i < NShards"
    "has_data S (shard_at w i g) data"
  shows "has_data S (shard_at w' i g) data"
proof -
  have m: "shard_move (shard_at w i g) (shard_at w' i g)" using assms(3,7) by (simp add: groups_move_def)
  have pl: "planned S w' False g h i n" using assms(4) by (simp add: groups_move_plan [OF assms(3)])
  obtain kv where "shard_inv False n g h (shard_at w' i) kv" using site_inv_shard [OF assms(2) pl assms(7)] by blast
  then have "shStatus (shard_at w' i g) \<noteq> ShardAbsent"
    using assms(5,6) by (auto simp: shard_inv_def copying_def serves_def)
  then have "shard_at w' i g = shard_at w i g"
    using shard_move_num(2) [OF m] assms(8) by (auto simp: has_data_def)
  with assms(8) show ?thesis by simp
qed

lemma facts_move:
  assumes "site_inv S w" "site_inv S w'" "groups_move w w'"
  shows "moving S w g h i n \<Longrightarrow> moving S w' g h i n" "leaving S w g h i n \<Longrightarrow> leaving S w' g h i n"
    "carried S w g h i n data \<Longrightarrow> carried S w' g h i n data" "right_put S w p x \<Longrightarrow> right_put S w' p x"
proof -
  note d = groups_moveD(2,3) [OF assms(3)]
  note p = groups_move_plan [OF assms(3), of S]
  show "moving S w' g h i n" if "moving S w g h i n" using that d(1) by (auto simp: moving_def p)
  show "leaving S w' g h i n" if "leaving S w g h i n" using that d(2) by (auto simp: leaving_def p)
  show "carried S w' g h i n data" if c: "carried S w g h i n data"
  proof (cases "h \<noteq> 0 \<longrightarrow> at_least w h i n")
    case True
    then show ?thesis using c d(1) by (auto simp: carried_def)
  next
    case False
    then show ?thesis using c has_data_move [OF assms] by (auto simp: carried_def p split: if_splits)
  qed
  have "right_plan S w' v" if "right_plan S w v" for v
    using that d unfolding right_plan_def p by fastforce
  then show "right_put S w' p x" if "right_put S w p x" using that unfolding right_put_def by blast
qed

lemma okm_move:
  assumes "site_inv S w" "site_inv S w'" "groups_move w w'" "ctl_okm S w p q"
  shows "ctl_okm S w' p q"
proof -
  obtain nm args where q: "q = (nm, args)" by (cases q)
  note d = groups_moveD(1) [OF assms(3)] facts_move [OF assms(1-3)]
  show ?thesis using assms(4) q by (cases args) (auto simp: d(1) intro: d(2-5))
qed

lemma holds_move:
  assumes "site_inv S w" "site_inv S w'" "groups_move w w'" "ctl_holds S w M p f"
  shows "ctl_holds S w' M p f"
  using assms(4) groups_moveD [OF assms(3)] facts_move [OF assms(1-3)] okm_move [OF assms(1-3)]
  by (cases f) auto

section \<open>Steps of the stored state\<close>

text \<open>A write of the controllers' key that took effect.\<close>

definition put_step :: "'p site \<Rightarrow> sworld \<Rightarrow> 'p \<Rightarrow> put_args \<Rightarrow> sworld \<Rightarrow> bool" where
  "put_step S w p a w' \<longleftrightarrow>
     swGroups w' = swGroups w \<and> swTrace w' = swTrace w \<and> right_put S w p (pValue a) \<and>
     pVersion a = ksVersion (stored w) \<and> pVersion a < pVersion a + 1 \<and>
     kvData (swKv w') currentConfigKey = Some \<lparr>enValue = pValue a, enVersion = pVersion a + 1\<rparr>"

lemma put_stepD:
  assumes "put_step S w p a w'"
  shows "stored w' = \<lparr>ksValue = pValue a, ksVersion = pVersion a + 1\<rparr>" "ksVersion (stored w) < ksVersion (stored w')"
    "pVersion a + 1 \<noteq> 0" "at_least w' g i n = at_least w g i n" "gone w' g i n = gone w g i n"
    "swGroups w' = swGroups w"
proof -
  show s: "stored w' = \<lparr>ksValue = pValue a, ksVersion = pVersion a + 1\<rparr>" using assms by (simp add: put_step_def kvsrv_abs_def)
  have e: "ksVersion (stored w) = pVersion a" "pVersion a < pVersion a + 1" using assms unfolding put_step_def by metis+
  show "ksVersion (stored w) < ksVersion (stored w')" unfolding s e(1) using e(2) by simp
  show "pVersion a + 1 \<noteq> 0" using e(2) by auto
qed (use assms in \<open>simp_all add: put_step_def at_least_def gone_def\<close>)

lemma put_step_plan:
  assumes "put_step S w p a w'"
  shows "\<exists>st'. ctUnmarshal (siteCc S) (pValue a) = Some st' \<and> state_ok S st' \<and> csOwner st' = siteIds S p \<and>
    world_plan S w' = plan_of st'" "right_plan S w (world_plan S w')"
proof -
  obtain st' where st: "ctUnmarshal (siteCc S) (pValue a) = Some st'" "state_ok S st'" "csOwner st' = siteIds S p"
      "right_plan S w (plan_of st')"
    using assms by (auto simp: put_step_def right_put_def)
  then have p: "world_plan S w' = plan_of st'" using put_stepD(1,3) [OF assms] by (simp add: world_plan_def)
  with st show "\<exists>st'. ctUnmarshal (siteCc S) (pValue a) = Some st' \<and> state_ok S st' \<and> csOwner st' = siteIds S p \<and>
    world_plan S w' = plan_of st'" "right_plan S w (world_plan S w')" by auto
qed

lemma facts_put:
  assumes "put_step S w p a w'"
  shows "moving S w g h i n \<Longrightarrow> moving S w' g h i n" "leaving S w g h i n \<Longrightarrow> leaving S w' g h i n"
    "carried S w g h i n data \<Longrightarrow> carried S w' g h i n data"
proof -
  note d = put_stepD(4-6) [OF assms]
  have F: "planned S w' False g h i n \<or> (g \<noteq> 0 \<longrightarrow> at_least w g i n) \<and> (h \<noteq> 0 \<longrightarrow> at_least w h i n)"
    if "planned S w False g h i n" "g \<noteq> h" "i < NShards"
    using that put_step_plan(2) [OF assms] by (auto simp: planned_def right_plan_def)
  show "moving S w' g h i n" if "moving S w g h i n"
    using that F by (auto simp: moving_def d)
  show "carried S w' g h i n data" if "carried S w g h i n data"
    using that F by (auto simp: carried_def d)
  show "leaving S w' g h i n" if "leaving S w g h i n"
    using that put_step_plan(2) [OF assms] by (auto simp: leaving_def d planned_def right_plan_def)
qed

lemma okm_put:
  assumes "put_step S w p a w'" "ctl_okm S w p' q"
  shows "ctl_okm S w' p' q"
proof -
  obtain nm args where q: "q = (nm, args)" by (cases q)
  show ?thesis
    using assms(2) q put_stepD(2) [OF assms(1)]
    by (cases args) (auto intro: facts_put [OF assms(1)] less_trans)
qed

lemma right_plan_shard:
  assumes "right_plan S w (pub', n', A', B')" "world_plan S w = (pub, n, A, B)" "i < NShards"
    and "shard_inv pub n (A ! i) (B ! i) (shard_at w i) kv"
  shows "shard_inv pub' n' (A' ! i) (B' ! i) (shard_at w i) kv"
proof -
  consider (same) "pub' = pub" "n' = n" "A' = A" "B' = B"
    | (begin') "pub" "A = B" "\<not> pub'" "n' = n + 1" "A' = B"
    | (publish) "\<not> pub" "pub'" "n' = n" "A' = A" "B' = B" "A ! i \<noteq> B ! i \<Longrightarrow> A ! i \<noteq> 0 \<Longrightarrow> at_least w (A ! i) i n"
        "A ! i \<noteq> B ! i \<Longrightarrow> B ! i \<noteq> 0 \<Longrightarrow> at_least w (B ! i) i n"
    | (clear) "pub" "pub'" "n' = n" "A' = B" "B' = B" "A ! i \<noteq> B ! i \<Longrightarrow> A ! i \<noteq> 0 \<Longrightarrow> gone w (A ! i) i n"
    using assms(1-3) unfolding right_plan_def by auto
  then show ?thesis
  proof cases
    case begin'
    then show ?thesis using shard_inv_begin [of n "B ! i" "shard_at w i" kv] assms(4) by simp
  next
    case publish
    have "shard_inv True n (A ! i) (B ! i) (shard_at w i) kv"
      by (rule shard_inv_publish) (use assms(4) publish in \<open>auto simp: at_least_def\<close>)
    then show ?thesis using publish by simp
  next
    case clear
    have "shard_inv True n (B ! i) (B ! i) (shard_at w i) kv"
      by (rule shard_inv_clear) (use assms(4) clear in \<open>auto simp: gone_def\<close>)
    then show ?thesis using clear by simp
  qed (use assms(4) in simp)
qed

lemma put_step_inv:
  assumes "site_inv S w" "put_step S w p a w'"
  shows "site_inv S w'"
proof -
  obtain st' where st: "ctUnmarshal (siteCc S) (pValue a) = Some st'" "state_ok S st'" "world_plan S w' = plan_of st'"
    using put_step_plan(1) [OF assms(2)] by blast
  obtain pub n A B where pl: "world_plan S w = (pub, n, A, B)" by (metis prod_cases4)
  obtain pub' n' A' B' where pl': "world_plan S w' = (pub', n', A', B')" by (metis prod_cases4)
  have "\<exists>kv. kv_run StartKVServer (swTrace w' i) = Some kv \<and> shard_inv pub' n' (A' ! i) (B' ! i) (shard_at w' i) kv"
    if i: "i < NShards" for i
  proof -
    obtain kv where kv: "kv_run StartKVServer (swTrace w i) = Some kv" "shard_inv pub n (A ! i) (B ! i) (shard_at w i) kv"
      using assms(1) i pl by (auto simp: site_inv_def)
    have "shard_inv pub' n' (A' ! i) (B' ! i) (shard_at w i) kv"
      by (rule right_plan_shard [OF put_step_plan(2) [OF assms(2), unfolded pl'] pl i kv(2)])
    with kv(1) show ?thesis using assms(2) by (auto simp: put_step_def)
  qed
  moreover have "site_ok S" "\<And>g. grp_ok (swGroups w' g)"
    using assms(1) put_stepD(6) [OF assms(2)] by (simp_all add: site_inv_def)
  moreover have "enVersion e \<noteq> 0" if "kvData (swKv w') currentConfigKey = Some e" for e
    using that assms(2) put_stepD(3) [OF assms(2)] by (auto simp: put_step_def)
  ultimately show ?thesis using st(1,2) pl' put_stepD(1) [OF assms(2)] by (intro site_invI) auto
qed

text \<open>
  Facts survive a write of another controller, and one of the controller itself unless the fact says
  that there is none.
\<close>

lemma holds_put:
  assumes "site_inv S w" "put_step S w p a w'" "(p, nm, PutArgs a) \<in> M" "ctl_holds S w M p' f"
  shows "ctl_holds S w' M p' f"
proof (cases f)
  case Clean
  have ne: "p' \<noteq> p"
  proof
    assume "p' = p"
    with assms(4) Clean assms(3) have "pVersion a < ksVersion (stored w)" by (auto simp: own_puts_past_def)
    then show False using assms(2) by (auto simp: put_step_def)
  qed
  obtain st' where st': "ctUnmarshal (siteCc S) (pValue a) = Some st'" "csOwner st' = siteIds S p"
    using put_step_plan(1) [OF assms(2)] by blast
  have "siteIds S p \<noteq> siteIds S p'" using ne assms(1) by (auto simp: site_inv_def site_ok_def inj_eq)
  then show ?thesis
    using Clean assms(4) st' put_stepD(1,2) [OF assms(2)] own_puts_past_mono [OF _ less_imp_le]
    by (auto simp: put_stepD(1) [OF assms(2)])
next
  case (SawState v x)
  then show ?thesis using assms(4) put_stepD(2) [OF assms(2)] by auto
next
  case (May q)
  then show ?thesis using assms(4) okm_put [OF assms(2)] by simp
qed (use assms(4) put_stepD(4,5) [OF assms(2)] facts_put [OF assms(2)]
      own_puts_past_mono [OF _ less_imp_le [OF put_stepD(2) [OF assms(2)]]] in auto)

section \<open>Operations of the groups\<close>

lemma update_eq: "i < length xs \<Longrightarrow> xs[i := x] = xs[i := y] \<longleftrightarrow> x = y"
  by (metis nth_list_update_eq)

lemma DoOp_args:
  assumes "i < length kv"
  shows "ShardGrp_DoOp gc kv (GetArgs ga) = Some (kv[i := st'], rep) \<Longrightarrow> Key2Shard (gKey ga) = int i \<Longrightarrow>
     st' = kv ! i \<and> rep = GetReply (shardGet (kv ! i) ga)"
  "ShardGrp_DoOp gc kv (PutArgs pa) = Some (kv[i := st'], rep) \<Longrightarrow> Key2Shard (pKey pa) = int i \<Longrightarrow>
     \<exists>r. shardPut (kv ! i) pa = (st', r) \<and> rep = PutReply r"
  "ShardGrp_DoOp gc kv (FreezeArgs fa) = Some (kv[i := st'], rep) \<Longrightarrow> fzShard fa = int i \<Longrightarrow>
     \<exists>r. shardFreeze gc (kv ! i) (fzNum fa) = Some (st', r) \<and> rep = FreezeReply r"
  "ShardGrp_DoOp gc kv (InstallArgs ia) = Some (kv[i := st'], rep) \<Longrightarrow> inShard ia = int i \<Longrightarrow>
     \<exists>r. shardInstall gc (kv ! i) (inState ia) (inNum ia) = Some (st', r) \<and> rep = InstallReply r"
  "ShardGrp_DoOp gc kv (DeleteArgs da) = Some (kv[i := st'], rep) \<Longrightarrow> dlShard da = int i \<Longrightarrow>
     \<exists>r. shardDelete (kv ! i) (dlNum da) = (st', r) \<and> rep = DeleteReply r"
  using assms update_eq [OF assms, of "kv ! i" st']
  by (auto simp: ShardGrp_DoOp_def bind_eq_Some_conv go_index_Some_iff go_store_Some update_eq split: prod.splits)

text \<open>What group \<open>g\<close> does with an operation: the shard it acts on is the only thing that changes.\<close>

lemma grp_do_shard:
  assumes "site_inv S w" "grp_do S w g args w' rep"
  shows "\<exists>i st'. target_shard args = int i \<and> i < NShards \<and> shard_move (shard_at w i g) st' \<and>
    ShardGrp_DoOp (siteGc S) (swGroups w g) args = Some ((swGroups w g)[i := st'], rep) \<and>
    swKv w' = swKv w \<and> swGroups w' = (swGroups w)(g := (swGroups w g)[i := st']) \<and>
    swTrace w' = trace_after (swGroups w g) ((swGroups w g)[i := st']) args rep (swTrace w)"
proof -
  obtain kv' where kv': "ShardGrp_DoOp (siteGc S) (swGroups w g) args = Some (kv', rep)"
      "w' = w\<lparr>swGroups := (swGroups w)(g := kv'), swTrace := trace_after (swGroups w g) kv' args rep (swTrace w)\<rparr>"
    using assms(2) by (auto simp: grp_do_def)
  have "length (swGroups w g) = NShards" using assms(1) by (simp add: site_inv_def grp_ok_def)
  then show ?thesis using DoOp_shard [OF kv'(1)] kv' by auto
qed

lemma shard_at_update:
  assumes "swGroups w' = (swGroups w)(g := (swGroups w g)[i := st'])" "length (swGroups w g) = NShards" "j < NShards"
  shows "shard_at w' j = (if j = i then (shard_at w i)(g := st') else shard_at w j)"
  using assms by (auto simp: fun_eq_iff)

lemma grp_do_move:
  assumes "site_inv S w" "grp_do S w g args w' rep"
  shows "groups_move w w'"
proof -
  obtain i st' where i: "i < NShards" "shard_move (shard_at w i g) st'" "swKv w' = swKv w"
      "swGroups w' = (swGroups w)(g := (swGroups w g)[i := st'])"
    using grp_do_shard [OF assms] by blast
  have len: "length (swGroups w g) = NShards" using assms(1) by (simp add: site_inv_def grp_ok_def)
  have "shard_move (shard_at w j h) (shard_at w' j h)" if "j < NShards" for j h
    using i(1,2,4) len that by (cases "h = g"; cases "j = i") (auto intro: shard_move.stay)
  with i(3) show ?thesis by (simp add: groups_move_def)
qed

text \<open>It is enough to look at that shard.\<close>

lemma grp_do_inv:
  assumes "site_inv S w" "grp_do S w g args w' rep"
    and "\<And>i st' pub n a b kv. target_shard args = int i \<Longrightarrow> i < NShards \<Longrightarrow>
      ShardGrp_DoOp (siteGc S) (swGroups w g) args = Some ((swGroups w g)[i := st'], rep) \<Longrightarrow>
      planned S w pub a b i n \<Longrightarrow> kv_run StartKVServer (swTrace w i) = Some kv \<Longrightarrow> shard_inv pub n a b (shard_at w i) kv \<Longrightarrow>
      \<exists>kv'. kv_run StartKVServer (trace_after (swGroups w g) ((swGroups w g)[i := st']) args rep (swTrace w) i) = Some kv' \<and>
        shard_inv pub n a b ((shard_at w i)(g := st')) kv'"
  shows "site_inv S w'"
proof -
  obtain i st' where i: "target_shard args = int i" "i < NShards"
      "ShardGrp_DoOp (siteGc S) (swGroups w g) args = Some ((swGroups w g)[i := st'], rep)" "swKv w' = swKv w"
      "swGroups w' = (swGroups w)(g := (swGroups w g)[i := st'])"
      "swTrace w' = trace_after (swGroups w g) ((swGroups w g)[i := st']) args rep (swTrace w)"
    using grp_do_shard [OF assms(1,2)] by blast
  have inv: "site_ok S" "grp_ok (swGroups w h)" for h using assms(1) by (simp_all add: site_inv_def)
  have len: "length (swGroups w g) = NShards" using inv(2) by (simp add: grp_ok_def)
  obtain pub n A B where pl: "world_plan S w = (pub, n, A, B)" by (metis prod_cases4)
  have pl': "world_plan S w' = (pub, n, A, B)" using pl world_plan_cong [of w' w S] i(4) by simp
  have "grp_ok ((swGroups w g)[i := st'])"
    using DoOp_ok [OF _ inv(2) i(3)] inv(1) by (simp add: site_ok_def)
  then have ok: "grp_ok (swGroups w' h)" for h using i(5) inv(2) by simp
  have "\<exists>kv. kv_run StartKVServer (swTrace w' j) = Some kv \<and> shard_inv pub n (A ! j) (B ! j) (shard_at w' j) kv"
    if j: "j < NShards" for j
  proof -
    obtain kv where kv: "kv_run StartKVServer (swTrace w j) = Some kv" "shard_inv pub n (A ! j) (B ! j) (shard_at w j) kv"
      using assms(1) j pl by (auto simp: site_inv_def)
    have pj: "planned S w pub (A ! j) (B ! j) j n" using pl by (simp add: planned_def)
    note sh = shard_at_update [OF i(5) len j]
    show ?thesis
    proof (cases "j = i")
      case True
      with assms(3) [OF i(1-3)] pj kv show ?thesis unfolding sh i(6) by simp
    next
      case False
      then have "swTrace w' j = swTrace w j" using i(1,6) by (simp add: trace_after_def)
      with kv False show ?thesis unfolding sh by auto
    qed
  qed
  then show ?thesis using assms(1) inv(1) ok pl' i(4) by (intro site_invI) (auto simp: site_inv_def)
qed

text \<open>Client requests.\<close>

lemma get_inv:
  assumes "site_inv S w" "grp_do S w g (GetArgs a) w' rep"
  shows "site_inv S w'"
proof (rule grp_do_inv [OF assms], goal_cases)
  case (1 i st' pub n a' b kv)
  have len: "i < length (swGroups w g)" using assms(1) 1(2) by (simp add: site_inv_def grp_ok_def)
  have st: "st' = shard_at w i g" and d: "rep = GetReply (shardGet (shard_at w i g) a)"
    using DoOp_args(1) [OF len 1(3)] 1(1) by (simp_all add: target_shard_def)
  have G: "(shard_at w i)(g := st') = shard_at w i" using st by auto
  show ?case
  proof (cases "shStatus (shard_at w i g) = ShardServing")
    case True
    have "shard_kv (shard_at w i g) = kv" by (rule shard_inv_serving(3) [OF 1(6)]) (use True in simp)
    then have "kvValues kv = shValues (shard_at w i g)" by (auto simp: shard_kv_def)
    then have "KVServer_DoOp kv (ReqGet a) = Some (kv, ResGet (shardGet (shard_at w i g) a))"
      using True by (simp add: KVServer_DoOp_def shardGet_serving)
    then show ?thesis
      using 1(1,5,6) True d unfolding G by (simp add: trace_after_def client_op_def kv_run_append)
  next
    case False
    then show ?thesis using 1(1,5,6) d unfolding G by (simp add: trace_after_def client_op_def)
  qed
qed

lemma put_inv:
  assumes "site_inv S w" "grp_do S w g (PutArgs a) w' rep"
  shows "site_inv S w'"
proof (rule grp_do_inv [OF assms], goal_cases)
  case (1 i st' pub n a' b kv)
  have len: "i < length (swGroups w g)" using assms(1) 1(2) by (simp add: site_inv_def grp_ok_def)
  obtain r where d: "shardPut (shard_at w i g) a = (st', r)" "rep = PutReply r"
    using DoOp_args(2) [OF len 1(3)] 1(1) by (auto simp: target_shard_def)
  show ?case
  proof (cases "shStatus (shard_at w i g) = ShardServing")
    case True
    have sv: "shStatus (shard_at w i g) = ShardServing" "shard_kv (shard_at w i g) = kv"
      using shard_inv_serving(3) [OF 1(6), of g] True by auto
    obtain kv1 where kv1: "KVServer_DoOp kv (ReqPut a) = Some (kv1, ResPut r)"
        "st' = (shard_at w i g)\<lparr>shValues := kvValues kv1, shRequests := kvRequests kv1\<rparr>"
      using shardPut_serving [OF True, of a] d(1) unfolding sv(2) by auto
    have "shard_inv pub n a' b ((shard_at w i)(g := st')) kv1"
      by (rule shard_inv_write [OF 1(6)]) (use True kv1(2) in \<open>simp_all add: shard_kv_def\<close>)
    then show ?thesis
      using 1(1,5) True d(2) kv1(1) by (simp add: trace_after_def client_op_def kv_run_append)
  next
    case False
    then have G: "(shard_at w i)(g := st') = shard_at w i" using d(1) by (auto simp: shard_not_serving)
    then show ?thesis using 1(1,5,6) False d(2) unfolding G by (simp add: trace_after_def client_op_def)
  qed
qed

text \<open>The plan is unique, so a shard that has not arrived is the one that is being moved.\<close>

lemma planned_unique:
  "planned S w pub a b i n \<Longrightarrow> planned S w pub' a' b' i n' \<Longrightarrow> pub' = pub \<and> a' = a \<and> b' = b \<and> n' = n"
  by (auto simp: planned_def)

lemma freeze_inv:
  assumes "site_inv S w" "grp_do S w g (FreezeArgs a) w' rep" "g \<noteq> 0" "fzShard a = int j" "moving S w g h j (fzNum a)"
  shows "site_inv S w'"
proof (rule grp_do_inv [OF assms(1,2)], goal_cases)
  case (1 i st' pub n a' b kv)
  have j: "j = i" using 1(1) assms(4) by (simp add: target_shard_def)
  have len: "i < length (swGroups w g)" using assms(1) 1(2) by (simp add: site_inv_def grp_ok_def)
  obtain r where d: "shardFreeze (siteGc S) (shard_at w i g) (fzNum a) = Some (st', r)" "rep = FreezeReply r"
    using DoOp_args(3) [OF len 1(3)] assms(4) j by auto
  have T: "trace_after (swGroups w g) ((swGroups w g)[i := st']) (FreezeArgs a) rep (swTrace w) i = swTrace w i"
    by (simp add: trace_after_def client_op_def split: rpc_reply.splits)
  consider "st' = shard_at w i g"
    | "st' = (shard_at w i g)\<lparr>shStatus := ShardFrozen, shConfigNum := fzNum a\<rparr>" "shStatus (shard_at w i g) = ShardServing"
      "shConfigNum (shard_at w i g) < fzNum a"
    using shardFreeze_cases [OF d(1)] by blast
  then show ?case
  proof cases
    case 2
    then have "planned S w False g h i (fzNum a)" using assms(3,5) j by (auto simp: moving_def at_least_def)
    from planned_unique [OF 1(4) this] 1(6) have inv: "shard_inv False (fzNum a) g h (shard_at w i) kv"
      and e: "pub = False" "a' = g" "b = h" "n = fzNum a" by auto
    have "g \<noteq> h" using assms(5) by (simp add: moving_def)
    from shard_inv_freeze [OF inv assms(3) this] 2 1(5) e show ?thesis unfolding T by auto
  next
    case 1
    then show ?thesis using \<open>shard_inv pub n a' b (shard_at w i) kv\<close> \<open>kv_run StartKVServer (swTrace w i) = Some kv\<close>
      unfolding T by (intro exI [of _ kv]) (simp add: fun_upd_idem)
  qed
qed

lemma shardDelete_outcome:
  "shardDelete st num = (st', r) \<Longrightarrow>
     st' = st \<or> shStatus st' = ShardAbsent \<and> shConfigNum st' = num \<and> shStatus st = ShardFrozen \<and> shConfigNum st = num"
  by (auto simp: shardDelete_def split: if_splits)

lemma delete_inv:
  assumes "site_inv S w" "grp_do S w g (DeleteArgs a) w' rep" "g \<noteq> 0" "dlShard a = int j" "leaving S w g h j (dlNum a)"
  shows "site_inv S w'"
proof (rule grp_do_inv [OF assms(1,2)], goal_cases)
  case (1 i st' pub n a' b kv)
  have j: "j = i" using 1(1) assms(4) by (simp add: target_shard_def)
  have len: "i < length (swGroups w g)" using assms(1) 1(2) by (simp add: site_inv_def grp_ok_def)
  obtain r where d: "shardDelete (shard_at w i g) (dlNum a) = (st', r)" "rep = DeleteReply r"
    using DoOp_args(5) [OF len 1(3)] assms(4) j by auto
  have T: "trace_after (swGroups w g) ((swGroups w g)[i := st']) (DeleteArgs a) rep (swTrace w) i = swTrace w i"
    by (simp add: trace_after_def client_op_def split: rpc_reply.splits)
  consider "st' = shard_at w i g"
    | "shStatus st' = ShardAbsent" "shConfigNum st' = dlNum a" "shStatus (shard_at w i g) = ShardFrozen"
      "shConfigNum (shard_at w i g) = dlNum a"
    using shardDelete_outcome [OF d(1)] by blast
  then show ?case
  proof cases
    case 2
    then have "planned S w True g h i (dlNum a)" using assms(3,5) j by (auto simp: leaving_def gone_def)
    from planned_unique [OF 1(4) this] 1(6) have inv: "shard_inv True (dlNum a) g h (shard_at w i) kv"
      and e: "pub = True" "a' = g" "b = h" "n = dlNum a" by auto
    have "g \<noteq> h" using assms(5) by (simp add: leaving_def)
    from shard_inv_delete [OF inv assms(3) this 2(1,2)] 1(5) e show ?thesis unfolding T by auto
  next
    case 1
    then show ?thesis using \<open>shard_inv pub n a' b (shard_at w i) kv\<close> \<open>kv_run StartKVServer (swTrace w i) = Some kv\<close>
      unfolding T by (intro exI [of _ kv]) (simp add: fun_upd_idem)
  qed
qed

lemma install_inv:
  assumes "site_inv S w" "grp_do S w h (InstallArgs a) w' rep" "h \<noteq> 0" "inShard a = int j"
    and "carried S w g h j (inNum a) (inState a)"
  shows "site_inv S w'"
proof (rule grp_do_inv [OF assms(1,2)], goal_cases)
  case (1 i st' pub n a' b kv)
  have j: "j = i" using 1(1) assms(4) by (simp add: target_shard_def)
  have len: "i < length (swGroups w h)" using assms(1) 1(2) by (simp add: site_inv_def grp_ok_def)
  obtain r where d: "shardInstall (siteGc S) (shard_at w i h) (inState a) (inNum a) = Some (st', r)" "rep = InstallReply r"
    using DoOp_args(4) [OF len 1(3)] assms(4) j by auto
  have T: "trace_after (swGroups w h) ((swGroups w h)[i := st']) (InstallArgs a) rep (swTrace w) i =
      (if inState a = [] \<and> st' \<noteq> shard_at w i h then [] else swTrace w i)"
    using 1(1,2) len d(2) by (simp add: trace_after_def client_op_def)
  consider (no) "st' = shard_at w i h"
    | (yes) t where "decodeShardTransfer (siteGc S) (inState a) = Some t" "shStatus (shard_at w i h) = ShardAbsent"
      "shConfigNum (shard_at w i h) < inNum a"
      "st' = \<lparr>shValues = made (stValues t), shStatus = ShardServing, shConfigNum = inNum a, shRequests = stRequests t\<rparr>"
    using shardInstall_cases [OF d(1)] by blast
  then show ?case
  proof cases
    case yes
    then have c: "planned S w False g h i (inNum a)" "g \<noteq> h"
        "if g = 0 then inState a = [] else has_data S (shard_at w i g) (inState a)"
      using assms(3,5) j by (auto simp: carried_def at_least_def)
    from planned_unique [OF 1(4) c(1)] 1(6) have inv: "shard_inv False (inNum a) g h (shard_at w i) kv"
      and e: "pub = False" "a' = g" "b = h" "n = inNum a" by auto
    have "shStatus st' = ShardServing" using yes(4) by simp
    then have ne: "st' \<noteq> shard_at w i h" using yes(2) by (metis shard_status.distinct(1))
    have src: "shStatus (shard_at w i g) = ShardFrozen \<and> shard_kv st' = shard_kv (shard_at w i g)" if "g \<noteq> 0"
      using that c(3) yes(1,4) by (auto simp: has_data_def shard_kv_def)
    note ins = shard_inv_install [OF inv assms(3) c(2) yes(2), of st']
    have inv': "shard_inv False (inNum a) g h ((shard_at w i)(h := st')) (shard_kv st')"
      by (rule ins(1)) (use yes(4) src in simp_all)
    have "kv_run StartKVServer (if inState a = [] \<and> st' \<noteq> shard_at w i h then [] else swTrace w i) = Some (shard_kv st')"
    proof (cases "g = 0")
      case True
      then have "inState a = []" using c(3) by simp
      then show ?thesis
        using yes(1,4) ne by (auto simp: decodeShardTransfer_def shard_kv_def StartKVServer_def)
    next
      case False
      then have "shard_kv st' = kv" using ins(2) src yes(4) by simp
      moreover have "inState a \<noteq> []" using False c(3) by (simp add: has_data_def)
      ultimately show ?thesis using 1(5) by simp
    qed
    with inv' e show ?thesis unfolding T by blast
  next
    case no
    then show ?thesis using 1(5,6)
      unfolding T by (intro exI [of _ kv]) (simp add: fun_upd_idem)
  qed
qed

section \<open>The laws of the logic\<close>

lemma groups_move_refl: "stored w' = stored w \<Longrightarrow> swGroups w' = swGroups w \<Longrightarrow> groups_move w w'"
  by (simp add: groups_move_def shard_move.stay)

text \<open>A call to the controllers' server.\<close>

lemma ctl_put_cases:
  assumes "site_inv S w" "ctl_okm S w p (siteCtl S, PutArgs a)" "site_exec S w (siteCtl S, PutArgs a) w' r"
  shows "put_step S w p a w' \<and> r = PutReply \<lparr>prErr = OK\<rparr> \<or>
    w' = w \<and> pVersion a < ksVersion (stored w) \<and> (r = PutReply \<lparr>prErr = ErrVersion\<rparr> \<or> r = PutReply \<lparr>prErr = ErrNoKey\<rparr>)"
proof -
  have k: "pKey a = currentConfigKey" "no_wrap (swKv w) currentConfigKey"
    and w': "w' = w\<lparr>swKv := fst (Kvsrv_Put (swKv w) a)\<rparr>" "r = PutReply (snd (Kvsrv_Put (swKv w) a))"
    using assms(2,3) by (auto simp: site_exec_def kvsrv_exec_def)
  show ?thesis
  proof (cases "ksVersion (stored w) = pVersion a")
    case True
    then have "right_put S w p (pValue a)" using assms(2) by auto
    moreover have "pVersion a < pVersion a + 1" using k(2) True u64_inc by (simp add: no_wrap_def)
    ultimately show ?thesis using True k(1) w' by (simp add: put_step_def Kvsrv_Put_cases)
  next
    case False
    then show ?thesis using assms(2) k(1) w' by (auto simp: Kvsrv_Put_cases)
  qed
qed

lemma ctl_get_eq:
  assumes "site_inv S w" "ctl_okm S w p (nm, GetArgs a)" "site_exec S w (nm, GetArgs a) w' r"
  shows "w' = w" "kvData (swKv w) currentConfigKey = None \<Longrightarrow> r = GetReply (get_error ErrNoKey)"
    "kvData (swKv w) currentConfigKey = Some e \<Longrightarrow> r = GetReply \<lparr>grValue = enValue e, grVersion = enVersion e, grErr = OK\<rparr>"
  using assms by (auto simp: site_exec_def kvsrv_exec_def Kvsrv_Get_def)

text \<open>A call to a server of a group that was executed, or refused.\<close>

lemma grp_call_cases:
  assumes "site_exec S w (nm, args) w' r" "nm \<noteq> siteCtl S"
  shows "w' = w \<or> (\<exists>rep. grp_do S w (siteGroup S nm) args w' rep)"
  using assms by (auto simp: site_exec_def)

lemma exec_kind:
  assumes "site_inv S w" "ctl_okm S w p q" "site_exec S w q w' r"
  shows "site_inv S w' \<and> (groups_move w w' \<or> (\<exists>a. q = (siteCtl S, PutArgs a) \<and> put_step S w p a w'))"
proof -
  obtain nm args where q: "q = (nm, args)" by (cases q)
  have refl: "site_inv S w' \<and> groups_move w w'" if "w' = w" using assms(1) that groups_move_refl by simp
  show ?thesis
  proof (cases args)
    case (GetArgs a)
    with ctl_get_eq(1) [of S w p nm a w' r] assms q refl show ?thesis by blast
  next
    case (PutArgs a)
    then have "q = (siteCtl S, PutArgs a)" using assms(2) q by auto
    with ctl_put_cases [of S w p a w' r] assms put_step_inv [OF assms(1)] refl show ?thesis by blast
  next
    case (FreezeArgs a)
    then obtain i h where o: "nm \<noteq> siteCtl S" "siteGroup S nm \<noteq> 0" "fzShard a = int i"
        "moving S w (siteGroup S nm) h i (fzNum a)" using assms(2) q by auto
    from grp_call_cases [OF assms(3) [unfolded q FreezeArgs] o(1)] show ?thesis
      using refl freeze_inv [OF assms(1) _ o(2-4)] grp_do_move [OF assms(1)] by blast
  next
    case (InstallArgs a)
    then obtain i g where o: "nm \<noteq> siteCtl S" "siteGroup S nm \<noteq> 0" "inShard a = int i"
        "carried S w g (siteGroup S nm) i (inNum a) (inState a)" using assms(2) q by auto
    from grp_call_cases [OF assms(3) [unfolded q InstallArgs] o(1)] show ?thesis
      using refl install_inv [OF assms(1) _ o(2-4)] grp_do_move [OF assms(1)] by blast
  next
    case (DeleteArgs a)
    then obtain i h where o: "nm \<noteq> siteCtl S" "siteGroup S nm \<noteq> 0" "dlShard a = int i"
        "leaving S w (siteGroup S nm) h i (dlNum a)" using assms(2) q by auto
    from grp_call_cases [OF assms(3) [unfolded q DeleteArgs] o(1)] show ?thesis
      using refl delete_inv [OF assms(1) _ o(2-4)] grp_do_move [OF assms(1)] by blast
  next
    case OtherArgs
    then show ?thesis using assms(2) q by simp
  qed
qed

lemma exec_okm_law:
  assumes "site_inv S w" "ctl_okm S w p q" "site_exec S w q w' r" "ctl_okm S w p' q'"
  shows "ctl_okm S w' p' q'"
  using exec_kind [OF assms(1-3)] okm_move [OF assms(1) _ _ assms(4)] okm_put [OF _ assms(4)] by blast

lemma exec_holds_law:
  assumes "site_inv S w" "ctl_okm S w p q" "(p, q) \<in> M" "site_exec S w q w' r" "ctl_holds S w M p' f"
  shows "ctl_holds S w' M p' f"
  using exec_kind [OF assms(1,2,4)] holds_move [OF assms(1) _ _ assms(5)] holds_put [OF assms(1) _ _ assms(5)] assms(3)
  by blast

lemma exec_po_law:
  assumes "site_inv S w" "ctl_okm S w p q" "site_exec S w q w' r"
  shows "ctl_po S q r"
proof (cases "\<exists>nm a. q = (nm, GetArgs a)")
  case True
  then obtain nm a where q: "q = (nm, GetArgs a)" by blast
  note g = ctl_get_eq [OF assms(1) assms(2,3) [unfolded q]]
  show ?thesis
  proof (cases "kvData (swKv w) currentConfigKey")
    case (Some e)
    then have "stored w = \<lparr>ksValue = enValue e, ksVersion = enVersion e\<rparr>" "enVersion e \<noteq> 0"
      using assms(1) by (simp_all add: kvsrv_abs_def site_inv_def)
    then have "\<exists>st. ctUnmarshal (siteCc S) (enValue e) = Some st \<and> state_ok S st" "enVersion e \<noteq> 0"
      using assms(1) by (simp_all add: site_inv_def)
    then show ?thesis using g(3) [OF Some] by (simp add: ctl_po_def)
  qed (simp add: g(2) ctl_po_def get_error_def)
next
  case False
  then have "\<forall>g. r \<noteq> GetReply g"
    using assms(2,3) by (cases q; cases "snd q")
      (auto simp: site_exec_def kvsrv_exec_def grp_answer_def)
  then show ?thesis by (simp add: ctl_po_def)
qed

section \<open>Learning\<close>

text \<open>What a state that was read tells is true.\<close>

lemma state_facts_hold:
  assumes "site_inv S w" "ksVersion (stored w) \<noteq> 0" "ctUnmarshal (siteCc S) (ksValue (stored w)) = Some st"
    and "\<forall>f \<in> K. ctl_holds S w M p f" "f \<in> state_facts K (ksVersion (stored w)) (ksValue (stored w)) st"
  shows "ctl_holds S w M p f"
proof -
  have pl: "world_plan S w = plan_of st" using assms(2,3) by (simp add: world_plan_def)
  consider (saw) "f = SawState (ksVersion (stored w)) (ksValue (stored w))" | (clean) "f = Clean" "Settled \<in> K" "csPending st = None"
    | (plan) "f \<in> plan_facts (plan_of st)" using assms(5) by (auto simp: state_facts_def split: if_splits)
  then show ?thesis
  proof cases
    case clean
    then have "ctl_holds S w M p Settled" using assms(4) by blast
    with clean assms(3) show ?thesis by simp
  next
    case plan
    then show ?thesis
      unfolding pl [symmetric] by (cases "world_plan S w") (auto simp: plan_facts_def moving_def leaving_def planned_def)
  qed simp
qed

lemma learn_put:
  assumes "site_inv S w" "ctl_okm S w p (siteCtl S, PutArgs a)" "site_exec S w (siteCtl S, PutArgs a) w' r"
    and "ctl_holds S w M p (Unsettled (pVersion a))"
  shows "ctl_holds S w' M p Settled"
    "r = PutReply \<lparr>prErr = OK\<rparr> \<Longrightarrow> csPending (the (ctUnmarshal (siteCc S) (pValue a))) = None \<Longrightarrow> ctl_holds S w' M p Clean"
proof -
  have past: "own_puts_past (ksVersion (stored w)) M p (\<lambda>u. u = pVersion a)" using assms(4) by simp
  note c = ctl_put_cases [OF assms(1-3)]
  have "ksVersion (stored w) \<le> ksVersion (stored w')" "pVersion a < ksVersion (stored w')"
  proof -
    show "ksVersion (stored w) \<le> ksVersion (stored w')" using c put_stepD(2) [of S w p a w'] by auto
    show "pVersion a < ksVersion (stored w')"
      using c put_stepD(2) [of S w p a w'] by (auto simp: put_step_def)
  qed
  then show st: "ctl_holds S w' M p Settled" using own_puts_past_settle [OF past] by simp
  assume r: "r = PutReply \<lparr>prErr = OK\<rparr>" "csPending (the (ctUnmarshal (siteCc S) (pValue a))) = None"
  then have "put_step S w p a w'" using c by auto
  from put_stepD(1) [OF this] r(2) st show "ctl_holds S w' M p Clean" by auto
qed

text \<open>The replies of the groups: one that says \<^verbatim>\<open>OK\<close> comes from the execution of the request.\<close>

lemma grp_done:
  assumes "site_inv S w" "site_exec S w (nm, args) w' r" "nm \<noteq> siteCtl S" "target_shard args = int i"
    and "\<And>err. err \<noteq> OK \<Longrightarrow> grp_answer args (err, None) \<noteq> Some r"
  shows "\<exists>rep. ShardGrp_DoOp (siteGc S) (swGroups w (siteGroup S nm)) args =
      Some ((swGroups w (siteGroup S nm))[i := shard_at w' i (siteGroup S nm)], rep) \<and>
    grp_answer args (OK, Some rep) = Some r \<and> i < length (swGroups w (siteGroup S nm))"
proof -
  let ?g = "siteGroup S nm"
  obtain rep where rep: "grp_do S w ?g args w' rep" "grp_answer args (OK, Some rep) = Some r"
    using assms(2,3,5) by (auto simp: site_exec_def)
  obtain i' st' where d: "target_shard args = int i'" "i' < NShards"
      "ShardGrp_DoOp (siteGc S) (swGroups w ?g) args = Some ((swGroups w ?g)[i' := st'], rep)"
      "swGroups w' = (swGroups w)(?g := (swGroups w ?g)[i' := st'])"
    using grp_do_shard [OF assms(1) rep(1)] by blast
  have "length (swGroups w ?g) = NShards" using assms(1) by (simp add: site_inv_def grp_ok_def)
  then show ?thesis using d rep(2) assms(4) by auto
qed

lemma freeze_reply:
  assumes "site_inv S w" "site_exec S w (nm, FreezeArgs a) w' (FreezeReply r)" "nm \<noteq> siteCtl S" "fzShard a = int i" "fzrErr r = OK"
  shows "shConfigNum (shard_at w' i (siteGroup S nm)) = fzNum a" "has_data S (shard_at w' i (siteGroup S nm)) (fzrState r)"
proof -
  let ?g = "siteGroup S nm"
  have "grp_answer (FreezeArgs a) (err, None) \<noteq> Some (FreezeReply r)" if "err \<noteq> OK" for err
    using that assms(5) by (auto simp: grp_answer_def ShardGrp_FreezeShard_def)
  from grp_done [OF assms(1-3) _ this, of i] assms(4)
  obtain rep where d: "ShardGrp_DoOp (siteGc S) (swGroups w ?g) (FreezeArgs a) = Some ((swGroups w ?g)[i := shard_at w' i ?g], rep)"
      "grp_answer (FreezeArgs a) (OK, Some rep) = Some (FreezeReply r)" "i < length (swGroups w ?g)"
    by (auto simp: target_shard_def)
  have f: "shardFreeze (siteGc S) (shard_at w i ?g) (fzNum a) = Some (shard_at w' i ?g, r)"
    using DoOp_args(3) [OF d(3,1) assms(4)] d(2) by (auto simp: grp_answer_def ShardGrp_FreezeShard_def)
  have s: "shStatus (shard_at w' i ?g) = ShardFrozen \<and> shConfigNum (shard_at w' i ?g) = fzNum a \<and>
      shValues (shard_at w' i ?g) = shValues (shard_at w i ?g) \<and> shRequests (shard_at w' i ?g) = shRequests (shard_at w i ?g) \<and>
      encodeShardTransfer (siteGc S) (shValues (shard_at w i ?g)) (shRequests (shard_at w i ?g)) = Some (fzrState r)"
    using shardFreeze_cases [OF f] assms(5) by (elim disjE) (simp_all add: encodeShardTransfer_def)
  have "grp_codec_ok (siteGc S)" "grp_ok (swGroups w ?g)" using assms(1) by (simp_all add: site_inv_def site_ok_def)
  moreover from this(2) have "shard_finite (shard_at w i ?g)" using d(3) by (simp add: grp_ok_def)
  ultimately obtain b where "encodeShardTransfer (siteGc S) (shValues (shard_at w i ?g)) (shRequests (shard_at w i ?g)) = Some b" "b \<noteq> []"
      "decodeShardTransfer (siteGc S) b = Some \<lparr>stValues = Some (shValues (shard_at w i ?g)), stRequests = shRequests (shard_at w i ?g)\<rparr>"
    using transfer_roundtrip by (metis shard_finite_def)
  with s show "shConfigNum (shard_at w' i ?g) = fzNum a" "has_data S (shard_at w' i ?g) (fzrState r)"
    by (simp_all add: has_data_def)
qed

lemma install_reply:
  assumes "site_inv S w" "site_exec S w (nm, InstallArgs a) w' (InstallReply r)" "nm \<noteq> siteCtl S" "inShard a = int i" "inrErr r = OK"
  shows "at_least w' (siteGroup S nm) i (inNum a)"
proof -
  let ?g = "siteGroup S nm"
  have "grp_answer (InstallArgs a) (err, None) \<noteq> Some (InstallReply r)" if "err \<noteq> OK" for err
    using that assms(5) by (auto simp: grp_answer_def ShardGrp_InstallShard_def)
  from grp_done [OF assms(1-3) _ this, of i] assms(4)
  obtain rep where d: "ShardGrp_DoOp (siteGc S) (swGroups w ?g) (InstallArgs a) = Some ((swGroups w ?g)[i := shard_at w' i ?g], rep)"
      "grp_answer (InstallArgs a) (OK, Some rep) = Some (InstallReply r)" "i < length (swGroups w ?g)"
    by (auto simp: target_shard_def)
  have "shardInstall (siteGc S) (shard_at w i ?g) (inState a) (inNum a) = Some (shard_at w' i ?g, r)"
    using DoOp_args(4) [OF d(3,1) assms(4)] d(2) by (auto simp: grp_answer_def ShardGrp_InstallShard_def)
  from shardInstall_cases [OF this] assms(5) show ?thesis by (elim disjE) (auto simp: at_least_def)
qed

lemma delete_reply:
  assumes "site_inv S w" "site_exec S w (nm, DeleteArgs a) w' (DeleteReply r)" "nm \<noteq> siteCtl S" "dlShard a = int i" "dlrErr r = OK"
  shows "gone w' (siteGroup S nm) i (dlNum a)"
proof -
  let ?g = "siteGroup S nm"
  have "grp_answer (DeleteArgs a) (err, None) \<noteq> Some (DeleteReply r)" if "err \<noteq> OK" for err
    using that assms(5) by (auto simp: grp_answer_def ShardGrp_DeleteShard_def)
  from grp_done [OF assms(1-3) _ this, of i] assms(4)
  obtain rep where d: "ShardGrp_DoOp (siteGc S) (swGroups w ?g) (DeleteArgs a) = Some ((swGroups w ?g)[i := shard_at w' i ?g], rep)"
      "grp_answer (DeleteArgs a) (OK, Some rep) = Some (DeleteReply r)" "i < length (swGroups w ?g)"
    by (auto simp: target_shard_def)
  have "shardDelete (shard_at w i ?g) (dlNum a) = (shard_at w' i ?g, r)"
    using DoOp_args(5) [OF d(3,1) assms(4)] d(2) by (auto simp: grp_answer_def ShardGrp_DeleteShard_def)
  from shardDelete_cases [OF this] assms(5) show ?thesis by (elim disjE) (auto simp: gone_def)
qed

lemma exec_learn_law:
  assumes "site_inv S w" "ctl_okm S w p q" "(p, q) \<in> M" "site_exec S w q w' r"
    and "\<forall>f \<in> K. ctl_holds S w M p f" "f \<in> ctl_le S K q r"
  shows "ctl_holds S w' M p f"
proof -
  obtain nm args where q: "q = (nm, args)" by (cases q)
  have next': "ctl_holds S w' M p f'" if "f' \<in> K" for f' using exec_holds_law [OF assms(1-4)] assms(5) that by blast
  show ?thesis
  proof (cases args)
    case (GetArgs a)
    then obtain g where r: "r = GetReply g" "grErr g = OK"
        "f \<in> state_facts K (grVersion g) (grValue g) (the (ctUnmarshal (siteCc S) (grValue g)))"
      using assms(6) q by (cases r) (auto split: if_splits)
    note e = ctl_get_eq [OF assms(1) assms(2,4) [unfolded q GetArgs]]
    obtain en where en: "kvData (swKv w) currentConfigKey = Some en" "g = \<lparr>grValue = enValue en, grVersion = enVersion en, grErr = OK\<rparr>"
      using e(2,3) r(1,2) by (cases "kvData (swKv w) currentConfigKey") (auto simp: get_error_def)
    then have st: "stored w = \<lparr>ksValue = enValue en, ksVersion = enVersion en\<rparr>" "enVersion en \<noteq> 0"
      using assms(1) by (simp_all add: kvsrv_abs_def site_inv_def)
    then obtain st where dec: "ctUnmarshal (siteCc S) (enValue en) = Some st" using assms(1) by (auto simp: site_inv_def)
    from state_facts_hold [OF assms(1) _ _ assms(5), of st f] st dec r(3) en(2) e(1) show ?thesis by simp
  next
    case (PutArgs a)
    have c: "q = (siteCtl S, PutArgs a)" using assms(2) q PutArgs by auto
    obtain g where r: "r = PutReply g" "Unsettled (pVersion a) \<in> K"
        "f = Settled \<or> f = Clean \<and> prErr g = OK \<and> csPending (the (ctUnmarshal (siteCc S) (pValue a))) = None"
      using assms(6) q PutArgs by (cases r) (auto split: if_splits)
    have "g = \<lparr>prErr = OK\<rparr>" if "prErr g = OK" using that by (cases g) simp
    with learn_put [OF assms(1) assms(2,4) [unfolded c]] r assms(5) show ?thesis by blast
  next
    case (FreezeArgs a)
    then obtain fr where r: "r = FreezeReply fr" "fzrErr fr = OK"
        "f = AtLeast (siteGroup S nm) (nat (fzShard a)) (fzNum a) \<or>
         (\<exists>h. f = Carried (siteGroup S nm) h (nat (fzShard a)) (fzNum a) (fzrState fr) \<and>
            Moving (siteGroup S nm) h (nat (fzShard a)) (fzNum a) \<in> K)"
      using assms(6) q by (cases r) (auto split: if_splits)
    obtain i h where o: "nm \<noteq> siteCtl S" "siteGroup S nm \<noteq> 0" "fzShard a = int i" "moving S w (siteGroup S nm) h i (fzNum a)"
      using assms(2) q FreezeArgs by auto
    note rep = freeze_reply [OF assms(1) assms(4) [unfolded q FreezeArgs r(1)] o(1,3) r(2)]
    have "carried S w' (siteGroup S nm) h' i (fzNum a) (fzrState fr)" if "Moving (siteGroup S nm) h' i (fzNum a) \<in> K" for h'
      using next' [OF that] rep o(2) by (auto simp: moving_def carried_def)
    then show ?thesis using r(3) rep(1) o(3,4) by (auto simp: moving_def at_least_def)
  next
    case (InstallArgs a)
    then obtain ir where r: "r = InstallReply ir" "inrErr ir = OK" "f = AtLeast (siteGroup S nm) (nat (inShard a)) (inNum a)"
      using assms(6) q by (cases r) (auto split: if_splits)
    obtain i g where o: "nm \<noteq> siteCtl S" "inShard a = int i" "carried S w g (siteGroup S nm) i (inNum a) (inState a)"
      using assms(2) q InstallArgs by auto
    from install_reply [OF assms(1) assms(4) [unfolded q InstallArgs r(1)] o(1,2) r(2)] o(2,3) r(3)
    show ?thesis by (simp add: carried_def)
  next
    case (DeleteArgs a)
    then obtain dr where r: "r = DeleteReply dr" "dlrErr dr = OK" "f = Gone (siteGroup S nm) (nat (dlShard a)) (dlNum a)"
      using assms(6) q by (cases r) (auto split: if_splits)
    obtain i h where o: "nm \<noteq> siteCtl S" "dlShard a = int i" "leaving S w (siteGroup S nm) h i (dlNum a)"
      using assms(2) q DeleteArgs by auto
    from delete_reply [OF assms(1) assms(4) [unfolded q DeleteArgs r(1)] o(1,2) r(2)] o(2,3) r(3)
    show ?thesis by (simp add: leaving_def)
  next
    case OtherArgs
    then show ?thesis using assms(2) q by simp
  qed
qed

section \<open>Sending\<close>

lemma swap_ok_right:
  assumes "site_inv S w" "\<forall>f \<in> K. ctl_holds S w M p f" "swap_ok S p K v st'" "ctUnmarshal (siteCc S) x = Some st'"
  shows "v < ksVersion (stored w) \<or> v = ksVersion (stored w) \<and> right_put S w p x"
proof (cases "v < ksVersion (stored w)")
  case False
  have h: "ctl_holds S w M p f" if "f \<in> K" for f using assms(2) that by blast
  have ok: "state_ok S st'" "csOwner st' = siteIds S p" using assms(3) by (simp_all add: swap_ok_def)
  have "v = ksVersion (stored w) \<and> right_plan S w (plan_of st')"
  proof (cases "v = 0")
    case True
    then have "ksVersion (stored w) = 0" using False by (simp add: word_gt_0)
    then show ?thesis using True assms(3) by (simp add: swap_ok_def right_plan_def world_plan_def)
  next
    case v: False
    then obtain y st where y: "SawState v y \<in> K" "ctUnmarshal (siteCc S) y = Some st" "plan_change S p K st (plan_of st')"
      using assms(3) by (auto simp: swap_ok_def)
    then have cur: "v = ksVersion (stored w)" "y = ksValue (stored w)" using h [OF y(1)] False by auto
    then have pl: "world_plan S w = plan_of st" using v y(2) by (simp add: world_plan_def)
    have "plan_of st = (True, Num cur, Shards cur, Shards cur)"
      if "Clean \<in> K" "csOwner st = siteIds S p" "csCurrent st = Some cur" for cur
      using h [OF that(1)] that(2,3) cur v y(2) by (simp add: plan_of_def)
    then have "right_plan S w (plan_of st')"
      using y(3) h unfolding plan_change_def right_plan_def pl by (elim disjE) fastforce+
    with cur(1) show ?thesis by blast
  qed
  with ok assms(4) show ?thesis by (auto simp: right_put_def)
qed simp

lemma send_okm_law:
  assumes "site_inv S w" "\<forall>f \<in> K. ctl_holds S w M p f" "ctl_al S p K q"
  shows "ctl_okm S w p q"
proof -
  obtain nm args where q: "q = (nm, args)" by (cases q)
  have h: "ctl_holds S w M p f" if "f \<in> K" for f using assms(2) that by blast
  show ?thesis
  proof (cases args)
    case (PutArgs a)
    then consider st' where "nm = siteCtl S" "pKey a = currentConfigKey" "ctUnmarshal (siteCc S) (pValue a) = Some st'"
        "swap_ok S p K (pVersion a) st'" | "May (nm, PutArgs a) \<in> K"
      using assms(3) q by auto
    then show ?thesis
    proof cases
      case 1
      then show ?thesis using swap_ok_right [OF assms(1,2) 1(4,3)] q PutArgs by simp
    next
      case 2
      then show ?thesis using h [OF 2] q PutArgs by simp
    qed
  next
    case (FreezeArgs a)
    then obtain i h' where "nm \<noteq> siteCtl S" "siteGroup S nm \<noteq> 0" "fzShard a = int i" "Moving (siteGroup S nm) h' i (fzNum a) \<in> K"
      using assms(3) q by auto
    then show ?thesis using h [of "Moving (siteGroup S nm) h' i (fzNum a)"] q FreezeArgs by auto
  next
    case (InstallArgs a)
    then obtain i g where i: "nm \<noteq> siteCtl S" "siteGroup S nm \<noteq> 0" "inShard a = int i"
        "Carried g (siteGroup S nm) i (inNum a) (inState a) \<in> K \<or>
         g = 0 \<and> inState a = [] \<and> Moving g (siteGroup S nm) i (inNum a) \<in> K"
      using assms(3) q by auto
    then have "carried S w g (siteGroup S nm) i (inNum a) (inState a)"
      using h [of "Carried g (siteGroup S nm) i (inNum a) (inState a)"] h [of "Moving g (siteGroup S nm) i (inNum a)"]
      by (auto simp: moving_def carried_def)
    then show ?thesis using i q InstallArgs by auto
  next
    case (DeleteArgs a)
    then obtain i h' where "nm \<noteq> siteCtl S" "siteGroup S nm \<noteq> 0" "dlShard a = int i" "Leaving (siteGroup S nm) h' i (dlNum a) \<in> K"
      using assms(3) q by auto
    then show ?thesis using h [of "Leaving (siteGroup S nm) h' i (dlNum a)"] q DeleteArgs by auto
  qed (use assms(3) q in auto)
qed

text \<open>The facts on writes are the only ones that depend on what was sent.\<close>

lemma holds_sent:
  assumes "ctl_holds S w M p' f" "p' \<noteq> p \<or> (\<forall>a. args \<noteq> PutArgs a) \<or> f \<notin> {Settled, Clean} \<and> (\<forall>v. f \<noteq> Unsettled v)"
  shows "ctl_holds S w (insert (p, nm, args) M) p' f"
  using assms by (cases f) (auto simp: own_puts_past_def)

lemma send_keep_law:
  assumes "site_inv S w" "\<forall>f \<in> K. ctl_holds S w M p f" "ctl_al S p K q" "f \<in> ctl_ke K q"
  shows "ctl_holds S w (insert (p, q) M) p f"
proof -
  obtain nm args where q: "q = (nm, args)" by (cases q)
  show ?thesis
  proof (cases "\<exists>a. args = PutArgs a")
    case True
    then obtain a where a: "args = PutArgs a" by blast
    have past: "own_puts_past (ksVersion (stored w)) M p (\<lambda>_. False) \<or>
        own_puts_past (ksVersion (stored w)) M p (\<lambda>u. u = pVersion a)"
      using assms(2,3) q a by fastforce
    consider "f = Unsettled (pVersion a)" | "f = May q" | "f \<in> lasting K" using assms(4) q a by auto
    then show ?thesis
    proof cases
      case 1
      then show ?thesis using own_puts_past_send [OF past, of nm] q a by simp
    next
      case 2
      then show ?thesis using send_okm_law [OF assms(1-3)] by simp
    next
      case 3
      then show ?thesis
        using holds_sent [of S w M p f p args nm] assms(2) q by (auto simp: lasting_def)
    qed
  next
    case False
    then have "f \<in> K" using assms(4) q by (cases args) auto
    then show ?thesis using holds_sent [of S w M p f p args nm] assms(2) False q by auto
  qed
qed

section \<open>Every state the service reaches\<close>

lemma env_kind:
  assumes "site_inv S w" "site_env S w w'"
  shows "site_inv S w' \<and> groups_move w w'"
proof -
  consider (client) g args rep where "grp_do S w g args w' rep" "(\<exists>a. args = GetArgs a) \<or> (\<exists>a. args = PutArgs a)"
    | (other) kv' where "kvData kv' currentConfigKey = kvData (swKv w) currentConfigKey" "w' = w\<lparr>swKv := kv'\<rparr>"
    using assms(2) unfolding site_env_def by blast
  then show ?thesis
  proof cases
    case client
    then show ?thesis using get_inv [OF assms(1)] put_inv [OF assms(1)] grp_do_move [OF assms(1)] by blast
  next
    case other
    have s: "stored w' = stored w" using other by (simp add: kvsrv_abs_def)
    then have "site_inv S w'"
      using assms(1) other world_plan_cong [OF s, of S] by (simp add: site_inv_def)
    with s other show ?thesis by (simp add: groups_move_refl)
  qed
qed

interpretation ct: net_logic "site_exec S" "site_env S" "site_ops S" "site_inv S" "ctl_okm S" "ctl_po S" "ctl_holds S"
  "ctl_al S" "\<lambda>p. ctl_ke" "\<lambda>p. ctl_le S" "\<lambda>p sck K. site_ok S \<and> ctl_Q S p sck K" for S :: "'p site"
proof
  fix w M K p q
  assume k: "site_inv S w" "\<forall>f \<in> K. ctl_holds S w M p f" "ctl_al S p K q"
  show "ctl_okm S w p q" by (rule send_okm_law [OF k])
  show "ctl_holds S w (insert (p, q) M) p f" if "f \<in> ctl_ke K q" for f by (rule send_keep_law [OF k that])
next
  fix w M p p' q f
  assume "ctl_holds S w M p' f" "p' \<noteq> p"
  then show "ctl_holds S w (insert (p, q) M) p' f" using holds_sent [of S w M p' f p "snd q" "fst q"] by simp
next
  fix w p q w' r
  assume i: "site_inv S w" "ctl_okm S w p q" "site_exec S w q w' r"
  show "site_inv S w'" using exec_kind [OF i] by blast
  show "ctl_po S q r" by (rule exec_po_law [OF i])
  show "ctl_okm S w' p' q'" if "ctl_okm S w p' q'" for p' q' by (rule exec_okm_law [OF i that])
next
  fix w M p q w' r
  assume i: "site_inv S w" "ctl_okm S w p q" "(p, q) \<in> M" "site_exec S w q w' r"
  show "ctl_holds S w' M p' f" if "ctl_holds S w M p' f" for p' f by (rule exec_holds_law [OF i that])
  show "ctl_holds S w' M p f" if "\<forall>f \<in> K. ctl_holds S w M p f" "f \<in> ctl_le S K q r" for K f
    by (rule exec_learn_law [OF i that])
next
  fix w w'
  assume i: "site_inv S w" "site_env S w w'"
  note e = env_kind [OF i]
  show "site_inv S w'" using e by blast
  show "ctl_okm S w' p q" if "ctl_okm S w p q" for p q using okm_move [OF i(1) _ _ that] e by blast
  show "ctl_holds S w' M p f" if "ctl_holds S w M p f" for M p f using holds_move [OF i(1) _ _ that] e by blast
next
  fix p sck K pr
  assume "site_ok S \<and> ctl_Q S p sck K" "site_ops S p sck pr"
  then show "ctl_wp S p pr K (\<lambda>sck K. site_ok S \<and> ctl_Q S p sck K)"
    using site_ops_wp [of S p sck K pr] by (auto elim: wp_conseq)
qed

text \<open>The service with its controllers, from the start.\<close>

definition site_step ::
  "'p site \<Rightarrow> (sworld, rpc_call, rpc_reply, 'p, shard_ctrler) net \<Rightarrow> (sworld, rpc_call, rpc_reply, 'p, shard_ctrler) net \<Rightarrow> bool"
  where
  "site_step S = net_step (site_exec S) (site_env S) (site_ops S)"

definition site_start :: "'p site \<Rightarrow> (sworld, rpc_call, rpc_reply, 'p, shard_ctrler) net" where
  "site_start S = net_init first_world (\<lambda>p. MakeShardCtrler (siteCtl S) (siteIds S p))"

lemma site_reachable:
  assumes "site_ok S" "(site_step S)\<^sup>*\<^sup>* (site_start S) w"
  shows "ct.net_inv S w" "site_inv S (nServer w)"
proof -
  show "ct.net_inv S w"
    by (rule ct.net_reachable [OF assms(2) [unfolded site_step_def site_start_def], where ?K0.0 = "\<lambda>_. {Settled}"])
      (use assms(1) first_world_inv in \<open>auto simp: ctl_Q_def sck_ok_def MakeShardCtrler_def own_puts_past_def\<close>)
  then show "site_inv S (nServer w)" by (rule ct.net_invD(1))
qed

lemma reachable_shard:
  assumes "site_ok S" "(site_step S)\<^sup>*\<^sup>* (site_start S) w" "i < NShards"
  shows "\<exists>pub n A B kv. world_plan S (nServer w) = (pub, n, A, B) \<and> kv_run StartKVServer (swTrace (nServer w) i) = Some kv \<and>
    shard_inv pub n (A ! i) (B ! i) (shard_at (nServer w) i) kv"
proof -
  obtain pub n A B where pl: "world_plan S (nServer w) = (pub, n, A, B)" by (metis prod_cases4)
  then have "planned S (nServer w) pub (A ! i) (B ! i) i n" by (simp add: planned_def)
  from site_inv_shard [OF site_reachable(2) [OF assms(1,2)] this assms(3)] pl show ?thesis by blast
qed

section \<open>Properties\<close>

text \<open>
  C3. At most one group serves a shard, in every state that any number of controllers and clients can
  reach, however calls are lost, delayed and repeated and controllers stop and take over from each
  other in the middle of migrations. When no migration is pending the group that the published
  configuration names serves the shard and no other group has it.
\<close>

theorem one_group_serves_a_shard:
  assumes "site_ok S" "(site_step S)\<^sup>*\<^sup>* (site_start S) w" "i < NShards"
  shows "(\<forall>g h. shStatus (shard_at (nServer w) i g) = ShardServing \<and> shStatus (shard_at (nServer w) i h) = ShardServing \<longrightarrow> g = h) \<and>
    (\<forall>st cur g. ksVersion (stored (nServer w)) \<noteq> 0 \<and> ctUnmarshal (siteCc S) (ksValue (stored (nServer w))) = Some st \<and>
       csPending st = None \<and> csCurrent st = Some cur \<and> g \<noteq> 0 \<longrightarrow>
       shStatus (shard_at (nServer w) i g) = (if g = Shards cur ! i then ShardServing else ShardAbsent))"
proof -
  obtain pub n A B kv where pl: "world_plan S (nServer w) = (pub, n, A, B)"
      and kv: "shard_inv pub n (A ! i) (B ! i) (shard_at (nServer w) i) kv"
    using reachable_shard [OF assms] by blast
  have "g = h" if "shStatus (shard_at (nServer w) i g) = ShardServing" "shStatus (shard_at (nServer w) i h) = ShardServing" for g h
    by (rule shard_inv_unique [OF kv]) (use that in simp_all)
  moreover have "shStatus (shard_at (nServer w) i g) = (if g = Shards cur ! i then ShardServing else ShardAbsent)"
    if "ksVersion (stored (nServer w)) \<noteq> 0" "ctUnmarshal (siteCc S) (ksValue (stored (nServer w))) = Some st"
      "csPending st = None" "csCurrent st = Some cur" "g \<noteq> 0" for st cur g
  proof -
    have "A = Shards cur" "B = Shards cur" using that(1-4) pl by (auto simp: world_plan_def plan_of_def)
    then show ?thesis using kv that(5) by (auto simp: shard_inv_def idle_def serves_def)
  qed
  ultimately show ?thesis by blast
qed


text \<open>
  C10. No controller panics, in any reachable state: the stored state can always be decoded and has a
  current configuration, every group that a migration involves has servers, and the state can always
  be encoded.
\<close>

theorem controllers_never_panic:
  assumes "site_ok S" "(site_step S)\<^sup>*\<^sup>* (site_start S) w"
  shows "fst (nProcs w p) \<noteq> Panics"
  using ct.net_no_panic [OF site_reachable(1) [OF assms], of p "snd (nProcs w p)"] by (metis prod.collapse)

section \<open>A concrete service\<close>

text \<open>States of controllers are countable, so that a number encodes them.\<close>

definition cfg_tuple :: "shard_config \<Rightarrow> tnum \<times> tgid list \<times> (tgid \<times> string list) list" where
  "cfg_tuple c = (Num c, Shards c, Groups c)"

definition tuple_cfg :: "tnum \<times> tgid list \<times> (tgid \<times> string list) list \<Rightarrow> shard_config" where
  "tuple_cfg t = (case t of (n, s, g) \<Rightarrow> \<lparr>Num = n, Shards = s, Groups = g\<rparr>)"

lemma tuple_cfg [simp]: "tuple_cfg (cfg_tuple c) = c"
  by (simp add: tuple_cfg_def cfg_tuple_def)

definition sample_ctrl_codec :: ctrl_codec where
  "sample_ctrl_codec =
     \<lparr>ctMarshal = (\<lambda>st. Some (replicate (to_nat (csOwner st, csEpoch st, map_option cfg_tuple (csCurrent st),
        map_option (\<lambda>r. (cfg_tuple (mrFrom r), cfg_tuple (mrTo r))) (csPending st))) CHR ''j'')),
      ctUnmarshal = (\<lambda>x. case from_nat (length x) of (ow, ep, cur, pend) \<Rightarrow>
        Some \<lparr>csOwner = ow, csEpoch = ep, csCurrent = map_option tuple_cfg cur,
          csPending = map_option (\<lambda>(f, t). \<lparr>mrFrom = tuple_cfg f, mrTo = tuple_cfg t\<rparr>) pend\<rparr>)\<rparr>"

lemma state_equal_refl: "state_equal st st"
  by (auto simp: state_equal_def ptr_equal_def record_equal_def split: option.splits)

lemma sample_roundtrip: "ctUnmarshal sample_ctrl_codec (the (ctMarshal sample_ctrl_codec st)) = Some st"
proof -
  have "(\<lambda>(f, t). \<lparr>mrFrom = tuple_cfg f, mrTo = tuple_cfg t\<rparr>) \<circ> (\<lambda>r. (cfg_tuple (mrFrom r), cfg_tuple (mrTo r))) = id"
    "tuple_cfg \<circ> cfg_tuple = id"
    by (auto simp: fun_eq_iff)
  then show ?thesis by (simp add: sample_ctrl_codec_def option.map_comp option.map_id)
qed

lemma sample_marshal: "ctMarshal sample_ctrl_codec st = Some (the (ctMarshal sample_ctrl_codec st))"
  by (simp add: sample_ctrl_codec_def)

definition sample_site :: "nat site" where
  "sample_site = \<lparr>siteCtl = ''ctl'', siteGroup = (\<lambda>nm. int (length nm)), siteIds = (\<lambda>p. replicate p CHR ''a''),
     siteGc = sample_grp_codec, siteCc = sample_ctrl_codec\<rparr>"

lemma sample_site_ok: "site_ok sample_site"
proof -
  have "json_ok sample_ctrl_codec"
    unfolding json_ok_def using sample_marshal sample_roundtrip state_equal_refl by blast
  moreover have "inj (\<lambda>p. replicate p CHR ''a'')" by (rule injI) (metis length_replicate)
  moreover have "plain (replicate p CHR ''a'')" for p by (simp add: plain_def list_all_iff)
  ultimately show ?thesis by (simp add: site_ok_def sample_site_def sample_grp_codec_ok)
qed

definition sample_config1 :: shard_config where
  "sample_config1 = \<lparr>Num = NumFirst, Shards = replicate NShards Gid1, Groups = [(Gid1, [''s''])]\<rparr>"

text \<open>
  A run: the controller \<open>0\<close> stores the first configuration, then a client writes a key at the first
  group.
\<close>

lemma sample_run:
  "\<exists>w i st. (site_step sample_site)\<^sup>*\<^sup>* (site_start sample_site) w \<and> i < NShards \<and>
     ksVersion (stored (nServer w)) \<noteq> 0 \<and> ctUnmarshal (siteCc sample_site) (ksValue (stored (nServer w))) = Some st \<and>
     csPending st = None \<and> csCurrent st = Some sample_config1 \<and>
     swTrace (nServer w) i = [(ReqPut (sample_put 3 1 0), ResPut \<lparr>prErr = OK\<rparr>)]"
proof -
  let ?S = sample_site and ?sck = "MakeShardCtrler ''ctl'' ([] :: string)"
  let ?R = "net_step (site_exec ?S) (site_env ?S) (site_ops ?S)"
  define st where "st = \<lparr>csOwner = [], csEpoch = 1, csCurrent = Some sample_config1, csPending = None\<rparr>"
  define x where "x = the (ctMarshal sample_ctrl_codec st)"
  have x: "ctMarshal sample_ctrl_codec st = Some x" "ctUnmarshal sample_ctrl_codec x = Some st"
    using sample_marshal sample_roundtrip by (simp_all add: x_def)
  let ?put = "\<lparr>pKey = currentConfigKey, pValue = x, pVersion = 0, pClientID = 0, pSequence = 0, pAck = 0\<rparr>"
  define pr where "pr = InitConfig 1 (siteCc ?S) ?sck (Some sample_config1)"
  have "cfg_good ?S sample_config1"
    by (auto simp: cfg_good_def cfg_plain_def sample_config1_def sample_site_def plain_def Gid1_def NShards_def)
  then have op: "site_ops ?S 0 ?sck pr"
    unfolding site_ops_def pr_def
    by (intro disjI1 exI [of _ 1] exI [of _ "Some sample_config1"]) (simp add: sample_config1_def)
  obtain k where pr: "pr = Call (''ctl'', PutArgs ?put) k" and k: "\<exists>sck. k (Some (PutReply \<lparr>prErr = OK\<rparr>)) = Ret sck"
    using x(1) by (simp add: pr_def InitConfig_def compareAndSwap_def KvsrvClerk_Put_def sample_site_def MakeShardCtrler_def
        st_def Let_def)
  define w1 where "w1 = (site_start ?S)\<lparr>nProcs := (nProcs (site_start ?S))(0 := (pr, None))\<rparr>"
  have s1: "?R (site_start ?S) w1"
    unfolding w1_def by (rule net_step.start [where a = ?sck]) (use op in \<open>simp_all add: site_start_def net_init_def sample_site_def\<close>)
  define kv1 where "kv1 = fst (Kvsrv_Put MakeKVServer ?put)"
  have e1: "site_exec ?S (nServer w1) (''ctl'', PutArgs ?put) (first_world\<lparr>swKv := kv1\<rparr>) (PutReply \<lparr>prErr = OK\<rparr>)"
    by (simp add: w1_def site_start_def net_init_def site_exec_def sample_site_def kvsrv_exec_def first_world_def kv1_def
        no_wrap_def kvsrv_abs_def KvModel_Init_def Kvsrv_Put_def MakeKVServer_def)
  have "nProcs w1 0 = (Call (''ctl'', PutArgs ?put) k, None)" by (simp add: w1_def pr)
  from net_round_trip [of w1 0, where exec = "site_exec ?S", OF this e1, of "site_env ?S" "site_ops ?S"]
  obtain w2 where w2: "?R\<^sup>*\<^sup>* w1 w2" "nServer w2 = first_world\<lparr>swKv := kv1\<rparr>" by auto
  obtain i where i: "Key2Shard ''k'' = int i" using Key2Shard_range(1) [of "''k''"] nonneg_int_cases by blast
  then have iN: "i < NShards" using Key2Shard_range(2) [of "''k''"] by simp
  let ?kv = "StartServerShardGrp Gid1" and ?a = "sample_put 3 1 0"
  have sv: "shStatus (?kv ! i) = ShardServing" using iN by (simp add: StartServerShardGrp_nth)
  have len: "length ?kv = NShards" using StartServerShardGrp_ok by (simp add: grp_ok_def)
  obtain st' r where sp: "shardPut (?kv ! i) ?a = (st', r)" by (cases "shardPut (?kv ! i) ?a")
  have "r = \<lparr>prErr = OK\<rparr>"
    using sp iN by (auto simp: shardPut_def StartServerShardGrp_nth sample_put_def Table_Do_def shardApply_def
        session_of_def new_session_def session_ack_def split: prod.splits)
  then have d: "ShardGrp_DoOp sample_grp_codec ?kv (PutArgs ?a) = Some (?kv[i := st'], PutReply \<lparr>prErr = OK\<rparr>)"
    using sp i iN len by (simp add: ShardGrp_DoOp_def sample_put_def go_index_def go_store_def)
  define sw where "sw = (nServer w2)\<lparr>swGroups := (swGroups (nServer w2))(Gid1 := ?kv[i := st']),
    swTrace := trace_after ?kv (?kv[i := st']) (PutArgs ?a) (PutReply \<lparr>prErr = OK\<rparr>) (swTrace (nServer w2))\<rparr>"
  have "grp_do ?S (nServer w2) Gid1 (PutArgs ?a) sw (PutReply \<lparr>prErr = OK\<rparr>)"
    using d by (auto simp: grp_do_def sw_def w2(2) first_world_def sample_site_def)
  then have "site_env ?S (nServer w2) sw" unfolding site_env_def by blast
  then have "?R w2 (w2\<lparr>nServer := sw\<rparr>)" by (rule net_step.other)
  then have "(site_step ?S)\<^sup>*\<^sup>* (site_start ?S) (w2\<lparr>nServer := sw\<rparr>)"
    unfolding site_step_def
    by (rule rtranclp.rtrancl_into_rtrancl [of ?R, OF converse_rtranclp_into_rtranclp [of ?R, OF s1 w2(1)]])
  moreover have "stored sw = \<lparr>ksValue = x, ksVersion = 1\<rparr>"
    by (simp add: sw_def w2(2) kv1_def Kvsrv_Put_def MakeKVServer_def kvsrv_abs_def)
  moreover have "swTrace sw i = [(ReqPut ?a, ResPut \<lparr>prErr = OK\<rparr>)]"
    using sv i by (simp add: sw_def w2(2) first_world_def trace_after_def client_op_def target_shard_def sample_put_def)
  ultimately show ?thesis
    using iN x(2) by (intro exI [of _ "w2\<lparr>nServer := sw\<rparr>"] exI [of _ i] exI [of _ st]) (simp add: sample_site_def st_def)
qed

theorem one_group_serves_a_shard_witness:
  "\<exists>w i. (site_step sample_site)\<^sup>*\<^sup>* (site_start sample_site) w \<and> i < NShards \<and>
     shStatus (shard_at (nServer w) i Gid1) = ShardServing \<and> shStatus (shard_at (nServer w) i 7) = ShardAbsent"
proof -
  obtain w i st where w: "(site_step sample_site)\<^sup>*\<^sup>* (site_start sample_site) w" "i < NShards"
      "ksVersion (stored (nServer w)) \<noteq> 0" "ctUnmarshal (siteCc sample_site) (ksValue (stored (nServer w))) = Some st"
      "csPending st = None" "csCurrent st = Some sample_config1"
    using sample_run by blast
  have "shStatus (shard_at (nServer w) i g) = (if g = Shards sample_config1 ! i then ShardServing else ShardAbsent)"
    if "g \<noteq> 0" for g
    using one_group_serves_a_shard [OF sample_site_ok w(1,2)] w(3-6) that by blast
  from this [of Gid1] this [of 7] w(1,2) show ?thesis by (auto simp: sample_config1_def Gid1_def)
qed


theorem controllers_never_panic_witness:
  "\<exists>w. (site_step sample_site)\<^sup>*\<^sup>* (site_start sample_site) w \<and> ksVersion (stored (nServer w)) \<noteq> 0 \<and> fst (nProcs w 0) \<noteq> Panics"
proof -
  obtain w where w: "(site_step sample_site)\<^sup>*\<^sup>* (site_start sample_site) w" "ksVersion (stored (nServer w)) \<noteq> 0"
    using sample_run by blast
  with controllers_never_panic [OF sample_site_ok w(1), of 0] show ?thesis by blast
qed

end
