(* ===== verification/Shardkv.thy ===== *)
theory Shardkv
  imports Shardctrler
begin

text \<open>
  The client of the sharded service, \<^verbatim>\<open>shardkv1/client.go\<close>: it caches the configuration, finds the
  group of a key's shard in it, and asks the controller's store again when the group does not answer
  for the shard any more.
\<close>

section \<open>The clerk\<close>

record shard_clerk =
  skSck :: shard_ctrler
  skRcks :: "tgid \<rightharpoonup> grp_clerk"
  skRckServers :: "tgid \<rightharpoonup> string list"
  skConfig :: "shard_config option"
  skRequests :: dedup_client

definition ShardClerk_Make :: "shard_ctrler \<Rightarrow> shard_clerk" where
  "ShardClerk_Make sck = \<lparr>skSck = sck, skRcks = (\<lambda>_. None), skRckServers = (\<lambda>_. None), skConfig = None,
     skRequests = Client_zero\<rparr>"

definition sameServers :: "string list \<Rightarrow> string list \<Rightarrow> bool" where
  "sameServers left right \<longleftrightarrow>
     (if length left \<noteq> length right then False else list_all (\<lambda>i. left ! i = right ! i) [0..<length left])"

text \<open>The clerk of a group, made anew when the list of its servers has changed; \<^term>\<open>None\<close> is a panic.\<close>

definition skGroupClerk :: "shard_clerk \<Rightarrow> tgid \<Rightarrow> string list \<Rightarrow> (shard_clerk \<times> grp_clerk) option" where
  "skGroupClerk ck gid servers =
     (let known = (case skRckServers ck gid of None \<Rightarrow> [] | Some s \<Rightarrow> s);
          remake = (case GrpClerk_Make servers of
                      None \<Rightarrow> None
                    | Some rck \<Rightarrow> Some (ck\<lparr>skRcks := (skRcks ck)(gid \<mapsto> rck),
                                          skRckServers := (skRckServers ck)(gid \<mapsto> servers)\<rparr>, rck))
      in case skRcks ck gid of
           Some rck \<Rightarrow> if sameServers known servers then Some (ck, rck) else remake
         | None \<Rightarrow> remake)"

text \<open>\<open>n\<close> bounds the turns of the loops of the clerks below.\<close>

definition loadConfig :: "nat \<Rightarrow> ctrl_codec \<Rightarrow> bool \<Rightarrow> shard_clerk \<Rightarrow> (shard_clerk \<times> shard_config option) rpc_prog" where
  "loadConfig n cc force ck =
     (if \<not> force \<and> skConfig ck \<noteq> None then Ret (ck, skConfig ck)
      else pbind (Query n cc (skSck ck)) (\<lambda>queried.
        case queried of
          None \<Rightarrow> Ret (ck, None)
        | Some queried \<Rightarrow>
            let queried = Copy queried;
                current = (case skConfig ck of
                             None \<Rightarrow> queried
                           | Some config \<Rightarrow> if Num queried \<ge> Num config then queried else config)
            in Ret (ck\<lparr>skConfig := Some current\<rparr>, Some current)))"

text \<open>
  A call changes the group's clerk, which the map points to. \<open>force\<close> is \<^verbatim>\<open>forceRefresh\<close>; the loop makes
  at most \<open>k\<close> turns.
\<close>

primrec ShardClerk_Get ::
  "nat \<Rightarrow> nat \<Rightarrow> ctrl_codec \<Rightarrow> bool \<Rightarrow> shard_clerk \<Rightarrow> string \<Rightarrow> (shard_clerk \<times> string \<times> Tversion \<times> Err) rpc_prog" where
  "ShardClerk_Get 0 n cc force ck key = Exhausted"
| "ShardClerk_Get (Suc k) n cc force ck key =
     pbind (loadConfig n cc force ck) (\<lambda>(ck, cfg).
       case cfg of
         None \<Rightarrow> ShardClerk_Get k n cc True ck key
       | Some cfg \<Rightarrow>
           (case GidServers cfg (Key2Shard key) of
              None \<Rightarrow> Panics
            | Some (gid, servers, ok) \<Rightarrow>
                if \<not> ok \<or> length servers = 0 then ShardClerk_Get k n cc True ck key
                else (case skGroupClerk ck gid servers of
                        None \<Rightarrow> Panics
                      | Some (ck, rck) \<Rightarrow>
                          pbind (GrpClerk_Get n rck key) (\<lambda>(rck, val, version, err).
                            let ck = ck\<lparr>skRcks := (skRcks ck)(gid \<mapsto> rck)\<rparr>
                            in if err = OK \<or> err = ErrNoKey then Ret (ck, val, version, err)
                               else ShardClerk_Get k n cc (err = ErrWrongGroup \<or> err = ErrWrongLeader) ck key))))"

primrec ShardClerk_Put_loop ::
  "nat \<Rightarrow> nat \<Rightarrow> ctrl_codec \<Rightarrow> bool \<Rightarrow> shard_clerk \<Rightarrow> put_args \<Rightarrow> (shard_clerk \<times> Err) rpc_prog" where
  "ShardClerk_Put_loop 0 n cc force ck args = Exhausted"
| "ShardClerk_Put_loop (Suc k) n cc force ck args =
     pbind (loadConfig n cc force ck) (\<lambda>(ck, cfg).
       case cfg of
         None \<Rightarrow> ShardClerk_Put_loop k n cc True ck args
       | Some cfg \<Rightarrow>
           (case GidServers cfg (Key2Shard (pKey args)) of
              None \<Rightarrow> Panics
            | Some (gid, servers, ok) \<Rightarrow>
                if \<not> ok \<or> length servers = 0 then ShardClerk_Put_loop k n cc True ck args
                else (case skGroupClerk ck gid servers of
                        None \<Rightarrow> Panics
                      | Some (ck, rck) \<Rightarrow>
                          let args = args\<lparr>pAck := Client_Ack (skRequests ck)\<rparr> in
                          pbind (GrpClerk_PutRequest n rck args) (\<lambda>(rck, err).
                            let ck = ck\<lparr>skRcks := (skRcks ck)(gid \<mapsto> rck)\<rparr>
                            in if err = OK \<or> err = ErrNoKey \<or> err = ErrMaybe then Ret (ck, err)
                               else if err = ErrVersion then Ret (ck, ErrVersion)
                               else if err = ErrStaleRequest then Panics
                               else ShardClerk_Put_loop k n cc (err = ErrWrongGroup \<or> err = ErrWrongLeader) ck args))))"

definition ShardClerk_Put ::
  "nat \<Rightarrow> nat \<Rightarrow> ctrl_codec \<Rightarrow> u64 list \<Rightarrow> shard_clerk \<Rightarrow> string \<Rightarrow> string \<Rightarrow> Tversion \<Rightarrow> (shard_clerk \<times> Err) rpc_prog" where
  "ShardClerk_Put k n cc rnd ck key val version =
     (case Client_Begin rnd (skRequests ck) of
        None \<Rightarrow> Panics
      | Some (c, cid, q) \<Rightarrow>
          pbind (ShardClerk_Put_loop k n cc False (ck\<lparr>skRequests := c\<rparr>)
                  \<lparr>pKey = key, pValue = val, pVersion = version, pClientID = cid, pSequence = q, pAck = 0\<rparr>)
            (\<lambda>(ck, err). Ret (ck\<lparr>skRequests := Client_Complete (skRequests ck) q\<rparr>, err)))"

section \<open>A write in the logic of programs\<close>

text \<open>
  What is known are the calls that were answered. A configuration is known when the clerk had it or
  when it was in an answer of the controllers' store.
\<close>

type_synonym sk_fact = "rpc_call \<times> rpc_reply"

definition known_cfg :: "ctrl_codec \<Rightarrow> shard_clerk \<Rightarrow> sk_fact set \<Rightarrow> shard_config \<Rightarrow> bool" where
  "known_cfg cc ck0 K cfg \<longleftrightarrow>
     skConfig ck0 = Some cfg \<or>
     (\<exists>g st. ((scServer (skSck ck0), GetArgs \<lparr>gKey = currentConfigKey\<rparr>), GetReply g) \<in> K \<and> grErr g = OK \<and>
        ctUnmarshal cc (grValue g) = Some st \<and> csCurrent st = Some cfg)"

text \<open>The server is one of the group that the configuration names for the key.\<close>

definition routed :: "shard_config \<Rightarrow> string \<Rightarrow> string \<Rightarrow> bool" where
  "routed cfg key nm \<longleftrightarrow> (\<exists>gid srvs. GidServers cfg (Key2Shard key) = Some (gid, srvs, True) \<and> nm \<in> set srvs)"

fun sk_al :: "ctrl_codec \<Rightarrow> shard_clerk \<Rightarrow> put_args \<Rightarrow> sk_fact set \<Rightarrow> rpc_call \<Rightarrow> bool" where
  "sk_al cc ck0 args K (nm, GetArgs a) \<longleftrightarrow> nm = scServer (skSck ck0) \<and> gKey a = currentConfigKey"
| "sk_al cc ck0 args K (nm, PutArgs a) \<longleftrightarrow> a = args \<and> (\<exists>cfg. known_cfg cc ck0 K cfg \<and> routed cfg (pKey args) nm)"
| "sk_al cc ck0 args K (nm, _) \<longleftrightarrow> False"

definition sk_le :: "sk_fact set \<Rightarrow> rpc_call \<Rightarrow> rpc_reply \<Rightarrow> sk_fact set" where
  "sk_le K q r = (if \<exists>g. r = GetReply g \<and> grErr g \<noteq> OK \<and> grErr g \<noteq> ErrNoKey then {} else
     if \<exists>a. snd q = GetArgs a \<and> (\<forall>g. r \<noteq> GetReply g) then {} else {(q, r)})"

text \<open>The answers a clerk relies on: stored states are configurations, and a write in flight is not refused as stale.\<close>

definition sk_po :: "ctrl_codec \<Rightarrow> rpc_call \<Rightarrow> rpc_reply \<Rightarrow> bool" where
  "sk_po cc q r \<longleftrightarrow>
     (\<forall>g. r = GetReply g \<and> grErr g = OK \<longrightarrow>
        (\<exists>st cfg. ctUnmarshal cc (grValue g) = Some st \<and> csCurrent st = Some cfg \<and> length (Shards cfg) = NShards)) \<and>
     (\<forall>p. r = PutReply p \<longrightarrow> prErr p \<noteq> ErrStaleRequest)"

abbreviation sk_wp ::
  "ctrl_codec \<Rightarrow> shard_clerk \<Rightarrow> put_args \<Rightarrow> 'a rpc_prog \<Rightarrow> sk_fact set \<Rightarrow> ('a \<Rightarrow> sk_fact set \<Rightarrow> bool) \<Rightarrow> bool" where
  "sk_wp cc ck0 args \<equiv> wp (sk_po cc) (sk_al cc ck0 args) (\<lambda>K q. K) sk_le"

lemma known_cfg_mono: "known_cfg cc ck0 K cfg \<Longrightarrow> K \<subseteq> K' \<Longrightarrow> known_cfg cc ck0 K' cfg"
  unfolding known_cfg_def by blast

lemma sk_Query_wp:
  assumes "skSck ck = skSck ck0" "\<And>cfg K'. K \<subseteq> K' \<Longrightarrow> known_cfg cc ck0 K' cfg \<Longrightarrow> length (Shards cfg) = NShards \<Longrightarrow> Q (Some cfg) K'"
    "\<And>K'. K \<subseteq> K' \<Longrightarrow> Q None K'"
  shows "sk_wp cc ck0 args (Query n cc (skSck ck)) K Q"
  unfolding Query_def readState_def wp_pbind assms(1)
proof (rule KvsrvClerk_Get_wp, goal_cases)
  case (3 r)
  let ?q = "(scServer (skSck ck0), GetArgs \<lparr>gKey = currentConfigKey\<rparr>)"
  obtain st cfg where st: "ctUnmarshal cc (grValue r) = Some st" "csCurrent st = Some cfg" "length (Shards cfg) = NShards"
    using 3 by (auto simp: sk_po_def)
  have le: "sk_le K ?q (GetReply r) = {(?q, GetReply r)}" using 3(2) by (auto simp: sk_le_def)
  then have "known_cfg cc ck0 (K \<union> sk_le K ?q (GetReply r)) cfg" using 3(2) st unfolding known_cfg_def by auto
  moreover have "Copy cfg = cfg" by (cases cfg) (simp add: Copy_def MakeShardConfig_def case_prod_unfold)
  ultimately show ?case using assms(2) [of "K \<union> sk_le K ?q (GetReply r)" cfg] st by simp
next
  case (5 r)
  then show ?case by (cases r) (auto simp: sk_le_def)
qed (auto intro!: assms(3))

text \<open>The clerk's maps: the clerk of a group has the servers recorded for it.\<close>

definition sk_ok :: "ctrl_codec \<Rightarrow> shard_clerk \<Rightarrow> shard_clerk \<Rightarrow> sk_fact set \<Rightarrow> bool" where
  "sk_ok cc ck0 ck K \<longleftrightarrow>
     skSck ck = skSck ck0 \<and> skRequests ck = skRequests ck0 \<and>
     (\<forall>g rck. skRcks ck g = Some rck \<longrightarrow> gc_ok rck \<and> skRckServers ck g = Some (gcServers rck)) \<and>
     (\<forall>cfg. skConfig ck = Some cfg \<longrightarrow> known_cfg cc ck0 K cfg \<and> length (Shards cfg) = NShards)"

lemma sk_ok_mono: "sk_ok cc ck0 ck K \<Longrightarrow> K \<subseteq> K' \<Longrightarrow> sk_ok cc ck0 ck K'"
  unfolding sk_ok_def using known_cfg_mono by blast

lemma loadConfig_wp:
  assumes "sk_ok cc ck0 ck K"
    and "\<And>ck cfg K'. sk_ok cc ck0 ck K' \<Longrightarrow> K \<subseteq> K' \<Longrightarrow> known_cfg cc ck0 K' cfg \<Longrightarrow> length (Shards cfg) = NShards \<Longrightarrow> Q (ck, Some cfg) K'"
    "\<And>ck K'. sk_ok cc ck0 ck K' \<Longrightarrow> K \<subseteq> K' \<Longrightarrow> Q (ck, None) K'"
  shows "sk_wp cc ck0 args (loadConfig n cc force ck) K Q"
proof (cases "\<not> force \<and> skConfig ck \<noteq> None")
  case True
  then show ?thesis using assms(1,2) by (auto simp: loadConfig_def sk_ok_def)
next
  case False
  have sck: "skSck ck = skSck ck0" using assms(1) by (simp add: sk_ok_def)
  show ?thesis
    unfolding loadConfig_def if_not_P [OF False] wp_pbind
  proof (rule sk_Query_wp [OF sck], goal_cases)
    case (1 cfg K')
    define current where "current = (case skConfig ck of None \<Rightarrow> cfg | Some config \<Rightarrow> if Num cfg \<ge> Num config then cfg else config)"
    have "current = cfg \<or> skConfig ck = Some current" by (simp add: current_def split: option.splits)
    then have c: "known_cfg cc ck0 K' current" "length (Shards current) = NShards"
      using 1(2,3) sk_ok_mono [OF assms(1) 1(1)] unfolding sk_ok_def by blast+
    have "sk_ok cc ck0 (ck\<lparr>skConfig := Some current\<rparr>) K'"
      using sk_ok_mono [OF assms(1) 1(1)] c by (simp add: sk_ok_def)
    moreover have "Copy cfg = cfg" by (cases cfg) (simp add: Copy_def MakeShardConfig_def case_prod_unfold)
    ultimately show ?case using assms(2) [OF _ 1(1)] c by (simp add: Let_def current_def)
  qed (use assms(1,3) sk_ok_mono in auto)
qed

lemma sk_ok_rck:
  "sk_ok cc ck0 ck K \<Longrightarrow> gc_ok rck \<Longrightarrow> skRckServers ck gid = Some (gcServers rck) \<Longrightarrow>
     sk_ok cc ck0 (ck\<lparr>skRcks := (skRcks ck)(gid \<mapsto> rck)\<rparr>) K"
  by (simp add: sk_ok_def)

lemma sameServers_eq: "sameServers s servers \<Longrightarrow> s = servers"
  by (rule nth_equalityI) (simp_all add: sameServers_def list_all_iff split: if_splits)

lemma skGroupClerk_ok:
  assumes "sk_ok cc ck0 ck K" "servers \<noteq> []"
  shows "\<exists>ck' rck. skGroupClerk ck gid servers = Some (ck', rck) \<and> sk_ok cc ck0 ck' K \<and> gc_ok rck \<and> gcServers rck = servers \<and>
    skRckServers ck' gid = Some servers"
proof -
  define rck where "rck = \<lparr>gcServers = servers, gcLeader = 0, gcRequests = Client_zero\<rparr>"
  have rck: "GrpClerk_Make servers = Some rck" "gc_ok rck" "gcServers rck = servers"
    using assms(2) by (simp_all add: GrpClerk_Make_def gc_ok_def rck_def)
  define ck1 where "ck1 = ck\<lparr>skRcks := (skRcks ck)(gid \<mapsto> rck), skRckServers := (skRckServers ck)(gid \<mapsto> servers)\<rparr>"
  have ok: "sk_ok cc ck0 ck1 K" "skRckServers ck1 gid = Some servers" using assms(1) rck by (simp_all add: sk_ok_def ck1_def)
  show ?thesis
  proof (cases "\<exists>old. skRcks ck gid = Some old \<and> sameServers (gcServers old) servers")
    case True
    then obtain old where old: "skRcks ck gid = Some old" "gcServers old = servers" "sameServers (gcServers old) servers"
      using sameServers_eq by blast
    moreover from assms(1) old(1) have "gc_ok old \<and> skRckServers ck gid = Some (gcServers old)"
      unfolding sk_ok_def by blast
    ultimately have "gc_ok old" "skRckServers ck gid = Some servers" by simp_all
    with old assms(1) show ?thesis by (intro exI [of _ ck] exI [of _ old]) (simp add: skGroupClerk_def)
  next
    case False
    have "skGroupClerk ck gid servers = Some (ck1, rck)"
    proof (cases "skRcks ck gid")
      case None
      then show ?thesis using rck(1) by (simp add: skGroupClerk_def ck1_def)
    next
      case (Some old)
      then have "skRckServers ck gid = Some (gcServers old)" using assms(1) by (simp add: sk_ok_def)
      with Some False rck(1) show ?thesis by (simp add: skGroupClerk_def ck1_def)
    qed
    with ok rck(2,3) show ?thesis by (intro exI [of _ ck1] exI [of _ rck]) simp
  qed
qed

lemma gcPutRound_wp:
  assumes "gc_ok rck" "\<And>nm K'. nm \<in> set (gcServers rck) \<Longrightarrow> K \<subseteq> K' \<Longrightarrow> sk_al cc ck0 args K' (nm, PutArgs args)" "pClientID args \<noteq> 0"
    and "\<And>rck' err K' nm r. gc_ok rck' \<Longrightarrow> gcServers rck' = gcServers rck \<Longrightarrow> K \<subseteq> K' \<Longrightarrow>
      ((nm, PutArgs args), PutReply r) \<in> K' \<Longrightarrow> prErr r = err \<Longrightarrow> err \<in> {OK, ErrNoKey, ErrVersion, ErrWrongGroup} \<Longrightarrow> Q (rck', Inl err) K'"
    and "\<And>rck' u v K'. gc_ok rck' \<Longrightarrow> gcServers rck' = gcServers rck \<Longrightarrow> K \<subseteq> K' \<Longrightarrow> Q (rck', Inr (u, v)) K'"
  shows "sk_wp cc ck0 args (gcPutRound k rck args u v) K Q"
proof -
  have "sk_wp cc ck0 args (gcPutRound k rck1 args u v) K1 Q"
    if "gc_ok rck1" "gcServers rck1 = gcServers rck" "K \<subseteq> K1" for rck1 K1
    using that
  proof (induction k arbitrary: rck1 u v K1)
    case 0
    then show ?case by (simp add: assms(5))
  next
    case (Suc k)
    let ?nm = "gcServers rck1 ! gcLeader rck1" and ?rck = "gcAdvanceLeader rck1 (gcLeader rck1)"
    have l: "gcLeader rck1 < length (gcServers rck1)" "?nm \<in> set (gcServers rck)" using Suc.prems(1,2) by (auto simp: gc_ok_def)
    have adv: "sk_wp cc ck0 args (gcPutRound k ?rck args u' v') K2 Q" if "K \<subseteq> K2" for u' v' K2
      using Suc.IH [of ?rck K2 u' v'] Suc.prems that by simp
    have rem: "gc_ok (gcRememberLeader rck1 (gcLeader rck1))" "gcServers (gcRememberLeader rck1 (gcLeader rck1)) = gcServers rck"
      using Suc.prems by simp_all
    have "sk_wp cc ck0 args
        (case as_put (Some r) of None \<Rightarrow> gcPutRound k ?rck args True v
         | Some reply \<Rightarrow>
            (case prErr reply of
               OK \<Rightarrow> Ret (gcRememberLeader rck1 (gcLeader rck1), Inl OK)
             | ErrNoKey \<Rightarrow> Ret (gcRememberLeader rck1 (gcLeader rck1), Inl ErrNoKey)
             | ErrVersion \<Rightarrow> Ret (gcRememberLeader rck1 (gcLeader rck1), Inl (if u \<and> pClientID args = 0 then ErrMaybe else ErrVersion))
             | ErrStaleRequest \<Rightarrow> Ret (rck1, Inl ErrStaleRequest)
             | ErrWrongGroup \<Rightarrow> Ret (gcRememberLeader rck1 (gcLeader rck1), Inl ErrWrongGroup)
             | ErrWrongLeader \<Rightarrow> gcPutRound k ?rck args True True
             | ErrMaybe \<Rightarrow> gcPutRound k ?rck args u True)) (K1 \<union> sk_le K1 (?nm, PutArgs args) r) Q"
      if po: "sk_po cc (?nm, PutArgs args) r" for r
    proof (cases "as_put (Some r)")
      case None
      then show ?thesis using adv [of "K1 \<union> sk_le K1 (?nm, PutArgs args) r"] Suc.prems(3) by auto
    next
      case (Some reply)
      then have r: "r = PutReply reply" by (simp add: as_put_Some)
      have le: "sk_le K1 (?nm, PutArgs args) r = {((?nm, PutArgs args), r)}" using r by (simp add: sk_le_def)
      have ans: "Q (gcRememberLeader rck1 (gcLeader rck1), Inl (prErr reply)) (K1 \<union> {((?nm, PutArgs args), r)})"
        if "prErr reply \<in> {OK, ErrNoKey, ErrVersion, ErrWrongGroup}"
        using assms(4) [OF rem, of "K1 \<union> {((?nm, PutArgs args), r)}" ?nm reply "prErr reply"] that Suc.prems(3) r by auto
      show ?thesis
        using ans adv [of "K1 \<union> {((?nm, PutArgs args), r)}"] Suc.prems(3) po assms(3) r
        unfolding Some le by (cases "prErr reply") (auto simp: sk_po_def)
    qed
    then show ?case
      using l adv [OF Suc.prems(3)] assms(2) [OF l(2) Suc.prems(3)]
      by (simp add: Let_def gcCall_def)
  qed
  then show ?thesis using assms(1) by blast
qed

lemma gcPutLoop_wp:
  assumes "gc_ok rck" "\<And>nm K'. nm \<in> set (gcServers rck) \<Longrightarrow> K \<subseteq> K' \<Longrightarrow> sk_al cc ck0 args K' (nm, PutArgs args)" "pClientID args \<noteq> 0"
    and "\<And>rck' err K' nm r. gc_ok rck' \<Longrightarrow> gcServers rck' = gcServers rck \<Longrightarrow> K \<subseteq> K' \<Longrightarrow>
      ((nm, PutArgs args), PutReply r) \<in> K' \<Longrightarrow> prErr r = err \<Longrightarrow> err \<in> {OK, ErrNoKey, ErrVersion, ErrWrongGroup} \<Longrightarrow> Q (rck', err) K'"
    and "\<And>rck' K'. gc_ok rck' \<Longrightarrow> gcServers rck' = gcServers rck \<Longrightarrow> K \<subseteq> K' \<Longrightarrow> Q (rck', ErrWrongLeader) K'"
  shows "sk_wp cc ck0 args (gcPutLoop m rck args u) K Q"
proof -
  have "sk_wp cc ck0 args (gcPutLoop m rck1 args u) K1 Q"
    if "gc_ok rck1" "gcServers rck1 = gcServers rck" "K \<subseteq> K1" for rck1 K1
    using that
  proof (induction m arbitrary: rck1 u K1)
    case (Suc m)
    have al: "sk_al cc ck0 args K' (nm, PutArgs args)" if "nm \<in> set (gcServers rck1)" "K1 \<subseteq> K'" for nm K'
      using assms(2) Suc.prems(2,3) that by auto
    show ?case
      unfolding gcPutLoop.simps wp_pbind
    proof (rule gcPutRound_wp [OF Suc.prems(1) al assms(3)], goal_cases)
      case (3 rck' err K' nm r)
      then show ?case using assms(4) [of rck' K' nm r err] Suc.prems(2,3) by auto
    next
      case (4 rck' u' v' K')
      have k: "gcServers rck' = gcServers rck" "K \<subseteq> K'" using 4(2,3) Suc.prems(2,3) by auto
      show ?case using Suc.IH [OF 4(1) k] assms(5) [OF 4(1) k] by simp
    qed
  qed simp
  then show ?thesis using assms(1) by blast
qed

lemma GidServers_Some:
  assumes "length (Shards cfg) = NShards"
  shows "\<exists>gid servers ok. GidServers cfg (Key2Shard key) = Some (gid, servers, ok)"
proof -
  have "GidServers cfg (Key2Shard key) \<noteq> None"
    using Key2Shard_range [of key] assms by (simp add: GidServers_def go_index_def)
  then show ?thesis by (metis option.exhaust prod_cases3)
qed

text \<open>The whole write: a definite answer of a server of the group to this very request.\<close>

definition definite_answer :: "put_args \<Rightarrow> sk_fact set \<Rightarrow> Err \<Rightarrow> bool" where
  "definite_answer args K err \<longleftrightarrow>
     err \<in> {OK, ErrNoKey, ErrVersion} \<and> (\<exists>nm r. ((nm, PutArgs args), PutReply r) \<in> K \<and> prErr r = err)"

lemma ShardClerk_Put_loop_wp:
  assumes "pClientID args \<noteq> 0" "pAck args = Client_Ack (skRequests ck0)" "args0\<lparr>pAck := pAck args\<rparr> = args" "sk_ok cc ck0 ck K"
    and "\<And>ck err K'. sk_ok cc ck0 ck K' \<Longrightarrow> K \<subseteq> K' \<Longrightarrow> definite_answer args K' err \<Longrightarrow> Q (ck, err) K'"
  shows "sk_wp cc ck0 args (ShardClerk_Put_loop k n cc force ck args0) K Q"
proof -
  have "sk_wp cc ck0 args (ShardClerk_Put_loop k n cc force ck args1) K1 Q"
    if "args1\<lparr>pAck := pAck args\<rparr> = args" "sk_ok cc ck0 ck K1" "K \<subseteq> K1" for ck K1 args1
    using that
  proof (induction k arbitrary: ck K1 force args1)
    case (Suc k)
    have key: "pKey args1 = pKey args" using Suc.prems(1) by (metis put_args.select_convs(1) put_args.surjective put_args.update_convs(6))
    show ?case
      unfolding ShardClerk_Put_loop.simps wp_pbind
    proof (rule loadConfig_wp [OF Suc.prems(2)], goal_cases)
      case (1 ck' cfg K2)
      have K2: "K \<subseteq> K2" using Suc.prems(3) 1(2) by (rule order_trans)
      have again: "sk_wp cc ck0 args (ShardClerk_Put_loop k n cc f ck2 args2) K3 Q"
        if "args2\<lparr>pAck := pAck args\<rparr> = args" "sk_ok cc ck0 ck2 K3" "K2 \<subseteq> K3" for f ck2 args2 K3
        using Suc.IH [OF that(1,2)] that(3) K2 by blast
      obtain gid servers ok where g: "GidServers cfg (Key2Shard (pKey args)) = Some (gid, servers, ok)"
        using GidServers_Some [OF 1(4)] by blast
      show ?case
      proof (cases "ok \<and> servers \<noteq> []")
        case False
        then show ?thesis using g key again [OF Suc.prems(1) 1(1)] by auto
      next
        case True
        obtain ck3 rck where r: "skGroupClerk ck' gid servers = Some (ck3, rck)" "sk_ok cc ck0 ck3 K2" "gc_ok rck"
            "gcServers rck = servers" "skRckServers ck3 gid = Some servers"
          using skGroupClerk_ok [OF 1(1)] True by blast
        have a: "args1\<lparr>pAck := Client_Ack (skRequests ck3)\<rparr> = args"
          using Suc.prems(1) assms(2) r(2) by (simp add: sk_ok_def)
        have al: "sk_al cc ck0 args K' (nm, PutArgs args)" if "nm \<in> set (gcServers rck)" "K2 \<subseteq> K'" for nm K'
          using that g True r(4) known_cfg_mono [OF 1(3)] by (auto simp: routed_def)
        have ck: "sk_ok cc ck0 (ck3\<lparr>skRcks := (skRcks ck3)(gid \<mapsto> rck')\<rparr>) K'"
          if "gc_ok rck'" "gcServers rck' = gcServers rck" "K2 \<subseteq> K'" for rck' K'
          using sk_ok_rck [OF sk_ok_mono [OF r(2) that(3)] that(1)] that(2) r(4,5) by simp
        have "sk_wp cc ck0 args (gcPutLoop n rck args False) K2 (\<lambda>x K'. sk_wp cc ck0 args
            (case x of (rck, err) \<Rightarrow>
              let ck = ck3\<lparr>skRcks := (skRcks ck3)(gid \<mapsto> rck)\<rparr>
              in if err = OK \<or> err = ErrNoKey \<or> err = ErrMaybe then Ret (ck, err)
                 else if err = ErrVersion then Ret (ck, ErrVersion)
                 else if err = ErrStaleRequest then Panics
                 else ShardClerk_Put_loop k n cc (err = ErrWrongGroup \<or> err = ErrWrongLeader) ck args) K' Q)"
        proof (rule gcPutLoop_wp [OF r(3) al assms(1)], goal_cases)
          case (3 rck' err K' nm rep)
          have "K \<subseteq> K'" using K2 3(3) by (rule order_trans)
          then have "Q (ck3\<lparr>skRcks := (skRcks ck3)(gid \<mapsto> rck')\<rparr>, err) K'" if "err \<noteq> ErrWrongGroup"
            using assms(5) [OF ck [OF 3(1-3)]] 3(4-6) that by (auto simp: definite_answer_def)
          with 3(6) again [OF _ ck [OF 3(1-3)] 3(3), of args] show ?case by auto
        next
          case (4 rck' K')
          then show ?case using again [OF _ ck [OF 4] 4(3), of args] by simp
        qed
        then show ?thesis using g key r(1) a True by (simp add: GrpClerk_PutRequest_def)
      qed
    next
      case (2 ck' K2)
      then show ?case using Suc.IH [OF Suc.prems(1) 2(1)] Suc.prems(3) by auto
    qed
  qed simp
  then show ?thesis using assms(3,4) by blast
qed

section \<open>Properties\<close>

definition shard_clerk_ok :: "shard_clerk \<Rightarrow> bool" where
  "shard_clerk_ok ck \<longleftrightarrow>
     (\<forall>g rck. skRcks ck g = Some rck \<longrightarrow> gc_ok rck \<and> skRckServers ck g = Some (gcServers rck)) \<and>
     (\<forall>cfg. skConfig ck = Some cfg \<longrightarrow> length (Shards cfg) = NShards)"

lemma shard_clerk_sk_ok: "shard_clerk_ok ck \<Longrightarrow> sk_ok cc ck ck {}"
  by (simp add: shard_clerk_ok_def sk_ok_def known_cfg_def)

lemma sk_ok_shard_clerk: "sk_ok cc ck0 ck K \<Longrightarrow> shard_clerk_ok (ck\<lparr>skRequests := c\<rparr>)"
  by (auto simp: shard_clerk_ok_def sk_ok_def)

text \<open>The requests of a write: reads of the stored configuration, and copies of one request, sent where a known configuration says.\<close>

definition put_request_ok :: "ctrl_codec \<Rightarrow> shard_clerk \<Rightarrow> put_args \<Rightarrow> sk_fact set \<Rightarrow> rpc_call \<Rightarrow> bool" where
  "put_request_ok cc ck args K q \<longleftrightarrow>
     q = (scServer (skSck ck), GetArgs \<lparr>gKey = currentConfigKey\<rparr>) \<or>
     snd q = PutArgs args \<and> (\<exists>cfg. known_cfg cc ck K cfg \<and> routed cfg (pKey args) (fst q))"

lemma sk_al_request: "sk_al cc ck args K q \<Longrightarrow> K \<subseteq> K' \<Longrightarrow> put_request_ok cc ck args K' q"
proof -
  assume a: "sk_al cc ck args K q" "K \<subseteq> K'"
  obtain nm b where q: "q = (nm, b)" by (cases q)
  show ?thesis
  proof (cases b)
    case (GetArgs ga)
    then have "ga = \<lparr>gKey = currentConfigKey\<rparr>" using a(1) q by (cases ga) simp
    then show ?thesis using a(1) q GetArgs by (simp add: put_request_ok_def)
  next
    case (PutArgs pa)
    then obtain cfg where "pa = args" "known_cfg cc ck K cfg" "routed cfg (pKey args) nm" using a(1) q by auto
    with known_cfg_mono [OF this(2) a(2)] show ?thesis using q PutArgs by (auto simp: put_request_ok_def)
  qed (use a(1) q in auto)
qed


definition sample_no_codec :: ctrl_codec where
  "sample_no_codec = \<lparr>ctMarshal = (\<lambda>_. None), ctUnmarshal = (\<lambda>_. None)\<rparr>"


end
