(* ===== verification/Mapreduce.thy ===== *)
theory Mapreduce
  imports Bytes Prog "HOL-Library.Char_ord" "HOL-Library.List_Lexorder" "HOL-Library.Multiset" "HOL-Library.Monad_Syntax"
begin

text \<open>
  MapReduce: the coordinator of \<^verbatim>\<open>mr/coordinator.go\<close>, the tasks of \<^verbatim>\<open>mr/worker.go\<close>, the reduce
  functions of the applications, and the sequential program \<^verbatim>\<open>main/mrsequential.go\<close>.
\<close>

section \<open>Messages\<close>

datatype task_type = MapTask | ReduceTask | WaitTask | ExitTask

record request_task_reply =
  rtType :: task_type
  rtID :: int
  rtFileName :: string
  rtNReduce :: int
  rtNMap :: int

record report_task_args =
  raType :: task_type
  raID :: int

section \<open>The coordinator\<close>

datatype task_status = Idle | InProgress | Completed

datatype phase = MapPhase | ReducePhase | DonePhase

text \<open>Times are in nanoseconds.\<close>

record task =
  tkID :: int
  tkFileName :: string
  tkStatus :: task_status
  tkStartTime :: int

record coordinator =
  coPhase :: phase
  coMapTasks :: "task list"
  coReduceTasks :: "task list"
  coNMap :: int
  coNReduce :: int

definition Coordinator_Done :: "coordinator \<Rightarrow> bool" where
  "Coordinator_Done c \<longleftrightarrow> coPhase c = DonePhase"

definition MakeCoordinator :: "string list \<Rightarrow> int \<Rightarrow> coordinator" where
  "MakeCoordinator files nReduce =
     \<lparr>coPhase = MapPhase,
      coMapTasks = map (\<lambda>i. \<lparr>tkID = int i, tkFileName = files ! i, tkStatus = Idle, tkStartTime = 0\<rparr>) [0..<length files],
      coReduceTasks = map (\<lambda>i. \<lparr>tkID = int i, tkFileName = [], tkStatus = Idle, tkStartTime = 0\<rparr>) [0..<nat nReduce],
      coNMap = int (length files), coNReduce = nReduce\<rparr>"

definition allTasksDone :: "task list \<Rightarrow> bool" where
  "allTasksDone tasks = list_all (\<lambda>task. tkStatus task = Completed) tasks"

definition allMapTasksDone :: "coordinator \<Rightarrow> bool" where
  "allMapTasksDone c = allTasksDone (coMapTasks c)"

definition allReduceTasksDone :: "coordinator \<Rightarrow> bool" where
  "allReduceTasksDone c = allTasksDone (coReduceTasks c)"

definition taskTimedOut :: "int \<Rightarrow> task \<Rightarrow> bool" where
  "taskTimedOut now task \<longleftrightarrow> tkStatus task = InProgress \<and> now - tkStartTime task > 10 * 1000000000"

text \<open>The loop that looks for a task to hand out: the tasks afterwards and the task, if there is one.\<close>

fun assignFirst :: "int \<Rightarrow> task list \<Rightarrow> (task list \<times> task) option" where
  "assignFirst now [] = None"
| "assignFirst now (task # tasks) =
     (if tkStatus task = Idle \<or> taskTimedOut now task
      then Some (task\<lparr>tkStatus := InProgress, tkStartTime := now\<rparr> # tasks, task)
      else case assignFirst now tasks of
        None \<Rightarrow> None
      | Some (tasks', found) \<Rightarrow> Some (task # tasks', found))"

definition requestReduce :: "int \<Rightarrow> coordinator \<Rightarrow> request_task_reply \<Rightarrow> coordinator \<times> request_task_reply" where
  "requestReduce now c reply =
     (if coPhase c = ReducePhase then
        if allReduceTasksDone c then (c\<lparr>coPhase := DonePhase\<rparr>, reply\<lparr>rtType := ExitTask\<rparr>)
        else (case assignFirst now (coReduceTasks c) of
                Some (tasks, task) \<Rightarrow> (c\<lparr>coReduceTasks := tasks\<rparr>, reply\<lparr>rtType := ReduceTask, rtID := tkID task\<rparr>)
              | None \<Rightarrow> (c, reply\<lparr>rtType := WaitTask\<rparr>))
      else (c, reply\<lparr>rtType := ExitTask\<rparr>))"

definition RequestTask :: "int \<Rightarrow> coordinator \<Rightarrow> coordinator \<times> request_task_reply" where
  "RequestTask now c =
     (let reply = \<lparr>rtType = MapTask, rtID = 0, rtFileName = [], rtNReduce = coNReduce c, rtNMap = coNMap c\<rparr>
      in if coPhase c = MapPhase then
           if allMapTasksDone c then requestReduce now (c\<lparr>coPhase := ReducePhase\<rparr>) reply
           else (case assignFirst now (coMapTasks c) of
                   Some (tasks, task) \<Rightarrow>
                     (c\<lparr>coMapTasks := tasks\<rparr>, reply\<lparr>rtType := MapTask, rtID := tkID task, rtFileName := tkFileName task\<rparr>)
                 | None \<Rightarrow> (c, reply\<lparr>rtType := WaitTask\<rparr>))
         else requestReduce now c reply)"

definition complete :: "task list \<Rightarrow> int \<Rightarrow> task list" where
  "complete tasks i =
     (if tkStatus (tasks ! nat i) = InProgress then tasks[nat i := (tasks ! nat i)\<lparr>tkStatus := Completed\<rparr>] else tasks)"

definition ReportTask :: "report_task_args \<Rightarrow> coordinator \<Rightarrow> coordinator" where
  "ReportTask args c =
     (case raType args of
        MapTask \<Rightarrow>
          if raID args < 0 \<or> raID args \<ge> int (length (coMapTasks c)) then c
          else let c = (if coPhase c = MapPhase then c\<lparr>coMapTasks := complete (coMapTasks c) (raID args)\<rparr> else c)
               in if coPhase c = MapPhase \<and> allMapTasksDone c then c\<lparr>coPhase := ReducePhase\<rparr> else c
      | ReduceTask \<Rightarrow>
          if raID args < 0 \<or> raID args \<ge> int (length (coReduceTasks c)) then c
          else let c = (if coPhase c = ReducePhase then c\<lparr>coReduceTasks := complete (coReduceTasks c) (raID args)\<rparr> else c)
               in if coPhase c = ReducePhase \<and> allReduceTasksDone c then c\<lparr>coPhase := DonePhase\<rparr> else c
      | _ \<Rightarrow> c)"

section \<open>Formatting\<close>

definition digit :: "nat \<Rightarrow> char" where
  "digit d = char_of (48 + d)"

fun itoa :: "nat \<Rightarrow> string" where
  "itoa n = (if n < 10 then [digit n] else itoa (n div 10) @ [digit (n mod 10)])"

text \<open>\<^verbatim>\<open>strconv.Itoa\<close> and the verb \<^verbatim>\<open>%d\<close>.\<close>

definition Itoa :: "int \<Rightarrow> string" where
  "Itoa i = (if i < 0 then CHR ''-'' # itoa (nat (- i)) else itoa (nat i))"

definition intermediateName :: "int \<Rightarrow> int \<Rightarrow> string" where
  "intermediateName mapID reduceID = ''mr-'' @ Itoa mapID @ ''-'' @ Itoa reduceID"

definition outName :: "int \<Rightarrow> string" where
  "outName reduceID = ''mr-out-'' @ Itoa reduceID"

section \<open>The tasks of a worker\<close>

record key_value =
  kvKey :: string
  kvValue :: string

definition ihash :: "string \<Rightarrow> int" where
  "ihash key = uint (and (fnv32a key) 0x7fffffff)"

text \<open>
  JSON is a parameter. Encoding can fail; decoding the next value of a stream gives the value and the
  rest of the stream, or its end, or an error.
\<close>

datatype decoded = GotValue key_value string | AtEOF | DecodeError

record mr_codec =
  mrEncode :: "key_value \<Rightarrow> string option"
  mrDecode :: "string \<Rightarrow> decoded"

type_synonym files = "string \<rightharpoonup> string"
type_synonym mapf = "string \<Rightarrow> string \<Rightarrow> key_value list"
type_synonym reducef = "string \<Rightarrow> string list \<Rightarrow> string"

text \<open>
  Distributing the pairs over the buckets; \<^term>\<open>None\<close> is a panic. The hash is not negative, so the
  remainder of Go is \<open>mod\<close>.
\<close>

primrec fillBuckets :: "int \<Rightarrow> key_value list \<Rightarrow> key_value list list \<Rightarrow> key_value list list option" where
  "fillBuckets nReduce [] buckets = Some buckets"
| "fillBuckets nReduce (kv # kva) buckets =
     (if nReduce = 0 then None
      else do {
        let reduceID = ihash (kvKey kv) mod nReduce;
        bucket \<leftarrow> go_index buckets reduceID;
        buckets \<leftarrow> go_store buckets reduceID (bucket @ [kv]);
        fillBuckets nReduce kva buckets
      })"

primrec encodeBucket :: "mr_codec \<Rightarrow> key_value list \<Rightarrow> string option" where
  "encodeBucket cd [] = Some []"
| "encodeBucket cd (kv # kvs) = do { b \<leftarrow> mrEncode cd kv; bs \<leftarrow> encodeBucket cd kvs; Some (b @ bs) }"

text \<open>
  A worker is a program (\<^verbatim>\<open>Prog\<close>) whose calls are what it does outside of its own memory: reading a
  file, writing one, calling the plugin's \<^verbatim>\<open>Map\<close>, and the two calls of the coordinator. Files are
  written to a temporary file that gets its name at the end, in one step, so the content of a file is
  never seen in part; a call that fails is an error of the file system or of the network. A program
  has the result \<^term>\<open>False\<close> when \<^verbatim>\<open>log.Fatalf\<close> ends the process.
\<close>

datatype mr_call =
  ReadFile string | WriteFile string string | CallMap string string | CallRequestTask | CallReportTask report_task_args

datatype mr_reply =
  FileData string | FileError | Written | Mapped "key_value list" | TaskReply request_task_reply | Reported | DialError

type_synonym 'a mr_prog = "(mr_call, mr_reply, 'a) prog"

primrec writeBuckets :: "mr_codec \<Rightarrow> int \<Rightarrow> nat \<Rightarrow> key_value list list \<Rightarrow> bool mr_prog" where
  "writeBuckets cd taskID reduceID [] = Ret True"
| "writeBuckets cd taskID reduceID (bucket # buckets) =
     (case encodeBucket cd bucket of
        None \<Rightarrow> Ret False
      | Some content \<Rightarrow> Call (WriteFile (intermediateName taskID (int reduceID)) content) (\<lambda>r.
          if r = Some Written then writeBuckets cd taskID (reduceID + 1) buckets else Ret False))"

text \<open>Making a slice of negative length panics.\<close>

definition doMapTask :: "mr_codec \<Rightarrow> request_task_reply \<Rightarrow> bool mr_prog" where
  "doMapTask cd task =
     Call (ReadFile (rtFileName task)) (\<lambda>r. case r of
       Some (FileData content) \<Rightarrow> Call (CallMap (rtFileName task) content) (\<lambda>r. case r of
         Some (Mapped kva) \<Rightarrow>
           (if rtNReduce task < 0 then Panics
            else case fillBuckets (rtNReduce task) kva (replicate (nat (rtNReduce task)) []) of
              None \<Rightarrow> Panics
            | Some buckets \<Rightarrow> writeBuckets cd (rtID task) 0 buckets)
       | _ \<Rightarrow> Ret False)
     | _ \<Rightarrow> Ret False)"

text \<open>The decoding loop, for at most \<open>n\<close> values.\<close>

primrec decodeLoop :: "nat \<Rightarrow> mr_codec \<Rightarrow> string \<Rightarrow> key_value list \<Rightarrow> key_value list option" where
  "decodeLoop 0 cd data intermediate = None"
| "decodeLoop (Suc n) cd data intermediate =
     (case mrDecode cd data of
        AtEOF \<Rightarrow> Some intermediate
      | DecodeError \<Rightarrow> None
      | GotValue kv rest \<Rightarrow> decodeLoop n cd rest (intermediate @ [kv]))"

text \<open>The loop over the map tasks: the pairs read, or \<^term>\<open>None\<close> when the process ends.\<close>

primrec readLoop :: "mr_codec \<Rightarrow> int \<Rightarrow> nat list \<Rightarrow> key_value list \<Rightarrow> key_value list option mr_prog" where
  "readLoop cd taskID [] intermediate = Ret (Some intermediate)"
| "readLoop cd taskID (mapID # mapIDs) intermediate =
     Call (ReadFile (intermediateName (int mapID) taskID)) (\<lambda>r. case r of
       Some (FileData data) \<Rightarrow>
         (case decodeLoop (Suc (length data)) cd data intermediate of
            None \<Rightarrow> Ret None
          | Some intermediate \<Rightarrow> readLoop cd taskID mapIDs intermediate)
     | _ \<Rightarrow> Ret None)"

text \<open>
  The loop over the sorted pairs: the inner loop ends at the first pair with another key. The lines
  of the output are the pairs of a key and what the reduce function gives.
\<close>

function reduceLoop :: "reducef \<Rightarrow> key_value list \<Rightarrow> (string \<times> string) list" where
  "reduceLoop reducef [] = []"
| "reduceLoop reducef (kv # kvs) =
     (let same = kv # takeWhile (\<lambda>x. kvKey x = kvKey kv) kvs
      in (kvKey kv, reducef (kvKey kv) (map kvValue same)) # reduceLoop reducef (dropWhile (\<lambda>x. kvKey x = kvKey kv) kvs))"
  by pat_completeness auto

termination reduceLoop
  by (relation "measure (length \<circ> snd)") (auto simp: less_Suc_eq_le length_dropWhile_le)

definition outLine :: "string \<times> string \<Rightarrow> string" where
  "outLine kv = fst kv @ '' '' @ snd kv @ [CHR 0x0A]"

text \<open>\<^verbatim>\<open>sort.Sort\<close> is a parameter: it is not stable, so only the order of the keys is fixed.\<close>

definition sort_ok :: "(key_value list \<Rightarrow> key_value list) \<Rightarrow> bool" where
  "sort_ok srt \<longleftrightarrow> (\<forall>kvs. mset (srt kvs) = mset kvs \<and> sorted (map kvKey (srt kvs)))"

definition doReduceTask ::
  "mr_codec \<Rightarrow> (key_value list \<Rightarrow> key_value list) \<Rightarrow> reducef \<Rightarrow> request_task_reply \<Rightarrow> bool mr_prog" where
  "doReduceTask cd srt reducef task =
     pbind (readLoop cd (rtID task) [0..<nat (rtNMap task)] []) (\<lambda>res. case res of
       None \<Rightarrow> Ret False
     | Some intermediate \<Rightarrow>
         Call (WriteFile (outName (rtID task)) (concat (map outLine (reduceLoop reducef (srt intermediate))))) (\<lambda>r.
           Ret (r = Some Written)))"

text \<open>
  The calls of the coordinator: \<^verbatim>\<open>call\<close> ends the process when it cannot connect. The result of
  \<^verbatim>\<open>reportTask\<close> is whether the process goes on.
\<close>

definition reportTask :: "task_type \<Rightarrow> int \<Rightarrow> bool mr_prog" where
  "reportTask taskType taskID =
     Call (CallReportTask \<lparr>raType = taskType, raID = taskID\<rparr>) (\<lambda>r. Ret (r \<noteq> Some DialError))"

text \<open>The loop of a worker, for at most \<open>n\<close> turns.\<close>

primrec Worker :: "nat \<Rightarrow> mr_codec \<Rightarrow> (key_value list \<Rightarrow> key_value list) \<Rightarrow> reducef \<Rightarrow> unit mr_prog" where
  "Worker 0 cd srt reducef = Exhausted"
| "Worker (Suc n) cd srt reducef =
     Call CallRequestTask (\<lambda>r. case r of
       None \<Rightarrow> Worker n cd srt reducef
     | Some (TaskReply reply) \<Rightarrow>
         (case rtType reply of
            MapTask \<Rightarrow>
              pbind (doMapTask cd reply) (\<lambda>ok. if \<not> ok then Ret ()
                else pbind (reportTask MapTask (rtID reply)) (\<lambda>ok. if \<not> ok then Ret () else Worker n cd srt reducef))
          | ReduceTask \<Rightarrow>
              pbind (doReduceTask cd srt reducef reply) (\<lambda>ok. if \<not> ok then Ret ()
                else pbind (reportTask ReduceTask (rtID reply)) (\<lambda>ok. if \<not> ok then Ret () else Worker n cd srt reducef))
          | WaitTask \<Rightarrow> Worker n cd srt reducef
          | ExitTask \<Rightarrow> Ret ())
     | Some _ \<Rightarrow> Ret ())"

section \<open>The sequential program\<close>

primrec readAll :: "mapf \<Rightarrow> files \<Rightarrow> string list \<Rightarrow> key_value list \<Rightarrow> key_value list option" where
  "readAll mapf fs [] intermediate = Some intermediate"
| "readAll mapf fs (filename # names) intermediate =
     (case fs filename of
        None \<Rightarrow> None
      | Some content \<Rightarrow> readAll mapf fs names (intermediate @ mapf filename content))"

text \<open>The lines it prints to \<^verbatim>\<open>mr-out-0\<close>.\<close>

definition mrsequential ::
  "(key_value list \<Rightarrow> key_value list) \<Rightarrow> mapf \<Rightarrow> reducef \<Rightarrow> files \<Rightarrow> string list \<Rightarrow> (string \<times> string) list option" where
  "mrsequential srt mapf reducef fs names =
     map_option (\<lambda>intermediate. reduceLoop reducef (srt intermediate)) (readAll mapf fs names [])"

section \<open>Reduce functions of the applications\<close>

definition wc_Reduce :: reducef where
  "wc_Reduce key values = Itoa (int (length values))"

primrec strings_Join :: "string list \<Rightarrow> string \<Rightarrow> string" where
  "strings_Join [] sep = []"
| "strings_Join (s # ss) sep = s @ (if ss = [] then [] else sep @ strings_Join ss sep)"

definition indexer_Reduce :: reducef where
  "indexer_Reduce key values =
     (let values = sort values in Itoa (int (length values)) @ '' '' @ strings_Join values '','')"

section \<open>Facts about formatting\<close>

declare itoa.simps [simp del]

definition number :: "string \<Rightarrow> nat" where
  "number s = foldl (\<lambda>n c. n * 10 + (of_char c - 48)) 0 s"

lemma of_char_digit: "d < 10 \<Longrightarrow> of_char (digit d) = 48 + d"
  by (simp add: digit_def)

lemma number_itoa [simp]: "number (itoa n) = n"
proof (induction n rule: itoa.induct)
  case (1 n)
  then show ?case by (subst itoa.simps) (auto simp: number_def of_char_digit)
qed

lemma itoa_digits: "c \<in> set (itoa n) \<Longrightarrow> \<exists>d<10. c = digit d"
proof (induction n rule: itoa.induct)
  case (1 n)
  then show ?case
    by (subst (asm) (2) itoa.simps) (auto split: if_splits intro: exI [of _ "n mod 10"])
qed

lemma digit_neq: "d < 10 \<Longrightarrow> digit d \<noteq> CHR ''-'' \<and> digit d \<noteq> CHR ''o''"
  using of_char_digit [of d] by auto

lemma itoa_plain: "CHR ''-'' \<notin> set (itoa n)" "CHR ''o'' \<notin> set (itoa n)"
  using itoa_digits [of _ n] digit_neq by metis+

lemma itoa_nonempty: "itoa n \<noteq> []"
  by (subst itoa.simps) simp

lemma split_at: "a \<notin> set xs \<Longrightarrow> a \<notin> set xs' \<Longrightarrow> xs @ a # ys = xs' @ a # ys' \<longleftrightarrow> xs = xs' \<and> ys = ys'"
proof (induction xs arbitrary: xs')
  case Nil
  then show ?case by (cases xs') auto
next
  case (Cons x xs)
  then show ?case by (cases xs') auto
qed

lemma itoa_eq_iff [simp]: "itoa n = itoa m \<longleftrightarrow> n = m"
  by (metis number_itoa)

lemma intermediateName_eq [simp]:
  "intermediateName (int m) (int r) = intermediateName (int m') (int r') \<longleftrightarrow> m = m' \<and> r = r'"
  by (simp add: intermediateName_def Itoa_def split_at itoa_plain(1))

lemma outName_eq [simp]: "outName (int r) = outName (int r') \<longleftrightarrow> r = r'"
  by (simp add: outName_def Itoa_def)

lemma intermediateName_neq_outName [simp]:
  "intermediateName (int m) (int r) \<noteq> outName (int r')" "outName (int r') \<noteq> intermediateName (int m) (int r)"
proof -
  obtain c cs where "itoa m = c # cs" "c \<noteq> CHR ''o''"
    using itoa_nonempty [of m] itoa_plain(2) [of m] by (cases "itoa m") auto
  then show "intermediateName (int m) (int r) \<noteq> outName (int r')"
    by (simp add: intermediateName_def outName_def Itoa_def)
  then show "outName (int r') \<noteq> intermediateName (int m) (int r)" by simp
qed

section \<open>Facts about the buckets\<close>

lemma ihash_range: "0 \<le> ihash key" "ihash key < 2 ^ 31"
proof -
  have "uint (and (fnv32a key) 0x7fffffff) \<le> uint (0x7fffffff :: 32 word)"
    unfolding unsigned_and_eq by (rule AND_upper2) simp
  then show "ihash key < 2 ^ 31" by (simp add: ihash_def)
qed (simp add: ihash_def)

definition in_bucket :: "int \<Rightarrow> nat \<Rightarrow> key_value \<Rightarrow> bool" where
  "in_bucket nReduce r kv \<longleftrightarrow> ihash (kvKey kv) mod nReduce = int r"

lemma fillBuckets_loop:
  assumes "0 < nReduce" "length buckets = nat nReduce"
  shows "\<exists>bs. fillBuckets nReduce kva buckets = Some bs \<and> length bs = nat nReduce \<and>
           (\<forall>r<nat nReduce. bs ! r = buckets ! r @ filter (in_bucket nReduce r) kva)"
  using assms(2)
proof (induction kva arbitrary: buckets)
  case (Cons kv kva)
  define i where "i = ihash (kvKey kv) mod nReduce"
  have i: "0 \<le> i" "i < nReduce" using assms(1) by (simp_all add: i_def)
  obtain bs where bs: "fillBuckets nReduce kva (buckets[nat i := buckets ! nat i @ [kv]]) = Some bs" "length bs = nat nReduce"
    "\<forall>r<nat nReduce. bs ! r = buckets[nat i := buckets ! nat i @ [kv]] ! r @ filter (in_bucket nReduce r) kva"
    using Cons.IH [of "buckets[nat i := buckets ! nat i @ [kv]]"] Cons.prems by auto
  have "fillBuckets nReduce (kv # kva) buckets = Some bs"
    using assms(1) i bs(1) Cons.prems by (simp add: go_index_def go_store_def i_def [symmetric])
  moreover have "bs ! r = buckets ! r @ filter (in_bucket nReduce r) (kv # kva)" if "r < nat nReduce" for r
    using bs(3) that i Cons.prems by (auto simp: in_bucket_def nth_list_update i_def [symmetric])
  ultimately show ?case using bs(2) by blast
qed simp

lemma fillBuckets_run:
  assumes "0 < nReduce"
  shows "fillBuckets nReduce kva (replicate (nat nReduce) []) =
           Some (map (\<lambda>r. filter (in_bucket nReduce r) kva) [0..<nat nReduce])"
proof -
  obtain bs where "fillBuckets nReduce kva (replicate (nat nReduce) []) = Some bs" "length bs = nat nReduce"
    "\<forall>r<nat nReduce. bs ! r = replicate (nat nReduce) [] ! r @ filter (in_bucket nReduce r) kva"
    using fillBuckets_loop [OF assms, of "replicate (nat nReduce) []" kva] by auto
  then show ?thesis by (auto intro!: nth_equalityI)
qed

section \<open>Facts about the files\<close>

text \<open>
  The pairs that JSON can represent, and what the encoder and decoder promise for them: a value is
  written with a newline behind it, the decoder stops right after the value and skips newlines.
\<close>

definition codec_ok :: "(key_value \<Rightarrow> bool) \<Rightarrow> mr_codec \<Rightarrow> bool" where
  "codec_ok valid cd \<longleftrightarrow>
     mrDecode cd [] = AtEOF \<and> (\<forall>rest. mrDecode cd (CHR 0x0A # rest) = mrDecode cd rest) \<and>
     (\<forall>kv. valid kv \<longrightarrow> (\<exists>b. mrEncode cd kv = Some (b @ [CHR 0x0A]) \<and>
        (\<forall>rest. mrDecode cd (b @ CHR 0x0A # rest) = GotValue kv (CHR 0x0A # rest))))"

lemma encodeBucket_total:
  "codec_ok valid cd \<Longrightarrow> list_all valid kvs \<Longrightarrow> \<exists>b. encodeBucket cd kvs = Some b"
  by (induction kvs) (auto simp: codec_ok_def)

lemma decodeLoop_newline:
  "codec_ok valid cd \<Longrightarrow> decodeLoop n cd (CHR 0x0A # rest) acc = decodeLoop n cd rest acc"
  by (cases n) (simp_all add: codec_ok_def)

lemma decodeLoop_encodeBucket:
  assumes "codec_ok valid cd" "list_all valid kvs" "encodeBucket cd kvs = Some b" "length b < n"
  shows "decodeLoop n cd b acc = Some (acc @ kvs)"
  using assms(2-4)
proof (induction kvs arbitrary: b n acc)
  case Nil
  then show ?case using assms(1) by (cases n) (auto simp: codec_ok_def)
next
  case (Cons kv kvs)
  obtain b1 where b1: "mrEncode cd kv = Some (b1 @ [CHR 0x0A])"
    "\<And>rest. mrDecode cd (b1 @ CHR 0x0A # rest) = GotValue kv (CHR 0x0A # rest)"
    using assms(1) Cons.prems(1) by (auto simp: codec_ok_def)
  obtain b2 where b2: "encodeBucket cd kvs = Some b2" "b = b1 @ CHR 0x0A # b2"
    using Cons.prems(2) b1(1) by (auto split: Option.bind_splits)
  obtain k where k: "n = Suc k" "length b2 < k" using Cons.prems(3) b2(2) by (cases n) auto
  then show ?case
    using Cons.IH [of b2 k "acc @ [kv]"] Cons.prems(1) b1(2) b2 by (simp add: decodeLoop_newline [OF assms(1)])
qed

section \<open>Facts about reducing\<close>

definition order_free :: "reducef \<Rightarrow> bool" where
  "order_free reducef \<longleftrightarrow> (\<forall>key vs ws. mset vs = mset ws \<longrightarrow> reducef key vs = reducef key ws)"

definition values_of :: "string \<Rightarrow> key_value list \<Rightarrow> string list" where
  "values_of key kvs = map kvValue (filter (\<lambda>x. kvKey x = key) kvs)"

text \<open>The lines a reduce task has to produce: one for each key.\<close>

definition result_of :: "reducef \<Rightarrow> key_value list \<Rightarrow> (string \<times> string) list" where
  "result_of reducef kvs = map (\<lambda>key. (key, reducef key (values_of key kvs))) (sorted_list_of_set (kvKey ` set kvs))"

lemma sorted_list_of_set_insert_less:
  fixes k :: "'a::linorder"
  assumes "finite A" "\<forall>x\<in>A. k < x"
  shows "sorted_list_of_set (insert k A) = k # sorted_list_of_set A"
proof -
  have "k \<notin> A" using assms(2) by blast
  then show ?thesis
    using assms by (simp add: insort_is_Cons less_imp_le)
qed

lemma sorted_dropWhile:
  assumes "sorted (map f (x # xs))"
  shows "\<forall>y\<in>set (dropWhile (\<lambda>y. f y = f x) xs). f x < f y"
  using assms
proof (induction xs)
  case (Cons y ys)
  show ?case
  proof (cases "f y = f x")
    case False
    then have "f x < f y" using Cons.prems by (simp add: order.strict_iff_order)
    moreover have "\<forall>z\<in>set ys. f y \<le> f z" using Cons.prems by simp
    ultimately show ?thesis using False by (auto intro: order.strict_trans2)
  qed (use Cons in simp)
qed simp

lemma sorted_takeWhile:
  assumes "sorted (map f (x # xs))"
  shows "takeWhile (\<lambda>y. f y = f x) xs = filter (\<lambda>y. f y = f x) xs"
proof -
  let ?p = "\<lambda>y. f y = f x"
  have "filter ?p (dropWhile ?p xs) = []"
    unfolding filter_empty_conv using sorted_dropWhile [OF assms] by (metis less_irrefl)
  moreover have "filter ?p (takeWhile ?p xs) = takeWhile ?p xs" by (auto simp: filter_id_conv dest: set_takeWhileD)
  ultimately show ?thesis by (metis append_Nil2 filter_append takeWhile_dropWhile_id)
qed

lemma reduceLoop_sorted:
  assumes "sorted (map kvKey kvs)"
  shows "reduceLoop reducef kvs = result_of reducef kvs"
  using assms
proof (induction reducef kvs rule: reduceLoop.induct)
  case (2 reducef kv kvs)
  let ?k = "kvKey kv" and ?rest = "dropWhile (\<lambda>x. kvKey x = kvKey kv) kvs"
  note run = sorted_takeWhile [OF 2(2)] sorted_dropWhile [OF 2(2)]
  have rest: "sorted (map kvKey ?rest)" using 2(2) by (metis sorted_append map_append takeWhile_dropWhile_id sorted_simps(2) list.simps(9))
  have keys: "kvKey ` set (kv # kvs) = insert ?k (kvKey ` set ?rest)"
    by (subst takeWhile_dropWhile_id [of "\<lambda>x. kvKey x = ?k" kvs, symmetric]) (auto dest: set_takeWhileD simp del: takeWhile_dropWhile_id)
  have lt: "\<forall>x\<in>kvKey ` set ?rest. ?k < x" using run(2) by auto
  have sl: "sorted_list_of_set (insert ?k (kvKey ` set ?rest)) = ?k # sorted_list_of_set (kvKey ` set ?rest)"
    using lt by (intro sorted_list_of_set_insert_less) simp_all
  have vals: "values_of key (kv # kvs) = values_of key ?rest" if "key \<in> kvKey ` set ?rest" for key
    using that lt
    by (subst takeWhile_dropWhile_id [of "\<lambda>x. kvKey x = ?k" kvs, symmetric])
      (auto simp: values_of_def filter_empty_conv dest: set_takeWhileD simp del: takeWhile_dropWhile_id)
  have "result_of reducef (kv # kvs) = (?k, reducef ?k (values_of ?k (kv # kvs))) # result_of reducef ?rest"
    using vals by (simp only: result_of_def keys sl) simp
  moreover have "reduceLoop reducef ?rest = result_of reducef ?rest" using 2(1) rest by simp
  ultimately show ?case by (simp add: Let_def run(1) values_of_def)
qed (simp add: result_of_def)

lemma result_of_mset:
  assumes "order_free reducef" "mset kvs = mset kvs'"
  shows "result_of reducef kvs = result_of reducef kvs'"
proof -
  have "mset (values_of key kvs) = mset (values_of key kvs')" for key
    using assms(2) by (simp add: values_of_def)
  then have "reducef key (values_of key kvs) = reducef key (values_of key kvs')" for key
    using assms(1) unfolding order_free_def by blast
  moreover have "set kvs = set kvs'" using assms(2) by (rule mset_eq_setD)
  ultimately show ?thesis by (simp only: result_of_def)
qed

lemma reduceLoop_sort:
  assumes "sort_ok srt" "order_free reducef"
  shows "reduceLoop reducef (srt kvs) = result_of reducef kvs"
  using assms by (simp add: sort_ok_def reduceLoop_sorted result_of_mset [of reducef "srt kvs" kvs])

lemma result_of_distinct: "distinct (map fst (result_of reducef kvs))"
  by (simp add: result_of_def comp_def)

lemma set_result_of: "set (result_of reducef kvs) = (\<lambda>key. (key, reducef key (values_of key kvs))) ` kvKey ` set kvs"
  by (simp add: result_of_def)

text \<open>Reducing each bucket gives together the lines of reducing everything.\<close>

lemma set_result_buckets:
  assumes "0 < n"
  shows "(\<Union>r<n. set (result_of reducef (filter (in_bucket (int n) r) kvs))) = set (result_of reducef kvs)"
proof -
  have v: "values_of (kvKey kv) (filter (in_bucket (int n) r) kvs) = values_of (kvKey kv) kvs" if "in_bucket (int n) r kv" for kv r
    using that by (auto simp: values_of_def in_bucket_def intro!: arg_cong [where f = "map kvValue"] filter_cong)
  have r: "in_bucket (int n) (nat (ihash (kvKey kv) mod int n)) kv" "nat (ihash (kvKey kv) mod int n) < n" for kv
    using assms by (simp_all add: in_bucket_def nat_less_iff)
  show ?thesis
  proof (intro equalityI subsetI)
    fix line assume "line \<in> set (result_of reducef kvs)"
    then obtain kv where kv: "kv \<in> set kvs" "line = (kvKey kv, reducef (kvKey kv) (values_of (kvKey kv) kvs))"
      by (auto simp: set_result_of)
    let ?r = "nat (ihash (kvKey kv) mod int n)"
    have "line \<in> set (result_of reducef (filter (in_bucket (int n) ?r) kvs))"
      using kv r(1) [of kv] v [of ?r kv] unfolding set_result_of image_image by (intro image_eqI [of _ _ kv]) simp_all
    then show "line \<in> (\<Union>r<n. set (result_of reducef (filter (in_bucket (int n) r) kvs)))" using r(2) by blast
  qed (auto simp: set_result_of v)
qed

lemma buckets_disjoint:
  "kv \<in> set (result_of reducef (filter (in_bucket n r) kvs)) \<Longrightarrow> kv \<in> set (result_of reducef' (filter (in_bucket n r') kvs)) \<Longrightarrow> r = r'"
  by (auto simp: set_result_of in_bucket_def)

lemma distinct_mapD: "distinct (map f xs) \<Longrightarrow> distinct xs"
  by (simp add: distinct_map)

lemma distinct_concat_upt:
  assumes "\<And>r. distinct (f r)" "\<And>r r' x. x \<in> set (f r) \<Longrightarrow> x \<in> set (f r') \<Longrightarrow> r = r'"
  shows "distinct (concat (map f [0..<n]))"
  using assms(1) by (induction n) (auto dest: assms(2))

lemma mset_result_buckets:
  assumes "0 < n"
  shows "mset (concat (map (\<lambda>r. result_of reducef (filter (in_bucket (int n) r) kvs)) [0..<n])) = mset (result_of reducef kvs)"
proof (rule set_eq_iff_mset_eq_distinct [THEN iffD1])
  show "distinct (concat (map (\<lambda>r. result_of reducef (filter (in_bucket (int n) r) kvs)) [0..<n]))"
    using buckets_disjoint by (intro distinct_concat_upt result_of_distinct [THEN distinct_mapD]) blast
  show "distinct (result_of reducef kvs)" by (rule result_of_distinct [THEN distinct_mapD])
  show "set (concat (map (\<lambda>r. result_of reducef (filter (in_bucket (int n) r) kvs)) [0..<n])) = set (result_of reducef kvs)"
    using set_result_buckets [OF assms, of reducef kvs] by (simp add: lessThan_atLeast0)
qed

end
