(* ===== verification/Mrjob.thy ===== *)
theory Mrjob
  imports Mapreduce
begin

text \<open>
  A MapReduce job: the coordinator, the files, and any number of workers that start at any time, run
  in any order and can stop anywhere. Tasks are handed out again after ten seconds, so several
  workers can execute the same task; the files they leave are those of the sequential program.
\<close>

section \<open>The job\<close>

record job =
  jbFiles :: "string list"
  jbN :: nat
  jbInput :: files
  jbMapf :: mapf
  jbReducef :: reducef
  jbSort :: "key_value list \<Rightarrow> key_value list"
  jbCodec :: mr_codec
  jbValid :: "key_value \<Rightarrow> bool"

text \<open>
  What a job relies on: there is a reduce task; the input files exist and do not have the name of a
  file the job writes; sorting and JSON do what they promise; the reduce function does not depend on
  the order of the values.
\<close>

definition job_ok :: "job \<Rightarrow> bool" where
  "job_ok j \<longleftrightarrow> 0 < jbN j \<and>
     (\<forall>f \<in> set (jbFiles j). jbInput j f \<noteq> None \<and> (\<forall>m r. f \<noteq> intermediateName (int m) (int r) \<and> f \<noteq> outName (int r))) \<and>
     sort_ok (jbSort j) \<and> codec_ok (jbValid j) (jbCodec j) \<and> (\<forall>f c. list_all (jbValid j) (jbMapf j f c)) \<and>
     order_free (jbReducef j)"

record mr_world =
  mwCo :: coordinator
  mwFs :: files
  mwNow :: int

definition mr_start :: "job \<Rightarrow> mr_world" where
  "mr_start j = \<lparr>mwCo = MakeCoordinator (jbFiles j) (int (jbN j)), mwFs = jbInput j, mwNow = 0\<rparr>"

text \<open>
  A call of \<^verbatim>\<open>Map\<close> can give the pairs in any order: the indexer collects them from a Go map. A call
  of the coordinator can fail to connect.
\<close>

fun mr_exec :: "job \<Rightarrow> mr_world \<Rightarrow> mr_call \<Rightarrow> mr_world \<Rightarrow> mr_reply \<Rightarrow> bool" where
  "mr_exec j s (ReadFile name) s' r \<longleftrightarrow> s' = s \<and> r = (case mwFs s name of None \<Rightarrow> FileError | Some c \<Rightarrow> FileData c)"
| "mr_exec j s (WriteFile name c) s' r \<longleftrightarrow> s' = s\<lparr>mwFs := (mwFs s)(name \<mapsto> c)\<rparr> \<and> r = Written"
| "mr_exec j s (CallMap name c) s' r \<longleftrightarrow> s' = s \<and> (\<exists>kvs. mset kvs = mset (jbMapf j name c) \<and> r = Mapped kvs)"
| "mr_exec j s CallRequestTask s' r \<longleftrightarrow>
     s' = s \<and> r = DialError \<or>
     s' = s\<lparr>mwCo := fst (RequestTask (mwNow s) (mwCo s))\<rparr> \<and> r = TaskReply (snd (RequestTask (mwNow s) (mwCo s)))"
| "mr_exec j s (CallReportTask args) s' r \<longleftrightarrow>
     s' = s \<and> r = DialError \<or> s' = s\<lparr>mwCo := ReportTask args (mwCo s)\<rparr> \<and> r = Reported"

definition mr_env :: "mr_world \<Rightarrow> mr_world \<Rightarrow> bool" where
  "mr_env s s' \<longleftrightarrow> (\<exists>t \<ge> mwNow s. s' = s\<lparr>mwNow := t\<rparr>)"

definition mr_ops :: "job \<Rightarrow> 'p \<Rightarrow> unit \<Rightarrow> unit mr_prog \<Rightarrow> bool" where
  "mr_ops j p a pr \<longleftrightarrow> (\<exists>n. pr = Worker n (jbCodec j) (jbSort j) (jbReducef j))"

section \<open>What the files of a job have to contain\<close>

definition nMaps :: "job \<Rightarrow> nat" where
  "nMaps j = length (jbFiles j)"

definition input :: "job \<Rightarrow> nat \<Rightarrow> string" where
  "input j m = the (jbInput j (jbFiles j ! m))"

definition mapped :: "job \<Rightarrow> nat \<Rightarrow> key_value list" where
  "mapped j m = jbMapf j (jbFiles j ! m) (input j m)"

definition all_pairs :: "job \<Rightarrow> key_value list" where
  "all_pairs j = concat (map (mapped j) [0..<nMaps j])"

definition in_part :: "job \<Rightarrow> nat \<Rightarrow> key_value \<Rightarrow> bool" where
  "in_part j r = in_bucket (int (jbN j)) r"

definition inter_ok :: "job \<Rightarrow> nat \<Rightarrow> nat \<Rightarrow> string \<Rightarrow> bool" where
  "inter_ok j m r c \<longleftrightarrow> (\<exists>kvs. encodeBucket (jbCodec j) kvs = Some c \<and> list_all (jbValid j) kvs \<and>
     mset kvs = mset (filter (in_part j r) (mapped j m)))"

definition out_lines :: "job \<Rightarrow> nat \<Rightarrow> (string \<times> string) list" where
  "out_lines j r = result_of (jbReducef j) (filter (in_part j r) (all_pairs j))"

definition out_ok :: "job \<Rightarrow> nat \<Rightarrow> string \<Rightarrow> bool" where
  "out_ok j r c \<longleftrightarrow> c = concat (map outLine (out_lines j r))"

definition good :: "job \<Rightarrow> files \<Rightarrow> nat \<Rightarrow> nat \<Rightarrow> bool" where
  "good j fs m r \<longleftrightarrow> (\<exists>c. fs (intermediateName (int m) (int r)) = Some c \<and> inter_ok j m r c)"

definition good_out :: "job \<Rightarrow> files \<Rightarrow> nat \<Rightarrow> bool" where
  "good_out j fs r \<longleftrightarrow> (\<exists>c. fs (outName (int r)) = Some c \<and> out_ok j r c)"

section \<open>The coordinator\<close>

definition tasks_ok :: "string list \<Rightarrow> task list \<Rightarrow> bool" where
  "tasks_ok names ts \<longleftrightarrow> length ts = length names \<and> (\<forall>i<length ts. tkID (ts ! i) = int i \<and> tkFileName (ts ! i) = names ! i)"

definition completed :: "task list \<Rightarrow> nat \<Rightarrow> bool" where
  "completed ts i \<longleftrightarrow> i < length ts \<and> tkStatus (ts ! i) = Completed"

definition co_ok :: "job \<Rightarrow> coordinator \<Rightarrow> bool" where
  "co_ok j c \<longleftrightarrow>
     tasks_ok (jbFiles j) (coMapTasks c) \<and> tasks_ok (replicate (jbN j) []) (coReduceTasks c) \<and>
     coNMap c = int (nMaps j) \<and> coNReduce c = int (jbN j) \<and>
     (coPhase c \<noteq> MapPhase \<longrightarrow> allMapTasksDone c) \<and> (coPhase c = DonePhase \<longrightarrow> allReduceTasksDone c)"

definition task_ok :: "job \<Rightarrow> request_task_reply \<Rightarrow> bool" where
  "task_ok j t \<longleftrightarrow>
     (rtType t = MapTask \<longrightarrow> (\<exists>m<nMaps j. rtID t = int m \<and> rtFileName t = jbFiles j ! m \<and> rtNReduce t = int (jbN j))) \<and>
     (rtType t = ReduceTask \<longrightarrow> (\<exists>r<jbN j. rtID t = int r \<and> rtNMap t = int (nMaps j)))"

lemma assignFirst_Some:
  assumes "assignFirst now ts = Some (ts', t)"
  shows "\<exists>i<length ts. t = ts ! i \<and> tkStatus t \<noteq> Completed \<and>
    ts' = ts[i := t\<lparr>tkStatus := InProgress, tkStartTime := now\<rparr>]"
  using assms
proof (induction ts arbitrary: ts')
  case (Cons x ts)
  show ?case
  proof (cases "tkStatus x = Idle \<or> taskTimedOut now x")
    case True
    then show ?thesis using Cons.prems by (intro exI [of _ 0]) (auto simp: taskTimedOut_def)
  next
    case False
    then obtain ts'' where "assignFirst now ts = Some (ts'', t)" "ts' = x # ts''"
      using Cons.prems by (auto split: option.splits)
    then show ?thesis using Cons.IH by fastforce
  qed
qed simp

text \<open>Handing out a task completes none, completing one completes that one.\<close>

lemma assignFirst_ok:
  assumes "assignFirst now ts = Some (ts', t)" "tasks_ok names ts"
  shows "tasks_ok names ts'" "completed ts' = completed ts" "\<exists>i<length names. tkID t = int i \<and> tkFileName t = names ! i"
proof -
  obtain i where i: "i < length ts" "t = ts ! i" "tkStatus t \<noteq> Completed"
    "ts' = ts[i := t\<lparr>tkStatus := InProgress, tkStartTime := now\<rparr>]" using assignFirst_Some [OF assms(1)] by blast
  show "tasks_ok names ts'" "\<exists>i<length names. tkID t = int i \<and> tkFileName t = names ! i"
    using assms(2) i by (auto simp: tasks_ok_def nth_list_update)
  show "completed ts' = completed ts" using i by (auto simp: completed_def fun_eq_iff nth_list_update)
qed

lemma complete_ok:
  assumes "tasks_ok names ts" "i < length names"
  shows "tasks_ok names (complete ts (int i))" "completed ts k \<Longrightarrow> completed (complete ts (int i)) k"
    "completed (complete ts (int i)) k \<Longrightarrow> completed ts k \<or> k = i"
  using assms by (auto simp: tasks_ok_def complete_def completed_def nth_list_update split: if_splits)

lemma allTasksDone_completed: "allTasksDone ts \<longleftrightarrow> (\<forall>i<length ts. completed ts i)"
  by (auto simp: allTasksDone_def completed_def list_all_length)

lemma MakeCoordinator_ok:
  "0 < jbN j \<Longrightarrow> co_ok j (MakeCoordinator (jbFiles j) (int (jbN j)))"
  "\<not> completed (coMapTasks (MakeCoordinator files n)) i" "\<not> completed (coReduceTasks (MakeCoordinator files n)) i"
  by (auto simp: co_ok_def MakeCoordinator_def tasks_ok_def completed_def nMaps_def)

lemma requestReduce_ok:
  assumes "co_ok j c" "coPhase c \<noteq> MapPhase" "requestReduce now c reply = (c', t)" "rtNMap reply = int (nMaps j)"
  shows "co_ok j c'" "task_ok j t" "rtType t \<noteq> MapTask" "completed (coMapTasks c') = completed (coMapTasks c)"
    "completed (coReduceTasks c') = completed (coReduceTasks c)" "coPhase c' \<noteq> MapPhase"
proof -
  note ok = assignFirst_ok [of now "coReduceTasks c" _ _ "replicate (jbN j) []"]
  have len: "length ts' = length ts" if "assignFirst now ts = Some (ts', t)" for ts ts' t
    using assignFirst_Some [OF that] by auto
  have "co_ok j c' \<and> task_ok j t \<and> rtType t \<noteq> MapTask \<and> completed (coMapTasks c') = completed (coMapTasks c) \<and>
    completed (coReduceTasks c') = completed (coReduceTasks c) \<and> coPhase c' \<noteq> MapPhase"
  proof (cases "assignFirst now (coReduceTasks c)")
    case None
    then show ?thesis using assms by (auto simp: requestReduce_def co_ok_def task_ok_def allMapTasksDone_def allReduceTasksDone_def split: if_splits)
  next
    case (Some a)
    obtain ts t' where a: "a = (ts, t')" by (cases a)
    show ?thesis
      using assms ok [OF Some [unfolded a]] len [OF Some [unfolded a]] Some a
      by (auto simp: requestReduce_def co_ok_def task_ok_def allMapTasksDone_def allReduceTasksDone_def allTasksDone_completed split: if_splits)
  qed
  then show "co_ok j c'" "task_ok j t" "rtType t \<noteq> MapTask" "completed (coMapTasks c') = completed (coMapTasks c)"
    "completed (coReduceTasks c') = completed (coReduceTasks c)" "coPhase c' \<noteq> MapPhase" by blast+
qed

lemma RequestTask_ok:
  assumes "co_ok j c" "RequestTask now c = (c', t)"
  shows "co_ok j c' \<and> task_ok j t \<and> (rtType t = ReduceTask \<longrightarrow> allMapTasksDone c') \<and>
    completed (coMapTasks c') = completed (coMapTasks c) \<and> completed (coReduceTasks c') = completed (coReduceTasks c)"
proof -
  let ?reply = "\<lparr>rtType = MapTask, rtID = 0, rtFileName = [], rtNReduce = coNReduce c, rtNMap = coNMap c\<rparr>"
  have reduce: ?thesis if "requestReduce now d ?reply = (c', t)" "co_ok j d" "coPhase d \<noteq> MapPhase"
    "coMapTasks d = coMapTasks c" "coReduceTasks d = coReduceTasks c" for d
    using requestReduce_ok [OF that(2,3,1)] that(4,5) assms(1) by (auto simp: co_ok_def)
  consider (map) "coPhase c = MapPhase" "\<not> allMapTasksDone c" | (over) "coPhase c = MapPhase" "allMapTasksDone c" | (rest) "coPhase c \<noteq> MapPhase"
    by blast
  then show ?thesis
  proof cases
    case map
    show ?thesis
    proof (cases "assignFirst now (coMapTasks c)")
      case None
      then show ?thesis using assms map by (auto simp: RequestTask_def Let_def task_ok_def)
    next
      case (Some a)
      obtain ts t' where a: "a = (ts, t')" by (cases a)
      show ?thesis
        using assms map Some a assignFirst_ok [OF Some [unfolded a], of "jbFiles j"]
        by (auto simp: RequestTask_def Let_def task_ok_def co_ok_def nMaps_def)
    qed
  next
    case over
    have "co_ok j (c\<lparr>coPhase := ReducePhase\<rparr>)" using assms(1) over by (simp add: co_ok_def allMapTasksDone_def)
    then show ?thesis using assms(2) over by (intro reduce [of "c\<lparr>coPhase := ReducePhase\<rparr>"]) (simp_all add: RequestTask_def Let_def)
  next
    case rest
    then show ?thesis using assms by (intro reduce [of c]) (simp_all add: RequestTask_def Let_def)
  qed
qed

lemma ReportTask_ok:
  assumes "co_ok j c"
  shows "raType args = MapTask \<Longrightarrow> raID args = int m \<Longrightarrow> m < nMaps j \<Longrightarrow>
      co_ok j (ReportTask args c) \<and> (\<forall>i. completed (coMapTasks (ReportTask args c)) i \<longrightarrow> completed (coMapTasks c) i \<or> i = m) \<and>
      coReduceTasks (ReportTask args c) = coReduceTasks c"
    and "raType args = ReduceTask \<Longrightarrow> raID args = int r \<Longrightarrow> r < jbN j \<Longrightarrow>
      co_ok j (ReportTask args c) \<and> (\<forall>i. completed (coReduceTasks (ReportTask args c)) i \<longrightarrow> completed (coReduceTasks c) i \<or> i = r) \<and>
      coMapTasks (ReportTask args c) = coMapTasks c"
  using assms complete_ok [of "jbFiles j" "coMapTasks c" m] complete_ok [of "replicate (jbN j) []" "coReduceTasks c" r]
  by (auto simp: ReportTask_def Let_def co_ok_def nMaps_def allMapTasksDone_def allReduceTasksDone_def)

section \<open>The invariant of a job\<close>

definition mr_inv :: "job \<Rightarrow> mr_world \<Rightarrow> bool" where
  "mr_inv j s \<longleftrightarrow> job_ok j \<and> co_ok j (mwCo s) \<and> (\<forall>f \<in> set (jbFiles j). mwFs s f = jbInput j f) \<and>
     (\<forall>m. completed (coMapTasks (mwCo s)) m \<longrightarrow> (\<forall>r<jbN j. good j (mwFs s) m r)) \<and>
     (\<forall>r. completed (coReduceTasks (mwCo s)) r \<longrightarrow> good_out j (mwFs s) r)"

text \<open>What workers read, write and report, and the replies they can get.\<close>

fun mr_okm :: "job \<Rightarrow> mr_world \<Rightarrow> 'p \<Rightarrow> mr_call \<Rightarrow> bool" where
  "mr_okm j s p (ReadFile name) \<longleftrightarrow>
     name \<in> set (jbFiles j) \<or> (\<exists>m<nMaps j. \<exists>r<jbN j. name = intermediateName (int m) (int r) \<and> good j (mwFs s) m r)"
| "mr_okm j s p (WriteFile name c) \<longleftrightarrow>
     (\<exists>m<nMaps j. \<exists>r<jbN j. name = intermediateName (int m) (int r) \<and> inter_ok j m r c) \<or>
     (\<exists>r<jbN j. name = outName (int r) \<and> out_ok j r c)"
| "mr_okm j s p (CallReportTask args) \<longleftrightarrow>
     raType args = MapTask \<and> (\<exists>m<nMaps j. raID args = int m \<and> (\<forall>r<jbN j. good j (mwFs s) m r)) \<or>
     raType args = ReduceTask \<and> (\<exists>r<jbN j. raID args = int r \<and> good_out j (mwFs s) r)"
| "mr_okm j s p _ \<longleftrightarrow> True"

fun mr_po :: "job \<Rightarrow> mr_call \<Rightarrow> mr_reply \<Rightarrow> bool" where
  "mr_po j (ReadFile name) r \<longleftrightarrow>
     (\<exists>c. r = FileData c \<and> (\<forall>m<nMaps j. name = jbFiles j ! m \<longrightarrow> c = input j m) \<and>
        (\<forall>m<nMaps j. \<forall>i<jbN j. name = intermediateName (int m) (int i) \<longrightarrow> inter_ok j m i c))"
| "mr_po j (WriteFile name c) r \<longleftrightarrow> r = Written"
| "mr_po j (CallMap name c) r \<longleftrightarrow> (\<exists>kvs. mset kvs = mset (jbMapf j name c) \<and> r = Mapped kvs)"
| "mr_po j CallRequestTask r \<longleftrightarrow> r = DialError \<or> (\<exists>t. r = TaskReply t \<and> task_ok j t)"
| "mr_po j (CallReportTask args) r \<longleftrightarrow> r = DialError \<or> r = Reported"

text \<open>What a worker knows: that files have been written.\<close>

datatype mr_fact = Good nat nat | GoodOut nat

fun mr_holds :: "job \<Rightarrow> mr_world \<Rightarrow> ('p \<times> mr_call) set \<Rightarrow> 'p \<Rightarrow> mr_fact \<Rightarrow> bool" where
  "mr_holds j s S p (Good m r) \<longleftrightarrow> good j (mwFs s) m r"
| "mr_holds j s S p (GoodOut r) \<longleftrightarrow> good_out j (mwFs s) r"

fun mr_al :: "job \<Rightarrow> mr_fact set \<Rightarrow> mr_call \<Rightarrow> bool" where
  "mr_al j K (ReadFile name) \<longleftrightarrow>
     name \<in> set (jbFiles j) \<or> (\<exists>m<nMaps j. \<exists>r<jbN j. name = intermediateName (int m) (int r) \<and> Good m r \<in> K)"
| "mr_al j K (WriteFile name c) \<longleftrightarrow>
     (\<exists>m<nMaps j. \<exists>r<jbN j. name = intermediateName (int m) (int r) \<and> inter_ok j m r c) \<or>
     (\<exists>r<jbN j. name = outName (int r) \<and> out_ok j r c)"
| "mr_al j K (CallReportTask args) \<longleftrightarrow>
     raType args = MapTask \<and> (\<exists>m<nMaps j. raID args = int m \<and> (\<forall>r<jbN j. Good m r \<in> K)) \<or>
     raType args = ReduceTask \<and> (\<exists>r<jbN j. raID args = int r \<and> GoodOut r \<in> K)"
| "mr_al j K _ \<longleftrightarrow> True"

fun mr_le :: "job \<Rightarrow> mr_fact set \<Rightarrow> mr_call \<Rightarrow> mr_reply \<Rightarrow> mr_fact set" where
  "mr_le j K (WriteFile name c) r =
     {Good m i | m i. name = intermediateName (int m) (int i)} \<union> {GoodOut i | i. name = outName (int i)}"
| "mr_le j K CallRequestTask (TaskReply t) = (if rtType t = ReduceTask then {Good m r | m r. m < nMaps j \<and> r < jbN j} else {})"
| "mr_le j K _ _ = {}"

lemma job_okD:
  assumes "job_ok j"
  shows "0 < jbN j" "f \<in> set (jbFiles j) \<Longrightarrow> \<exists>c. jbInput j f = Some c"
    "f \<in> set (jbFiles j) \<Longrightarrow> f \<noteq> intermediateName (int m) (int r)" "f \<in> set (jbFiles j) \<Longrightarrow> f \<noteq> outName (int r)"
    "sort_ok (jbSort j)" "codec_ok (jbValid j) (jbCodec j)" "list_all (jbValid j) (jbMapf j f c)" "order_free (jbReducef j)"
  using assms by (auto simp: job_ok_def)

lemma mr_invD:
  assumes "mr_inv j s"
  shows "job_ok j" "co_ok j (mwCo s)" "f \<in> set (jbFiles j) \<Longrightarrow> mwFs s f = jbInput j f"
    "completed (coMapTasks (mwCo s)) m \<Longrightarrow> r < jbN j \<Longrightarrow> good j (mwFs s) m r"
    "completed (coReduceTasks (mwCo s)) r \<Longrightarrow> good_out j (mwFs s) r"
  using assms by (auto simp: mr_inv_def)

text \<open>Only a call that writes changes the files, and no good file is lost.\<close>

lemma mr_exec_files:
  assumes "mr_exec j s q s' r" "mr_okm j s p q"
  shows "good j (mwFs s) m i \<Longrightarrow> good j (mwFs s') m i" "good_out j (mwFs s) i \<Longrightarrow> good_out j (mwFs s') i"
    "job_ok j \<Longrightarrow> f \<in> set (jbFiles j) \<Longrightarrow> mwFs s' f = mwFs s f"
proof -
  have w: "mwFs s' = mwFs s \<or> (\<exists>name c. q = WriteFile name c \<and> mwFs s' = (mwFs s)(name \<mapsto> c))"
    using assms(1) by (cases q) auto
  show "good j (mwFs s) m i \<Longrightarrow> good j (mwFs s') m i" "good_out j (mwFs s) i \<Longrightarrow> good_out j (mwFs s') i"
    using w assms(2) by (auto simp: good_def good_out_def)
  show "job_ok j \<Longrightarrow> f \<in> set (jbFiles j) \<Longrightarrow> mwFs s' f = mwFs s f"
    using w assms(2) job_okD(3,4) by fastforce
qed

lemma mr_exec_co:
  assumes "mr_inv j s" "mr_exec j s q s' r" "mr_okm j s p q"
  shows "co_ok j (mwCo s')"
    "completed (coMapTasks (mwCo s')) m \<Longrightarrow> completed (coMapTasks (mwCo s)) m \<or> (\<forall>r<jbN j. good j (mwFs s) m r)"
    "completed (coReduceTasks (mwCo s')) m \<Longrightarrow> completed (coReduceTasks (mwCo s)) m \<or> good_out j (mwFs s) m"
proof -
  note co = mr_invD(2) [OF assms(1)]
  consider (same) "mwCo s' = mwCo s" | (request) "mwCo s' = fst (RequestTask (mwNow s) (mwCo s))"
    | (report) args where "q = CallReportTask args" "mwCo s' = ReportTask args (mwCo s)"
    using assms(2) by (cases q) auto
  then have "co_ok j (mwCo s') \<and>
    (completed (coMapTasks (mwCo s')) m \<longrightarrow> completed (coMapTasks (mwCo s)) m \<or> (\<forall>r<jbN j. good j (mwFs s) m r)) \<and>
    (completed (coReduceTasks (mwCo s')) m \<longrightarrow> completed (coReduceTasks (mwCo s)) m \<or> good_out j (mwFs s) m)"
  proof cases
    case request
    then show ?thesis using RequestTask_ok [OF co, of "mwNow s"] by (cases "RequestTask (mwNow s) (mwCo s)") auto
  next
    case report
    then show ?thesis using assms(3) ReportTask_ok [OF co, of args] by auto
  qed (use co in simp)
  then show "co_ok j (mwCo s')"
    "completed (coMapTasks (mwCo s')) m \<Longrightarrow> completed (coMapTasks (mwCo s)) m \<or> (\<forall>r<jbN j. good j (mwFs s) m r)"
    "completed (coReduceTasks (mwCo s')) m \<Longrightarrow> completed (coReduceTasks (mwCo s)) m \<or> good_out j (mwFs s) m" by blast+
qed

lemma mr_exec_inv:
  assumes "mr_inv j s" "mr_okm j s p q" "mr_exec j s q s' r"
  shows "mr_inv j s'"
  unfolding mr_inv_def
  using mr_exec_co [OF assms(1,3,2)] mr_exec_files [OF assms(3,2)] mr_invD [OF assms(1)] by (metis (no_types, lifting))

lemma mr_exec_po:
  assumes "mr_inv j s" "mr_okm j s p q" "mr_exec j s q s' r"
  shows "mr_po j q r"
proof (cases q)
  case (ReadFile name)
  note job = job_okD [OF mr_invD(1) [OF assms(1)]]
  consider (inp) "name \<in> set (jbFiles j)" | (int) m i where "m < nMaps j" "i < jbN j" "name = intermediateName (int m) (int i)" "good j (mwFs s) m i"
    using assms(2) ReadFile by auto
  then show ?thesis
  proof cases
    case inp
    then obtain c where c: "jbInput j name = Some c" using job(2) by blast
    have "r = FileData c" using assms(3) ReadFile c mr_invD(3) [OF assms(1) inp] by simp
    then show ?thesis using ReadFile c inp job(3) by (auto simp: input_def)
  next
    case int
    then obtain c where "mwFs s name = Some c" "inter_ok j m i c" by (auto simp: good_def)
    moreover have "name \<noteq> jbFiles j ! m'" if "m' < nMaps j" for m'
      using job(3) [of "jbFiles j ! m'"] int(3) that by (metis nMaps_def nth_mem)
    ultimately show ?thesis using assms(3) ReadFile int by auto
  qed
next
  case CallRequestTask
  then show ?thesis
    using assms(3) RequestTask_ok [OF mr_invD(2) [OF assms(1)], of "mwNow s"]
    by (cases "RequestTask (mwNow s) (mwCo s)") auto
qed (use assms(3) in auto)

lemma mr_exec_learn:
  assumes "mr_inv j s" "mr_okm j s p q" "mr_exec j s q s' r" "f \<in> mr_le j K q r"
  shows "mr_holds j s' S p' f"
proof (cases q)
  case (WriteFile name c)
  then have "mwFs s' = (mwFs s)(name \<mapsto> c)" using assms(3) by simp
  then show ?thesis using assms(2,4) WriteFile by (auto simp: good_def good_out_def)
next
  case CallRequestTask
  obtain t where t: "r = TaskReply t" "rtType t = ReduceTask" using assms(4) CallRequestTask by (cases r) (auto split: if_splits)
  obtain m i where f: "f = Good m i" "m < nMaps j" "i < jbN j" using assms(4) CallRequestTask t by auto
  obtain c' where c': "RequestTask (mwNow s) (mwCo s) = (c', t)" "mwFs s' = mwFs s"
    using assms(3) CallRequestTask t by (cases "RequestTask (mwNow s) (mwCo s)") auto
  have "completed (coMapTasks c') m" "completed (coMapTasks c') = completed (coMapTasks (mwCo s))"
    using RequestTask_ok [OF mr_invD(2) [OF assms(1)] c'(1)] t f(2)
    by (auto simp: allMapTasksDone_def allTasksDone_completed co_ok_def tasks_ok_def nMaps_def)
  then show ?thesis using mr_invD(4) [OF assms(1)] f c'(2) by simp
qed (use assms(4) in auto)

section \<open>The workers\<close>

abbreviation mr_wp where
  "mr_wp j pr K Q \<equiv> wp (mr_po j) (mr_al j) (\<lambda>K q. K) (mr_le j) pr K Q"

lemma writeBuckets_wp:
  assumes "m < nMaps j" "i + length buckets = jbN j" "\<And>r. r < i \<Longrightarrow> Good m r \<in> K"
    "\<And>r. r < length buckets \<Longrightarrow> encodeBucket (jbCodec j) (buckets ! r) \<noteq> None \<and>
       (\<forall>c. encodeBucket (jbCodec j) (buckets ! r) = Some c \<longrightarrow> inter_ok j m (i + r) c)"
    "\<And>K'. (\<forall>r<jbN j. Good m r \<in> K') \<Longrightarrow> Q True K'" "\<And>K'. Q False K'"
  shows "mr_wp j (writeBuckets (jbCodec j) (int m) i buckets) K Q"
  using assms(2-4)
proof (induction buckets arbitrary: i K)
  case (Cons b buckets)
  obtain c where c: "encodeBucket (jbCodec j) b = Some c" "inter_ok j m i c" using Cons.prems(3) [of 0] by auto
  have "encodeBucket (jbCodec j) (buckets ! r) \<noteq> None \<and>
      (\<forall>c. encodeBucket (jbCodec j) (buckets ! r) = Some c \<longrightarrow> inter_ok j m (i + 1 + r) c)" if "r < length buckets" for r
    using Cons.prems(3) [of "Suc r"] that by simp
  then have "mr_wp j (writeBuckets (jbCodec j) (int m) (i + 1) buckets)
      (K \<union> mr_le j K (WriteFile (intermediateName (int m) (int i)) c) Written) Q"
    using Cons.prems(1,2) by (intro Cons.IH) (auto simp: less_Suc_eq)
  then show ?case using c Cons.prems(1) assms(1,6) by auto
qed (use assms(5) in auto)

lemma part_inter_ok:
  assumes "job_ok j" "mset kva = mset (mapped j m)" "encodeBucket (jbCodec j) (filter (in_part j r) kva) = Some c"
  shows "inter_ok j m r c"
  unfolding inter_ok_def
proof (intro exI [of _ "filter (in_part j r) kva"] conjI)
  show "list_all (jbValid j) (filter (in_part j r) kva)"
    using job_okD(7) [OF assms(1)] mset_eq_setD [OF assms(2)] by (auto simp: mapped_def list_all_iff)
qed (use assms(2,3) in simp_all)

lemma doMapTask_wp:
  assumes "job_ok j" "m < nMaps j" "rtID t = int m" "rtFileName t = jbFiles j ! m" "rtNReduce t = int (jbN j)"
    "\<And>K'. (\<forall>r<jbN j. Good m r \<in> K') \<Longrightarrow> Q True K'" "\<And>K'. Q False K'"
  shows "mr_wp j (doMapTask (jbCodec j) t) K Q"
proof -
  note job = job_okD [OF assms(1)]
  have bk: "mr_wp j (writeBuckets (jbCodec j) (int m) 0 (map (\<lambda>r. filter (in_bucket (int (jbN j)) r) kva) [0..<jbN j])) K' Q"
    if kva: "mset kva = mset (mapped j m)" for kva K'
  proof (rule writeBuckets_wp [OF assms(2)])
    fix r
    assume "r < length (map (\<lambda>r. filter (in_bucket (int (jbN j)) r) kva) [0..<jbN j])"
    then have r: "map (\<lambda>r. filter (in_bucket (int (jbN j)) r) kva) [0..<jbN j] ! r = filter (in_part j r) kva"
      by (simp add: in_part_def)
    have "list_all (jbValid j) (filter (in_part j r) kva)"
      using job(7) mset_eq_setD [OF kva] by (auto simp: mapped_def list_all_iff)
    then show "encodeBucket (jbCodec j) (map (\<lambda>r. filter (in_bucket (int (jbN j)) r) kva) [0..<jbN j] ! r) \<noteq> None \<and>
       (\<forall>c. encodeBucket (jbCodec j) (map (\<lambda>r. filter (in_bucket (int (jbN j)) r) kva) [0..<jbN j] ! r) = Some c \<longrightarrow> inter_ok j m (0 + r) c)"
      unfolding r using encodeBucket_total [OF job(6)] part_inter_ok [OF assms(1) kva] by fastforce
  qed (use assms(6,7) in auto)
  have "jbFiles j ! m \<in> set (jbFiles j)" using assms(2) by (simp add: nMaps_def)
  then show ?thesis
    unfolding doMapTask_def
    using assms(2-5,7) job(1) bk fillBuckets_run [of "int (jbN j)"] by (auto simp: mapped_def)
qed

lemma readLoop_wp:
  assumes "job_ok j" "r < jbN j" "set ms \<subseteq> {..<nMaps j}" "\<And>m. m < nMaps j \<Longrightarrow> Good m r \<in> K"
    "\<And>kvs. mset kvs = mset acc + mset (filter (in_part j r) (concat (map (mapped j) ms))) \<Longrightarrow> Q (Some kvs) K" "Q None K"
  shows "mr_wp j (readLoop (jbCodec j) (int r) ms acc) K Q"
  using assms(3,5)
proof (induction ms arbitrary: acc)
  case (Cons m ms)
  have m: "m < nMaps j" using Cons.prems(1) by simp
  have "mr_wp j (case decodeLoop (Suc (length c)) (jbCodec j) c acc of None \<Rightarrow> Ret None
      | Some kvs \<Rightarrow> readLoop (jbCodec j) (int r) ms kvs) K Q" if c: "inter_ok j m r c" for c
  proof -
    obtain kvs where kvs: "encodeBucket (jbCodec j) kvs = Some c" "list_all (jbValid j) kvs"
      "mset kvs = mset (filter (in_part j r) (mapped j m))" using c by (auto simp: inter_ok_def)
    have "mr_wp j (readLoop (jbCodec j) (int r) ms (acc @ kvs)) K Q"
      using Cons.prems kvs(3) by (intro Cons.IH) (auto simp: ac_simps)
    then show ?thesis
      using decodeLoop_encodeBucket [OF job_okD(6) [OF assms(1)] kvs(2,1), of "Suc (length c)" acc]
      by (simp del: decodeLoop.simps)
  qed
  then show ?case
    using m assms(2,4,6) by (auto simp del: decodeLoop.simps)
qed simp

lemma doReduceTask_wp:
  assumes "job_ok j" "r < jbN j" "rtID t = int r" "rtNMap t = int (nMaps j)" "\<And>m. m < nMaps j \<Longrightarrow> Good m r \<in> K"
    "\<And>K'. GoodOut r \<in> K' \<Longrightarrow> Q True K'" "\<And>K'. Q False K'"
  shows "mr_wp j (doReduceTask (jbCodec j) (jbSort j) (jbReducef j) t) K Q"
proof -
  note job = job_okD [OF assms(1)]
  have "out_ok j r (concat (map outLine (reduceLoop (jbReducef j) (jbSort j kvs))))"
    if "mset kvs = mset (filter (in_part j r) (all_pairs j))" for kvs
    using that by (simp add: out_ok_def out_lines_def reduceLoop_sort [OF job(5,8)] result_of_mset [OF job(8) that])
  then show ?thesis
    unfolding doReduceTask_def wp_pbind assms(3,4) nat_int
    using assms(2,5-7) by (intro readLoop_wp [OF assms(1,2)]) (auto simp: all_pairs_def)
qed

lemma Worker_wp:
  assumes "job_ok j"
  shows "mr_wp j (Worker n (jbCodec j) (jbSort j) (jbReducef j)) K (\<lambda>_ _. True)"
proof (induction n arbitrary: K)
  case (Suc n)
  let ?W = "Worker n (jbCodec j) (jbSort j) (jbReducef j)"
  have "mr_wp j (pbind (doMapTask (jbCodec j) t) (\<lambda>ok. if \<not> ok then Ret ()
      else pbind (reportTask MapTask (rtID t)) (\<lambda>ok. if \<not> ok then Ret () else ?W))) K' (\<lambda>_ _. True)"
    if t: "task_ok j t" "rtType t = MapTask" for t K'
  proof -
    obtain m where m: "m < nMaps j" "rtID t = int m" "rtFileName t = jbFiles j ! m" "rtNReduce t = int (jbN j)"
      using t by (auto simp: task_ok_def)
    show ?thesis
      unfolding wp_pbind by (rule doMapTask_wp [OF assms m]) (use Suc m in \<open>auto simp: reportTask_def\<close>)
  qed
  moreover have "mr_wp j (pbind (doReduceTask (jbCodec j) (jbSort j) (jbReducef j) t) (\<lambda>ok. if \<not> ok then Ret ()
      else pbind (reportTask ReduceTask (rtID t)) (\<lambda>ok. if \<not> ok then Ret () else ?W)))
      (K \<union> mr_le j K CallRequestTask (TaskReply t)) (\<lambda>_ _. True)"
    if t: "task_ok j t" "rtType t = ReduceTask" for t
  proof -
    obtain r where r: "r < jbN j" "rtID t = int r" "rtNMap t = int (nMaps j)" using t by (auto simp: task_ok_def)
    show ?thesis
      unfolding wp_pbind
      by (rule doReduceTask_wp [OF assms r]) (use Suc r t in \<open>auto simp: reportTask_def\<close>)
  qed
  ultimately show ?case
    using Suc by (auto split: task_type.splits)
qed simp

interpretation mr: net_logic "mr_exec j" mr_env "mr_ops j" "mr_inv j" "mr_okm j" "mr_po j" "mr_holds j" "\<lambda>p. mr_al j"
  "\<lambda>p K q. K" "\<lambda>p. mr_le j" "\<lambda>p a K. job_ok j" for j
proof
  fix s K S p q
  assume "\<forall>f\<in>K. mr_holds j s S p f" "mr_al j K q"
  then show "mr_okm j s p q" by (cases q) fastforce+
next
  fix s :: mr_world and S K p q and f :: mr_fact
  assume "\<forall>f\<in>K. mr_holds j s S p f" "f \<in> K"
  then show "mr_holds j s (insert (p, q) S) p f" by (cases f) auto
next
  fix s S p' f p q
  assume "mr_holds j s S p' f"
  then show "mr_holds j s (insert (p, q) S) p' f" by (cases f) auto
next
  fix s p q s' r
  assume e: "mr_inv j s" "mr_okm j s p q" "mr_exec j s q s' r"
  show "mr_inv j s'" by (rule mr_exec_inv [OF e])
  show "mr_po j q r" by (rule mr_exec_po [OF e])
  show "mr_okm j s' p' q'" if "mr_okm j s p' q'" for p' q'
    using that mr_exec_files(1,2) [OF e(3,2)] by (cases q') auto
  show "mr_holds j s' S p' f" if "mr_holds j s S p' f" for S p' f
    using that mr_exec_files(1,2) [OF e(3,2)] by (cases f) auto
  show "mr_holds j s' S p f" if "f \<in> mr_le j K q r" for S K f by (rule mr_exec_learn [OF e that])
next
  fix s s'
  assume e: "mr_env s s'"
  have fs: "mwFs s' = mwFs s" "mwCo s' = mwCo s" using e by (auto simp: mr_env_def)
  show "mr_inv j s'" if "mr_inv j s" using that by (simp add: mr_inv_def fs)
  show "mr_okm j s' p q" if "mr_okm j s p q" for p q using that by (cases q) (simp_all add: fs)
  show "mr_holds j s' S p f" if "mr_holds j s S p f" for S p f using that by (cases f) (simp_all add: fs)
next
  fix p K a pr
  assume "job_ok j" "mr_ops j p a pr"
  then show "mr_wp j pr K (\<lambda>a K. job_ok j)" by (auto simp: mr_ops_def intro: Worker_wp [THEN wp_conseq])
qed

section \<open>The result of a job\<close>

lemma readAll_run:
  assumes "\<forall>f \<in> set names. fs f \<noteq> None"
  shows "readAll mapf fs names acc = Some (acc @ concat (map (\<lambda>f. mapf f (the (fs f))) names))"
  using assms by (induction names arbitrary: acc) auto

lemma mrsequential_run:
  assumes "job_ok j"
  shows "mrsequential (jbSort j) (jbMapf j) (jbReducef j) (jbInput j) (jbFiles j) = Some (result_of (jbReducef j) (all_pairs j))"
proof -
  have "concat (map (\<lambda>f. jbMapf j f (the (jbInput j f))) (jbFiles j)) = all_pairs j"
    unfolding all_pairs_def mapped_def input_def nMaps_def
    by (rule arg_cong [where f = concat]) (rule nth_equalityI; simp)
  moreover have "\<forall>f \<in> set (jbFiles j). jbInput j f \<noteq> None" using job_okD(2) [OF assms] by blast
  ultimately show ?thesis
    using job_okD(5,8) [OF assms] by (simp add: mrsequential_def readAll_run reduceLoop_sort)
qed

lemma mr_reachable:
  assumes "job_ok j" "(net_step (mr_exec j) mr_env (mr_ops j))\<^sup>*\<^sup>* (net_init (mr_start j) (\<lambda>_. ())) w"
  shows "mr.net_inv j w"
  by (rule mr.net_reachable [OF assms(2), where ?K0.0 = "\<lambda>_. {}"])
    (use assms(1) MakeCoordinator_ok job_okD(1) [OF assms(1)] in \<open>auto simp: mr_inv_def mr_start_def\<close>)

section \<open>A job can finish\<close>

lemma writeBuckets_solo:
  assumes "\<forall>b \<in> set buckets. encodeBucket cd b \<noteq> None"
  shows "\<exists>s'. solo (mr_exec j) s (writeBuckets cd taskID i buckets) s' (Ret True) \<and> mwCo s' = mwCo s \<and> mwNow s' = mwNow s"
  using assms
proof (induction buckets arbitrary: s i)
  case (Cons b buckets)
  obtain c where c: "encodeBucket cd b = Some c" using Cons.prems by auto
  let ?s = "s\<lparr>mwFs := (mwFs s)(intermediateName taskID (int i) \<mapsto> c)\<rparr>"
  obtain s' where "solo (mr_exec j) ?s (writeBuckets cd taskID (i + 1) buckets) s' (Ret True)" "mwCo s' = mwCo s" "mwNow s' = mwNow s"
    using Cons by fastforce
  then show ?case using c by (intro exI [of _ s']) (auto intro!: solo.call [of _ _ _ ?s Written])
qed (auto intro: solo.stop)

lemma doMapTask_solo:
  assumes "mr_inv j s" "task_ok j t" "rtType t = MapTask"
  shows "\<exists>s'. solo (mr_exec j) s (doMapTask (jbCodec j) t) s' (Ret True) \<and> mwCo s' = mwCo s \<and> mwNow s' = mwNow s"
proof -
  note job = job_okD [OF mr_invD(1) [OF assms(1)]]
  obtain m where m: "m < nMaps j" "rtID t = int m" "rtFileName t = jbFiles j ! m" "rtNReduce t = int (jbN j)"
    using assms(2,3) by (auto simp: task_ok_def)
  then have f: "rtFileName t \<in> set (jbFiles j)" by (simp add: nMaps_def)
  then obtain c where c: "mwFs s (rtFileName t) = Some c" using mr_invD(3) [OF assms(1) f] job(2) by fastforce
  define kva where "kva = jbMapf j (rtFileName t) c"
  define bs where "bs = map (\<lambda>r. filter (in_bucket (int (jbN j)) r) kva) [0..<jbN j]"
  have "encodeBucket (jbCodec j) (filter P kva) \<noteq> None" for P
    using encodeBucket_total [OF job(6), of "filter P kva"] job(7) by (force simp: kva_def list_all_iff)
  then have "\<forall>b \<in> set bs. encodeBucket (jbCodec j) b \<noteq> None" by (auto simp: bs_def)
  from writeBuckets_solo [OF this] obtain s' where s': "solo (mr_exec j) s (writeBuckets (jbCodec j) (int m) 0 bs) s' (Ret True)"
    "mwCo s' = mwCo s" "mwNow s' = mwNow s" by blast
  have "fillBuckets (int (jbN j)) kva (replicate (jbN j) []) = Some bs"
    using fillBuckets_run [of "int (jbN j)" kva] job(1) by (simp add: bs_def)
  then have "solo (mr_exec j) s (doMapTask (jbCodec j) t) s' (Ret True)"
    unfolding doMapTask_def using m c s'(1)
    by (intro solo.call [of _ _ _ s "FileData c"] ) (auto intro!: solo.call [of _ _ _ s "Mapped kva"] simp: kva_def)
  then show ?thesis using s' by blast
qed

lemma readLoop_solo:
  assumes "job_ok j" "\<forall>m \<in> set ms. good j (mwFs s) m r"
  shows "\<exists>kvs. solo (mr_exec j) s (readLoop (jbCodec j) (int r) ms acc) s (Ret (Some kvs))"
  using assms(2)
proof (induction ms arbitrary: acc)
  case (Cons m ms)
  obtain c kvs where c: "mwFs s (intermediateName (int m) (int r)) = Some c"
    "encodeBucket (jbCodec j) kvs = Some c" "list_all (jbValid j) kvs" using Cons.prems by (auto simp: good_def inter_ok_def)
  have d: "decodeLoop (Suc (length c)) (jbCodec j) c acc = Some (acc @ kvs)"
    by (rule decodeLoop_encodeBucket [OF job_okD(6) [OF assms(1)] c(3,2)]) simp
  obtain kvs' where "solo (mr_exec j) s (readLoop (jbCodec j) (int r) ms (acc @ kvs)) s (Ret (Some kvs'))" using Cons by fastforce
  then show ?case
    using c(1) d by (intro exI [of _ kvs']) (auto intro!: solo.call [of _ _ _ s "FileData c"] simp del: decodeLoop.simps)
qed (auto intro: solo.stop)

lemma doReduceTask_solo:
  assumes "mr_inv j s" "task_ok j t" "rtType t = ReduceTask" "allMapTasksDone (mwCo s)"
  shows "\<exists>s'. solo (mr_exec j) s (doReduceTask (jbCodec j) (jbSort j) (jbReducef j) t) s' (Ret True) \<and> mwCo s' = mwCo s \<and> mwNow s' = mwNow s"
proof -
  obtain r where r: "r < jbN j" "rtID t = int r" "rtNMap t = int (nMaps j)" using assms(2,3) by (auto simp: task_ok_def)
  have "\<forall>m \<in> set [0..<nMaps j]. good j (mwFs s) m r"
    using mr_invD(2,4) [OF assms(1)] assms(4) r(1)
    by (auto simp: co_ok_def allMapTasksDone_def allTasksDone_completed tasks_ok_def nMaps_def)
  from readLoop_solo [OF mr_invD(1) [OF assms(1)] this]
  obtain kvs where "solo (mr_exec j) s (readLoop (jbCodec j) (int r) [0..<nMaps j] []) s (Ret (Some kvs))" by blast
  then have "solo (mr_exec j) s (doReduceTask (jbCodec j) (jbSort j) (jbReducef j) t)
      (s\<lparr>mwFs := (mwFs s)(outName (int r) \<mapsto> concat (map outLine (reduceLoop (jbReducef j) (jbSort j kvs))))\<rparr>) (Ret True)"
    unfolding doReduceTask_def r(2,3) nat_int
    by (rule solo_pbind) (auto intro!: solo.call [of _ _ _ _ Written] solo.stop)
  then show ?thesis by (intro exI conjI, assumption, simp_all)
qed

text \<open>When ten seconds have passed, every task that is not completed can be handed out.\<close>

definition ripe :: "int \<Rightarrow> task list \<Rightarrow> bool" where
  "ripe now ts \<longleftrightarrow> (\<forall>t \<in> set ts. tkStatus t = Completed \<or> tkStatus t = Idle \<or> taskTimedOut now t)"

definition missing :: "task list \<Rightarrow> nat" where
  "missing ts = length (filter (\<lambda>t. tkStatus t \<noteq> Completed) ts)"

lemma missing_0: "missing ts = 0 \<longleftrightarrow> allTasksDone ts"
  by (auto simp: missing_def allTasksDone_def filter_empty_conv list_all_iff)

lemma assignFirst_ripe:
  assumes "ripe now ts" "\<not> allTasksDone ts"
  shows "\<exists>ts' t. assignFirst now ts = Some (ts', t)"
  using assms by (induction ts) (auto simp: ripe_def allTasksDone_def)

lemma missing_update:
  assumes "i < length ts" "tkStatus (ts ! i) \<noteq> Completed" "tkStatus t = Completed"
  shows "missing (ts[i := t]) + 1 = missing ts"
proof -
  have m: "missing (xs @ y # ys) = missing xs + missing [y] + missing ys" for xs ys y by (simp add: missing_def)
  have "missing ts = missing (take i ts) + missing [ts ! i] + missing (drop (Suc i) ts)"
    by (subst id_take_nth_drop [OF assms(1)]) (rule m)
  moreover have "missing (ts[i := t]) = missing (take i ts) + missing [t] + missing (drop (Suc i) ts)"
    unfolding upd_conv_take_nth_drop [OF assms(1)] by (rule m)
  moreover have "missing [ts ! i] = 1" "missing [t] = 0" using assms(2,3) by (simp_all add: missing_def)
  ultimately show ?thesis by simp
qed

lemma assign_complete:
  assumes "assignFirst now ts = Some (ts', t)" "tasks_ok names ts" "ripe now ts"
  shows "ripe now (complete ts' (tkID t))" "missing (complete ts' (tkID t)) + 1 = missing ts"
    "0 \<le> tkID t" "tkID t < int (length ts')" "length ts' = length ts"
proof -
  obtain i where i: "i < length ts" "t = ts ! i" "tkStatus t \<noteq> Completed"
    "ts' = ts[i := t\<lparr>tkStatus := InProgress, tkStartTime := now\<rparr>]" using assignFirst_Some [OF assms(1)] by blast
  have id: "tkID t = int i" using assms(2) i by (simp add: tasks_ok_def)
  then have c: "complete ts' (tkID t) = ts[i := t\<lparr>tkStartTime := now, tkStatus := Completed\<rparr>]"
    using i by (simp add: complete_def)
  show "missing (complete ts' (tkID t)) + 1 = missing ts" unfolding c using i by (intro missing_update) auto
  show "ripe now (complete ts' (tkID t))"
    unfolding c ripe_def using assms(3) set_update_subset_insert [of ts i] by (fastforce simp: ripe_def)
  show "0 \<le> tkID t" "tkID t < int (length ts')" "length ts' = length ts" using id i by auto
qed

definition waiting :: "mr_world \<Rightarrow> nat" where
  "waiting s = missing (coMapTasks (mwCo s)) + missing (coReduceTasks (mwCo s))"

definition all_ripe :: "mr_world \<Rightarrow> bool" where
  "all_ripe s \<longleftrightarrow> ripe (mwNow s) (coMapTasks (mwCo s)) \<and> ripe (mwNow s) (coReduceTasks (mwCo s))"

text \<open>One turn of a worker that is alone: a task gets completed, or the job is done.\<close>

lemma map_turn:
  assumes "mr_inv j s" "all_ripe s" "\<not> allMapTasksDone (mwCo s)"
  shows "\<exists>s'. solo (mr_exec j) s (Worker (Suc n) (jbCodec j) (jbSort j) (jbReducef j)) s' (Worker n (jbCodec j) (jbSort j) (jbReducef j)) \<and>
    all_ripe s' \<and> waiting s' + 1 = waiting s"
proof -
  let ?c = "mwCo s"
  have ph: "coPhase ?c = MapPhase" and tk: "tasks_ok (jbFiles j) (coMapTasks ?c)"
    using mr_invD(2) [OF assms(1)] assms(3) by (auto simp: co_ok_def)
  obtain ts t where a: "assignFirst (mwNow s) (coMapTasks ?c) = Some (ts, t)"
    using assignFirst_ripe [of "mwNow s" "coMapTasks ?c"] assms(2,3) by (auto simp: all_ripe_def allMapTasksDone_def)
  have "ripe (mwNow s) (coMapTasks ?c)" using assms(2) by (simp add: all_ripe_def)
  note ac = assign_complete [OF a tk this]
  obtain reply where req: "RequestTask (mwNow s) ?c = (?c\<lparr>coMapTasks := ts\<rparr>, reply)" "rtType reply = MapTask" "rtID reply = tkID t"
    using a ph assms(3) by (simp add: RequestTask_def Let_def)
  let ?s1 = "s\<lparr>mwCo := ?c\<lparr>coMapTasks := ts\<rparr>\<rparr>"
  have e1: "mr_exec j s CallRequestTask ?s1 (TaskReply reply)" using req(1) by simp
  have inv1: "mr_inv j ?s1" by (rule mr_exec_inv [OF assms(1) _ e1]) simp
  have "task_ok j reply" using RequestTask_ok [OF mr_invD(2) [OF assms(1)] req(1)] by blast
  from doMapTask_solo [OF inv1 this req(2)]
  obtain s2 where s2: "solo (mr_exec j) ?s1 (doMapTask (jbCodec j) reply) s2 (Ret True)" "mwCo s2 = mwCo ?s1" "mwNow s2 = mwNow s"
    by auto
  let ?args = "\<lparr>raType = MapTask, raID = rtID reply\<rparr>"
  let ?s3 = "s2\<lparr>mwCo := ReportTask ?args (mwCo s2)\<rparr>"
  let ?W = "Worker n (jbCodec j) (jbSort j) (jbReducef j)"
  have rep: "coMapTasks (ReportTask ?args (mwCo s2)) = complete ts (tkID t)" "coReduceTasks (ReportTask ?args (mwCo s2)) = coReduceTasks ?c"
    using ac s2(2) ph req(3) by (auto simp: ReportTask_def Let_def all_ripe_def)
  have "solo (mr_exec j) s2 (pbind (reportTask MapTask (rtID reply)) (\<lambda>ok. if \<not> ok then Ret () else ?W)) ?s3 ?W"
    unfolding reportTask_def by (auto intro!: solo.call [of _ _ _ ?s3 Reported] solo.stop)
  then have "solo (mr_exec j) s (Worker (Suc n) (jbCodec j) (jbSort j) (jbReducef j)) ?s3 ?W"
    using solo_pbind [OF s2(1), of "\<lambda>ok. if \<not> ok then Ret () else pbind (reportTask MapTask (rtID reply)) (\<lambda>ok. if \<not> ok then Ret () else ?W)"] e1 req(2)
    by (auto intro!: solo.call [of _ _ _ ?s1 "TaskReply reply"] simp del: pbind.simps)
  then show ?thesis
    using ac assms(2) rep s2(3) by (intro exI [of _ ?s3]) (auto simp: all_ripe_def waiting_def)
qed

lemma reduce_turn:
  assumes "mr_inv j s" "all_ripe s" "allMapTasksDone (mwCo s)" "\<not> allReduceTasksDone (mwCo s)"
  shows "\<exists>s'. solo (mr_exec j) s (Worker (Suc n) (jbCodec j) (jbSort j) (jbReducef j)) s' (Worker n (jbCodec j) (jbSort j) (jbReducef j)) \<and>
    all_ripe s' \<and> waiting s' + 1 = waiting s"
proof -
  let ?c = "mwCo s"
  have ph: "coPhase ?c \<noteq> DonePhase" and tk: "tasks_ok (replicate (jbN j) []) (coReduceTasks ?c)"
    using mr_invD(2) [OF assms(1)] assms(4) by (auto simp: co_ok_def)
  obtain ts t where a: "assignFirst (mwNow s) (coReduceTasks ?c) = Some (ts, t)"
    using assignFirst_ripe [of "mwNow s" "coReduceTasks ?c"] assms(2,4) by (auto simp: all_ripe_def allReduceTasksDone_def)
  have "ripe (mwNow s) (coReduceTasks ?c)" using assms(2) by (simp add: all_ripe_def)
  note ac = assign_complete [OF a tk this]
  let ?c1 = "?c\<lparr>coPhase := ReducePhase, coReduceTasks := ts\<rparr>"
  obtain reply where req: "RequestTask (mwNow s) ?c = (?c1, reply)" "rtType reply = ReduceTask" "rtID reply = tkID t"
    using a ph assms(3,4)
    by (cases "coPhase ?c") (simp_all add: RequestTask_def requestReduce_def Let_def allReduceTasksDone_def)
  let ?s1 = "s\<lparr>mwCo := ?c1\<rparr>"
  have e1: "mr_exec j s CallRequestTask ?s1 (TaskReply reply)" using req(1) by simp
  have inv1: "mr_inv j ?s1" by (rule mr_exec_inv [OF assms(1) _ e1]) simp
  have "task_ok j reply" using RequestTask_ok [OF mr_invD(2) [OF assms(1)] req(1)] by blast
  from doReduceTask_solo [OF inv1 this req(2)] assms(3)
  obtain s2 where s2: "solo (mr_exec j) ?s1 (doReduceTask (jbCodec j) (jbSort j) (jbReducef j) reply) s2 (Ret True)"
    "mwCo s2 = mwCo ?s1" "mwNow s2 = mwNow s"
    by (auto simp: allMapTasksDone_def)
  let ?args = "\<lparr>raType = ReduceTask, raID = rtID reply\<rparr>"
  let ?s3 = "s2\<lparr>mwCo := ReportTask ?args (mwCo s2)\<rparr>"
  let ?W = "Worker n (jbCodec j) (jbSort j) (jbReducef j)"
  have rep: "coReduceTasks (ReportTask ?args (mwCo s2)) = complete ts (tkID t)" "coMapTasks (ReportTask ?args (mwCo s2)) = coMapTasks ?c"
    using ac s2(2) req(3) by (auto simp: ReportTask_def Let_def all_ripe_def)
  have "solo (mr_exec j) s2 (pbind (reportTask ReduceTask (rtID reply)) (\<lambda>ok. if \<not> ok then Ret () else ?W)) ?s3 ?W"
    unfolding reportTask_def by (auto intro!: solo.call [of _ _ _ ?s3 Reported] solo.stop)
  then have "solo (mr_exec j) s (Worker (Suc n) (jbCodec j) (jbSort j) (jbReducef j)) ?s3 ?W"
    using solo_pbind [OF s2(1), of "\<lambda>ok. if \<not> ok then Ret () else pbind (reportTask ReduceTask (rtID reply)) (\<lambda>ok. if \<not> ok then Ret () else ?W)"] e1 req(2)
    by (auto intro!: solo.call [of _ _ _ ?s1 "TaskReply reply"] simp del: pbind.simps)
  then show ?thesis
    using ac assms(2) rep s2(3) by (intro exI [of _ ?s3]) (auto simp: all_ripe_def waiting_def)
qed

lemma last_turn:
  assumes "mr_inv j s" "allMapTasksDone (mwCo s)" "allReduceTasksDone (mwCo s)"
  shows "\<exists>s'. solo (mr_exec j) s (Worker (Suc n) (jbCodec j) (jbSort j) (jbReducef j)) s' (Ret ()) \<and> Coordinator_Done (mwCo s')"
proof -
  obtain c' t where req: "RequestTask (mwNow s) (mwCo s) = (c', t)" by (cases "RequestTask (mwNow s) (mwCo s)")
  then have "Coordinator_Done c'" "rtType t = ExitTask"
    using assms(2,3) by (cases "coPhase (mwCo s)"; auto simp: RequestTask_def requestReduce_def Let_def Coordinator_Done_def allReduceTasksDone_def)+
  then have "solo (mr_exec j) s (Worker (Suc n) (jbCodec j) (jbSort j) (jbReducef j)) (s\<lparr>mwCo := c'\<rparr>) (Ret ())"
    using req by (auto intro!: solo.call [of _ _ _ "s\<lparr>mwCo := c'\<rparr>" "TaskReply t"] solo.stop)
  then show ?thesis using \<open>Coordinator_Done c'\<close> by (intro exI [of _ "s\<lparr>mwCo := c'\<rparr>"]) simp
qed

lemma worker_alone:
  assumes "mr.net_inv j w" "all_ripe (nServer w)" "waiting (nServer w) = n" "nProcs w p = (Worker (Suc n) (jbCodec j) (jbSort j) (jbReducef j), None)"
  shows "\<exists>w'. (net_step (mr_exec j) mr_env (mr_ops j))\<^sup>*\<^sup>* w w' \<and> nProcs w' = (nProcs w)(p := (Ret (), None)) \<and> Coordinator_Done (mwCo (nServer w'))"
  using assms
proof (induction n arbitrary: w)
  let ?R = "net_step (mr_exec j) mr_env (mr_ops j)"
  case 0
  note inv = mr.net_invD(1) [OF 0(1)]
  have "allMapTasksDone (mwCo (nServer w))" "allReduceTasksDone (mwCo (nServer w))"
    using 0(3) by (simp_all add: waiting_def allMapTasksDone_def allReduceTasksDone_def missing_0)
  from last_turn [OF inv this, of 0] obtain s' where s': "solo (mr_exec j) (nServer w) (Worker (Suc 0) (jbCodec j) (jbSort j) (jbReducef j)) s' (Ret ())" "Coordinator_Done (mwCo s')"
    by blast
  from net_solo [OF s'(1) refl 0(4), of mr_env "mr_ops j"] s'(2) show ?case by auto
next
  let ?R = "net_step (mr_exec j) mr_env (mr_ops j)"
  case (Suc n)
  note inv = mr.net_invD(1) [OF Suc(2)]
  have "\<not> allMapTasksDone (mwCo (nServer w)) \<or> \<not> allReduceTasksDone (mwCo (nServer w))"
    using Suc(4) by (auto simp: waiting_def allMapTasksDone_def allReduceTasksDone_def missing_0 [symmetric])
  then obtain s' where s': "solo (mr_exec j) (nServer w) (Worker (Suc (Suc n)) (jbCodec j) (jbSort j) (jbReducef j)) s' (Worker (Suc n) (jbCodec j) (jbSort j) (jbReducef j))"
    "all_ripe s'" "waiting s' + 1 = Suc n"
    using map_turn [OF inv Suc(3)] reduce_turn [OF inv Suc(3)] Suc(4) by metis
  from net_solo [OF s'(1) refl Suc(5), of mr_env "mr_ops j"]
  obtain w1 where w1: "?R\<^sup>*\<^sup>* w w1" "nServer w1 = s'" "nProcs w1 = (nProcs w)(p := (Worker (Suc n) (jbCodec j) (jbSort j) (jbReducef j), None))" by blast
  have "mr.net_inv j w1" using w1(1) Suc(2) by (induction rule: rtranclp_induct) (auto intro: mr.net_step_inv)
  moreover have "nProcs w1 p = (Worker (Suc n) (jbCodec j) (jbSort j) (jbReducef j), None)" using w1(3) by (simp del: Worker.simps)
  ultimately obtain w' where w': "?R\<^sup>*\<^sup>* w1 w'" "nProcs w' = (nProcs w1)(p := (Ret (), None))" "Coordinator_Done (mwCo (nServer w'))"
    using Suc.IH [of w1] s'(2,3) w1(2) by (metis Suc_eq_plus1 nat.inject)
  have "?R\<^sup>*\<^sup>* w w'" by (rule rtranclp_trans [OF w1(1) w'(1)])
  then show ?case using w' w1(3) by (intro exI [of _ w']) (simp del: Worker.simps)
qed

lemma job_finishes:
  assumes "job_ok j" "(net_step (mr_exec j) mr_env (mr_ops j))\<^sup>*\<^sup>* (net_init (mr_start j) (\<lambda>_. ())) w"
    and "nProcs w p = (Ret (), None)"
  shows "\<exists>w'. (net_step (mr_exec j) mr_env (mr_ops j))\<^sup>*\<^sup>* w w' \<and> nProcs w' = nProcs w \<and> Coordinator_Done (mwCo (nServer w'))"
proof -
  let ?R = "net_step (mr_exec j) mr_env (mr_ops j)"
  let ?ts = "coMapTasks (mwCo (nServer w)) @ coReduceTasks (mwCo (nServer w))"
  define t where "t = Max (insert (mwNow (nServer w)) ((\<lambda>t. tkStartTime t + 10 * 1000000000 + 1) ` set ?ts))"
  have t: "mwNow (nServer w) \<le> t" "\<And>x. x \<in> set ?ts \<Longrightarrow> tkStartTime x + 10 * 1000000000 + 1 \<le> t"
    unfolding t_def by (intro Max_ge; simp)+
  have late: "tkStatus x = Completed \<or> tkStatus x = Idle \<or> taskTimedOut t x" if "x \<in> set ?ts" for x
    using t(2) [OF that] by (cases "tkStatus x") (auto simp: taskTimedOut_def)
  define w1 where "w1 = w\<lparr>nServer := (nServer w)\<lparr>mwNow := t\<rparr>\<rparr>"
  have s1: "?R w w1" unfolding w1_def by (rule net_step.other) (use t(1) in \<open>auto simp: mr_env_def\<close>)
  define n where "n = waiting (nServer w1)"
  define w2 where "w2 = w1\<lparr>nProcs := (nProcs w1)(p := (Worker (Suc n) (jbCodec j) (jbSort j) (jbReducef j), None))\<rparr>"
  have s2: "?R w1 w2" unfolding w2_def
    by (rule net_step.start [of _ _ "()"]) (use assms(3) in \<open>auto simp: w1_def mr_ops_def simp del: Worker.simps\<close>)
  have i2: "mr.net_inv j w2"
    using mr.net_step_inv [OF s2 mr.net_step_inv [OF s1 mr_reachable [OF assms(1,2)]]] .
  have "all_ripe (nServer w2)" using late by (auto simp: all_ripe_def ripe_def w1_def w2_def)
  from worker_alone [OF i2 this, of n p]
  obtain w' where w': "?R\<^sup>*\<^sup>* w2 w'" "nProcs w' = (nProcs w2)(p := (Ret (), None))" "Coordinator_Done (mwCo (nServer w'))"
    by (auto simp: n_def w2_def simp del: Worker.simps)
  have "?R\<^sup>*\<^sup>* w w'"
    by (rule converse_rtranclp_into_rtranclp [of ?R, OF s1 converse_rtranclp_into_rtranclp [of ?R, OF s2 w'(1)]])
  moreover have "nProcs w' = nProcs w" using w'(2) assms(3) by (auto simp: w1_def w2_def simp del: Worker.simps)
  ultimately show ?thesis using w'(3) by blast
qed

section \<open>A sample job\<close>

text \<open>
  A codec: a key without blanks, a blank, a value, a newline. The reduce functions of the two
  applications do not depend on the order of the values.
\<close>

fun sample_decode :: "string \<Rightarrow> decoded" where
  "sample_decode [] = AtEOF"
| "sample_decode (c # cs) =
     (if c = CHR 0x0A then sample_decode cs
      else case dropWhile (\<lambda>x. x \<noteq> CHR '' '') (c # cs) of
        [] \<Rightarrow> DecodeError
      | _ # rest \<Rightarrow>
          GotValue \<lparr>kvKey = takeWhile (\<lambda>x. x \<noteq> CHR '' '') (c # cs), kvValue = takeWhile (\<lambda>x. x \<noteq> CHR 0x0A) rest\<rparr>
            (dropWhile (\<lambda>x. x \<noteq> CHR 0x0A) rest))"

definition sample_mr_codec :: mr_codec where
  "sample_mr_codec = \<lparr>mrEncode = (\<lambda>kv. Some ((kvKey kv @ '' '' @ kvValue kv) @ [CHR 0x0A])), mrDecode = sample_decode\<rparr>"

definition sample_valid :: "key_value \<Rightarrow> bool" where
  "sample_valid kv \<longleftrightarrow> kvKey kv \<noteq> [] \<and> CHR '' '' \<notin> set (kvKey kv) \<and> CHR 0x0A \<notin> set (kvKey kv) \<and> CHR 0x0A \<notin> set (kvValue kv)"

lemma takeWhile_upto: "x \<notin> set xs \<Longrightarrow> takeWhile (\<lambda>y. y \<noteq> x) (xs @ x # ys) = xs"
  "x \<notin> set xs \<Longrightarrow> dropWhile (\<lambda>y. y \<noteq> x) (xs @ x # ys) = x # ys"
  by (induction xs) auto

lemma sample_decode_key:
  assumes "key \<noteq> []" "CHR '' '' \<notin> set key" "CHR 0x0A \<notin> set key" "CHR 0x0A \<notin> set val"
  shows "sample_decode (key @ CHR '' '' # val @ CHR 0x0A # rest) = GotValue \<lparr>kvKey = key, kvValue = val\<rparr> (CHR 0x0A # rest)"
proof -
  obtain c cs where k: "key = c # cs" using assms(1) by (cases key) auto
  have "takeWhile (\<lambda>x. x \<noteq> CHR '' '') (key @ CHR '' '' # val @ CHR 0x0A # rest) = key"
    "dropWhile (\<lambda>x. x \<noteq> CHR '' '') (key @ CHR '' '' # val @ CHR 0x0A # rest) = CHR '' '' # val @ CHR 0x0A # rest"
    using takeWhile_upto [OF assms(2)] by simp_all
  moreover have "takeWhile (\<lambda>x. x \<noteq> CHR 0x0A) (val @ CHR 0x0A # rest) = val"
    "dropWhile (\<lambda>x. x \<noteq> CHR 0x0A) (val @ CHR 0x0A # rest) = CHR 0x0A # rest"
    using takeWhile_upto [OF assms(4)] by simp_all
  moreover have "c \<noteq> CHR 0x0A" using assms(3) k by auto
  ultimately show ?thesis unfolding k by simp
qed

lemma sample_mr_codec_ok: "codec_ok sample_valid sample_mr_codec"
  unfolding codec_ok_def
proof (intro conjI allI impI)
  fix kv
  assume "sample_valid kv"
  then show "\<exists>b. mrEncode sample_mr_codec kv = Some (b @ [CHR 0x0A]) \<and>
      (\<forall>rest. mrDecode sample_mr_codec (b @ CHR 0x0A # rest) = GotValue kv (CHR 0x0A # rest))"
    using sample_decode_key [of "kvKey kv" "kvValue kv"]
    by (intro exI [of _ "kvKey kv @ '' '' @ kvValue kv"]) (simp add: sample_mr_codec_def sample_valid_def)
qed (simp_all add: sample_mr_codec_def)

lemma sort_key_ok: "sort_ok (sort_key kvKey)"
  by (simp add: sort_ok_def)

lemma wc_order_free: "order_free wc_Reduce"
  by (auto simp: order_free_def wc_Reduce_def dest: mset_eq_length)

lemma indexer_order_free: "order_free indexer_Reduce"
proof -
  have "sort vs = sort ws" if "mset vs = mset ws" for vs ws :: "string list"
    using that by (metis properties_for_sort sorted_sort mset_sort)
  then show ?thesis unfolding order_free_def indexer_Reduce_def Let_def by metis
qed

definition sample_job :: job where
  "sample_job = \<lparr>jbFiles = [''pg-a'', ''pg-b''], jbN = 2, jbInput = [''pg-a'' \<mapsto> ''x'', ''pg-b'' \<mapsto> ''y''],
     jbMapf = (\<lambda>f c. [\<lparr>kvKey = ''w'', kvValue = ''1''\<rparr>]), jbReducef = wc_Reduce, jbSort = sort_key kvKey,
     jbCodec = sample_mr_codec, jbValid = sample_valid\<rparr>"

lemma sample_job_ok: "job_ok sample_job"
proof -
  have "intermediateName (int m) (int r) \<noteq> CHR ''p'' # s" "outName (int r) \<noteq> CHR ''p'' # s" for m r s
    by (simp_all add: intermediateName_def outName_def)
  then have "CHR ''p'' # s \<noteq> intermediateName (int m) (int r)" "CHR ''p'' # s \<noteq> outName (int r)" for m r s by metis+
  then show ?thesis
    by (simp add: job_ok_def sample_job_def sample_mr_codec_ok sort_key_ok wc_order_free) (simp add: sample_valid_def)
qed

lemma sample_job_done:
  "\<exists>w. (net_step (mr_exec sample_job) mr_env (mr_ops sample_job))\<^sup>*\<^sup>* (net_init (mr_start sample_job) (\<lambda>_ :: nat. ())) w \<and>
     Coordinator_Done (mwCo (nServer w))"
  using job_finishes [OF sample_job_ok rtranclp.rtrancl_refl, of 0] by (fastforce simp: net_init_def)

section \<open>Properties\<close>

text \<open>
  C12. When the coordinator of a job says that the job is done, the files \<^verbatim>\<open>mr-out-0\<close>, \<^verbatim>\<open>mr-out-1\<close>, \<dots>
  have together exactly the lines that the sequential program prints, whatever the workers did before:
  any number of workers, stopped anywhere, with calls that failed and tasks that several workers executed
  at the same time. The reduce function must not depend on the order of the values of a key.
\<close>

theorem mapreduce_is_mrsequential:
  assumes "job_ok j" "(net_step (mr_exec j) mr_env (mr_ops j))\<^sup>*\<^sup>* (net_init (mr_start j) (\<lambda>_. ())) w"
    and "Coordinator_Done (mwCo (nServer w))"
  shows "\<exists>seq. mrsequential (jbSort j) (jbMapf j) (jbReducef j) (jbInput j) (jbFiles j) = Some seq \<and>
    (\<exists>lines. length lines = jbN j \<and> mset (concat lines) = mset seq \<and>
       (\<forall>r<jbN j. mwFs (nServer w) (outName (int r)) = Some (concat (map outLine (lines ! r)))))"
proof -
  have inv: "mr_inv j (nServer w)" by (rule mr.net_invD(1) [OF mr_reachable [OF assms(1,2)]])
  have "completed (coReduceTasks (mwCo (nServer w))) r" if "r < jbN j" for r
    using mr_invD(2) [OF inv] assms(3) that
    by (simp add: co_ok_def Coordinator_Done_def allReduceTasksDone_def allTasksDone_completed tasks_ok_def)
  then have "mwFs (nServer w) (outName (int r)) = Some (concat (map outLine (map (out_lines j) [0..<jbN j] ! r)))" if "r < jbN j" for r
    using mr_invD(5) [OF inv] that by (fastforce simp: good_out_def out_ok_def)
  moreover have "mset (concat (map (out_lines j) [0..<jbN j])) = mset (result_of (jbReducef j) (all_pairs j))"
    unfolding out_lines_def in_part_def by (rule mset_result_buckets [OF job_okD(1) [OF assms(1)]])
  ultimately show ?thesis
    unfolding mrsequential_run [OF assms(1)]
    by (intro exI [of _ "result_of (jbReducef j) (all_pairs j)"] exI [of _ "map (out_lines j) [0..<jbN j]"] conjI) simp_all
qed

theorem mapreduce_is_mrsequential_witness:
  "\<exists>w lines. (net_step (mr_exec sample_job) mr_env (mr_ops sample_job))\<^sup>*\<^sup>* (net_init (mr_start sample_job) (\<lambda>_ :: nat. ())) w \<and>
     length lines = 2 \<and> mset (concat lines) = {#(''w'', ''2'')#} \<and>
     (\<forall>r<2. mwFs (nServer w) (outName (int r)) = Some (concat (map outLine (lines ! r))))"
proof -
  obtain w where w: "(net_step (mr_exec sample_job) mr_env (mr_ops sample_job))\<^sup>*\<^sup>* (net_init (mr_start sample_job) (\<lambda>_ :: nat. ())) w"
    "Coordinator_Done (mwCo (nServer w))" using sample_job_done by blast
  have "mrsequential (jbSort sample_job) (jbMapf sample_job) (jbReducef sample_job) (jbInput sample_job) (jbFiles sample_job) =
      Some [(''w'', ''2'')]"
    by (simp add: mrsequential_def sample_job_def wc_Reduce_def Itoa_def itoa.simps digit_def) (simp add: char_of_def bit_iff_odd)
  moreover have "jbN sample_job = 2" by (simp add: sample_job_def)
  ultimately show ?thesis
    using mapreduce_is_mrsequential [OF sample_job_ok w] w(1) by auto
qed

text \<open>
  C28. A job is never stuck: from every state it can get into, with workers that stopped in the middle of
  their tasks, one worker that starts now can bring it to its end, once ten seconds have passed.
\<close>

theorem job_never_stuck:
  assumes "job_ok j" "(net_step (mr_exec j) mr_env (mr_ops j))\<^sup>*\<^sup>* (net_init (mr_start j) (\<lambda>_. ())) w"
    and "nProcs w p = (Ret (), None)"
  shows "\<exists>w'. (net_step (mr_exec j) mr_env (mr_ops j))\<^sup>*\<^sup>* w w' \<and> Coordinator_Done (mwCo (nServer w'))"
  using job_finishes [OF assms] by blast

theorem job_never_stuck_witness:
  "\<exists>w'. (net_step (mr_exec sample_job) mr_env (mr_ops sample_job))\<^sup>*\<^sup>* (net_init (mr_start sample_job) (\<lambda>_ :: nat. ())) w' \<and>
     Coordinator_Done (mwCo (nServer w'))"
  by (rule job_never_stuck [OF sample_job_ok rtranclp.rtrancl_refl, of 0]) (simp add: net_init_def)

text \<open>
  C39. The hash of a key is between 0 and \<^verbatim>\<open>2^31 - 1\<close>, so for a positive number of reduce tasks the
  remainder is the index of a bucket: distributing the pairs does not panic, and the bucket \<open>r\<close> gets the
  pairs with that remainder, in their order. With no reduce task the division panics.
\<close>

theorem buckets_in_range:
  "0 \<le> ihash key \<and> ihash key < 2 ^ 31 \<and>
   fillBuckets nReduce kva (replicate (nat nReduce) []) =
     (if 0 < nReduce then Some (map (\<lambda>r. filter (\<lambda>kv. ihash (kvKey kv) mod nReduce = int r) kva) [0..<nat nReduce])
      else if kva = [] then Some [] else None)"
proof (cases "0 < nReduce")
  case True
  then show ?thesis using ihash_range [of key] fillBuckets_run [of nReduce kva] by (simp add: in_bucket_def [abs_def])
next
  case False
  then show ?thesis using ihash_range [of key] by (cases kva) (simp_all add: go_index_def Let_def)
qed

end
