(* ===== verification/Labrpc.thy ===== *)
theory Labrpc
  imports Prog Bytes
begin

text \<open>
  The simulated network of \<^verbatim>\<open>labrpc/labrpc.go\<close> that clients and servers talk through: its
  administration, the handling of one request cut at the points where it waits, and the dispatch to a
  method of a server.
\<close>

section \<open>Messages, services and servers\<close>

record req_msg =
  rqEndname :: string
  rqSvcMeth :: string
  rqArgs :: bytes

record reply_msg =
  rpOk :: bool
  rpReply :: bytes

text \<open>
  A method as reflection sees it: its shape, the decoder of its argument (\<^term>\<open>None\<close> where
  \<^verbatim>\<open>Unmarshall\<close> is fatal), the method itself on the state \<open>'w\<close> of all receivers, and the encoder of its
  reply. \<open>'v\<close> are the values that are sent.
\<close>

record ('w, 'v) rpc_method =
  mtName :: string
  mtPkgPath :: string
  mtNumIn :: nat
  mtReplyPtr :: bool
  mtNumOut :: nat
  mtUnmarshall :: "bytes \<Rightarrow> 'v option"
  mtFunc :: "'w \<Rightarrow> 'v \<Rightarrow> ('w \<times> 'v) option"
  mtEncode :: "'v \<Rightarrow> bytes"

record ('w, 'v) rpc_service =
  svcName :: string
  svcMethods :: "string \<rightharpoonup> ('w, 'v) rpc_method"

definition MakeService :: "string \<Rightarrow> ('w, 'v) rpc_method list \<Rightarrow> ('w, 'v) rpc_service" where
  "MakeService name methods =
     \<lparr>svcName = name,
      svcMethods = fold (\<lambda>m ms.
        if mtPkgPath m \<noteq> [] \<or> mtNumIn m \<noteq> 3 \<or> \<not> mtReplyPtr m \<or> mtNumOut m \<noteq> 0 then ms
        else ms(mtName m \<mapsto> m)) methods (\<lambda>_. None)\<rparr>"

text \<open>An unknown method is fatal.\<close>

definition Service_dispatch :: "('w, 'v) rpc_service \<Rightarrow> 'w \<Rightarrow> string \<Rightarrow> req_msg \<Rightarrow> ('w \<times> reply_msg) option" where
  "Service_dispatch svc w methname req = do {
     method \<leftarrow> svcMethods svc methname;
     args \<leftarrow> mtUnmarshall method (rqArgs req);
     (w, reply) \<leftarrow> mtFunc method w args;
     Some (w, \<lparr>rpOk = True, rpReply = mtEncode method reply\<rparr>)
   }"

record ('w, 'v) rpc_server =
  srServices :: "string \<rightharpoonup> ('w, 'v) rpc_service"
  srCount :: int
  srDispatchf :: "('w \<Rightarrow> string \<Rightarrow> bytes \<Rightarrow> ('w \<times> bytes \<times> bool) option) option"

definition MakeServer :: "('w, 'v) rpc_server" where
  "MakeServer = \<lparr>srServices = (\<lambda>_. None), srCount = 0, srDispatchf = None\<rparr>"

definition SetDispatch ::
  "('w, 'v) rpc_server \<Rightarrow> ('w \<Rightarrow> string \<Rightarrow> bytes \<Rightarrow> ('w \<times> bytes \<times> bool) option) \<Rightarrow> ('w, 'v) rpc_server" where
  "SetDispatch rs f = rs\<lparr>srDispatchf := Some f\<rparr>"

definition AddService :: "('w, 'v) rpc_server \<Rightarrow> ('w, 'v) rpc_service \<Rightarrow> ('w, 'v) rpc_server" where
  "AddService rs svc = rs\<lparr>srServices := (srServices rs)(svcName svc \<mapsto> svc)\<rparr>"

definition Server_GetCount :: "('w, 'v) rpc_server \<Rightarrow> int" where
  "Server_GetCount rs = srCount rs"

text \<open>\<^verbatim>\<open>strings.LastIndex(s, ".")\<close>\<close>

definition last_dot :: "string \<Rightarrow> int" where
  "last_dot s = (if CHR ''.'' \<in> set s then int (length s) - 1 - int (length (takeWhile (\<lambda>c. c \<noteq> CHR ''.'') (rev s))) else -1)"

text \<open>A name without a dot panics in the slice, an unknown service is fatal.\<close>

definition Server_dispatch ::
  "('w, 'v) rpc_server \<Rightarrow> 'w \<Rightarrow> req_msg \<Rightarrow> (('w, 'v) rpc_server \<times> 'w \<times> reply_msg) option" where
  "Server_dispatch rs w req = do {
     let rs = rs\<lparr>srCount := srCount rs + 1\<rparr>;
     let dot = last_dot (rqSvcMeth req);
     serviceName \<leftarrow> go_upto (rqSvcMeth req) dot;
     methodName \<leftarrow> go_from (rqSvcMeth req) (dot + 1);
     case srDispatchf rs of
       Some f \<Rightarrow> do {
         (w, rep, ok) \<leftarrow> f w (rqSvcMeth req) (rqArgs req);
         Some (rs, w, \<lparr>rpOk = ok, rpReply = rep\<rparr>)
       }
     | None \<Rightarrow> do {
         service \<leftarrow> srServices rs serviceName;
         (w, rep) \<leftarrow> Service_dispatch service w methodName req;
         Some (rs, w, rep)
       }
   }"

definition Server_Dispatch ::
  "('w, 'v) rpc_server \<Rightarrow> 'w \<Rightarrow> string \<Rightarrow> string \<Rightarrow> bytes \<Rightarrow> (('w, 'v) rpc_server \<times> 'w \<times> bytes \<times> bool) option" where
  "Server_Dispatch rs w svcMeth clnt args = do {
     (rs, w, rep) \<leftarrow> Server_dispatch rs w \<lparr>rqEndname = clnt, rqSvcMeth = svcMeth, rqArgs = args\<rparr>;
     Some (rs, w, rpReply rep, rpOk rep)
   }"

section \<open>The network\<close>

text \<open>
  Reading a missing key of the maps gives the zero value, so \<open>enabled\<close>, \<open>servers\<close> and \<open>connections\<close> are
  functions. A server is known by its address.
\<close>

record network =
  nwReliable :: bool
  nwLongDelays :: bool
  nwLongReordering :: bool
  nwEnds :: "string set"
  nwEnabled :: "string \<Rightarrow> bool"
  nwServers :: "string \<Rightarrow> nat option"
  nwConnections :: "string \<Rightarrow> string option"
  nwDone :: bool
  nwCount :: "32 word"
  nwBytes :: "64 word"

definition MakeNetwork :: network where
  "MakeNetwork =
     \<lparr>nwReliable = True, nwLongDelays = False, nwLongReordering = False, nwEnds = {}, nwEnabled = (\<lambda>_. False),
      nwServers = (\<lambda>_. None), nwConnections = (\<lambda>_. None), nwDone = False, nwCount = 0, nwBytes = 0\<rparr>"

text \<open>The goroutine of the network receives a request.\<close>

definition network_accept :: "network \<Rightarrow> req_msg \<Rightarrow> network" where
  "network_accept rn xreq = rn\<lparr>nwCount := nwCount rn + 1, nwBytes := nwBytes rn + of_nat (length (rqArgs xreq))\<rparr>"

text \<open>Closing a closed channel panics.\<close>

definition Cleanup :: "network \<Rightarrow> network option" where
  "Cleanup rn = (if nwDone rn then None else Some (rn\<lparr>nwDone := True\<rparr>))"

definition Reliable :: "network \<Rightarrow> bool \<Rightarrow> network" where
  "Reliable rn yes = rn\<lparr>nwReliable := yes\<rparr>"

definition IsReliable :: "network \<Rightarrow> bool" where
  "IsReliable rn = nwReliable rn"

definition LongReordering :: "network \<Rightarrow> bool \<Rightarrow> network" where
  "LongReordering rn yes = rn\<lparr>nwLongReordering := yes\<rparr>"

definition LongDelays :: "network \<Rightarrow> bool \<Rightarrow> network" where
  "LongDelays rn yes = rn\<lparr>nwLongDelays := yes\<rparr>"

definition IsLongDelays :: "network \<Rightarrow> bool" where
  "IsLongDelays rn = nwLongDelays rn"

definition MakeEnd :: "network \<Rightarrow> string \<Rightarrow> network option" where
  "MakeEnd rn endname =
     (if endname \<in> nwEnds rn then None
      else Some (rn\<lparr>nwEnds := insert endname (nwEnds rn), nwEnabled := (nwEnabled rn)(endname := False),
             nwConnections := (nwConnections rn)(endname := None)\<rparr>))"

definition LookupEnd :: "network \<Rightarrow> string \<Rightarrow> string option" where
  "LookupEnd rn endname = (if endname \<notin> nwEnds rn then None else Some endname)"

definition DeleteEnd :: "network \<Rightarrow> string \<Rightarrow> network option" where
  "DeleteEnd rn endname =
     (if endname \<notin> nwEnds rn then None
      else Some (rn\<lparr>nwEnds := nwEnds rn - {endname}, nwEnabled := (nwEnabled rn)(endname := False),
             nwConnections := (nwConnections rn)(endname := None)\<rparr>))"

definition AddServer :: "network \<Rightarrow> string \<Rightarrow> nat \<Rightarrow> network" where
  "AddServer rn servername rs = rn\<lparr>nwServers := (nwServers rn)(servername := Some rs)\<rparr>"

definition DeleteServer :: "network \<Rightarrow> string \<Rightarrow> network" where
  "DeleteServer rn servername = rn\<lparr>nwServers := (nwServers rn)(servername := None)\<rparr>"

definition Connect :: "network \<Rightarrow> string \<Rightarrow> string \<Rightarrow> network" where
  "Connect rn endname servername = rn\<lparr>nwConnections := (nwConnections rn)(endname := Some servername)\<rparr>"

definition Enable :: "network \<Rightarrow> string \<Rightarrow> bool \<Rightarrow> network" where
  "Enable rn endname enabled = rn\<lparr>nwEnabled := (nwEnabled rn)(endname := enabled)\<rparr>"

text \<open>A server that is not there is a nil pointer.\<close>

definition GetCount :: "network \<Rightarrow> (nat \<rightharpoonup> ('w, 'v) rpc_server) \<Rightarrow> string \<Rightarrow> int option" where
  "GetCount rn heap servername = do { a \<leftarrow> nwServers rn servername; svr \<leftarrow> heap a; Some (Server_GetCount svr) }"

definition GetTotalCount :: "network \<Rightarrow> int" where
  "GetTotalCount rn = sint (nwCount rn)"

definition GetTotalBytes :: "network \<Rightarrow> int" where
  "GetTotalBytes rn = sint (nwBytes rn)"

section \<open>Handling a request\<close>

definition SHORTDELAY :: nat where "SHORTDELAY = 27"
definition LONGDELAY :: nat where "LONGDELAY = 7000"
definition MAXDELAY :: nat where "MAXDELAY = LONGDELAY + 100"

definition readEndnameInfo :: "network \<Rightarrow> string \<Rightarrow> bool \<times> string option \<times> nat option \<times> bool \<times> bool" where
  "readEndnameInfo rn endname =
     (let servername = nwConnections rn endname
      in (nwEnabled rn endname, servername, (case servername of None \<Rightarrow> None | Some n \<Rightarrow> nwServers rn n),
          nwReliable rn, nwLongReordering rn))"

definition isServerDead :: "network \<Rightarrow> string \<Rightarrow> string \<Rightarrow> nat \<Rightarrow> bool" where
  "isServerDead rn endname servername server \<longleftrightarrow>
     nwEnabled rn endname = False \<or> nwServers rn servername \<noteq> Some server"

text \<open>
  \<^verbatim>\<open>processReq\<close> up to the start of the handler. \<open>Dispatching\<close> has the delay before, the server, and the
  flags that were read; \<open>Answering\<close> the delay, whether a handler has replied, and the reply that is then sent. The random numbers are
  arguments: \<open>r1\<close> for the delay, \<open>r2\<close> for dropping the request.
\<close>

datatype processing =
    Dispatching nat string nat bool bool
  | Answering nat bool reply_msg

definition no_reply :: reply_msg where
  "no_reply = \<lparr>rpOk = False, rpReply = []\<rparr>"

definition processReq_begin :: "network \<Rightarrow> req_msg \<Rightarrow> nat \<Rightarrow> nat \<Rightarrow> processing" where
  "processReq_begin rn req r1 r2 =
     (case readEndnameInfo rn (rqEndname req) of
        (True, Some servername, Some server, reliable, longreordering) \<Rightarrow>
          (let ms = (if reliable = False then r1 mod SHORTDELAY else 0)
           in if reliable = False \<and> r2 mod 1000 < 100 then Answering ms False no_reply
              else Dispatching ms servername server reliable longreordering)
      | _ \<Rightarrow>
          (let ms = (if IsLongDelays rn then r1 mod LONGDELAY else r1 mod 100) in Answering ms False no_reply))"

text \<open>
  The end of \<^verbatim>\<open>processReq\<close>, after the loop that waits for the handler or for the server to be dead;
  \<open>reply\<close> is what the handler returned, if the loop ended so.
\<close>

definition processReq_end ::
  "network \<Rightarrow> req_msg \<Rightarrow> string \<Rightarrow> nat \<Rightarrow> bool \<Rightarrow> bool \<Rightarrow> reply_msg option \<Rightarrow> nat \<Rightarrow> nat \<Rightarrow> nat \<Rightarrow> nat \<Rightarrow> processing" where
  "processReq_end rn req servername server reliable longreordering reply r1 r2 r3 r4 =
     (case reply of
        None \<Rightarrow> Answering 0 False no_reply
      | Some reply \<Rightarrow>
          if isServerDead rn (rqEndname req) servername server then Answering 0 False no_reply
          else if reliable = False \<and> r1 mod 1000 < 100 then Answering 0 False no_reply
          else if longreordering = True \<and> r2 mod 900 < 600 then Answering (200 + r3 mod (1 + r4 mod 2000)) True reply
          else Answering 0 True reply)"

text \<open>The reply is sent; only a reply of a handler counts.\<close>

definition processReq_send :: "network \<Rightarrow> bool \<Rightarrow> reply_msg \<Rightarrow> network" where
  "processReq_send rn handled reply = (if handled then rn\<lparr>nwBytes := nwBytes rn + of_nat (length (rpReply reply))\<rparr> else rn)"

text \<open>
  What a call returns for the reply it receives: \<^term>\<open>None\<close> is \<^verbatim>\<open>false\<close>. \<open>unmarshall\<close> decodes into the
  reply variable, where \<^term>\<open>None\<close> is fatal.
\<close>

definition ClientEnd_Call_return :: "(bytes \<Rightarrow> 'r option) \<Rightarrow> reply_msg \<Rightarrow> 'r option option" where
  "ClientEnd_Call_return unmarshall rep =
     (if rpOk rep then do { r \<leftarrow> unmarshall (rpReply rep); Some (Some r) } else Some None)"

definition ClientEnd_Forward_return :: "reply_msg \<Rightarrow> bytes \<times> bool" where
  "ClientEnd_Forward_return rep = (rpReply rep, rpOk rep)"

text \<open>A call through the function set by \<^verbatim>\<open>SetCall\<close>.\<close>

definition ClientEnd_Call_callf ::
  "(string \<Rightarrow> string \<Rightarrow> bytes \<Rightarrow> bytes \<times> bool) \<Rightarrow> string \<Rightarrow> string \<Rightarrow> bytes \<Rightarrow> (bytes \<Rightarrow> 'r option) \<Rightarrow> 'r option option" where
  "ClientEnd_Call_callf callf endname svcMeth args unmarshall =
     (case callf endname svcMeth args of (rep, ok) \<Rightarrow>
        if \<not> ok then Some None else do { r \<leftarrow> unmarshall rep; Some (Some r) })"

end
