(* ===== verification/Labnet.thy ===== *)
theory Labnet
  imports Labrpc
begin

text \<open>
  Programs whose calls go through the simulated network: the network, the requests it is handling, the
  servers and their administration. Its runs are runs of the network of \<open>Prog\<close>, a call is executed
  at most once and returns only what its execution replied, and every call can return.
\<close>

section \<open>The system\<close>

text \<open>
  \<open>lbSent\<close> are the requests by number with their senders, \<open>lbCalls\<close> where \<^verbatim>\<open>processReq\<close> is with a request
  (\<^term>\<open>None\<close> before it begins), \<open>lbHandlers\<close> the goroutines that will dispatch a request to the server
  at an address, \<open>lbEch\<close> what they have sent back, and \<open>lbLog\<close> the executions so far. A handler is
  one step; \<open>S\<close> are the servers that can be made.
\<close>

record ('w, 'v, 'q, 'r, 'p, 'a) lab =
  lbNet :: network
  lbHeap :: "nat \<rightharpoonup> ('w, 'v) rpc_server"
  lbWorld :: 'w
  lbSent :: "nat \<rightharpoonup> 'p \<times> 'q"
  lbCalls :: "nat \<rightharpoonup> processing option"
  lbHandlers :: "nat \<rightharpoonup> nat"
  lbEch :: "nat \<rightharpoonup> reply_msg"
  lbLog :: "(nat \<times> nat \<times> reply_msg) list"
  lbProcs :: "'p \<Rightarrow> ('q, 'r, 'a) prog \<times> nat option"
  lbFresh :: nat

text \<open>The operations of the test harness on the network.\<close>

inductive net_admin :: "network \<Rightarrow> network \<Rightarrow> bool" where
  reliable: "net_admin rn (Reliable rn yes)"
| long_reordering: "net_admin rn (LongReordering rn yes)"
| long_delays: "net_admin rn (LongDelays rn yes)"
| make_end: "MakeEnd rn e = Some rn' \<Longrightarrow> net_admin rn rn'"
| delete_end: "DeleteEnd rn e = Some rn' \<Longrightarrow> net_admin rn rn'"
| delete_server: "net_admin rn (DeleteServer rn n)"
| connect: "net_admin rn (Connect rn e n)"
| enable: "net_admin rn (Enable rn e yes)"
| cleanup: "Cleanup rn = Some rn' \<Longrightarrow> net_admin rn rn'"

inductive lab_step ::
  "('w, 'v) rpc_server set \<Rightarrow> ('q \<Rightarrow> req_msg) \<Rightarrow> ('q \<Rightarrow> bytes \<Rightarrow> 'r option) \<Rightarrow> ('w \<Rightarrow> 'w \<Rightarrow> bool) \<Rightarrow> ('p \<Rightarrow> 'a \<Rightarrow> ('q, 'r, 'a) prog \<Rightarrow> bool) \<Rightarrow>
   ('w, 'v, 'q, 'r, 'p, 'a) lab \<Rightarrow> ('w, 'v, 'q, 'r, 'p, 'a) lab \<Rightarrow> bool"
  for S route unm env ops where
  send: "lbProcs b p = (Call q k, None) \<Longrightarrow>
    lab_step S route unm env ops b
      (b\<lparr>lbNet := network_accept (lbNet b) (route q), lbSent := (lbSent b)(lbFresh b \<mapsto> (p, q)),
         lbCalls := (lbCalls b)(lbFresh b \<mapsto> None), lbProcs := (lbProcs b)(p := (Call q k, Some (lbFresh b))), lbFresh := lbFresh b + 1\<rparr>)"
| closed: "lbProcs b p = (Call q k, None) \<Longrightarrow> nwDone (lbNet b) \<Longrightarrow>
    lab_step S route unm env ops b
      (b\<lparr>lbSent := (lbSent b)(lbFresh b \<mapsto> (p, q)), lbProcs := (lbProcs b)(p := (k None, None)), lbFresh := lbFresh b + 1\<rparr>)"
| begins: "lbCalls b i = Some None \<Longrightarrow> lbSent b i = Some (p, q) \<Longrightarrow> processReq_begin (lbNet b) (route q) r1 r2 = pr \<Longrightarrow>
    lab_step S route unm env ops b
      (b\<lparr>lbCalls := (lbCalls b)(i \<mapsto> Some pr),
         lbHandlers := (case pr of Dispatching _ _ a _ _ \<Rightarrow> (lbHandlers b)(i \<mapsto> a) | Answering _ _ _ \<Rightarrow> lbHandlers b)\<rparr>)"
| handle: "lbHandlers b i = Some a \<Longrightarrow> lbSent b i = Some (p, q) \<Longrightarrow> lbHeap b a = Some rs \<Longrightarrow>
    Server_dispatch rs (lbWorld b) (route q) = Some (rs', w, rep) \<Longrightarrow>
    lab_step S route unm env ops b
      (b\<lparr>lbHeap := (lbHeap b)(a \<mapsto> rs'), lbWorld := w, lbHandlers := (lbHandlers b)(i := None), lbEch := (lbEch b)(i \<mapsto> rep),
         lbLog := lbLog b @ [(i, a, rep)]\<rparr>)"
| returned: "lbCalls b i = Some (Some (Dispatching ms n a reliable reordering)) \<Longrightarrow> lbSent b i = Some (p, q) \<Longrightarrow> lbEch b i = Some rep \<Longrightarrow>
    lab_step S route unm env ops b
      (b\<lparr>lbCalls := (lbCalls b)(i \<mapsto> Some (processReq_end (lbNet b) (route q) n a reliable reordering (Some rep) r1 r2 r3 r4))\<rparr>)"
| dead: "lbCalls b i = Some (Some (Dispatching ms n a reliable reordering)) \<Longrightarrow> lbSent b i = Some (p, q) \<Longrightarrow>
    isServerDead (lbNet b) (rqEndname (route q)) n a \<Longrightarrow>
    lab_step S route unm env ops b
      (b\<lparr>lbCalls := (lbCalls b)(i \<mapsto> Some (processReq_end (lbNet b) (route q) n a reliable reordering None r1 r2 r3 r4))\<rparr>)"
| reply: "lbCalls b i = Some (Some (Answering ms handled rep)) \<Longrightarrow> lbSent b i = Some (p, q) \<Longrightarrow> lbProcs b p = (Call q k, Some i) \<Longrightarrow>
    ClientEnd_Call_return (unm q) rep = Some res \<Longrightarrow>
    lab_step S route unm env ops b
      (b\<lparr>lbNet := processReq_send (lbNet b) handled rep, lbCalls := (lbCalls b)(i := None), lbProcs := (lbProcs b)(p := (k res, None))\<rparr>)"
| admin: "net_admin (lbNet b) rn \<Longrightarrow> lab_step S route unm env ops b (b\<lparr>lbNet := rn\<rparr>)"
| new_server: "lbHeap b a = None \<Longrightarrow> rs \<in> S \<Longrightarrow> lab_step S route unm env ops b (b\<lparr>lbHeap := (lbHeap b)(a \<mapsto> rs)\<rparr>)"
| add_server: "lbHeap b a \<noteq> None \<Longrightarrow> lab_step S route unm env ops b (b\<lparr>lbNet := AddServer (lbNet b) n a\<rparr>)"
| other: "env (lbWorld b) w \<Longrightarrow> lab_step S route unm env ops b (b\<lparr>lbWorld := w\<rparr>)"
| start: "lbProcs b p = (Ret a, None) \<Longrightarrow> ops p a pr \<Longrightarrow> lab_step S route unm env ops b (b\<lparr>lbProcs := (lbProcs b)(p := (pr, None))\<rparr>)"

definition lab_init :: "'w \<Rightarrow> ('p \<Rightarrow> 'a) \<Rightarrow> ('w, 'v, 'q, 'r, 'p, 'a) lab" where
  "lab_init w a =
     \<lparr>lbNet = MakeNetwork, lbHeap = (\<lambda>_. None), lbWorld = w, lbSent = (\<lambda>_. None), lbCalls = (\<lambda>_. None), lbHandlers = (\<lambda>_. None),
      lbEch = (\<lambda>_. None), lbLog = [], lbProcs = (\<lambda>p. (Ret (a p), None)), lbFresh = 0\<rparr>"

section \<open>The abstract network\<close>

text \<open>
  An execution that is answered, and one whose answer does not say anything: the server daemon has
  failed to forward it, or the reply cannot be decoded.
\<close>

definition answer :: "('q \<Rightarrow> bytes \<Rightarrow> 'r option) \<Rightarrow> 'q \<Rightarrow> reply_msg \<Rightarrow> 'r option" where
  "answer unm q rep = (if rpOk rep then unm q (rpReply rep) else None)"

definition lab_exec :: "('w, 'v) rpc_server set \<Rightarrow> ('q \<Rightarrow> req_msg) \<Rightarrow> ('q \<Rightarrow> bytes \<Rightarrow> 'r option) \<Rightarrow> 'w \<Rightarrow> 'q \<Rightarrow> 'w \<Rightarrow> 'r \<Rightarrow> bool" where
  "lab_exec S route unm w q w' r \<longleftrightarrow> (\<exists>rs \<in> S. \<exists>rs' rep. Server_dispatch rs w (route q) = Some (rs', w', rep) \<and> answer unm q rep = Some r)"

definition lab_env :: "('w, 'v) rpc_server set \<Rightarrow> ('q \<Rightarrow> req_msg) \<Rightarrow> ('q \<Rightarrow> bytes \<Rightarrow> 'r option) \<Rightarrow> ('w \<Rightarrow> 'w \<Rightarrow> bool) \<Rightarrow> 'w \<Rightarrow> 'w \<Rightarrow> bool" where
  "lab_env S route unm env w w' \<longleftrightarrow> env w w' \<or>
     (\<exists>rs \<in> S. \<exists>q rs' rep. Server_dispatch rs w (route q) = Some (rs', w', rep) \<and> answer unm q rep = None)"

definition lab_abs :: "('q \<Rightarrow> bytes \<Rightarrow> 'r option) \<Rightarrow> ('w, 'v, 'q, 'r, 'p, 'a) lab \<Rightarrow> ('w, 'q, 'r, 'p, 'a) net" where
  "lab_abs unm b =
     \<lparr>nServer = lbWorld b, nSent = {(i, p, q). lbSent b i = Some (p, q)},
      nAnswered = {(i, r). \<exists>p q rep. lbSent b i = Some (p, q) \<and> lbEch b i = Some rep \<and> answer unm q rep = Some r},
      nProcs = lbProcs b, nFresh = lbFresh b\<rparr>"

lemma dispatch_count:
  "Server_dispatch (rs\<lparr>srCount := c\<rparr>) w req = Some (rs', w', rep) \<Longrightarrow> \<exists>rs''. Server_dispatch rs w req = Some (rs'', w', rep)"
  by (cases "srDispatchf rs") (auto simp: Server_dispatch_def Let_def bind_eq_Some_conv)

lemma dispatch_fields:
  "Server_dispatch rs w req = Some (rs', w', rep) \<Longrightarrow> rs' = rs\<lparr>srCount := srCount rs + 1\<rparr>"
  by (auto simp: Server_dispatch_def Let_def bind_eq_Some_conv split: option.splits)

section \<open>The invariant\<close>

text \<open>Where a request is, given its goroutine and what that has sent back.\<close>

fun phase_ok :: "nat option \<Rightarrow> reply_msg option \<Rightarrow> processing option \<Rightarrow> bool" where
  "phase_ok h e None \<longleftrightarrow> h = None \<and> e = None"
| "phase_ok h e (Some (Dispatching ms n a _ _)) \<longleftrightarrow> ms < SHORTDELAY \<and> (h = Some a \<or> h = None \<and> e \<noteq> None)"
| "phase_ok h e (Some (Answering ms handled rep)) \<longleftrightarrow> ms < MAXDELAY \<and> (rpOk rep \<longrightarrow> handled \<and> e = Some rep)"

definition used_ok :: "('w, 'v, 'q, 'r, 'p, 'a) lab \<Rightarrow> bool" where
  "used_ok b \<longleftrightarrow> (\<forall>i. i \<ge> lbFresh b \<longrightarrow> lbSent b i = None) \<and>
     (\<forall>i. lbSent b i = None \<longrightarrow> lbCalls b i = None \<and> lbHandlers b i = None \<and> lbEch b i = None)"

definition calls_ok :: "('w, 'v, 'q, 'r, 'p, 'a) lab \<Rightarrow> bool" where
  "calls_ok b \<longleftrightarrow> (\<forall>i ph. lbCalls b i = Some ph \<longrightarrow> phase_ok (lbHandlers b i) (lbEch b i) ph)"

definition log_ok :: "('w, 'v, 'q, 'r, 'p, 'a) lab \<Rightarrow> bool" where
  "log_ok b \<longleftrightarrow> distinct (map fst (lbLog b)) \<and> (\<forall>i rep. (\<exists>a. (i, a, rep) \<in> set (lbLog b)) \<longleftrightarrow> lbEch b i = Some rep) \<and>
     (\<forall>i a. lbHandlers b i = Some a \<longrightarrow> lbEch b i = None)"

definition replies_ok :: "('w, 'v) rpc_server set \<Rightarrow> ('q \<Rightarrow> req_msg) \<Rightarrow> ('w, 'v, 'q, 'r, 'p, 'a) lab \<Rightarrow> bool" where
  "replies_ok S route b \<longleftrightarrow> (\<forall>i p q rep. lbSent b i = Some (p, q) \<longrightarrow> lbEch b i = Some rep \<longrightarrow>
     (\<exists>rs \<in> S. \<exists>w rs' w'. Server_dispatch rs w (route q) = Some (rs', w', rep)))"

definition heap_ok :: "('w, 'v) rpc_server set \<Rightarrow> ('w, 'v, 'q, 'r, 'p, 'a) lab \<Rightarrow> bool" where
  "heap_ok S b \<longleftrightarrow> (\<forall>a rs. lbHeap b a = Some rs \<longrightarrow> (\<exists>rs0 \<in> S. \<exists>c. rs = rs0\<lparr>srCount := c\<rparr>)) \<and>
     (\<forall>n a. nwServers (lbNet b) n = Some a \<longrightarrow> lbHeap b a \<noteq> None) \<and> (\<forall>i a. lbHandlers b i = Some a \<longrightarrow> lbHeap b a \<noteq> None)"

definition procs_ok :: "('w, 'v, 'q, 'r, 'p, 'a) lab \<Rightarrow> bool" where
  "procs_ok b \<longleftrightarrow> (\<forall>p pr i. lbProcs b p = (pr, Some i) \<longrightarrow>
     lbCalls b i \<noteq> None \<and> (\<exists>q k. pr = Call q k \<and> lbSent b i = Some (p, q)))"

definition lab_inv :: "('w, 'v) rpc_server set \<Rightarrow> ('q \<Rightarrow> req_msg) \<Rightarrow> ('w, 'v, 'q, 'r, 'p, 'a) lab \<Rightarrow> bool" where
  "lab_inv S route b \<longleftrightarrow> used_ok b \<and> calls_ok b \<and> log_ok b \<and> replies_ok S route b \<and> heap_ok S b \<and> procs_ok b"

lemma lab_invD:
  assumes "lab_inv S route b"
  shows "used_ok b" "calls_ok b" "log_ok b" "replies_ok S route b" "heap_ok S b" "procs_ok b"
  using assms by (simp_all add: lab_inv_def)

lemma fresh_unused:
  assumes "used_ok b"
  shows "lbSent b (lbFresh b) = None" "lbCalls b (lbFresh b) = None" "lbHandlers b (lbFresh b) = None" "lbEch b (lbFresh b) = None"
  using assms by (simp_all add: used_ok_def)

lemma begin_phase:
  assumes "processReq_begin rn req r1 r2 = pr"
  shows "case pr of Dispatching ms n a _ _ \<Rightarrow> ms < SHORTDELAY \<and> nwServers rn n = Some a
    | Answering ms h rep \<Rightarrow> ms < MAXDELAY \<and> \<not> rpOk rep"
  using assms by (auto simp: processReq_begin_def readEndnameInfo_def Let_def no_reply_def SHORTDELAY_def LONGDELAY_def MAXDELAY_def
      split: option.splits bool.splits if_splits)

lemma end_phase:
  "\<exists>ms h rep. processReq_end rn req n a rel lr reply r1 r2 r3 r4 = Answering ms h rep \<and> ms < MAXDELAY \<and> (rpOk rep \<longrightarrow> h \<and> reply = Some rep)"
proof -
  have "r3 mod (1 + r4 mod 2000) < 1 + r4 mod 2000" "r4 mod 2000 < 2000" by (rule mod_less_divisor; simp)+
  then have "200 + r3 mod (1 + r4 mod 2000) < MAXDELAY" unfolding MAXDELAY_def LONGDELAY_def by linarith
  then show ?thesis by (auto simp: processReq_end_def no_reply_def MAXDELAY_def LONGDELAY_def split: option.splits)
qed

lemma admin_servers: "net_admin rn rn' \<Longrightarrow> nwServers rn' n = Some a \<Longrightarrow> nwServers rn n = Some a"
  by (auto elim!: net_admin.cases simp: Reliable_def LongReordering_def LongDelays_def MakeEnd_def DeleteEnd_def DeleteServer_def
      Connect_def Enable_def Cleanup_def split: if_splits)

lemma sent_inv:
  assumes "lab_inv S route b" "lbProcs b p = (Call q k, None)" "nwServers rn = nwServers (lbNet b)"
    "cl = (if c then (lbCalls b)(lbFresh b \<mapsto> None) else lbCalls b)" "pr = (if c then (Call q k, Some (lbFresh b)) else (k None, None))"
  shows "lab_inv S route (b\<lparr>lbNet := rn, lbSent := (lbSent b)(lbFresh b \<mapsto> (p, q)), lbCalls := cl, lbProcs := (lbProcs b)(p := pr), lbFresh := lbFresh b + 1\<rparr>)"
    (is "lab_inv S route ?b")
proof -
  note I = lab_invD [OF assms(1)]
  note f = fresh_unused [OF I(1)]
  have "used_ok ?b" using I(1) assms(4) by (auto simp: used_ok_def)
  moreover have "calls_ok ?b" using I(2) f assms(4) by (auto simp: calls_ok_def)
  moreover have "log_ok ?b" using I(3) by (simp add: log_ok_def)
  moreover have "replies_ok S route ?b" using I(4) f by (simp add: replies_ok_def)
  moreover have "heap_ok S ?b" using I(5) assms(3) by (simp add: heap_ok_def)
  moreover have "lbProcs b p' \<noteq> (pr', Some (lbFresh b))" for p' pr' using I(6) f(2) unfolding procs_ok_def by fastforce
  then have "procs_ok ?b" using I(6) assms(4,5) by (auto simp: procs_ok_def)
  ultimately show ?thesis by (simp add: lab_inv_def)
qed

lemma call_inv:
  assumes "lab_inv S route b" "lbSent b i = Some (p, q)" "lbCalls b i \<noteq> None" "phase_ok (lbHandlers b i) (lbEch b i) ph"
  shows "lab_inv S route (b\<lparr>lbCalls := (lbCalls b)(i \<mapsto> ph)\<rparr>)" (is "lab_inv S route ?b")
proof -
  note I = lab_invD [OF assms(1)]
  have "used_ok ?b" using I(1) assms(2) by (auto simp: used_ok_def)
  moreover have "calls_ok ?b" using I(2) assms(4) by (auto simp: calls_ok_def)
  moreover have "log_ok ?b" using I(3) by (simp add: log_ok_def)
  moreover have "replies_ok S route ?b" using I(4) by (simp add: replies_ok_def)
  moreover have "heap_ok S ?b" using I(5) by (simp add: heap_ok_def)
  moreover have "procs_ok ?b" using I(6) by (simp add: procs_ok_def)
  ultimately show ?thesis by (simp add: lab_inv_def)
qed

lemma dispatch_inv:
  assumes "lab_inv S route b" "lbSent b i = Some (p, q)" "lbCalls b i = Some None" "ms < SHORTDELAY" "nwServers (lbNet b) n = Some a"
  shows "lab_inv S route (b\<lparr>lbCalls := (lbCalls b)(i \<mapsto> Some (Dispatching ms n a rel lr)), lbHandlers := (lbHandlers b)(i \<mapsto> a)\<rparr>)" (is "lab_inv S route ?b")
proof -
  note I = lab_invD [OF assms(1)]
  have "phase_ok (lbHandlers b i) (lbEch b i) None" using I(2) assms(3) unfolding calls_ok_def by blast
  then have ph: "lbHandlers b i = None" "lbEch b i = None" by simp_all
  have "used_ok ?b" using I(1) assms(2) by (auto simp: used_ok_def)
  moreover have "calls_ok ?b" using I(2) assms(4) by (auto simp: calls_ok_def)
  moreover have "log_ok ?b" using I(3) ph by (simp add: log_ok_def)
  moreover have "replies_ok S route ?b" using I(4) by (simp add: replies_ok_def)
  moreover have "heap_ok S ?b" using I(5) assms(5) by (simp add: heap_ok_def)
  moreover have "procs_ok ?b" using I(6) by (simp add: procs_ok_def)
  ultimately show ?thesis by (simp add: lab_inv_def)
qed

lemma handle_inv:
  assumes "lab_inv S route b" "lbHandlers b i = Some a" "lbSent b i = Some (p, q)" "lbHeap b a = Some rs"
    "Server_dispatch rs (lbWorld b) (route q) = Some (rs', w, rep)"
  shows "lab_inv S route (b\<lparr>lbHeap := (lbHeap b)(a \<mapsto> rs'), lbWorld := w, lbHandlers := (lbHandlers b)(i := None), lbEch := (lbEch b)(i \<mapsto> rep),
         lbLog := lbLog b @ [(i, a, rep)]\<rparr>)" (is "lab_inv S route ?b")
proof -
  note I = lab_invD [OF assms(1)]
  have e: "lbEch b i = None" using I(3) assms(2) by (auto simp: log_ok_def)
  then have l: "(i, a', rep') \<notin> set (lbLog b)" for a' rep' using I(3) unfolding log_ok_def by (metis option.distinct(1))
  obtain rs0 c where rs0: "rs0 \<in> S" "rs = rs0\<lparr>srCount := c\<rparr>" using I(5) assms(4) unfolding heap_ok_def by blast
  obtain rs1 where rs1: "Server_dispatch rs0 (lbWorld b) (route q) = Some (rs1, w, rep)" using dispatch_count [OF assms(5) [unfolded rs0(2)]] by blast
  have "used_ok ?b" using I(1) assms(3) by (auto simp: used_ok_def)
  moreover have "phase_ok None (Some rep) ph" if "lbCalls b i = Some ph" for ph
  proof -
    have "phase_ok (Some a) None ph" using I(2) that assms(2) e unfolding calls_ok_def by metis
    then show ?thesis by (cases "(Some a, None :: reply_msg option, ph)" rule: phase_ok.cases) auto
  qed
  then have "calls_ok ?b" using I(2) by (simp add: calls_ok_def)
  moreover have "log_ok ?b" using I(3) l e by (auto simp: log_ok_def)
  moreover have "replies_ok S route ?b" using I(4) rs0(1) rs1 assms(3) by (auto simp: replies_ok_def)
  moreover have "rs' = rs0\<lparr>srCount := c + 1\<rparr>" using dispatch_fields [OF assms(5)] rs0(2) by simp
  then have "heap_ok S ?b" using I(5) rs0(1) assms(4) by (auto simp: heap_ok_def)
  moreover have "procs_ok ?b" using I(6) by (simp add: procs_ok_def)
  ultimately show ?thesis by (simp add: lab_inv_def)
qed

lemma reply_inv:
  assumes "lab_inv S route b" "lbSent b i = Some (p, q)" "lbProcs b p = (Call q k, Some i)"
  shows "lab_inv S route (b\<lparr>lbNet := processReq_send (lbNet b) h rep, lbCalls := (lbCalls b)(i := None), lbProcs := (lbProcs b)(p := (k res, None))\<rparr>)"
    (is "lab_inv S route ?b")
proof -
  note I = lab_invD [OF assms(1)]
  have "used_ok ?b" using I(1) by (simp add: used_ok_def)
  moreover have "calls_ok ?b" using I(2) by (simp add: calls_ok_def)
  moreover have "log_ok ?b" using I(3) by (simp add: log_ok_def)
  moreover have "replies_ok S route ?b" using I(4) by (simp add: replies_ok_def)
  moreover have "heap_ok S ?b" using I(5) by (simp add: heap_ok_def processReq_send_def)
  moreover have "procs_ok ?b" using I(6) assms(2) by (fastforce simp: procs_ok_def)
  ultimately show ?thesis by (simp add: lab_inv_def)
qed

lemma net_inv_frame:
  assumes "lab_inv S route b" "heap_ok S (b\<lparr>lbNet := rn, lbHeap := hp, lbWorld := w\<rparr>)"
  shows "lab_inv S route (b\<lparr>lbNet := rn, lbHeap := hp, lbWorld := w\<rparr>)"
  using lab_invD [OF assms(1)] assms(2)
  by (simp add: lab_inv_def used_ok_def calls_ok_def log_ok_def replies_ok_def procs_ok_def)

lemma lab_step_inv:
  assumes "lab_step S route unm env ops b b'" "lab_inv S route b"
  shows "lab_inv S route b'"
  using assms(1)
proof cases
  case (send p q k)
  then show ?thesis using sent_inv [OF assms(2), of p q k "network_accept (lbNet b) (route q)" _ True] by (simp add: network_accept_def)
next
  case (closed p q k)
  then show ?thesis using sent_inv [OF assms(2), of p q k "lbNet b" _ False] by simp
next
  case (begins i p q r1 r2 pr)
  show ?thesis
  proof (cases pr)
    case (Dispatching ms n a rel lr)
    then show ?thesis using begin_phase [OF begins(4)] dispatch_inv [OF assms(2) begins(3,2)] begins(1) by simp
  next
    case (Answering ms h rep)
    then show ?thesis using begin_phase [OF begins(4)] call_inv [OF assms(2) begins(3), of "Some pr"] begins(1,2) by simp
  qed
next
  case (handle i a p q rs rs' w rep)
  then show ?thesis using handle_inv [OF assms(2)] by blast
next
  case (returned i ms n a rel lr p q rep r1 r2 r3 r4)
  obtain ms' h rep' where "processReq_end (lbNet b) (route q) n a rel lr (Some rep) r1 r2 r3 r4 = Answering ms' h rep'" "ms' < MAXDELAY"
    "rpOk rep' \<longrightarrow> h \<and> rep = rep'" using end_phase [of "lbNet b" "route q" n a rel lr "Some rep" r1 r2 r3 r4] by auto
  then show ?thesis using call_inv [OF assms(2) returned(3)] returned by simp
next
  case (dead i ms n a rel lr p q r1 r2 r3 r4)
  obtain ms' h rep' where "processReq_end (lbNet b) (route q) n a rel lr None r1 r2 r3 r4 = Answering ms' h rep'" "ms' < MAXDELAY"
    "\<not> rpOk rep'" using end_phase [of "lbNet b" "route q" n a rel lr None r1 r2 r3 r4] by auto
  then show ?thesis using call_inv [OF assms(2) dead(3)] dead by simp
next
  case reply
  then show ?thesis using reply_inv [OF assms(2)] by blast
next
  case (admin rn)
  have "heap_ok S (b\<lparr>lbNet := rn\<rparr>)" using lab_invD(5) [OF assms(2)] admin_servers [OF admin(2)] by (simp add: heap_ok_def) blast
  then show ?thesis using net_inv_frame [OF assms(2), of "lbWorld b" "lbHeap b" rn] admin(1) by simp
next
  case (new_server a rs)
  have "\<exists>rs0 \<in> S. \<exists>c. rs = rs0\<lparr>srCount := c\<rparr>"
    by (rule bexI [of _ rs], rule exI [of _ "srCount rs"]) (use new_server in simp_all)
  then have "heap_ok S (b\<lparr>lbHeap := (lbHeap b)(a \<mapsto> rs)\<rparr>)" using lab_invD(5) [OF assms(2)] new_server by (auto simp: heap_ok_def)
  then show ?thesis using net_inv_frame [OF assms(2), of "lbWorld b" _ "lbNet b"] new_server(1) by simp
next
  case (add_server a n)
  have "heap_ok S (b\<lparr>lbNet := AddServer (lbNet b) n a\<rparr>)" using lab_invD(5) [OF assms(2)] add_server by (auto simp: heap_ok_def AddServer_def)
  then show ?thesis using net_inv_frame [OF assms(2), of "lbWorld b" "lbHeap b" _] add_server(1) by simp
next
  case (other w)
  then show ?thesis using net_inv_frame [OF assms(2), of w "lbHeap b" "lbNet b"] lab_invD(5) [OF assms(2)] by (simp add: heap_ok_def)
next
  case (start p a pr)
  then show ?thesis using lab_invD [OF assms(2)]
    by (auto simp: lab_inv_def used_ok_def calls_ok_def log_ok_def replies_ok_def heap_ok_def procs_ok_def)
qed

lemma lab_init_inv: "lab_inv S route (lab_init w a)"
  by (simp add: lab_init_def lab_inv_def used_ok_def calls_ok_def log_ok_def replies_ok_def heap_ok_def procs_ok_def MakeNetwork_def)

lemma lab_init_abs: "lab_abs unm (lab_init w a) = net_init w a"
  by (auto simp: lab_abs_def lab_init_def net_init_def)

lemma lab_run_inv: "(lab_step S route unm env ops)\<^sup>*\<^sup>* b b' \<Longrightarrow> lab_inv S route b \<Longrightarrow> lab_inv S route b'"
  by (induction rule: rtranclp_induct) (auto intro: lab_step_inv)

section \<open>Simulation\<close>

text \<open>What the simulated network does with a request is, seen from outside, a step of the abstract network.\<close>

lemma send_abs:
  assumes "lab_inv S route b" "lbProcs b p = (Call q k, None)"
  shows "net_step exec env ops (lab_abs unm b) ((lab_abs unm b)\<lparr>nSent := insert (lbFresh b, p, q) (nSent (lab_abs unm b)),
      nProcs := (lbProcs b)(p := (Call q k, Some (lbFresh b))), nFresh := lbFresh b + 1\<rparr>)"
  using net_step.send [of "lab_abs unm b" p q k exec env ops] assms(2) by (simp add: lab_abs_def)

lemma sent_abs:
  assumes "used_ok b"
  shows "lab_abs unm (b\<lparr>lbNet := rn, lbSent := (lbSent b)(lbFresh b \<mapsto> (p, q)), lbCalls := cl, lbProcs := ps, lbFresh := lbFresh b + 1\<rparr>) =
    (lab_abs unm b)\<lparr>nSent := insert (lbFresh b, p, q) (nSent (lab_abs unm b)), nProcs := ps, nFresh := lbFresh b + 1\<rparr>"
  using fresh_unused [OF assms] by (auto simp: lab_abs_def split: if_splits)

lemma handle_abs:
  assumes "lab_inv S route b" "lbHandlers b i = Some a" "lbSent b i = Some (p, q)" "lbHeap b a = Some rs"
    "Server_dispatch rs (lbWorld b) (route q) = Some (rs', w, rep)"
    "b' = b\<lparr>lbHeap := hp, lbWorld := w, lbHandlers := hs, lbEch := (lbEch b)(i \<mapsto> rep), lbLog := lg\<rparr>"
  shows "net_step (lab_exec S route unm) (lab_env S route unm env) ops (lab_abs unm b) (lab_abs unm b')"
proof -
  note I = lab_invD [OF assms(1)]
  have e: "lbEch b i = None" using I(3) assms(2) by (auto simp: log_ok_def)
  obtain rs0 c where rs0: "rs0 \<in> S" "rs = rs0\<lparr>srCount := c\<rparr>" using I(5) assms(4) unfolding heap_ok_def by blast
  obtain rs1 where rs1: "Server_dispatch rs0 (lbWorld b) (route q) = Some (rs1, w, rep)"
    using dispatch_count [OF assms(5) [unfolded rs0(2)]] by blast
  show ?thesis
  proof (cases "answer unm q rep")
    case None
    then have "lab_env S route unm env (lbWorld b) w" using rs0(1) rs1 unfolding lab_env_def by blast
    moreover have "lab_abs unm b' = (lab_abs unm b)\<lparr>nServer := w\<rparr>" using None e assms(3,6) by (auto simp: lab_abs_def split: if_splits)
    ultimately show ?thesis using net_step.other [of "lab_env S route unm env" "lab_abs unm b" w] by (simp add: lab_abs_def)
  next
    case (Some r)
    then have "lab_exec S route unm (lbWorld b) q w r" using rs0(1) rs1 unfolding lab_exec_def by blast
    moreover have "lab_abs unm b' = (lab_abs unm b)\<lparr>nServer := w, nAnswered := insert (i, r) (nAnswered (lab_abs unm b))\<rparr>"
      using Some e assms(3,6) by (auto simp: lab_abs_def split: if_splits)
    ultimately show ?thesis
      using net_step.execute [of i p q "lab_abs unm b" "lab_exec S route unm" w r] assms(3) by (simp add: lab_abs_def)
  qed
qed

lemma reply_abs:
  assumes "lab_inv S route b" "lbCalls b i = Some (Some (Answering ms h rep))" "lbSent b i = Some (p, q)" "lbProcs b p = (Call q k, Some i)"
    "ClientEnd_Call_return (unm q) rep = Some res"
  shows "net_step exec env ops (lab_abs unm b) ((lab_abs unm b)\<lparr>nProcs := (lbProcs b)(p := (k res, None))\<rparr>)"
proof (cases res)
  case None
  then show ?thesis using net_step.fail [of "lab_abs unm b" p q k i exec env ops] assms(4) by (simp add: lab_abs_def)
next
  case (Some r)
  then have ok: "rpOk rep" "unm q (rpReply rep) = Some r"
    using assms(5) by (auto simp: ClientEnd_Call_return_def bind_eq_Some_conv split: if_splits)
  have "phase_ok (lbHandlers b i) (lbEch b i) (Some (Answering ms h rep))" using lab_invD(2) [OF assms(1)] assms(2) unfolding calls_ok_def by blast
  then have "(i, r) \<in> nAnswered (lab_abs unm b)" using ok assms(3) by (simp add: lab_abs_def answer_def)
  then show ?thesis using net_step.receive [of "lab_abs unm b" p q k i r exec env ops] assms(4) Some by (simp add: lab_abs_def)
qed

lemma lab_step_abs:
  assumes "lab_step S route unm env ops b b'" "lab_inv S route b"
  shows "(net_step (lab_exec S route unm) (lab_env S route unm env) ops)\<^sup>*\<^sup>* (lab_abs unm b) (lab_abs unm b')"
    (is "?R\<^sup>*\<^sup>* _ _")
  using assms(1)
proof cases
  case (send p q k)
  have "?R (lab_abs unm b) (lab_abs unm b')"
    using send_abs [OF assms(2) send(2)] sent_abs [OF lab_invD(1) [OF assms(2)]] send(1) by simp
  then show ?thesis by (rule r_into_rtranclp)
next
  case (closed p q k)
  define w where "w = (lab_abs unm b)\<lparr>nSent := insert (lbFresh b, p, q) (nSent (lab_abs unm b)),
      nProcs := (lbProcs b)(p := (Call q k, Some (lbFresh b))), nFresh := lbFresh b + 1\<rparr>"
  have s: "?R (lab_abs unm b) w" unfolding w_def by (rule send_abs [OF assms(2) closed(2)])
  have "?R w (w\<lparr>nProcs := (nProcs w)(p := (k None, None))\<rparr>)" by (rule net_step.fail [of _ _ q _ "lbFresh b"]) (simp add: w_def)
  moreover have "lab_abs unm b' = w\<lparr>nProcs := (nProcs w)(p := (k None, None))\<rparr>"
    using sent_abs [OF lab_invD(1) [OF assms(2)], where rn = "lbNet b" and cl = "lbCalls b"] closed(1) by (simp add: w_def)
  ultimately show ?thesis using converse_rtranclp_into_rtranclp [of ?R, OF s] by auto
next
  case (handle i a p q rs rs' w rep)
  then show ?thesis by (intro r_into_rtranclp handle_abs [OF assms(2) handle(2-5)]) simp
next
  case (reply i ms h rep p q k res)
  have "lab_abs unm b' = (lab_abs unm b)\<lparr>nProcs := (lbProcs b)(p := (k res, None))\<rparr>" by (simp add: reply(1) lab_abs_def)
  then show ?thesis using r_into_rtranclp [of ?R, OF reply_abs [where unm = unm, OF assms(2) reply(2-5)]] by simp
next
  case (other w)
  have "lab_env S route unm env (nServer (lab_abs unm b)) w" using other(2) by (simp add: lab_env_def lab_abs_def)
  from r_into_rtranclp [of ?R, OF net_step.other [where env = "lab_env S route unm env", OF this]] show ?thesis by (simp add: other(1) lab_abs_def)
next
  case (start p a pr)
  have "nProcs (lab_abs unm b) p = (Ret a, None)" using start(2) by (simp add: lab_abs_def)
  from r_into_rtranclp [of ?R, OF net_step.start [where ops = ops, OF this start(3)]] show ?thesis by (simp add: start(1) lab_abs_def)
qed (simp_all add: lab_abs_def)

section \<open>Every call can return\<close>

text \<open>The handlers of a request return, with a reply that its sender can decode.\<close>

definition returns :: "('w, 'v) rpc_server set \<Rightarrow> ('q \<Rightarrow> req_msg) \<Rightarrow> ('q \<Rightarrow> bytes \<Rightarrow> 'r option) \<Rightarrow> 'q \<Rightarrow> bool" where
  "returns S route unm q \<longleftrightarrow> (\<forall>rs \<in> S. \<forall>w. \<exists>rs' w' rep. Server_dispatch rs w (route q) = Some (rs', w', rep) \<and>
     (rpOk rep \<longrightarrow> unm q (rpReply rep) \<noteq> None))"

lemma returnsD:
  assumes "returns S route unm q" "rs \<in> S" "Server_dispatch rs w (route q) = Some (rs', w', rep)" "rpOk rep"
  shows "unm q (rpReply rep) \<noteq> None"
proof -
  obtain rs1 w1 rep1 where "Server_dispatch rs w (route q) = Some (rs1, w1, rep1)" "rpOk rep1 \<longrightarrow> unm q (rpReply rep1) \<noteq> None"
    using assms(1,2) unfolding returns_def by blast
  then show ?thesis using assms(3,4) by simp
qed

lemma answering_returns:
  assumes "lab_inv S route b" "returns S route unm q" "lbCalls b i = Some (Some (Answering ms h rep))" "lbProcs b p = (Call q k, Some i)"
  shows "\<exists>b' res. (lab_step S route unm env ops)\<^sup>*\<^sup>* b b' \<and> lbProcs b' p = (k res, None)"
proof -
  note I = lab_invD [OF assms(1)]
  have s: "lbSent b i = Some (p, q)" using I(6) assms(4) unfolding procs_ok_def by fastforce
  have "phase_ok (lbHandlers b i) (lbEch b i) (Some (Answering ms h rep))" using I(2) assms(3) unfolding calls_ok_def by blast
  then have "unm q (rpReply rep) \<noteq> None" if "rpOk rep"
    using that I(4) s returnsD [OF assms(2)] unfolding replies_ok_def by fastforce
  then obtain res where "ClientEnd_Call_return (unm q) rep = Some res" by (cases "rpOk rep") (auto simp: ClientEnd_Call_return_def)
  from r_into_rtranclp [of "lab_step S route unm env ops", OF lab_step.reply [where unm = unm, OF assms(3) s assms(4) this]] show ?thesis by fastforce
qed

lemma dispatched_returns:
  assumes "lab_inv S route b" "returns S route unm q" "lbCalls b i = Some (Some (Dispatching ms n a rel lr))" "lbEch b i = Some rep"
    "lbProcs b p = (Call q k, Some i)"
  shows "\<exists>b' res. (lab_step S route unm env ops)\<^sup>*\<^sup>* b b' \<and> lbProcs b' p = (k res, None)"
proof -
  let ?R = "lab_step S route unm env ops"
  have s: "lbSent b i = Some (p, q)" using lab_invD(6) [OF assms(1)] assms(5) unfolding procs_ok_def by fastforce
  define b1 where "b1 = b\<lparr>lbCalls := (lbCalls b)(i \<mapsto> Some (processReq_end (lbNet b) (route q) n a rel lr (Some rep) 0 0 0 0))\<rparr>"
  have st: "?R b b1" unfolding b1_def by (rule lab_step.returned [OF assms(3) s assms(4)])
  obtain ms' h rep' where "lbCalls b1 i = Some (Some (Answering ms' h rep'))"
    using end_phase [of "lbNet b" "route q" n a rel lr "Some rep" 0 0 0 0] by (auto simp: b1_def)
  moreover have "lbProcs b1 p = (Call q k, Some i)" using assms(5) by (simp add: b1_def)
  ultimately obtain b' res where "?R\<^sup>*\<^sup>* b1 b'" "lbProcs b' p = (k res, None)"
    using answering_returns [OF lab_step_inv [OF st assms(1)] assms(2)] by blast
  then show ?thesis using converse_rtranclp_into_rtranclp [of ?R, OF st] by blast
qed

lemma dispatching_returns:
  assumes "lab_inv S route b" "returns S route unm q" "lbCalls b i = Some (Some (Dispatching ms n a rel lr))" "lbProcs b p = (Call q k, Some i)"
  shows "\<exists>b' res. (lab_step S route unm env ops)\<^sup>*\<^sup>* b b' \<and> lbProcs b' p = (k res, None)"
proof (cases "lbEch b i")
  case (Some rep)
  then show ?thesis by (rule dispatched_returns [OF assms(1-3) _ assms(4)])
next
  case None
  let ?R = "lab_step S route unm env ops"
  note I = lab_invD [OF assms(1)]
  have s: "lbSent b i = Some (p, q)" using I(6) assms(4) unfolding procs_ok_def by fastforce
  have "phase_ok (lbHandlers b i) (lbEch b i) (Some (Dispatching ms n a rel lr))" using I(2) assms(3) unfolding calls_ok_def by blast
  then have h: "lbHandlers b i = Some a" using None by simp
  then obtain rs rs0 c where rs: "lbHeap b a = Some rs" "rs0 \<in> S" "rs = rs0\<lparr>srCount := c\<rparr>" using I(5) unfolding heap_ok_def by blast
  obtain rs1 w rep where "Server_dispatch (rs\<lparr>srCount := srCount rs0\<rparr>) (lbWorld b) (route q) = Some (rs1, w, rep)"
    using assms(2) rs(2,3) unfolding returns_def by fastforce
  from dispatch_count [OF this] obtain rs' where d: "Server_dispatch rs (lbWorld b) (route q) = Some (rs', w, rep)" by blast
  define b1 where "b1 = b\<lparr>lbHeap := (lbHeap b)(a \<mapsto> rs'), lbWorld := w, lbHandlers := (lbHandlers b)(i := None), lbEch := (lbEch b)(i \<mapsto> rep),
         lbLog := lbLog b @ [(i, a, rep)]\<rparr>"
  have st: "?R b b1" unfolding b1_def by (rule lab_step.handle [where route = route, OF h s rs(1) d])
  have "lbCalls b1 i = Some (Some (Dispatching ms n a rel lr))" "lbEch b1 i = Some rep" "lbProcs b1 p = (Call q k, Some i)"
    using assms(3,4) by (simp_all add: b1_def)
  from dispatched_returns [OF lab_step_inv [OF st assms(1)] assms(2) this]
  obtain b' res where "?R\<^sup>*\<^sup>* b1 b'" "lbProcs b' p = (k res, None)" by blast
  then show ?thesis using converse_rtranclp_into_rtranclp [of ?R, OF st] by blast
qed

lemma call_returns:
  assumes "lab_inv S route b" "returns S route unm q" "lbProcs b p = (Call q k, Some i)"
  shows "\<exists>b' res. (lab_step S route unm env ops)\<^sup>*\<^sup>* b b' \<and> lbProcs b' p = (k res, None)"
proof -
  let ?R = "lab_step S route unm env ops"
  have s: "lbSent b i = Some (p, q)" and "lbCalls b i \<noteq> None"
    using lab_invD(6) [OF assms(1)] assms(3) unfolding procs_ok_def by fastforce+
  then obtain ph where ph: "lbCalls b i = Some ph" by blast
  have go: ?thesis if iv: "lab_inv S route b1" and p1: "lbProcs b1 p = (Call q k, Some i)" and c: "lbCalls b1 i = Some (Some pr)" and r: "?R\<^sup>*\<^sup>* b b1" for b1 pr
  proof -
    have "\<exists>b' res. ?R\<^sup>*\<^sup>* b1 b' \<and> lbProcs b' p = (k res, None)"
      using answering_returns [OF iv assms(2) _ p1] dispatching_returns [OF iv assms(2) _ p1] c by (cases pr) blast+
    then show ?thesis using rtranclp_trans [OF r] by blast
  qed
  show ?thesis
  proof (cases ph)
    case None
    define pr where "pr = processReq_begin (lbNet b) (route q) 0 0"
    define b1 where "b1 = b\<lparr>lbCalls := (lbCalls b)(i \<mapsto> Some pr),
         lbHandlers := (case pr of Dispatching _ _ a _ _ \<Rightarrow> (lbHandlers b)(i \<mapsto> a) | Answering _ _ _ \<Rightarrow> lbHandlers b)\<rparr>"
    have st: "?R b b1" unfolding b1_def by (rule lab_step.begins [OF _ s]) (use ph None in \<open>simp_all add: pr_def\<close>)
    show ?thesis by (rule go [OF lab_step_inv [OF st assms(1)] _ _ r_into_rtranclp [of ?R, OF st]]) (simp_all add: b1_def assms(3))
  next
    case (Some pr)
    then show ?thesis using go [OF assms(1,3)] ph by blast
  qed
qed

section \<open>Properties\<close>

text \<open>
  C16. The simulated network is the network that the clients are verified with: whatever programs do
  over it, with any administration of the network, any losses and delays, they do over the abstract
  network, whose server executes a request as one of the made servers dispatches it.
\<close>

theorem labrpc_refines_network:
  assumes "(lab_step S route unm env ops)\<^sup>*\<^sup>* (lab_init w a) b"
  shows "(net_step (lab_exec S route unm) (lab_env S route unm env) ops)\<^sup>*\<^sup>* (net_init w a) (lab_abs unm b)"
  using assms
proof (induction rule: rtranclp_induct)
  case base
  show ?case by (simp add: lab_init_abs)
next
  case (step b b')
  have "lab_inv S route b" by (rule lab_run_inv [OF step(1) lab_init_inv])
  from rtranclp_trans [OF step(3) lab_step_abs [OF step(2) this]] show ?case .
qed

text \<open>
  C17. A call is executed at most once, and what it returns is true: a reply on its way to the sender
  is what the execution of this very request replied, the delay is below the bound, and when
  \<^verbatim>\<open>processReq\<close> lets a reply pass, the client is enabled and the server has not been deleted or replaced.
\<close>

theorem labrpc_calls_truthful:
  assumes "(lab_step S route unm env ops)\<^sup>*\<^sup>* (lab_init w a) b"
  shows "distinct (map fst (lbLog b)) \<and>
    (\<forall>i ms handled rep. lbCalls b i = Some (Some (Answering ms handled rep)) \<longrightarrow> ms < MAXDELAY \<and>
       (rpOk rep \<longrightarrow> (\<exists>server. (i, server, rep) \<in> set (lbLog b)))) \<and>
    (\<forall>rn req n server rel lr reply r1 r2 r3 r4 ms handled rep.
       processReq_end rn req n server rel lr reply r1 r2 r3 r4 = Answering ms handled rep \<longrightarrow> rpOk rep \<longrightarrow>
       reply = Some rep \<and> nwEnabled rn (rqEndname req) \<and> nwServers rn n = Some server)"
proof (intro conjI allI impI)
  note I = lab_invD [OF lab_run_inv [OF assms lab_init_inv]]
  show "distinct (map fst (lbLog b))" using I(3) by (simp add: log_ok_def)
  fix i ms handled rep
  assume "lbCalls b i = Some (Some (Answering ms handled rep))"
  then have "phase_ok (lbHandlers b i) (lbEch b i) (Some (Answering ms handled rep))" using I(2) unfolding calls_ok_def by blast
  then show "ms < MAXDELAY" "rpOk rep \<Longrightarrow> \<exists>server. (i, server, rep) \<in> set (lbLog b)" using I(3) unfolding log_ok_def by auto
qed (auto simp: processReq_end_def no_reply_def isServerDead_def split: option.splits if_splits)

text \<open>
  C40. Every call can return: from every state in which a program waits for its call, the network can
  bring the call to its end, when the handlers of the request return.
\<close>

theorem labrpc_call_returns:
  assumes "(lab_step S route unm env ops)\<^sup>*\<^sup>* (lab_init w a) b" "lbProcs b p = (Call q k, Some i)" "returns S route unm q"
  shows "\<exists>b' res. (lab_step S route unm env ops)\<^sup>*\<^sup>* b b' \<and> lbProcs b' p = (k res, None)"
  by (rule call_returns [OF lab_run_inv [OF assms(1) lab_init_inv] assms(3,2)])

section \<open>A call\<close>

text \<open>
  Steps as a function, and a run: a server that counts is made and added, a client connected to it,
  and its call is executed and on its way back.
\<close>

datatype ('q, 'r, 'p, 'a) lab_event =
    LServer nat | LAdd string nat | LEnd string | LConnect string string | LEnable string
  | LStart 'p "('q, 'r, 'a) prog" | LSend 'p | LBegin nat | LHandle nat | LReturned nat

fun lab_do :: "('w, 'v) rpc_server \<Rightarrow> ('q \<Rightarrow> req_msg) \<Rightarrow> ('w, 'v, 'q, 'r, 'p, 'a) lab \<Rightarrow> ('q, 'r, 'p, 'a) lab_event \<Rightarrow>
    ('w, 'v, 'q, 'r, 'p, 'a) lab option" where
  "lab_do rs route b (LServer a) = (case lbHeap b a of None \<Rightarrow> Some (b\<lparr>lbHeap := (lbHeap b)(a \<mapsto> rs)\<rparr>) | Some _ \<Rightarrow> None)"
| "lab_do rs route b (LAdd n a) = (case lbHeap b a of Some _ \<Rightarrow> Some (b\<lparr>lbNet := AddServer (lbNet b) n a\<rparr>) | None \<Rightarrow> None)"
| "lab_do rs route b (LEnd e) = (case MakeEnd (lbNet b) e of Some rn \<Rightarrow> Some (b\<lparr>lbNet := rn\<rparr>) | None \<Rightarrow> None)"
| "lab_do rs route b (LConnect e n) = Some (b\<lparr>lbNet := Connect (lbNet b) e n\<rparr>)"
| "lab_do rs route b (LEnable e) = Some (b\<lparr>lbNet := Enable (lbNet b) e True\<rparr>)"
| "lab_do rs route b (LStart p pr) =
     (case lbProcs b p of (Ret a, None) \<Rightarrow> Some (b\<lparr>lbProcs := (lbProcs b)(p := (pr, None))\<rparr>) | _ \<Rightarrow> None)"
| "lab_do rs route b (LSend p) =
     (case lbProcs b p of
        (Call q k, None) \<Rightarrow> Some (b\<lparr>lbNet := network_accept (lbNet b) (route q), lbSent := (lbSent b)(lbFresh b \<mapsto> (p, q)),
         lbCalls := (lbCalls b)(lbFresh b \<mapsto> None), lbProcs := (lbProcs b)(p := (Call q k, Some (lbFresh b))), lbFresh := lbFresh b + 1\<rparr>)
      | _ \<Rightarrow> None)"
| "lab_do rs route b (LBegin i) =
     (case (lbCalls b i, lbSent b i) of
        (Some None, Some (p, q)) \<Rightarrow>
          (let pr = processReq_begin (lbNet b) (route q) 0 0
           in Some (b\<lparr>lbCalls := (lbCalls b)(i \<mapsto> Some pr),
                lbHandlers := (case pr of Dispatching _ _ a _ _ \<Rightarrow> (lbHandlers b)(i \<mapsto> a) | Answering _ _ _ \<Rightarrow> lbHandlers b)\<rparr>))
      | _ \<Rightarrow> None)"
| "lab_do rs route b (LHandle i) =
     (case (lbHandlers b i, lbSent b i) of
        (Some a, Some (p, q)) \<Rightarrow>
          (case lbHeap b a of
             Some rs \<Rightarrow>
               (case Server_dispatch rs (lbWorld b) (route q) of
                  Some (rs', w, rep) \<Rightarrow> Some (b\<lparr>lbHeap := (lbHeap b)(a \<mapsto> rs'), lbWorld := w, lbHandlers := (lbHandlers b)(i := None),
                    lbEch := (lbEch b)(i \<mapsto> rep), lbLog := lbLog b @ [(i, a, rep)]\<rparr>)
                | None \<Rightarrow> None)
           | None \<Rightarrow> None)
      | _ \<Rightarrow> None)"
| "lab_do rs route b (LReturned i) =
     (case (lbCalls b i, lbSent b i, lbEch b i) of
        (Some (Some (Dispatching ms n a rel lr)), Some (p, q), Some rep) \<Rightarrow>
          Some (b\<lparr>lbCalls := (lbCalls b)(i \<mapsto> Some (processReq_end (lbNet b) (route q) n a rel lr (Some rep) 0 0 0 0))\<rparr>)
      | _ \<Rightarrow> None)"

fun lab_dos :: "('w, 'v) rpc_server \<Rightarrow> ('q \<Rightarrow> req_msg) \<Rightarrow> ('w, 'v, 'q, 'r, 'p, 'a) lab \<Rightarrow> ('q, 'r, 'p, 'a) lab_event list \<Rightarrow>
    ('w, 'v, 'q, 'r, 'p, 'a) lab option" where
  "lab_dos rs route b [] = Some b"
| "lab_dos rs route b (e # es) = (case lab_do rs route b e of Some b' \<Rightarrow> lab_dos rs route b' es | None \<Rightarrow> None)"

lemma lab_do_step:
  assumes "lab_do rs route b e = Some b'" "rs \<in> S"
  shows "lab_step S route unm env (\<lambda>_ _ _. True) b b'"
proof (cases e)
  case (LSend p)
  then obtain q k where "lbProcs b p = (Call q k, None)" using assms(1) by (auto split: prod.splits prog.splits option.splits)
  then show ?thesis using lab_step.send [of b p q k S route unm env "\<lambda>_ _ _. True"] LSend assms(1) by simp
next
  case (LBegin i)
  then obtain p q where "lbCalls b i = Some None" "lbSent b i = Some (p, q)" using assms(1) by (auto split: option.splits)
  then show ?thesis using lab_step.begins [of b i p q route 0 0 _ S unm env "\<lambda>_ _ _. True"] LBegin assms(1) by (simp add: Let_def)
qed (use assms in \<open>auto split: option.splits prod.splits prog.splits processing.splits simp del: fun_upd_apply
      intro: lab_step.new_server lab_step.add_server lab_step.admin net_admin.intros lab_step.start lab_step.handle lab_step.returned\<close>)

lemma lab_dos_steps:
  assumes "lab_dos rs route b es = Some b'" "rs \<in> S"
  shows "(lab_step S route unm env (\<lambda>_ _ _. True))\<^sup>*\<^sup>* b b'"
  using assms(1)
proof (induction es arbitrary: b)
  case (Cons e es)
  then obtain b1 where "lab_do rs route b e = Some b1" "lab_dos rs route b1 es = Some b'" by (auto split: option.splits)
  then show ?case using Cons.IH lab_do_step [OF _ assms(2)] converse_rtranclp_into_rtranclp by metis
qed simp

definition count_method :: "(nat, nat) rpc_method" where
  "count_method = \<lparr>mtName = ''Add'', mtPkgPath = [], mtNumIn = 3, mtReplyPtr = True, mtNumOut = 0, mtUnmarshall = (\<lambda>b. Some (length b)),
     mtFunc = (\<lambda>w v. Some (w + v, w)), mtEncode = (\<lambda>v. replicate v 1)\<rparr>"

definition count_server :: "(nat, nat) rpc_server" where
  "count_server = AddService MakeServer (MakeService ''Counter'' [count_method])"

definition count_route :: "nat \<Rightarrow> req_msg" where
  "count_route k = \<lparr>rqEndname = ''e'', rqSvcMeth = ''Counter.Add'', rqArgs = replicate k 1\<rparr>"

definition count_unm :: "nat \<Rightarrow> bytes \<Rightarrow> nat option" where
  "count_unm _ b = Some (length b)"

definition count_result :: "nat option \<Rightarrow> (nat, nat, nat option) prog" where
  "count_result r = Ret r"

definition counted :: "(nat, nat, nat, nat, unit, nat option) lab" where
  "counted = the (lab_dos count_server count_route (lab_init 4 (\<lambda>_. None))
     [LServer 7, LAdd ''s'' 7, LEnd ''e'', LConnect ''e'' ''s'', LEnable ''e'', LStart () (Call 2 count_result), LSend (), LBegin 0,
      LHandle 0, LReturned 0])"

abbreviation count_runs where
  "count_runs \<equiv> (lab_step {count_server} count_route count_unm (=) (\<lambda>_ _ _. True))\<^sup>*\<^sup>*"

lemma count_dispatch:
  "Server_dispatch (count_server\<lparr>srCount := c\<rparr>) w (count_route k) =
     Some (count_server\<lparr>srCount := c + 1\<rparr>, w + k, \<lparr>rpOk = True, rpReply = replicate w 1\<rparr>)"
  by (simp add: Server_dispatch_def Service_dispatch_def last_dot_def go_upto_def go_from_def count_server_def count_route_def AddService_def
      MakeServer_def MakeService_def count_method_def Let_def)

lemma counted_some:
  "lab_dos count_server count_route (lab_init 4 (\<lambda>_. None))
     [LServer 7, LAdd ''s'' 7, LEnd ''e'', LConnect ''e'' ''s'', LEnable ''e'', LStart () (Call 2 count_result), LSend (), LBegin 0,
      LHandle 0, LReturned 0] \<noteq> None"
  by code_simp

lemma counted_run: "count_runs (lab_init 4 (\<lambda>_. None)) counted"
  using counted_some lab_dos_steps [of count_server count_route _ _ _ "{count_server}" count_unm "(=)"] unfolding counted_def by fastforce

lemma counted_state:
  "lbCalls counted 0 = Some (Some (Answering 0 True \<lparr>rpOk = True, rpReply = [1, 1, 1, 1]\<rparr>))" "lbWorld counted = 6"
  "lbEch counted 0 = Some \<lparr>rpOk = True, rpReply = [1, 1, 1, 1]\<rparr>" "lbSent counted 0 = Some ((), 2)"
  "map_option (\<lambda>p. case p of Call q k \<Rightarrow> q | _ \<Rightarrow> 0) (case lbProcs counted () of (p, Some i) \<Rightarrow> Some p | _ \<Rightarrow> None) = Some 2"
  "snd (lbProcs counted ()) = Some 0"
  by code_simp+

lemma counted_call: "\<exists>k. lbProcs counted () = (Call 2 k, Some 0)"
  using counted_state(5,6) by (cases "lbProcs counted ()"; cases "fst (lbProcs counted ())") auto

lemma count_returns: "returns {count_server} count_route count_unm q"
  using count_dispatch [of "srCount count_server" _ q] by (simp add: returns_def count_unm_def)

theorem labrpc_refines_network_witness:
  "(net_step (lab_exec {count_server} count_route count_unm) (lab_env {count_server} count_route count_unm (=)) (\<lambda>_ _ _. True))\<^sup>*\<^sup>*
     (net_init 4 (\<lambda>_. None)) (lab_abs count_unm counted) \<and>
   nServer (lab_abs count_unm counted) = 6 \<and> (0, 4) \<in> nAnswered (lab_abs count_unm counted)"
proof -
  have "(0, 4) \<in> nAnswered (lab_abs count_unm counted)" using counted_state(3,4) by (simp add: lab_abs_def answer_def count_unm_def)
  moreover have "nServer (lab_abs count_unm counted) = 6" using counted_state(2) by (simp add: lab_abs_def)
  ultimately show ?thesis using labrpc_refines_network [OF counted_run] by blast
qed

theorem labrpc_calls_truthful_witness:
  "distinct (map fst (lbLog counted)) \<and> (\<exists>server. (0, server, \<lparr>rpOk = True, rpReply = [1, 1, 1, 1]\<rparr>) \<in> set (lbLog counted))"
  using labrpc_calls_truthful [OF counted_run] counted_state(1) by fastforce

theorem labrpc_call_returns_witness: "\<exists>b' pr. count_runs counted b' \<and> lbProcs b' () = (pr, None)"
proof -
  obtain k where "lbProcs counted () = (Call 2 k, Some 0)" using counted_call by blast
  from labrpc_call_returns [OF counted_run this count_returns] show ?thesis by blast
qed

end
