(* ===== verification/Spec2Isabelle.thy ===== *)
theory Spec2Isabelle
  imports Service_Linear Shardcfg Lock Migration Shardkv Mrjob Labnet
begin

text \<open>
  A verification of the programs under \<^verbatim>\<open>src/src\<close>: the Raft library (\<^verbatim>\<open>raft1\<close>), the replicated state
  machine and key/value service on top of it (\<^verbatim>\<open>kvraft1\<close>), the sharded key/value service with its
  replica groups, controller and clients (\<^verbatim>\<open>shardkv1\<close>), the single key/value server with its lock
  (\<^verbatim>\<open>kvsrv1\<close>), and MapReduce (\<^verbatim>\<open>mr\<close>).

  \<^bold>\<open>How the code is modelled.\<close> A Go struct is a record, a method a function of the record, and
  each section of code that runs under the struct's mutex one function. \<^verbatim>\<open>int\<close> is \<open>int\<close> and \<^verbatim>\<open>uint64\<close> a word
  of 64 bits. A function that can panic has an option type, and \<open>None\<close> is the panic: an index out of
  range, a failed type assertion, \<^verbatim>\<open>log.Fatal\<close>. The clock and random numbers are arguments. Encodings
  (\<^verbatim>\<open>labgob\<close>, JSON) are parameters; that decoding gives back what was encoded is a named hypothesis, and
  every theorem with such a hypothesis has an instance with a concrete encoding. Client code that
  makes remote calls is a program, a tree of calls and continuations, which is run against servers by
  a network that loses, delays and repeats calls. Loops that may run for ever have a bound on their
  turns as an argument; the theorems hold for every bound.

  \<^bold>\<open>Ground.\<close> \<open>Prelude\<close> has Go's slices and majorities, \<open>Bytes\<close> the byte encodings and the FNV hash,
  \<open>Prog\<close> programs with their network and their logic. \<open>Labrpc\<close> has the simulated network of
  \<^verbatim>\<open>labrpc/labrpc.go\<close>, and \<open>Labnet\<close> runs programs over it: its runs are runs of the network of \<open>Prog\<close>, a call
  is executed at most once and returns only the reply to itself, and every call can return.

  \<^bold>\<open>Raft\<close> (\<^verbatim>\<open>raft1/raft.go\<close>, \<^verbatim>\<open>raftapi/raftapi.go\<close>, \<^verbatim>\<open>tester1/persister.go\<close>). \<open>Raft_Types\<close> has the state of a node
  and the messages, \<open>Raft_Persist\<close> the bytes on disk, \<open>Raft_Node\<close> the critical sections. \<open>Raft_Inv\<close>,
  \<open>Raft_Sections\<close>, \<open>Raft_Leader\<close> and \<open>Raft_Events\<close> show that no section panics on a well-formed node and
  what each does; \<open>Raft_Props\<close> has the properties of one node. \<open>Raft_Spec\<close> is the protocol on the
  history of a cluster, \<open>Raft_Cluster\<close> the nodes with a network and crashes, and \<open>Raft_Cluster\<close> and
  \<open>Raft_Replic\<close> show that each section is a step of the protocol. \<open>Raft_Safety\<close> puts this together: one
  leader per term, log matching, leader completeness, state machine safety, and no panic in any run.

  \<^bold>\<open>Replicated services.\<close> \<open>Rpc\<close> has the messages and the sequential specification of \<^verbatim>\<open>models1/kv.go\<close>,
  \<open>Dedup\<close> the table that executes a retried request once (\<^verbatim>\<open>kvraft1/dedup\<close>), \<open>Rsm\<close> the replicated
  state machine (\<^verbatim>\<open>kvraft1/rsm/rsm.go\<close>) with the interface it needs of a service, \<open>Kvraft\<close> the service and
  its clerk. They refine the specification, replicas agree, and a submitter gets its own reply.
  \<open>Raft_Service\<close> puts a service together as it runs: on each server the state machine, its Raft node
  and the channel between them, with the submitters, the network and restarts. \<open>Raft_View\<close> says which log
  entries and upcalls the sections of Raft can add, \<open>Service_Inv\<close> is the invariant that relates every
  server, snapshot and message on a channel to the chosen prefix of the log, and \<open>Service_Steps\<close> shows that
  all steps keep it. \<open>Service_Linear\<close> concludes that the key/value service and a group of the sharded
  service are linearizable and do not panic; \<open>Service_Sample\<close> has a run that is computed.

  \<^bold>\<open>The single server.\<close> \<open>Calls\<close> has the remote calls, \<open>Kvsrv\<close> the server and clerk, \<open>Lock\<close> the lock:
  what a clerk returns is true of the server, and at most one client holds the lock.

  \<^bold>\<open>Sharding.\<close> \<open>Shardcfg\<close> has configurations and their balancing, \<open>Shardgrp\<close> a replica group, \<open>Grpclerk\<close> its
  clerk, \<open>Shardctrler\<close> the controller, \<open>Shardkv\<close> the client. \<open>Shardplan\<close>, \<open>Ctlworld\<close>, \<open>Ctlprog\<close> and \<open>Migration\<close>
  run any number of controllers and clients against all groups: a shard is never served by two
  groups, and its operations across all migrations are those of one unsharded server.

  \<^bold>\<open>MapReduce.\<close> \<open>Mapreduce\<close> has the coordinator, the worker and the sequential program, \<open>Mrjob\<close> a job with
  any number of workers that crash: its output is that of the sequential program.

  \<^bold>\<open>Not modelled.\<close> The test harness (\<^verbatim>\<open>tester1\<close> but for the persister, \<^verbatim>\<open>kvtest1\<close>, the \<^verbatim>\<open>test.go\<close> files), the
  daemons, proxies and commands that start the components or forward calls to them, and the plugins
  of the MapReduce tests: they are input and output, reflection and timing. \<^verbatim>\<open>labgob\<close> is the parameter that
  encodes. Timing itself is not modelled: timers may fire at any
  moment, so that safety holds for every timing, and progress is stated for runs that exist.
\<close>

end
